(* ===== verification/Wallet_Prelude.thy ===== *)
theory Wallet_Prelude
  imports Complex_Main
begin

text \<open>
  Shared vocabulary of the development: JavaScript values and numbers, strings and decimal
  digits, results of fallible operations, and the generic locale of event-driven machines whose
  invariants the component theories prove.

  Conventions. A JavaScript string is a \<^typ>\<open>string\<close> of code units below 256; case
  mapping is the ASCII one, and white space is the Latin-1 part of the white space that
  \<^verbatim>\<open>String.prototype.trim\<close> removes. A JavaScript number is a \<open>jnum\<close>: NaN, an
  infinity, or a finite value taken as the exact rational it denotes (the timestamps, counts and
  satoshi values of this program stay below 2^53, where double arithmetic is exact). A BigInt is an
  \<^typ>\<open>int\<close>.
\<close>

section \<open>Collections of hints\<close>

named_theorems js_defs \<open>unfolding rules of the JavaScript vocabulary\<close>
named_theorems dec_simps \<open>evaluation rules for digit strings\<close>

section \<open>Numbers and values\<close>

datatype jnum = NaN | PosInf | NegInf | Fin rat

datatype js =
    Undef
  | Null
  | JBool bool
  | JNum jnum
  | JBig int
  | JStr string
  | JArr "js list"
  | JObj "(string \<times> js) list"

fun is_finite :: "js \<Rightarrow> bool" where
  "is_finite (JNum (Fin r)) = True"
| "is_finite _ = False"

fun fin_val :: "js \<Rightarrow> rat" where
  "fin_val (JNum (Fin r)) = r"
| "fin_val _ = 0"

fun is_integer :: "js \<Rightarrow> bool" where
  "is_integer (JNum (Fin r)) = (of_int \<lfloor>r\<rfloor> = r)"
| "is_integer _ = False"

fun is_nullish :: "js \<Rightarrow> bool" where
  "is_nullish Undef = True"
| "is_nullish Null = True"
| "is_nullish _ = False"

fun js_get :: "js \<Rightarrow> string \<Rightarrow> js" where
  "js_get (JObj kvs) k = (case map_of kvs k of None \<Rightarrow> Undef | Some v \<Rightarrow> v)"
| "js_get _ k = Undef"

fun is_plain_object :: "js \<Rightarrow> bool" where
  "is_plain_object (JObj kvs) = True"
| "is_plain_object _ = False"

text \<open>Comparison and subtraction of numbers: NaN compares with nothing.\<close>

fun num_lt :: "jnum \<Rightarrow> jnum \<Rightarrow> bool" where
  "num_lt (Fin a) (Fin b) = (a < b)"
| "num_lt NegInf (Fin b) = True"
| "num_lt NegInf PosInf = True"
| "num_lt (Fin a) PosInf = True"
| "num_lt _ _ = False"

definition num_le :: "jnum \<Rightarrow> jnum \<Rightarrow> bool" where
  "num_le x y \<longleftrightarrow> x \<noteq> NaN \<and> y \<noteq> NaN \<and> \<not> num_lt y x"

fun num_sub :: "jnum \<Rightarrow> jnum \<Rightarrow> jnum" where
  "num_sub (Fin a) (Fin b) = Fin (a - b)"
| "num_sub NaN _ = NaN"
| "num_sub _ NaN = NaN"
| "num_sub PosInf PosInf = NaN"
| "num_sub NegInf NegInf = NaN"
| "num_sub PosInf _ = PosInf"
| "num_sub NegInf _ = NegInf"
| "num_sub (Fin a) PosInf = NegInf"
| "num_sub (Fin a) NegInf = PosInf"

lemma num_le_Fin [simp]: "num_le (Fin a) (Fin b) \<longleftrightarrow> a \<le> b"
  by (auto simp: num_le_def)

lemma is_finiteE:
  assumes "is_finite v"
  obtains r where "v = JNum (Fin r)"
  using assms by (cases v rule: is_finite.cases) auto

section \<open>Characters and strings\<close>

definition is_digit :: "char \<Rightarrow> bool" where
  "is_digit c \<longleftrightarrow> c \<in> set ''0123456789''"

definition is_lower_hex :: "char \<Rightarrow> bool" where
  "is_lower_hex c \<longleftrightarrow> c \<in> set ''0123456789abcdef''"

definition js_space :: "char \<Rightarrow> bool" where
  "js_space c \<longleftrightarrow> of_char c \<in> {9, 10, 11, 12, 13, 32, 160 :: nat}"

definition js_trim :: "string \<Rightarrow> string" where
  "js_trim s = rev (dropWhile js_space (rev (dropWhile js_space s)))"

definition up_char :: "char \<Rightarrow> char" where
  "up_char c = (let n = of_char c :: nat in if 97 \<le> n \<and> n \<le> 122 then char_of (n - 32) else c)"

definition low_char :: "char \<Rightarrow> char" where
  "low_char c = (let n = of_char c :: nat in if 65 \<le> n \<and> n \<le> 90 then char_of (n + 32) else c)"

definition js_upper :: "string \<Rightarrow> string" where
  "js_upper s = map up_char s"

definition js_lower :: "string \<Rightarrow> string" where
  "js_lower s = map low_char s"

definition pad_start :: "nat \<Rightarrow> char \<Rightarrow> string \<Rightarrow> string" where
  "pad_start n c s = replicate (n - length s) c @ s"

definition pad_end :: "nat \<Rightarrow> char \<Rightarrow> string \<Rightarrow> string" where
  "pad_end n c s = s @ replicate (n - length s) c"

definition strip_trailing_zeros :: "string \<Rightarrow> string" where
  "strip_trailing_zeros s = rev (dropWhile (\<lambda>c. c = CHR ''0'') (rev s))"

text \<open>\<^verbatim>\<open>String.prototype.startsWith\<close>.\<close>

definition starts_with :: "string \<Rightarrow> string \<Rightarrow> bool" where
  "starts_with prefix s \<longleftrightarrow> take (length prefix) s = prefix"

lemma length_pad_start [simp]: "length (pad_start n c s) = max n (length s)"
  by (simp add: pad_start_def max_def)

lemma length_pad_end [simp]: "length (pad_end n c s) = max n (length s)"
  by (simp add: pad_end_def max_def)

lemma js_trim_id: "s = [] \<or> (\<not> js_space (hd s) \<and> \<not> js_space (last s)) \<Longrightarrow> js_trim s = s"
proof (cases s rule: rev_cases)
  case (snoc t c)
  assume "s = [] \<or> (\<not> js_space (hd s) \<and> \<not> js_space (last s))"
  with snoc have "\<not> js_space (hd s)" and c: "\<not> js_space c" by auto
  then have "dropWhile js_space s = s" by (cases s) auto
  with snoc c show ?thesis by (simp add: js_trim_def)
qed (simp add: js_trim_def)

lemma js_trim_no_space: "list_all (\<lambda>c. \<not> js_space c) s \<Longrightarrow> js_trim s = s"
  by (rule js_trim_id) (auto simp: list_all_iff)

lemma js_trim_idem [simp]: "js_trim (js_trim s) = js_trim s"
proof (rule js_trim_id, rule disjCI)
  let ?t = "dropWhile js_space s"
  assume "\<not> (\<not> js_space (hd (js_trim s)) \<and> \<not> js_space (last (js_trim s)))"
  moreover have "\<not> js_space (last (js_trim s))" if "js_trim s \<noteq> []"
    using that hd_dropWhile [of js_space "rev ?t"] by (simp add: js_trim_def last_rev)
  moreover have "\<not> js_space (hd (js_trim s))" if ne: "js_trim s \<noteq> []"
  proof -
    have "?t = js_trim s @ rev (takeWhile js_space (rev ?t))"
      by (metis js_trim_def rev_append rev_rev_ident takeWhile_dropWhile_id)
    hence "hd ?t = hd (js_trim s)" using ne by (metis hd_append2)
    moreover have "?t \<noteq> []" using ne unfolding js_trim_def by (metis dropWhile.simps(1) rev.simps(1))
    ultimately show ?thesis using hd_dropWhile [of js_space s] by simp
  qed
  ultimately show "js_trim s = []" by blast
qed

lemma low_char_idem [simp]: "low_char (low_char c) = low_char c"
proof -
  have "of_char c < (256 :: nat)" by simp
  then show ?thesis by (simp add: low_char_def Let_def)
qed

lemma js_lower_idem [simp]: "js_lower (js_lower s) = js_lower s"
  by (simp add: js_lower_def)

lemma length_js_lower [simp]: "length (js_lower s) = length s"
  by (simp add: js_lower_def)

section \<open>Decimal digits\<close>

definition digit_char :: "nat \<Rightarrow> char" where
  "digit_char n = ''0123456789'' ! n"

definition digit_val :: "char \<Rightarrow> nat" where
  "digit_val c = of_char c - 48"

fun nat_text :: "nat \<Rightarrow> string" where
  "nat_text n = (if n < 10 then [digit_char n] else nat_text (n div 10) @ [digit_char (n mod 10)])"

declare nat_text.simps [simp del]

definition dec_nat :: "string \<Rightarrow> nat" where
  "dec_nat s = foldl (\<lambda>a c. a * 10 + digit_val c) 0 s"

definition int_text :: "int \<Rightarrow> string" where
  "int_text i = (if i < 0 then CHR ''-'' # nat_text (nat (- i)) else nat_text (nat i))"

lemma less_10_cases: "(n :: nat) < 10 \<Longrightarrow> n \<in> {0, 1, 2, 3, 4, 5, 6, 7, 8, 9}"
  by auto

lemma is_digit_digit_char [simp]: "n < 10 \<Longrightarrow> is_digit (digit_char n)"
  by (drule less_10_cases) (auto simp: is_digit_def digit_char_def)

lemma digit_val_digit_char [simp]: "n < 10 \<Longrightarrow> digit_val (digit_char n) = n"
  by (drule less_10_cases) (auto simp: digit_val_def digit_char_def)

lemma digit_val_zero [simp]: "digit_val CHR ''0'' = 0"
  by (simp add: digit_val_def)

lemma is_digit_zero [simp]: "is_digit CHR ''0''"
  by (simp add: is_digit_def)

lemma digit_val_less: "is_digit c \<Longrightarrow> digit_val c < 10"
  by (auto simp: is_digit_def digit_val_def)

lemma dec_nat_Nil [simp]: "dec_nat [] = 0"
  by (simp add: dec_nat_def)

lemma dec_nat_snoc: "dec_nat (s @ [c]) = dec_nat s * 10 + digit_val c"
  by (simp add: dec_nat_def)

lemma dec_nat_append: "dec_nat (s @ t) = dec_nat s * 10 ^ length t + dec_nat t"
proof (induction t rule: rev_induct)
  case Nil
  show ?case by simp
next
  case (snoc c t)
  have "dec_nat (s @ t @ [c]) = dec_nat (s @ t) * 10 + digit_val c"
    using dec_nat_snoc [of "s @ t" c] by simp
  with snoc show ?case by (simp add: dec_nat_snoc algebra_simps)
qed

lemma dec_nat_replicate_zero [simp]: "dec_nat (replicate n CHR ''0'') = 0"
  by (induction n) (simp_all add: dec_nat_append [of "[CHR ''0'']", simplified] dec_nat_def)

lemma dec_nat_zeros_append [simp]: "dec_nat (replicate n CHR ''0'' @ s) = dec_nat s"
  by (simp add: dec_nat_append)

lemma dec_nat_pad_start [simp]: "dec_nat (pad_start n CHR ''0'' s) = dec_nat s"
  by (simp add: pad_start_def)

lemma dec_nat_pad_end: "dec_nat (pad_end n CHR ''0'' s) = dec_nat s * 10 ^ (n - length s)"
  by (simp add: pad_end_def dec_nat_append)

lemma dec_nat_nat_text [simp]: "dec_nat (nat_text n) = n"
proof (induction n rule: nat_text.induct)
  case (1 n)
  show ?case
  proof (cases "n < 10")
    case True
    then show ?thesis by (subst nat_text.simps) (simp add: dec_nat_def)
  next
    case False
    then have "dec_nat (nat_text n) = dec_nat (nat_text (n div 10)) * 10 + n mod 10"
      by (subst nat_text.simps) (simp add: dec_nat_snoc)
    with False "1.IH" show ?thesis by simp
  qed
qed

lemma nat_text_digits [simp]: "list_all is_digit (nat_text n)"
proof (induction n rule: nat_text.induct)
  case (1 n)
  then show ?case by (cases "n < 10") (subst nat_text.simps, simp)+
qed

lemma nat_text_nonempty [simp]: "nat_text n \<noteq> []"
  by (subst nat_text.simps) simp

lemma nat_text_length_pos [simp]: "0 < length (nat_text n)"
  by simp

lemma nat_text_inj: "nat_text m = nat_text n \<Longrightarrow> m = n"
  by (metis dec_nat_nat_text)

lemma nat_text_length_upto: "n < 10 ^ k \<Longrightarrow> 0 < k \<Longrightarrow> length (nat_text n) \<le> k"
proof (induction n arbitrary: k rule: nat_text.induct)
  case (1 n)
  show ?case
  proof (cases "n < 10")
    case True
    with "1.prems" show ?thesis by (subst nat_text.simps) simp
  next
    case False
    obtain j where k: "k = Suc j" and "0 < j"
    proof (cases k)
      case (Suc j)
      with False "1.prems" have "0 < j" by (cases j) auto
      with Suc that show ?thesis by blast
    qed (use "1.prems" in simp)
    with "1.prems" have "n div 10 < 10 ^ j" by (simp add: less_mult_imp_div_less algebra_simps)
    with False \<open>0 < j\<close> have "length (nat_text (n div 10)) \<le> j" by (intro "1.IH") auto
    with False k show ?thesis by (subst nat_text.simps) simp
  qed
qed

lemma list_all_pad_start:
  "P c \<Longrightarrow> list_all P s \<Longrightarrow> list_all P (pad_start n c s)"
  by (auto simp: pad_start_def list_all_iff)

lemma list_all_take: "list_all P s \<Longrightarrow> list_all P (take n s)"
  by (auto simp: list_all_iff dest: in_set_takeD)

lemma list_all_drop: "list_all P s \<Longrightarrow> list_all P (drop n s)"
  by (auto simp: list_all_iff dest: in_set_dropD)

lemma list_all_strip: "list_all P s \<Longrightarrow> list_all P (strip_trailing_zeros s)"
  by (auto simp: list_all_iff strip_trailing_zeros_def dest: set_dropWhileD)

lemma filter_le_length: "(\<And>x. P x \<Longrightarrow> Q x) \<Longrightarrow> length (List.filter P xs) \<le> length (List.filter Q xs)"
  by (induction xs) (auto simp: le_SucI)

text \<open>Stripping the zero tail of a fraction divides the digits by the power of ten it drops.\<close>

lemma strip_trailing_zeros_split:
  "\<exists>n. s = strip_trailing_zeros s @ replicate n CHR ''0''"
proof -
  let ?z = "takeWhile (\<lambda>c. c = CHR ''0'') (rev s)"
  have "rev s = ?z @ dropWhile (\<lambda>c. c = CHR ''0'') (rev s)" by simp
  then have "rev (rev s) = rev (?z @ dropWhile (\<lambda>c. c = CHR ''0'') (rev s))" by (rule arg_cong)
  then have s: "s = strip_trailing_zeros s @ rev ?z"
    by (simp only: rev_append rev_rev_ident strip_trailing_zeros_def)
  have "\<forall>c \<in> set (rev ?z). c = CHR ''0''" by (auto dest: set_takeWhileD)
  then have "rev ?z = replicate (length (rev ?z)) CHR ''0''"
    by (intro replicate_length_same [symmetric]) auto
  with s show ?thesis by (intro exI [of _ "length (rev ?z)"]) metis
qed

section \<open>Conversions of the language\<close>

text \<open>
  \<^verbatim>\<open>String(v)\<close> and \<^verbatim>\<open>Number(v)\<close>. A finite number is printed by the rules of
  the language from its shortest decimal digits; a string is read as the exact decimal it spells.
\<close>

definition js_is_int :: "rat \<Rightarrow> bool" where
  "js_is_int r \<longleftrightarrow> of_int \<lfloor>r\<rfloor> = r"

fun dec_places :: "nat \<Rightarrow> rat \<Rightarrow> nat" where
  "dec_places 0 r = 0"
| "dec_places (Suc fuel) r = (if js_is_int r then 0 else Suc (dec_places fuel (r * 10)))"

definition exp_text :: "int \<Rightarrow> string" where
  "exp_text e = (if e < 0 then ''e-'' @ nat_text (nat (- e)) else ''e+'' @ nat_text (nat e))"

definition num_text :: "jnum \<Rightarrow> string" where
  "num_text x = (case x of NaN \<Rightarrow> ''NaN'' | PosInf \<Rightarrow> ''Infinity'' | NegInf \<Rightarrow> ''-Infinity''
   | Fin r \<Rightarrow>
      (if r = 0 then ''0''
       else let a = \<bar>r\<bar>; j = dec_places 400 a;
                all = nat_text (nat \<lfloor>a * 10 ^ j\<rfloor>);
                ds = strip_trailing_zeros all;
                k = int (length ds); n = int (length all) - int j;
                body = (if k \<le> n \<and> n \<le> 21 then ds @ replicate (nat (n - k)) CHR ''0''
                        else if 0 < n \<and> n \<le> 21 then take (nat n) ds @ ''.'' @ drop (nat n) ds
                        else if -6 < n \<and> n \<le> 0 then ''0.'' @ replicate (nat (- n)) CHR ''0'' @ ds
                        else if k = 1 then ds @ exp_text (n - 1)
                        else take 1 ds @ ''.'' @ drop 1 ds @ exp_text (n - 1))
            in (if r < 0 then CHR ''-'' # body else body)))"

fun js_text :: "js \<Rightarrow> string" where
  "js_text Undef = ''undefined''"
| "js_text Null = ''null''"
| "js_text (JBool b) = (if b then ''true'' else ''false'')"
| "js_text (JNum x) = num_text x"
| "js_text (JBig i) = int_text i"
| "js_text (JStr s) = s"
| "js_text (JArr vs) = (case map (\<lambda>v. if is_nullish v then [] else js_text v) vs of
     [] \<Rightarrow> [] | t # ts \<Rightarrow> t @ concat (map (\<lambda>u. CHR '','' # u) ts))"
| "js_text (JObj kvs) = ''[object Object]''"

definition split_sign :: "string \<Rightarrow> bool \<times> string" where
  "split_sign s = (case s of [] \<Rightarrow> (False, [])
     | c # r \<Rightarrow> if c = CHR ''-'' then (True, r) else if c = CHR ''+'' then (False, r) else (False, s))"

definition is_hex :: "char \<Rightarrow> bool" where
  "is_hex c \<longleftrightarrow> c \<in> set ''0123456789abcdefABCDEF''"

definition hex_val :: "char \<Rightarrow> nat" where
  "hex_val c = (let n = of_char c in if n \<le> 57 then n - 48 else if n \<le> 70 then n - 55 else n - 87)"

definition base_nat :: "nat \<Rightarrow> string \<Rightarrow> nat" where
  "base_nat b s = foldl (\<lambda>a c. a * b + hex_val c) 0 s"

definition radix_number :: "nat \<Rightarrow> string \<Rightarrow> jnum" where
  "radix_number b s = (if s \<noteq> [] \<and> list_all (\<lambda>c. is_hex c \<and> hex_val c < b) s
     then Fin (of_nat (base_nat b s)) else NaN)"

definition decimal_number :: "string \<Rightarrow> jnum" where
  "decimal_number b =
    (let ip = takeWhile is_digit b; r1 = dropWhile is_digit b;
         dot = (r1 \<noteq> [] \<and> hd r1 = CHR ''.'');
         fp = (if dot then takeWhile is_digit (tl r1) else []);
         r2 = (if dot then dropWhile is_digit (tl r1) else r1);
         v = of_nat (dec_nat (ip @ fp)) / 10 ^ length fp :: rat
     in if ip = [] \<and> fp = [] then NaN
        else (case r2 of [] \<Rightarrow> Fin v
          | c # r3 \<Rightarrow>
              (if c \<noteq> CHR ''e'' \<and> c \<noteq> CHR ''E'' then NaN
               else let (neg, eb) = split_sign r3
                    in if eb = [] \<or> \<not> list_all is_digit eb then NaN
                       else Fin (if neg then v / 10 ^ dec_nat eb else v * 10 ^ dec_nat eb))))"

definition string_number :: "string \<Rightarrow> jnum" where
  "string_number s =
    (let t = js_trim s; pre = take 2 t; rest = drop 2 t
     in if t = [] then Fin 0
        else if pre = ''0x'' \<or> pre = ''0X'' then radix_number 16 rest
        else if pre = ''0o'' \<or> pre = ''0O'' then radix_number 8 rest
        else if pre = ''0b'' \<or> pre = ''0B'' then radix_number 2 rest
        else let (neg, b) = split_sign t
             in if b = ''Infinity'' then (if neg then NegInf else PosInf)
                else (case decimal_number b of Fin v \<Rightarrow> Fin (if neg then - v else v) | x \<Rightarrow> x))"

fun js_number :: "js \<Rightarrow> jnum" where
  "js_number Undef = NaN"
| "js_number Null = Fin 0"
| "js_number (JBool b) = Fin (if b then 1 else 0)"
| "js_number (JNum x) = x"
| "js_number (JBig i) = Fin (of_int i)"
| "js_number (JStr s) = string_number s"
| "js_number v = string_number (js_text v)"

lemma num_text_nat: "n < 10 ^ 20 \<Longrightarrow> num_text (Fin (of_nat n)) = nat_text n"
proof (cases "n = 0")
  case True
  then show ?thesis by (simp add: num_text_def nat_text.simps digit_char_def)
next
  case False
  assume n: "n < 10 ^ 20"
  let ?ds = "strip_trailing_zeros (nat_text n)"
  obtain m where m: "nat_text n = ?ds @ replicate m CHR ''0''" using strip_trailing_zeros_split by blast
  have len: "length (nat_text n) \<le> 20" using n by (intro nat_text_length_upto) simp_all
  have l: "length (nat_text n) = length ?ds + m" using arg_cong [OF m, of length] by simp
  have p: "dec_places 400 (of_nat n) = 0" by (simp add: numeral_eq_Suc js_is_int_def)
  have "?ds @ replicate (nat (int (length (nat_text n)) - int (length ?ds))) CHR ''0'' = nat_text n"
    using m l by simp
  then show ?thesis using False l len by (simp add: num_text_def p Let_def)
qed

text \<open>A digit string is read as the number it spells.\<close>

lemma string_number_digits:
  assumes "s \<noteq> []" "list_all is_digit s"
  shows "string_number s = Fin (of_nat (dec_nat s))"
proof -
  have marks: "list_all (\<lambda>c. \<not> js_space c \<and> c \<notin> set ''xXoObB+-I'') ''0123456789''" by code_simp
  have plain: "\<not> js_space c \<and> c \<notin> set ''xXoObB+-I''" if "is_digit c" for c
    using that marks unfolding is_digit_def list_all_iff by blast
  have trim: "js_trim s = s" using assms(2) plain by (intro js_trim_no_space) (auto simp: list_all_iff)
  obtain c r where s: "s = c # r" using assms(1) by (cases s) auto
  have c: "c \<notin> set ''xXoObB+-I''" using assms(2) plain s by auto
  have "take 2 s \<noteq> [CHR ''0'', x]" if "x \<in> set ''xXoObB''" for x
    using that assms(2) plain s by (cases r) auto
  hence pre: "take 2 s \<notin> {''0x'', ''0X'', ''0o'', ''0O'', ''0b'', ''0B''}" by auto
  have sign: "split_sign s = (False, s)" "s \<noteq> ''Infinity''" using c s by (auto simp: split_sign_def)
  have whole: "takeWhile is_digit s = s" "dropWhile is_digit s = []"
    using assms(2) by (auto simp: list_all_iff takeWhile_eq_all_conv dropWhile_eq_Nil_conv)
  have "decimal_number s = Fin (of_nat (dec_nat s))" using assms(1) by (simp add: decimal_number_def whole)
  thus ?thesis using pre sign assms(1) by (simp add: string_number_def trim Let_def)
qed

text \<open>A defaulted argument, the \<^verbatim>\<open>??\<close> operator and truthiness.\<close>

definition js_default :: "js \<Rightarrow> js \<Rightarrow> js" where
  "js_default v d = (if v = Undef then d else v)"

definition js_coalesce :: "js \<Rightarrow> js \<Rightarrow> js" where
  "js_coalesce v d = (if is_nullish v then d else v)"

fun js_truthy :: "js \<Rightarrow> bool" where
  "js_truthy Undef = False"
| "js_truthy Null = False"
| "js_truthy (JBool b) = b"
| "js_truthy (JNum x) = (x \<noteq> NaN \<and> x \<noteq> Fin 0)"
| "js_truthy (JBig i) = (i \<noteq> 0)"
| "js_truthy (JStr s) = (s \<noteq> [])"
| "js_truthy v = True"

definition js_or :: "js \<Rightarrow> js \<Rightarrow> js" where
  "js_or v d = (if js_truthy v then v else d)"

text \<open>Object update: an existing key keeps its position, as an assignment to a property does.\<close>

fun js_put :: "js \<Rightarrow> string \<Rightarrow> js \<Rightarrow> js" where
  "js_put (JObj kvs) k v =
     JObj (if map_of kvs k = None then kvs @ [(k, v)]
           else map (\<lambda>(j, u). if j = k then (j, v) else (j, u)) kvs)"
| "js_put x k v = x"

lemma map_of_put:
  "map_of (map (\<lambda>(j, u). if j = k then (j, v) else (j, u)) kvs) i =
     (if i = k \<and> map_of kvs k \<noteq> None then Some v else map_of kvs i)"
  by (induction kvs) auto

lemma js_get_put:
  "is_plain_object x \<Longrightarrow> js_get (js_put x k v) j = (if j = k then v else js_get x j)"
  by (cases x) (auto simp: map_of_put map_add_def split: option.splits)

lemma is_plain_object_put [simp]: "is_plain_object (js_put x k v) = is_plain_object x"
  by (cases x) auto

section \<open>The value of a scaled decimal\<close>

text \<open>\<open>dec_val u k\<close> is the number a scaled integer denotes: u base units of 10^-k.\<close>

definition dec_val :: "int \<Rightarrow> nat \<Rightarrow> rat" where
  "dec_val u k = of_int u / 10 ^ k"

lemma dec_val_zero_scale [simp]: "dec_val u 0 = of_int u"
  by (simp add: dec_val_def)

lemma dec_val_rescale: "dec_val (u * 10 ^ n) (k + n) = dec_val u k"
  by (simp add: dec_val_def power_add)

lemma dec_val_rescale_to: "k \<le> m \<Longrightarrow> dec_val (u * 10 ^ (m - k)) m = dec_val u k"
  using dec_val_rescale [of u "m - k" k] by simp

lemma dec_val_add: "dec_val (u + v) k = dec_val u k + dec_val v k"
  by (simp add: dec_val_def add_divide_distrib)

lemma dec_val_diff: "dec_val (u - v) k = dec_val u k - dec_val v k"
  by (simp add: dec_val_def diff_divide_distrib)

lemma dec_val_mult: "dec_val (u * v) (j + k) = dec_val u j * dec_val v k"
  by (simp add: dec_val_def power_add)

lemma dec_val_less_iff: "dec_val u k < dec_val v k \<longleftrightarrow> u < v"
  by (simp add: dec_val_def divide_less_cancel)

lemma dec_val_eq_iff: "dec_val u k = dec_val v k \<longleftrightarrow> u = v"
  by (simp add: dec_val_def)

lemma dec_val_nonneg_iff: "0 \<le> dec_val u k \<longleftrightarrow> 0 \<le> u"
  by (simp add: dec_val_def le_divide_eq)

section \<open>Event-driven machines\<close>

text \<open>
  Several components are a state and a deterministic handler per event. \<open>run_ok\<close> says that
  every event of a trace meets its environment assumption in the state it arrives in.
\<close>

fun run_ok :: "('s \<Rightarrow> 'e \<Rightarrow> bool) \<Rightarrow> ('s \<Rightarrow> 'e \<Rightarrow> 's) \<Rightarrow> 's \<Rightarrow> 'e list \<Rightarrow> bool" where
  "run_ok ok step s [] = True"
| "run_ok ok step s (e # es) = (ok s e \<and> run_ok ok step (step s e) es)"

lemma run_ok_mono: "(\<And>s e. P s e \<Longrightarrow> Q s e) \<Longrightarrow> run_ok P step s es \<Longrightarrow> run_ok Q step s es"
  by (induction es arbitrary: s) auto

locale machine =
  fixes ok :: "'s \<Rightarrow> 'e \<Rightarrow> bool"
    and step :: "'s \<Rightarrow> 'e \<Rightarrow> 's"
    and inv :: "'s \<Rightarrow> bool"
  assumes inv_step: "inv s \<Longrightarrow> ok s e \<Longrightarrow> inv (step s e)"
begin

lemma inv_run: "inv s \<Longrightarrow> run_ok ok step s es \<Longrightarrow> inv (foldl step s es)"
  by (induction es arbitrary: s) (auto intro: inv_step)

end

text \<open>A machine with a preorder that every step follows: progress that is never undone.\<close>

locale progress_machine = machine +
  fixes le :: "'s \<Rightarrow> 's \<Rightarrow> bool"
  assumes le_refl: "le s s"
    and le_trans: "le s t \<Longrightarrow> le t u \<Longrightarrow> le s u"
    and le_step: "inv s \<Longrightarrow> ok s e \<Longrightarrow> le s (step s e)"
begin

lemma le_run: "inv s \<Longrightarrow> run_ok ok step s es \<Longrightarrow> le s (foldl step s es)"
proof (induction es arbitrary: s)
  case Nil
  show ?case by (simp add: le_refl)
next
  case (Cons e es)
  then have "le s (step s e)" and "inv (step s e)" by (auto intro: le_step inv_step)
  moreover from this(2) Cons have "le (step s e) (foldl step (step s e) es)" by simp
  ultimately show ?case by (auto intro: le_trans)
qed

end

end
