(* ===== verification/Decimal_Strings.thy ===== *)
theory Decimal_Strings
  imports Wallet_Prelude
begin

text \<open>
  Exact decimal arithmetic on money strings: the scaled-integer core of
  \<^verbatim>\<open>core/src/shared/utils/amountFormat.js\<close>, the order-form arithmetic of
  \<^verbatim>\<open>core/src/market/orderMath.js\<close>, the window store's
  \<^verbatim>\<open>addDecimalStrings\<close> (\<^verbatim>\<open>core/src/cosigner/vaultWindowStore.js\<close>) and the
  ledger's \<^verbatim>\<open>toPlainDecimal\<close> (\<^verbatim>\<open>core/src/flows/reservationLedger.js\<close>). The
  three modules each carry a parser and a printer of their own. The locale \<open>decimal_codec\<close>
  states what such a pair must satisfy and proves once that sums, differences and products
  computed on scaled integers print exactly; each module's pair is an interpretation of it.
\<close>

section \<open>Plain decimals\<close>

text \<open>The groups of \<^verbatim>\<open>/^(\d+)(?:\.(\d+))?$/\<close>; an absent second group is \<^const>\<open>None\<close>.\<close>

definition match_decimal :: "string \<Rightarrow> (string \<times> string option) option" where
  "match_decimal s =
    (let i = takeWhile is_digit s; r = dropWhile is_digit s
     in if i = [] then None
        else case r of [] \<Rightarrow> Some (i, None)
          | c # f \<Rightarrow> if c = CHR ''.'' \<and> f \<noteq> [] \<and> list_all is_digit f then Some (i, Some f) else None)"

definition opt_text :: "string option \<Rightarrow> string" where
  "opt_text x = (case x of None \<Rightarrow> [] | Some s \<Rightarrow> s)"

lemma opt_text_simps [simp]: "opt_text None = []" "opt_text (Some s) = s"
  by (simp_all add: opt_text_def)

definition join_point :: "string \<Rightarrow> string \<Rightarrow> string" where
  "join_point w f = w @ (if f = [] then [] else CHR ''.'' # f)"

lemma takeWhile_digits_append:
  "list_all is_digit w \<Longrightarrow> takeWhile is_digit (w @ CHR ''.'' # f) = w"
  by (induction w) (auto simp: is_digit_def)

lemma dropWhile_digits_append:
  "list_all is_digit w \<Longrightarrow> dropWhile is_digit (w @ CHR ''.'' # f) = CHR ''.'' # f"
  by (induction w) (auto simp: is_digit_def)

lemma takeWhile_digits_all [simp]: "list_all is_digit w \<Longrightarrow> takeWhile is_digit w = w"
  by (simp add: list_all_iff takeWhile_eq_all_conv)

lemma dropWhile_digits_all [simp]: "list_all is_digit w \<Longrightarrow> dropWhile is_digit w = []"
  by (simp add: list_all_iff dropWhile_eq_Nil_conv)

lemma match_decimal_join:
  "list_all is_digit w \<Longrightarrow> w \<noteq> [] \<Longrightarrow> list_all is_digit f
   \<Longrightarrow> match_decimal (join_point w f) = Some (w, if f = [] then None else Some f)"
  by (simp add: match_decimal_def join_point_def Let_def takeWhile_digits_append
      dropWhile_digits_append)

lemma match_decimal_Some:
  assumes "match_decimal s = Some (i, fo)"
  shows "list_all is_digit i" "i \<noteq> []" "list_all is_digit (opt_text fo)"
    "s = join_point i (opt_text fo)"
proof -
  obtain w r where wr: "takeWhile is_digit s = w" "dropWhile is_digit s = r" by blast
  then have s: "s = w @ r" by (metis takeWhile_dropWhile_id)
  have d: "list_all is_digit w"
    unfolding wr(1) [symmetric] by (auto simp: list_all_iff dest: set_takeWhileD)
  have "i = w \<and> w \<noteq> [] \<and> list_all is_digit (opt_text fo) \<and> r = (if opt_text fo = [] then [] else CHR ''.'' # opt_text fo)"
    using assms unfolding match_decimal_def Let_def wr
    by (cases r) (auto split: if_splits)
  with s d show "list_all is_digit i" "i \<noteq> []" "list_all is_digit (opt_text fo)"
    "s = join_point i (opt_text fo)"
    by (simp_all add: join_point_def)
qed

lemma not_space_digit: "is_digit c \<Longrightarrow> \<not> js_space c"
  by (auto simp: is_digit_def js_space_def)

lemma js_trim_join:
  assumes "list_all is_digit w" and "list_all is_digit f"
  shows "js_trim (join_point w f) = join_point w f"
    and "js_trim (CHR ''-'' # join_point w f) = CHR ''-'' # join_point w f"
proof -
  have "\<not> js_space CHR ''.''" "\<not> js_space CHR ''-''" by (simp_all add: js_space_def)
  moreover have "list_all (\<lambda>c. \<not> js_space c) w" "list_all (\<lambda>c. \<not> js_space c) f"
    using assms by (auto simp: list_all_iff dest: not_space_digit)
  ultimately show "js_trim (join_point w f) = join_point w f"
    and "js_trim (CHR ''-'' # join_point w f) = CHR ''-'' # join_point w f"
    by (simp_all add: join_point_def js_trim_no_space)
qed

lemma split_sign_join:
  "list_all is_digit w \<Longrightarrow> w \<noteq> [] \<Longrightarrow> split_sign (join_point w f) = (False, join_point w f)"
  by (cases w) (auto simp: split_sign_def join_point_def is_digit_def)

lemma split_sign_minus [simp]: "split_sign (CHR ''-'' # s) = (True, s)"
  by (simp add: split_sign_def)

section \<open>amountFormat.js: parsing and rendering\<close>

record scaled =
  units :: int
  scale :: nat

definition scaled_val :: "scaled \<Rightarrow> rat" where
  "scaled_val p = dec_val (units p) (scale p)"

definition parseDecimal :: "js \<Rightarrow> scaled option" where
  "parseDecimal value =
    (if is_nullish value then None
     else let (neg, body) = split_sign (js_trim (js_text value))
          in case match_decimal body of
               None \<Rightarrow> None
             | Some (i, fo) \<Rightarrow>
                 (let frac = opt_text fo; magnitude = int (dec_nat (i @ frac))
                  in Some \<lparr>units = (if neg then - magnitude else magnitude), scale = length frac\<rparr>))"

definition renderDecimal :: "int \<Rightarrow> nat \<Rightarrow> bool \<Rightarrow> string" where
  "renderDecimal u k trim =
    (let negative = u < 0;
         abs = pad_start (k + 1) CHR ''0'' (int_text (if negative then - u else u))
     in if k = 0 then (if negative then CHR ''-'' # abs else abs)
        else let whole = take (length abs - k) abs;
                 rawFraction = drop (length abs - k) abs;
                 fraction = (if trim then strip_trailing_zeros rawFraction else rawFraction);
                 body = whole @ (if fraction = [] then [] else CHR ''.'' # fraction)
             in (if negative then CHR ''-'' # body else body))"

definition rescaleDecimal :: "scaled \<Rightarrow> nat \<Rightarrow> int" where
  "rescaleDecimal p k = units p * 10 ^ (k - scale p)"

text \<open>The value a caller reads from a money argument.\<close>

definition amount_value :: "js \<Rightarrow> rat option" where
  "amount_value v = map_option scaled_val (parseDecimal v)"

definition render_parts :: "int \<Rightarrow> nat \<Rightarrow> bool \<Rightarrow> string \<times> string" where
  "render_parts u k trim =
    (let d = pad_start (k + 1) CHR ''0'' (nat_text (nat \<bar>u\<bar>)); n = length d - k; f = drop n d
     in (take n d, if trim then strip_trailing_zeros f else f))"

lemma renderDecimal_parts:
  "renderDecimal u k trim =
    (if u < 0 then [CHR ''-''] else []) @ join_point (fst (render_parts u k trim)) (snd (render_parts u k trim))"
proof -
  let ?d = "pad_start (k + 1) CHR ''0'' (nat_text (nat \<bar>u\<bar>))"
  have d: "pad_start (k + 1) CHR ''0'' (int_text (if u < 0 then - u else u)) = ?d"
    by (simp add: int_text_def abs_if)
  have z: "strip_trailing_zeros [] = []" by (simp add: strip_trailing_zeros_def)
  show ?thesis
    unfolding renderDecimal_def render_parts_def join_point_def Let_def d
    by (cases "k = 0") (simp_all add: z)
qed

lemma render_parts_digits:
  "list_all is_digit (fst (render_parts u k trim))"
  "list_all is_digit (snd (render_parts u k trim))"
  "fst (render_parts u k trim) \<noteq> []"
proof -
  let ?d = "pad_start (k + 1) CHR ''0'' (nat_text (nat \<bar>u\<bar>))"
  have d: "list_all is_digit ?d" by (simp add: list_all_pad_start)
  have "0 < length (take (length ?d - k) ?d)" by (simp add: max_def)
  then have "take (length ?d - k) ?d \<noteq> []" by (rule length_greater_0_conv [THEN iffD1])
  then show "fst (render_parts u k trim) \<noteq> []" by (simp only: render_parts_def Let_def fst_conv not_False_eq_True)
  show "list_all is_digit (fst (render_parts u k trim))"
    "list_all is_digit (snd (render_parts u k trim))"
    using d by (simp_all only: render_parts_def Let_def fst_conv snd_conv list_all_take
        list_all_drop list_all_strip if_split)
      (simp_all add: list_all_take list_all_drop list_all_strip)
qed

lemma length_strip_le: "length (strip_trailing_zeros s) \<le> length s"
  using strip_trailing_zeros_split [of s] by (metis length_append le_add1)

text \<open>Cutting digits at the point, and dropping the zero tail, keeps the value.\<close>

lemma dec_val_strip:
  "dec_val (int (dec_nat (w @ strip_trailing_zeros f))) (length (strip_trailing_zeros f))
   = dec_val (int (dec_nat (w @ f))) (length f)"
proof -
  let ?s = "strip_trailing_zeros f"
  obtain n where f: "f = ?s @ replicate n CHR ''0''"
    using strip_trailing_zeros_split by blast
  then have "length f = length ?s + n" by (metis length_append length_replicate)
  moreover have "dec_nat (w @ f) = dec_nat (w @ ?s) * 10 ^ n"
    by (subst f) (simp add: dec_nat_append algebra_simps power_add)
  ultimately show ?thesis
    using dec_val_rescale [of "int (dec_nat (w @ ?s))" n "length ?s"] by simp
qed

lemma render_parts_val:
  "dec_val (int (dec_nat (fst (render_parts u k trim) @ snd (render_parts u k trim))))
     (length (snd (render_parts u k trim))) = dec_val \<bar>u\<bar> k"
proof -
  let ?d = "pad_start (k + 1) CHR ''0'' (nat_text (nat \<bar>u\<bar>))"
  let ?n = "length ?d - k"
  have "length (drop ?n ?d) = k" by simp
  moreover have "dec_nat (take ?n ?d @ drop ?n ?d) = nat \<bar>u\<bar>"
    by (simp only: append_take_drop_id dec_nat_pad_start dec_nat_nat_text)
  ultimately have "dec_val (int (dec_nat (take ?n ?d @ drop ?n ?d))) (length (drop ?n ?d)) = dec_val \<bar>u\<bar> k"
    by simp
  then show ?thesis
    by (cases trim)
      (simp_all only: render_parts_def Let_def fst_conv snd_conv dec_val_strip if_True if_False)
qed

lemma parse_render:
  "\<exists>p. parseDecimal (JStr (renderDecimal u k trim)) = Some p \<and> scaled_val p = dec_val u k"
proof -
  note d = render_parts_digits [of u k trim]
  note v = render_parts_val [of u k trim]
  have neg: "dec_val (- m) j = - dec_val m j" for m j by (simp add: dec_val_def)
  let ?w = "fst (render_parts u k trim)" and ?f = "snd (render_parts u k trim)"
  have o: "opt_text (if ?f = [] then None else Some ?f) = ?f" by simp
  show ?thesis
  proof (cases "u < 0")
    case True
    with d have "parseDecimal (JStr (renderDecimal u k trim)) =
        Some \<lparr>units = - int (dec_nat (?w @ ?f)), scale = length ?f\<rparr>"
      by (simp add: parseDecimal_def renderDecimal_parts js_trim_join match_decimal_join Let_def)
    with True v neg show ?thesis by (simp add: scaled_val_def)
  next
    case False
    with d have "parseDecimal (JStr (renderDecimal u k trim)) =
        Some \<lparr>units = int (dec_nat (?w @ ?f)), scale = length ?f\<rparr>"
      by (simp add: parseDecimal_def renderDecimal_parts js_trim_join split_sign_join
          match_decimal_join Let_def)
    with False v show ?thesis by (simp add: scaled_val_def)
  qed
qed

section \<open>amountFormat.js: the operations\<close>

definition compareDecimalStrings :: "js \<Rightarrow> js \<Rightarrow> int option" where
  "compareDecimalStrings a b =
    (case (parseDecimal a, parseDecimal b) of
       (Some l, Some r) \<Rightarrow>
         (let k = max (scale l) (scale r); lu = rescaleDecimal l k; ru = rescaleDecimal r k
          in if lu = ru then Some 0 else if lu < ru then Some (-1) else Some 1)
     | _ \<Rightarrow> None)"

definition multiplyDecimalStrings :: "js \<Rightarrow> js \<Rightarrow> string option" where
  "multiplyDecimalStrings a b =
    (case (parseDecimal a, parseDecimal b) of
       (Some l, Some r) \<Rightarrow> Some (renderDecimal (units l * units r) (scale l + scale r) True)
     | _ \<Rightarrow> None)"

definition subtractDecimalStrings :: "js \<Rightarrow> js \<Rightarrow> string option" where
  "subtractDecimalStrings a b =
    (case (parseDecimal a, parseDecimal b) of
       (Some l, Some r) \<Rightarrow>
         (let k = max (scale l) (scale r)
          in Some (renderDecimal (rescaleDecimal l k - rescaleDecimal r k) k True))
     | _ \<Rightarrow> None)"

text \<open>
  A precision argument: \<^verbatim>\<open>Number.isInteger(p) && p >= 0 && p <= 100\<close>, the upper
  bound where the code has one.
\<close>

definition precision_ok :: "js \<Rightarrow> bool" where
  "precision_ok p \<longleftrightarrow> is_integer p \<and> 0 \<le> fin_val p"

definition precision_of :: "js \<Rightarrow> nat" where
  "precision_of p = nat \<lfloor>fin_val p\<rfloor>"

definition divideDecimalStrings :: "js \<Rightarrow> js \<Rightarrow> js \<Rightarrow> string option" where
  "divideDecimalStrings a b precisionArg =
    (let precision = js_default precisionArg (JNum (Fin 8))
     in case (parseDecimal a, parseDecimal b) of
       (Some n, Some d) \<Rightarrow>
         (if units d = 0 then None
          else if \<not> precision_ok precision \<or> 100 < fin_val precision then None
          else let p = precision_of precision;
                   negative = ((units n < 0) \<noteq> (units d < 0));
                   left = \<bar>units n\<bar> * 10 ^ (scale d + p);
                   right = \<bar>units d\<bar> * 10 ^ scale n;
                   q0 = left div right; remainder = left mod right;
                   quotient = (if right \<le> remainder * 2 then q0 + 1 else q0)
               in Some (renderDecimal (if negative then - quotient else quotient) p True))
     | _ \<Rightarrow> None)"

definition decimalQuotientFloor :: "js \<Rightarrow> js \<Rightarrow> string option" where
  "decimalQuotientFloor a b =
    (case (parseDecimal a, parseDecimal b) of
       (Some n, Some d) \<Rightarrow>
         (if units n < 0 \<or> units d \<le> 0 then None
          else Some (int_text ((units n * 10 ^ scale d) div (units d * 10 ^ scale n))))
     | _ \<Rightarrow> None)"

text \<open>\<^verbatim>\<open>Number(decimals)\<close>, as the base-unit conversions read their scale argument.\<close>

definition decimals_arg :: "js \<Rightarrow> js" where
  "decimals_arg d = JNum (js_number (js_default d (JNum (Fin 8))))"

definition decimalToBaseUnits :: "js \<Rightarrow> js \<Rightarrow> int option" where
  "decimalToBaseUnits value decimals =
    (let sc = decimals_arg decimals
     in case parseDecimal value of None \<Rightarrow> None
      | Some parsed \<Rightarrow>
         (if units parsed < 0 \<or> \<not> precision_ok sc \<or> 100 < fin_val sc then None
          else let k = precision_of sc
               in if k < scale parsed
                  then let divisor = 10 ^ (scale parsed - k)
                       in if units parsed mod divisor = 0 then Some (units parsed div divisor) else None
                  else Some (units parsed * 10 ^ (k - scale parsed))))"

definition decimalToBaseUnitsRounded :: "js \<Rightarrow> js \<Rightarrow> string \<Rightarrow> int option" where
  "decimalToBaseUnitsRounded value decimals direction =
    (let sc = JNum (js_number decimals)
     in case parseDecimal value of None \<Rightarrow> None
      | Some parsed \<Rightarrow>
         (if units parsed < 0 \<or> \<not> precision_ok sc \<or> 100 < fin_val sc then None
          else if direction \<noteq> ''down'' \<and> direction \<noteq> ''up'' then None
          else let k = precision_of sc
               in if scale parsed \<le> k then Some (units parsed * 10 ^ (k - scale parsed))
                  else let divisor = 10 ^ (scale parsed - k); whole = units parsed div divisor
                       in if direction = ''up'' \<and> units parsed mod divisor \<noteq> 0
                          then Some (whole + 1) else Some whole))"

definition decimalFromBaseUnits :: "int \<Rightarrow> js \<Rightarrow> string option" where
  "decimalFromBaseUnits value decimals =
    (let sc = decimals_arg decimals
     in if \<not> precision_ok sc then None else Some (renderDecimal value (precision_of sc) True))"

definition roundDecimalString :: "js \<Rightarrow> js \<Rightarrow> string option" where
  "roundDecimalString value precisionArg =
    (let precision = js_default precisionArg (JNum (Fin 2))
     in case parseDecimal value of None \<Rightarrow> None
      | Some parsed \<Rightarrow>
         (if \<not> precision_ok precision then None
          else let p = precision_of precision
               in if scale parsed \<le> p
                  then Some (renderDecimal (units parsed * 10 ^ (p - scale parsed)) p False)
                  else let magnitude = \<bar>units parsed\<bar>; divisor = 10 ^ (scale parsed - p);
                           r0 = magnitude div divisor;
                           rounded = (if divisor \<le> (magnitude mod divisor) * 2 then r0 + 1 else r0)
                       in Some (renderDecimal (if units parsed < 0 then - rounded else rounded) p False)))"

datatype entry_problem = EntryEmpty | EntryShape | EntryZero

definition nonzero_digit :: "char \<Rightarrow> bool" where
  "nonzero_digit c \<longleftrightarrow> c \<in> set ''123456789''"

definition amountEntryProblem :: "js \<Rightarrow> entry_problem option" where
  "amountEntryProblem value =
    (let text = js_trim (js_text (js_coalesce value (JStr [])))
     in if text = [] then Some EntryEmpty
        else if match_decimal text = None then Some EntryShape
        else if \<not> list_ex nonzero_digit text then Some EntryZero
        else None)"

text \<open>
  The running parse of \<^verbatim>\<open>sumDecimalStrings\<close>: an entry that is null or not a plain signed
  decimal is skipped. An entry keeps its sign and its two digit groups.
\<close>

definition sum_entry :: "js \<Rightarrow> (bool \<times> string \<times> string) option" where
  "sum_entry v =
    (if is_nullish v then None
     else let s = js_trim (js_text v);
              negative = (s \<noteq> [] \<and> hd s = CHR ''-'');
              abs = (if negative then tl s else s)
          in case match_decimal abs of None \<Rightarrow> None
             | Some (i, fo) \<Rightarrow> Some (negative, i, opt_text fo))"

definition sumDecimalStrings :: "js list \<Rightarrow> string" where
  "sumDecimalStrings values =
    (let parsed = List.map_filter sum_entry values;
         k = foldl (\<lambda>m (neg, i, f). if m < length f then length f else m) 0 parsed
     in if parsed = [] then ''0''
        else let total = foldl (\<lambda>t (neg, i, f).
                   let scaled = int (dec_nat (i @ pad_end k CHR ''0'' f))
                   in t + (if neg then - scaled else scaled)) 0 parsed
             in if k = 0 then int_text total
                else let negative = total < 0;
                         digits = pad_start (k + 1) CHR ''0'' (int_text (if negative then - total else total));
                         w = take (length digits - k) digits; f = drop (length digits - k) digits
                     in (if negative then [CHR ''-''] else []) @ w @ CHR ''.'' # f)"

definition trimAmountTail :: "js \<Rightarrow> string" where
  "trimAmountTail value =
    (if is_nullish value \<or> (\<exists>x \<in> {NaN, PosInf, NegInf}. value = JNum x) then []
     else let s = js_text value;
              neg = (s \<noteq> [] \<and> hd s = CHR ''-'');
              abs = (if neg then tl s else s)
          in case match_decimal abs of
               Some (i, Some f) \<Rightarrow>
                 (let t = strip_trailing_zeros s;
                      trimmed = (if last t = CHR ''.'' then butlast t else t)
                  in if trimmed = ''-0'' then ''0'' else trimmed)
             | _ \<Rightarrow> s)"

section \<open>vaultWindowStore.js: scaled integers of the spending window\<close>

text \<open>
  \<^verbatim>\<open>toScaled\<close> accepts a signed \<^verbatim>\<open>\d*(\.\d*)?\<close>, so a missing integer or
  fraction part is allowed and a lone point is not; \<^const>\<open>None\<close> is its throw.
\<close>

definition drop_leading_zeros :: "string \<Rightarrow> string" where
  "drop_leading_zeros s =
    (let r = dropWhile (\<lambda>c. c = CHR ''0'') s in if r = [] \<and> s \<noteq> [] then ''0'' else r)"

definition toScaled :: "js \<Rightarrow> (int \<times> nat) option" where
  "toScaled s =
    (let (neg, str) = split_sign (js_trim (js_text s));
         intPart = takeWhile (\<lambda>c. c \<noteq> CHR ''.'') str;
         rest = dropWhile (\<lambda>c. c \<noteq> CHR ''.'') str;
         fracPart = drop 1 rest
     in if str = [] \<or> str = ''.'' \<or> \<not> list_all is_digit intPart \<or> \<not> list_all is_digit fracPart
        then None
        else let ds = drop_leading_zeros (intPart @ fracPart);
                 digits = (if ds = [] then ''0'' else ds)
             in Some ((if neg then - int (dec_nat digits) else int (dec_nat digits)), length fracPart))"

definition fromScaled :: "int \<Rightarrow> nat \<Rightarrow> string" where
  "fromScaled value k =
    (let neg = value < 0;
         str0 = int_text (if neg then - value else value)
     in if k = 0 then (if neg then CHR ''-'' # str0 else str0)
        else let str = (if length str0 \<le> k then replicate (k - length str0 + 1) CHR ''0'' @ str0 else str0);
                 intP = take (length str - k) str;
                 fracP = strip_trailing_zeros (drop (length str - k) str)
             in (if neg then [CHR ''-''] else []) @ intP @ (if fracP = [] then [] else CHR ''.'' # fracP))"

definition addDecimalStrings :: "js \<Rightarrow> js \<Rightarrow> string option" where
  "addDecimalStrings a b =
    (case (toScaled a, toScaled b) of
       (Some (av0, ak), Some (bv0, bk)) \<Rightarrow>
         (let k = max ak bk; av = av0 * 10 ^ (k - ak); bv = bv0 * 10 ^ (k - bk)
          in Some (fromScaled (av + bv) k))
     | _ \<Rightarrow> None)"

section \<open>orderMath.js: exact order totals\<close>

text \<open>
  The order forms parse unsigned decimals only: \<^verbatim>\<open>/^\d*\.?\d*$/\<close>, neither empty nor a lone
  point, and any BigInt. \<open>big_of\<close> is \<^verbatim>\<open>BigInt(s)\<close> on the digit strings this gives.
\<close>

definition big_of :: "string \<Rightarrow> int" where
  "big_of s = (case split_sign s of (neg, r) \<Rightarrow> if neg then - int (dec_nat r) else int (dec_nat r))"

definition order_parseDecimal :: "js \<Rightarrow> (string \<times> string) option" where
  "order_parseDecimal v =
    (case v of JBig i \<Rightarrow> Some (int_text i, [])
     | _ \<Rightarrow>
       (let s = js_trim (js_text (js_coalesce v (JStr [])));
            i = takeWhile (\<lambda>c. c \<noteq> CHR ''.'') s;
            f = drop 1 (dropWhile (\<lambda>c. c \<noteq> CHR ''.'') s)
        in if \<not> list_all is_digit i \<or> \<not> list_all is_digit f \<or> s = [] \<or> s = ''.'' then None
           else Some (i, f)))"

definition digits_or_zero :: "string \<Rightarrow> string" where
  "digits_or_zero s = (let r = drop_leading_zeros s in if r = [] then ''0'' else r)"

definition place_digits :: "string \<Rightarrow> nat \<Rightarrow> string" where
  "place_digits digits0 k =
    (if k = 0 then digits0
     else let digits = (if length digits0 \<le> k then replicate (k - length digits0 + 1) CHR ''0'' @ digits0
                        else digits0);
              cut = length digits - k;
              intPart = take cut digits;
              fracPart = strip_trailing_zeros (drop cut digits)
          in if fracPart = [] then intPart else intPart @ CHR ''.'' # fracPart)"

definition multiplyAmounts :: "js \<Rightarrow> js \<Rightarrow> string option" where
  "multiplyAmounts a b =
    (case (order_parseDecimal a, order_parseDecimal b) of
       (Some (ai, af), Some (bi, bf)) \<Rightarrow>
         (let product = big_of (digits_or_zero (ai @ af)) * big_of (digits_or_zero (bi @ bf))
          in if product = 0 then None
             else Some (place_digits (int_text product) (length af + length bf)))
     | _ \<Rightarrow> None)"

definition order_scaled :: "nat \<Rightarrow> string \<times> string \<Rightarrow> int" where
  "order_scaled k p = big_of ((if fst p = [] then ''0'' else fst p) @ pad_end k CHR ''0'' (snd p))"

definition compareAmounts :: "js \<Rightarrow> js \<Rightarrow> int option" where
  "compareAmounts a b =
    (case (order_parseDecimal a, order_parseDecimal b) of
       (Some pa, Some pb) \<Rightarrow>
         (let k = max (length (snd pa)) (length (snd pb)); l = order_scaled k pa; r = order_scaled k pb
          in if l = r then Some 0 else if l < r then Some (-1) else Some 1)
     | _ \<Rightarrow> None)"

definition order_scaled_trim :: "nat \<Rightarrow> string \<times> string \<Rightarrow> int" where
  "order_scaled_trim k p =
     big_of (digits_or_zero ((if fst p = [] then ''0'' else fst p) @ pad_end k CHR ''0'' (snd p)))"

definition subtractAmounts :: "js \<Rightarrow> js \<Rightarrow> string option" where
  "subtractAmounts a b =
    (case (order_parseDecimal a, order_parseDecimal b) of
       (Some pa, Some pb) \<Rightarrow>
         (let k = max (length (snd pa)) (length (snd pb));
              diff = order_scaled_trim k pa - order_scaled_trim k pb
          in if diff \<le> 0 then None else Some (place_digits (int_text diff) k))
     | _ \<Rightarrow> None)"

section \<open>reservationLedger.js: plain form of a reserved amount\<close>

text \<open>
  The scientific form \<^verbatim>\<open>/^(\d+)(?:\.(\d+))?[eE]([+-]?\d+)$/\<close>: digits, fraction digits and
  the exponent.
\<close>

definition match_scientific :: "string \<Rightarrow> (string \<times> string \<times> int) option" where
  "match_scientific s =
    (let m = takeWhile (\<lambda>c. c \<noteq> CHR ''e'' \<and> c \<noteq> CHR ''E'') s;
         r = drop (length m) s;
         (neg, eb) = split_sign (tl r)
     in case match_decimal m of None \<Rightarrow> None
        | Some (i, fo) \<Rightarrow>
            (if r = [] \<or> eb = [] \<or> \<not> list_all is_digit eb then None
             else Some (i, opt_text fo, if neg then - int (dec_nat eb) else int (dec_nat eb))))"

definition toPlainDecimal :: "js \<Rightarrow> string option" where
  "toPlainDecimal raw =
    (let s = js_trim (js_text raw)
     in if match_decimal s \<noteq> None then Some s
        else case match_scientific s of None \<Rightarrow> None
          | Some (i, fr, e) \<Rightarrow>
              (let digits = i @ fr; point = int (length i) + e
               in if point \<le> 0 then Some (''0.'' @ replicate (nat (- point)) CHR ''0'' @ digits)
                  else if int (length digits) \<le> point
                       then Some (digits @ replicate (nat point - length digits) CHR ''0'')
                  else Some (take (nat point) digits @ CHR ''.'' # drop (nat point) digits)))"

section \<open>The codec contract\<close>

text \<open>
  A parser of decimal strings into scaled integers and a printer of scaled integers, such that a
  printed value reads back as the same number (its scale may shrink, since zeros are dropped).
  \<open>ok\<close> is the printer's domain: the order forms print unsigned values only.
\<close>

definition pair_val :: "int \<times> nat \<Rightarrow> rat" where
  "pair_val p = dec_val (fst p) (snd p)"

lemma pair_val_simp [simp]: "pair_val (u, k) = dec_val u k"
  by (simp add: pair_val_def)

locale decimal_codec =
  fixes parse :: "string \<Rightarrow> (int \<times> nat) option"
    and render :: "int \<Rightarrow> nat \<Rightarrow> string"
    and ok :: "int \<Rightarrow> bool"
  assumes parse_render: "ok u \<Longrightarrow> map_option pair_val (parse (render u k)) = Some (dec_val u k)"
begin

lemma sum_exact:
  assumes "ok (u * 10 ^ (max j k - j) + v * 10 ^ (max j k - k))"
  shows "map_option pair_val (parse (render (u * 10 ^ (max j k - j) + v * 10 ^ (max j k - k)) (max j k)))
         = Some (dec_val u j + dec_val v k)"
  by (simp only: parse_render [OF assms] dec_val_add dec_val_rescale_to max.cobounded1 max.cobounded2)

lemma diff_exact:
  assumes "ok (u * 10 ^ (max j k - j) - v * 10 ^ (max j k - k))"
  shows "map_option pair_val (parse (render (u * 10 ^ (max j k - j) - v * 10 ^ (max j k - k)) (max j k)))
         = Some (dec_val u j - dec_val v k)"
  by (simp only: parse_render [OF assms] dec_val_diff dec_val_rescale_to max.cobounded1 max.cobounded2)

lemma prod_exact:
  assumes "ok (u * v)"
  shows "map_option pair_val (parse (render (u * v) (j + k))) = Some (dec_val u j * dec_val v k)"
  by (simp only: parse_render [OF assms] dec_val_mult)

lemma parse_total: "ok u \<Longrightarrow> parse (render u k) \<noteq> None"
  using parse_render by fastforce

end

text \<open>Comparison of two scaled integers at their common scale.\<close>

lemma common_scale_less:
  "u * 10 ^ (max j k - j) < v * 10 ^ (max j k - k) \<longleftrightarrow> dec_val u j < dec_val v k"
  using dec_val_less_iff [of "u * 10 ^ (max j k - j)" "max j k" "v * 10 ^ (max j k - k)"]
  by (simp add: dec_val_rescale_to)

lemma common_scale_eq:
  "u * 10 ^ (max j k - j) = v * 10 ^ (max j k - k) \<longleftrightarrow> dec_val u j = dec_val v k"
  using dec_val_eq_iff [of "u * 10 ^ (max j k - j)" "max j k" "v * 10 ^ (max j k - k)"]
  by (simp add: dec_val_rescale_to)

subsection \<open>The three codecs\<close>

lemma dec_nat_drop_zeros [simp]: "dec_nat (drop_leading_zeros s) = dec_nat s"
proof -
  let ?z = "takeWhile (\<lambda>c. c = CHR ''0'') s" and ?r = "dropWhile (\<lambda>c. c = CHR ''0'') s"
  have "?z = replicate (length ?z) CHR ''0''"
    by (intro replicate_length_same [symmetric]) (auto dest: set_takeWhileD)
  then have "dec_nat (?z @ ?r) = dec_nat ?r" by (metis dec_nat_zeros_append)
  then have "dec_nat s = dec_nat ?r" by simp
  moreover have "dec_nat ''0'' = 0" by (simp add: dec_nat_def)
  moreover have "drop_leading_zeros s = (if ?r = [] \<and> s \<noteq> [] then ''0'' else ?r)"
    by (simp only: drop_leading_zeros_def Let_def)
  ultimately show ?thesis by (metis dec_nat_Nil)
qed

lemma dec_nat_digits_or_zero [simp]: "dec_nat (digits_or_zero s) = dec_nat s"
proof -
  have "dec_nat ''0'' = 0" by (simp add: dec_nat_def)
  moreover have "drop_leading_zeros s = [] \<Longrightarrow> dec_nat s = 0"
    by (metis dec_nat_Nil dec_nat_drop_zeros)
  ultimately show ?thesis by (simp add: digits_or_zero_def Let_def)
qed

lemma before_point:
  assumes "list_all is_digit w"
  shows "takeWhile (\<lambda>c. c \<noteq> CHR ''.'') (join_point w f) = w"
    and "drop 1 (dropWhile (\<lambda>c. c \<noteq> CHR ''.'') (join_point w f)) = f"
proof -
  have "\<not> is_digit CHR ''.''" by (simp add: is_digit_def)
  then have "\<forall>c \<in> set w. c \<noteq> CHR ''.''" using assms by (auto simp: list_all_iff)
  then show "takeWhile (\<lambda>c. c \<noteq> CHR ''.'') (join_point w f) = w"
    and "drop 1 (dropWhile (\<lambda>c. c \<noteq> CHR ''.'') (join_point w f)) = f"
    by (auto simp: join_point_def)
qed

lemma join_point_nontrivial:
  "list_all is_digit w \<Longrightarrow> w \<noteq> [] \<Longrightarrow> join_point w f \<noteq> [] \<and> join_point w f \<noteq> ''.''"
  by (cases w) (auto simp: join_point_def is_digit_def)

lemma fromScaled_render: "fromScaled u k = renderDecimal u k True"
proof -
  have P: "(if length s \<le> k then replicate (k - length s + 1) CHR ''0'' @ s else s)
      = pad_start (k + 1) CHR ''0'' s" for s :: string
    by (auto simp: pad_start_def Suc_diff_le)
  have "pad_start (0 + 1) CHR ''0'' (int_text i) = int_text i" if "0 \<le> i" for i
    using that by (simp add: pad_start_def int_text_def Suc_le_eq)
  then show ?thesis
    unfolding fromScaled_def renderDecimal_def Let_def P
    by (cases "k = 0"; cases "u < 0") simp_all
qed

lemma place_digits_render: "0 \<le> u \<Longrightarrow> place_digits (int_text u) k = renderDecimal u k True"
proof -
  assume u: "0 \<le> u"
  have "place_digits (int_text u) k = fromScaled u k"
    using u unfolding place_digits_def fromScaled_def Let_def by simp
  then show ?thesis by (simp add: fromScaled_render)
qed

lemma toScaled_join:
  assumes "list_all is_digit w" "w \<noteq> []" "list_all is_digit f"
  shows "toScaled (JStr (join_point w f)) = Some (int (dec_nat (w @ f)), length f)"
    and "toScaled (JStr (CHR ''-'' # join_point w f)) = Some (- int (dec_nat (w @ f)), length f)"
proof -
  have "dec_nat (if drop_leading_zeros (w @ f) = [] then ''0'' else drop_leading_zeros (w @ f)) = dec_nat (w @ f)"
    using dec_nat_digits_or_zero [of "w @ f"] by (simp only: digits_or_zero_def Let_def)
  then show "toScaled (JStr (join_point w f)) = Some (int (dec_nat (w @ f)), length f)"
    and "toScaled (JStr (CHR ''-'' # join_point w f)) = Some (- int (dec_nat (w @ f)), length f)"
    using assms by (simp_all only: toScaled_def js_text.simps js_trim_join split_sign_join
        split_sign_minus Let_def case_prod_conv before_point join_point_nontrivial simp_thms if_False if_True)
qed

lemma order_parse_join:
  assumes "list_all is_digit w" "w \<noteq> []" "list_all is_digit f"
  shows "order_parseDecimal (JStr (join_point w f)) = Some (w, f)"
  using assms join_point_nontrivial [OF assms(1,2), of f] before_point [OF assms(1), of f]
  by (simp add: order_parseDecimal_def js_coalesce_def js_trim_join Let_def del: One_nat_def)

lemma rendered_cases:
  obtains w f where "list_all is_digit w" "w \<noteq> []" "list_all is_digit f"
    and "renderDecimal u k t = (if u < 0 then [CHR ''-''] else []) @ join_point w f"
    and "dec_val (int (dec_nat (w @ f))) (length f) = dec_val \<bar>u\<bar> k"
  using renderDecimal_parts [of u k t] render_parts_digits [of u k t] render_parts_val [of u k t] that
  by blast

definition amount_parse :: "string \<Rightarrow> (int \<times> nat) option" where
  "amount_parse s = map_option (\<lambda>p. (units p, scale p)) (parseDecimal (JStr s))"

definition order_parse :: "string \<Rightarrow> (int \<times> nat) option" where
  "order_parse s = map_option (\<lambda>(i, f). (big_of (i @ f), length f)) (order_parseDecimal (JStr s))"

definition order_render :: "int \<Rightarrow> nat \<Rightarrow> string" where
  "order_render u k = place_digits (int_text u) k"

lemma dec_val_uminus: "dec_val (- u) k = - dec_val u k"
  by (simp add: dec_val_def)

interpretation amount: decimal_codec amount_parse "\<lambda>u k. renderDecimal u k True" "\<lambda>u. True"
proof unfold_locales
  fix u :: int and k :: nat
  show "map_option pair_val (amount_parse (renderDecimal u k True)) = Some (dec_val u k)"
    using parse_render [of u k True]
    by (auto simp: amount_parse_def scaled_val_def option.map_comp comp_def)
qed

interpretation window: decimal_codec "\<lambda>s. toScaled (JStr s)" fromScaled "\<lambda>u. True"
proof unfold_locales
  fix u :: int and k :: nat
  obtain w f where d: "list_all is_digit w" "w \<noteq> []" "list_all is_digit f"
    and r: "renderDecimal u k True = (if u < 0 then [CHR ''-''] else []) @ join_point w f"
    and v: "dec_val (int (dec_nat (w @ f))) (length f) = dec_val \<bar>u\<bar> k"
    by (rule rendered_cases)
  have "toScaled (JStr (renderDecimal u k True)) =
      Some ((if u < 0 then - int (dec_nat (w @ f)) else int (dec_nat (w @ f))), length f)"
    using d by (cases "u < 0") (simp_all add: r toScaled_join)
  with v show "map_option pair_val (toScaled (JStr (fromScaled u k))) = Some (dec_val u k)"
    by (simp add: fromScaled_render dec_val_uminus abs_if split: if_splits)
qed

lemma big_of_digits: "list_all is_digit s \<Longrightarrow> big_of s = int (dec_nat s)"
  by (cases s) (auto simp: big_of_def split_sign_def is_digit_def)

interpretation order: decimal_codec order_parse order_render "\<lambda>u. 0 \<le> u"
proof unfold_locales
  fix u :: int and k :: nat
  assume u: "0 \<le> u"
  obtain w f where d: "list_all is_digit w" "w \<noteq> []" "list_all is_digit f"
    and r: "renderDecimal u k True = (if u < 0 then [CHR ''-''] else []) @ join_point w f"
    and v: "dec_val (int (dec_nat (w @ f))) (length f) = dec_val \<bar>u\<bar> k"
    by (rule rendered_cases)
  have "order_render u k = join_point w f"
    using u r by (simp add: order_render_def place_digits_render)
  with d have "order_parse (order_render u k) = Some (int (dec_nat (w @ f)), length f)"
    by (simp add: order_parse_def order_parse_join big_of_digits)
  with u v show "map_option pair_val (order_parse (order_render u k)) = Some (dec_val u k)" by simp
qed

section \<open>Exactness of the operations\<close>

lemma amount_value_text: "amount_value (JStr s) = map_option pair_val (amount_parse s)"
  by (cases "parseDecimal (JStr s)") (simp_all add: amount_value_def amount_parse_def scaled_val_def)

lemmas amount_eval = amount_value_def parseDecimal_def js_trim_def js_space_def split_sign_def
  match_decimal_def is_digit_def scaled_val_def dec_val_def dec_nat_def digit_val_def Let_def

lemma amount_valueE:
  assumes "amount_value v = Some x"
  obtains p where "parseDecimal v = Some p" and "x = dec_val (units p) (scale p)"
  using assms by (auto simp: amount_value_def scaled_val_def)

lemma amount_value_render [simp]: "amount_value (JStr (renderDecimal u k True)) = Some (dec_val u k)"
  using amount.parse_render [of u k] by (simp add: amount_value_text)

lemma amount_value_render_full [simp]: "amount_value (JStr (renderDecimal u k False)) = Some (dec_val u k)"
  using parse_render [of u k False] by (auto simp: amount_value_def)

text \<open>
  Exact comparison: two amounts compare as the numbers they spell, at any number of
  digits, and an unreadable operand gives no verdict.
\<close>

lemma compareDecimalStrings_exact:
  "compareDecimalStrings a b =
    (case (amount_value a, amount_value b) of
       (Some x, Some y) \<Rightarrow> Some (if x = y then 0 else if x < y then -1 else 1)
     | _ \<Rightarrow> None)"
  by (auto simp: compareDecimalStrings_def amount_value_def scaled_val_def rescaleDecimal_def Let_def
      common_scale_less common_scale_eq split: option.splits)

text \<open>The numbers the printed result of an operation spells; the inner option is the reader's.\<close>

definition result_value :: "string option \<Rightarrow> rat option option" where
  "result_value r = map_option (\<lambda>t. amount_value (JStr t)) r"

lemma multiplyDecimalStrings_exact:
  assumes "amount_value a = Some x" "amount_value b = Some y"
  shows "result_value (multiplyDecimalStrings a b) = Some (Some (x * y))"
  using assms
  by (auto simp: result_value_def multiplyDecimalStrings_def dec_val_mult elim!: amount_valueE)

lemma subtractDecimalStrings_exact:
  assumes "amount_value a = Some x" "amount_value b = Some y"
  shows "result_value (subtractDecimalStrings a b) = Some (Some (x - y))"
  using assms
  by (auto simp: result_value_def subtractDecimalStrings_def rescaleDecimal_def Let_def dec_val_diff
      dec_val_rescale_to elim!: amount_valueE)

text \<open>
  Products and differences of money strings are exact: the printed result spells
  precisely the product and the difference of the operands.
\<close>

lemma amount_arithmetic_exact:
  assumes "amount_value a = Some x" "amount_value b = Some y"
  shows "result_value (multiplyDecimalStrings a b) = Some (Some (x * y))
       \<and> result_value (subtractDecimalStrings a b) = Some (Some (x - y))"
  using assms by (simp add: multiplyDecimalStrings_exact subtractDecimalStrings_exact)

subsection \<open>Division and rounding\<close>

lemma round_half_bound:
  fixes L R :: int
  assumes "0 < R"
  shows "\<bar>of_int (if R \<le> (L mod R) * 2 then L div R + 1 else L div R) - of_int L / of_int R\<bar> \<le> (1 / 2 :: rat)"
proof -
  let ?q = "of_int (L div R) :: rat" and ?m = "of_int (L mod R) / of_int R :: rat"
  have R: "0 < (of_int R :: rat)" using assms by simp
  have "of_int L = ?q * of_int R + of_int (L mod R)"
    by (metis div_mult_mod_eq of_int_add of_int_mult)
  with R have L: "of_int L / of_int R = ?q + ?m" by (simp add: field_simps)
  have m: "0 \<le> ?m" "?m < 1" using assms by (simp_all add: divide_less_eq)
  show ?thesis
  proof (cases "R \<le> (L mod R) * 2")
    case True
    then have "(of_int R :: rat) \<le> of_int ((L mod R) * 2)" by (simp only: of_int_le_iff)
    with R have "1 / 2 \<le> ?m" by (simp add: field_simps)
    with True L m show ?thesis by (simp add: abs_if)
  next
    case False
    then have "(of_int ((L mod R) * 2) :: rat) \<le> of_int R" by (simp only: of_int_le_iff)
    with R have "?m \<le> 1 / 2" by (simp add: field_simps)
    with False L m show ?thesis by (simp add: abs_if)
  qed
qed

lemma precision_not_undef: "precision_ok p \<Longrightarrow> js_default p d = p"
  by (auto simp: precision_ok_def js_default_def)

text \<open>The unsigned quotient of two scaled integers, as the ratio of the integers the code divides.\<close>

lemma quotient_ratio:
  assumes "v \<noteq> 0"
  shows "of_int (\<bar>u\<bar> * 10 ^ (k + p)) / of_int (\<bar>v\<bar> * 10 ^ j) = \<bar>dec_val u j / dec_val v k\<bar> * 10 ^ p"
  using assms by (simp add: dec_val_def power_add field_simps abs_divide abs_mult)

text \<open>
  Division rounds half up at the requested precision: the printed quotient is within
  half a unit of the last place of the true quotient, for both signs.
\<close>

lemma divideDecimalStrings_rounds:
  assumes "amount_value a = Some x" "amount_value b = Some y" "y \<noteq> 0"
    and "precision_ok p" "fin_val p \<le> 100"
  shows "\<exists>r z. divideDecimalStrings a b p = Some r \<and> amount_value (JStr r) = Some z
           \<and> \<bar>z - x / y\<bar> \<le> 1 / (2 * 10 ^ precision_of p)"
proof -
  from assms obtain n d where n: "parseDecimal a = Some n" "x = dec_val (units n) (scale n)"
    and d: "parseDecimal b = Some d" "y = dec_val (units d) (scale d)"
    by (auto elim!: amount_valueE)
  let ?k = "precision_of p"
  let ?L = "\<bar>units n\<bar> * 10 ^ (scale d + ?k)" and ?R = "\<bar>units d\<bar> * 10 ^ scale n"
  define q where "q = (if ?R \<le> (?L mod ?R) * 2 then ?L div ?R + 1 else ?L div ?R)"
  define neg where "neg = ((units n < 0) \<noteq> (units d < 0))"
  have ud: "units d \<noteq> 0" using assms(3) d by (auto simp: dec_val_def)
  then have "\<bar>of_int q - of_int ?L / of_int ?R\<bar> \<le> (1 / 2 :: rat)"
    unfolding q_def by (intro round_half_bound) simp
  then have b: "\<bar>of_int q - \<bar>x / y\<bar> * 10 ^ ?k\<bar> \<le> 1 / 2"
    by (simp only: quotient_ratio [OF ud] n(2) d(2))
  have s: "x / y = (if neg then - \<bar>x / y\<bar> else \<bar>x / y\<bar>)"
    using ud by (auto simp: neg_def n(2) d(2) dec_val_def abs_if field_simps mult_less_0_iff
        zero_less_mult_iff divide_less_0_iff)
  have "dec_val q ?k - \<bar>x / y\<bar> = (of_int q - \<bar>x / y\<bar> * 10 ^ ?k) / 10 ^ ?k"
    by (simp add: dec_val_def field_simps)
  then have "\<bar>dec_val q ?k - \<bar>x / y\<bar>\<bar> = \<bar>of_int q - \<bar>x / y\<bar> * 10 ^ ?k\<bar> / 10 ^ ?k"
    by (simp only: abs_divide) simp
  also have "\<dots> \<le> (1 / 2) / 10 ^ ?k" using b by (rule divide_right_mono) simp
  finally have e: "\<bar>dec_val q ?k - \<bar>x / y\<bar>\<bar> \<le> 1 / (2 * 10 ^ ?k)" by simp
  have "divideDecimalStrings a b p = Some (renderDecimal (if neg then - q else q) ?k True)"
    using n(1) d(1) ud assms(4,5)
    by (simp add: divideDecimalStrings_def precision_not_undef Let_def q_def neg_def)
  moreover have "\<bar>dec_val (if neg then - q else q) ?k - x / y\<bar> \<le> 1 / (2 * 10 ^ ?k)"
    using e by (subst s) (auto simp: dec_val_uminus)
  ultimately show ?thesis by auto
qed

text \<open>
  The whole-unit quotient is the floor of the true quotient, and is refused for a
  negative amount or a divisor that is not positive.
\<close>

lemma decimalQuotientFloor_exact:
  assumes "amount_value a = Some x" "amount_value b = Some y"
  shows "decimalQuotientFloor a b = (if x < 0 \<or> y \<le> 0 then None else Some (int_text \<lfloor>x / y\<rfloor>))"
proof -
  from assms obtain n d where n: "parseDecimal a = Some n" "x = dec_val (units n) (scale n)"
    and d: "parseDecimal b = Some d" "y = dec_val (units d) (scale d)"
    by (auto elim!: amount_valueE)
  have sx: "x < 0 \<longleftrightarrow> units n < 0" and sy: "y \<le> 0 \<longleftrightarrow> units d \<le> 0"
    by (simp_all add: n(2) d(2) dec_val_def divide_less_eq divide_le_eq)
  have "x / y = of_int (units n * 10 ^ scale d) / of_int (units d * 10 ^ scale n)"
    by (simp add: n(2) d(2) dec_val_def field_simps)
  then have "\<lfloor>x / y\<rfloor> = (units n * 10 ^ scale d) div (units d * 10 ^ scale n)"
    by (simp only: floor_divide_of_int_eq)
  with n(1) d(1) sx sy show ?thesis by (simp add: decimalQuotientFloor_def)
qed

subsection \<open>Base units\<close>

lemma base_units_cases:
  assumes "amount_value v = Some x" "0 \<le> x"
  obtains u j where "parseDecimal v = Some \<lparr>units = u, scale = j\<rparr>" "x = dec_val u j" "0 \<le> u"
proof -
  from assms obtain p where p: "parseDecimal v = Some p" "x = dec_val (units p) (scale p)"
    by (auto elim!: amount_valueE)
  with assms(2) that [of "units p" "scale p"] show ?thesis by (simp add: dec_val_nonneg_iff)
qed

lemma dec_val_shift_small: "j \<le> k \<Longrightarrow> dec_val u j * 10 ^ k = of_int (u * 10 ^ (k - j))"
  using power_add [of "10 :: rat" j "k - j"] by (simp add: dec_val_def)

lemma dec_val_shift_large: "k \<le> j \<Longrightarrow> dec_val u j * 10 ^ k = of_int u / of_int (10 ^ (j - k))"
  using power_add [of "10 :: rat" k "j - k"] by (simp add: dec_val_def field_simps)

lemma ratio_is_int: "0 < m \<Longrightarrow> js_is_int (of_int u / of_int m) \<longleftrightarrow> u mod m = (0 :: int)"
proof -
  assume m: "0 < m"
  have "js_is_int (of_int u / of_int m) \<longleftrightarrow> (of_int (u div m * m) :: rat) = of_int u"
    using m unfolding js_is_int_def floor_divide_of_int_eq by (simp add: field_simps)
  also have "\<dots> \<longleftrightarrow> u div m * m = u" by (simp only: of_int_eq_iff)
  also have "\<dots> \<longleftrightarrow> u mod m = 0" by (auto simp: minus_div_mult_eq_mod [symmetric]) 
  finally show ?thesis .
qed

lemma ratio_ceiling: "0 < m \<Longrightarrow> \<lceil>of_int u / of_int m :: rat\<rceil> = (if u mod m = 0 then u div m else u div m + 1)"
proof -
  assume m: "0 < m"
  have "\<lceil>of_int u / of_int m :: rat\<rceil> = - ((- u) div m)"
    by (simp only: ceiling_def of_int_minus [symmetric] minus_divide_left floor_divide_of_int_eq)
  then show ?thesis using m by (simp add: zdiv_zminus1_eq_if)
qed

lemma decimalToBaseUnits_value:
  assumes "amount_value v = Some x" "0 \<le> x" "precision_ok (decimals_arg d)" "fin_val (decimals_arg d) \<le> 100"
  shows "decimalToBaseUnits v d =
    (let y = x * 10 ^ precision_of (decimals_arg d) in if js_is_int y then Some \<lfloor>y\<rfloor> else None)"
proof -
  obtain u j where p: "parseDecimal v = Some \<lparr>units = u, scale = j\<rparr>" "x = dec_val u j" "0 \<le> u"
    by (rule base_units_cases [OF assms(1,2)])
  let ?k = "precision_of (decimals_arg d)"
  show ?thesis
  proof (cases "?k < j")
    case True
    have y: "x * 10 ^ ?k = of_int u / of_int (10 ^ (j - ?k))"
      using True by (simp add: p(2) dec_val_shift_large)
    have "js_is_int (x * 10 ^ ?k) \<longleftrightarrow> u mod 10 ^ (j - ?k) = 0" unfolding y by (rule ratio_is_int) simp
    moreover have "\<lfloor>x * 10 ^ ?k\<rfloor> = u div 10 ^ (j - ?k)" unfolding y by (rule floor_divide_of_int_eq)
    ultimately show ?thesis using True p(1,3) assms(3,4) by (simp add: decimalToBaseUnits_def Let_def)
  next
    case False
    then have "x * 10 ^ ?k = of_int (u * 10 ^ (?k - j))" by (simp add: p(2) dec_val_shift_small)
    with False p(1,3) assms(3,4) show ?thesis
      by (simp add: decimalToBaseUnits_def Let_def js_is_int_def del: of_int_mult)
  qed
qed

text \<open>
  Conversion to base units is exact or refused: a non-negative amount with at most the
  asset's decimals becomes exactly that many base units, and an amount with a finer nonzero part has
  no conversion.
\<close>

lemma decimalToBaseUnits_exact:
  assumes "amount_value v = Some x" "0 \<le> x" "precision_ok (decimals_arg d)" "fin_val (decimals_arg d) \<le> 100"
  shows "decimalToBaseUnits v d =
    (let y = x * 10 ^ precision_of (decimals_arg d) in if js_is_int y then Some \<lfloor>y\<rfloor> else None)"
  using assms by (rule decimalToBaseUnits_value)

text \<open>
  The rounding conversion carries or drops the digits past the asset's decimals:
  \<^verbatim>\<open>up\<close> is the ceiling and \<^verbatim>\<open>down\<close> the floor of the scaled amount.
\<close>

lemma decimalToBaseUnitsRounded_bounds:
  assumes "amount_value v = Some x" "0 \<le> x" "precision_ok d" "fin_val d \<le> 100"
  shows "decimalToBaseUnitsRounded v d ''up'' = Some \<lceil>x * 10 ^ precision_of d\<rceil>
       \<and> decimalToBaseUnitsRounded v d ''down'' = Some \<lfloor>x * 10 ^ precision_of d\<rfloor>"
proof -
  obtain u j where p: "parseDecimal v = Some \<lparr>units = u, scale = j\<rparr>" "x = dec_val u j" "0 \<le> u"
    by (rule base_units_cases [OF assms(1,2)])
  have n: "JNum (js_number d) = d" using assms(3) by (cases d) (auto simp: precision_ok_def)
  let ?k = "precision_of d"
  show ?thesis
  proof (cases "j \<le> ?k")
    case True
    then have "x * 10 ^ ?k = of_int (u * 10 ^ (?k - j))" by (simp add: p(2) dec_val_shift_small)
    with True p(1,3) assms(3,4) show ?thesis
      by (simp add: decimalToBaseUnitsRounded_def Let_def n del: of_int_mult)
  next
    case False
    then have y: "x * 10 ^ ?k = of_int u / of_int (10 ^ (j - ?k))" by (simp add: p(2) dec_val_shift_large)
    have "\<lceil>x * 10 ^ ?k\<rceil> = (if u mod 10 ^ (j - ?k) = 0 then u div 10 ^ (j - ?k) else u div 10 ^ (j - ?k) + 1)"
      unfolding y by (rule ratio_ceiling) simp
    moreover have "\<lfloor>x * 10 ^ ?k\<rfloor> = u div 10 ^ (j - ?k)" unfolding y by (rule floor_divide_of_int_eq)
    ultimately show ?thesis using False p(1,3) assms(3,4)
      by (simp add: decimalToBaseUnitsRounded_def Let_def n)
  qed
qed

text \<open>
  Base units survive their decimal spelling: the text printed for a non-negative count
  of base units converts back to that count at the same decimals.
\<close>

lemma base_units_roundtrip:
  assumes "0 \<le> n" "precision_ok (decimals_arg d)" "fin_val (decimals_arg d) \<le> 100"
  shows "\<exists>t. decimalFromBaseUnits n d = Some t \<and> decimalToBaseUnits (JStr t) d = Some n"
proof -
  let ?k = "precision_of (decimals_arg d)"
  have f: "decimalFromBaseUnits n d = Some (renderDecimal n ?k True)"
    using assms(2) by (simp add: decimalFromBaseUnits_def Let_def)
  have "decimalToBaseUnits (JStr (renderDecimal n ?k True)) d = Some n"
    using decimalToBaseUnits_value [OF amount_value_render _ assms(2,3), of n ?k] assms(1)
    by (simp add: dec_val_nonneg_iff dec_val_def js_is_int_def)
  with f show ?thesis by blast
qed

subsection \<open>The other two modules\<close>

text \<open>The spending window's sum is exact: any two readable amounts add to a string that spells the exact sum.\<close>

lemma addDecimalStrings_value:
  assumes "toScaled a = Some (u, j)" "toScaled b = Some (v, k)"
  shows "\<exists>t. addDecimalStrings a b = Some t
           \<and> map_option pair_val (toScaled (JStr t)) = Some (dec_val u j + dec_val v k)"
  using assms window.sum_exact [OF TrueI, of u j k v] by (auto simp: addDecimalStrings_def Let_def)


text \<open>The two printers agree, so a window total is also readable as an amount.\<close>

lemma window_amount_agree: "amount_value (JStr (fromScaled u k)) = Some (dec_val u k)"
  by (simp add: fromScaled_render)

definition order_value :: "js \<Rightarrow> rat option" where
  "order_value v = map_option (\<lambda>(i, f). dec_val (int (dec_nat (i @ f))) (length f)) (order_parseDecimal v)"

definition not_big :: "js \<Rightarrow> bool" where
  "not_big v \<longleftrightarrow> (case v of JBig i \<Rightarrow> False | _ \<Rightarrow> True)"

lemma order_parse_digits:
  "order_parseDecimal v = Some (i, f) \<Longrightarrow> not_big v \<Longrightarrow> list_all is_digit i \<and> list_all is_digit f"
  by (auto simp: order_parseDecimal_def not_big_def Let_def split: js.splits if_splits)

lemma list_all_digits_or_zero: "list_all is_digit s \<Longrightarrow> list_all is_digit (digits_or_zero s)"
  by (auto simp: digits_or_zero_def drop_leading_zeros_def Let_def list_all_iff dest: set_dropWhileD)

lemma list_all_pad_end: "P c \<Longrightarrow> list_all P s \<Longrightarrow> list_all P (pad_end n c s)"
  by (auto simp: pad_end_def list_all_iff)

lemma order_scaled_val:
  assumes "list_all is_digit i" "list_all is_digit f" "length f \<le> k"
  shows "order_scaled k (i, f) = int (dec_nat (i @ f)) * 10 ^ (k - length f)"
    and "order_scaled_trim k (i, f) = int (dec_nat (i @ f)) * 10 ^ (k - length f)"
proof -
  let ?i = "if i = [] then ''0'' else i"
  have d: "list_all is_digit (?i @ pad_end k CHR ''0'' f)"
    using assms by (simp add: list_all_pad_end)
  have z: "dec_nat ?i = dec_nat i" by (simp add: dec_nat_def)
  have "dec_nat (?i @ pad_end k CHR ''0'' f) = dec_nat (i @ f) * 10 ^ (k - length f)"
    unfolding pad_end_def using z by (simp add: dec_nat_append algebra_simps power_add)
  then show "order_scaled k (i, f) = int (dec_nat (i @ f)) * 10 ^ (k - length f)"
    and "order_scaled_trim k (i, f) = int (dec_nat (i @ f)) * 10 ^ (k - length f)"
    by (simp_all only: order_scaled_def order_scaled_trim_def fst_conv snd_conv big_of_digits [OF d]
        big_of_digits [OF list_all_digits_or_zero [OF d]] dec_nat_digits_or_zero of_nat_mult of_nat_power of_nat_numeral)
qed

lemma order_valueE:
  assumes "order_value v = Some x" "not_big v"
  obtains i f where "order_parseDecimal v = Some (i, f)" "list_all is_digit i" "list_all is_digit f"
    "x = dec_val (int (dec_nat (i @ f))) (length f)"
  using assms order_parse_digits [of v] by (auto simp: order_value_def)

lemma order_value_render:
  "0 \<le> u \<Longrightarrow> order_value (JStr (place_digits (int_text u) k)) = Some (dec_val u k)"
proof -
  assume u: "0 \<le> u"
  let ?s = "place_digits (int_text u) k"
  from order.parse_render [OF u, of k] obtain i f where
    p: "order_parseDecimal (JStr ?s) = Some (i, f)" and v: "dec_val (big_of (i @ f)) (length f) = dec_val u k"
    by (auto simp: order_parse_def order_render_def)
  moreover from order_parse_digits [OF p] have "list_all is_digit (i @ f)" by (simp add: not_big_def)
  ultimately show ?thesis by (simp add: order_value_def big_of_digits)
qed

lemma multiplyAmounts_value:
  assumes "order_value a = Some x" "not_big a" "order_value b = Some y" "not_big b"
  shows "map_option (\<lambda>t. order_value (JStr t)) (multiplyAmounts a b)
         = (if x * y = 0 then None else Some (Some (x * y)))"
proof -
  obtain ai af where a: "order_parseDecimal a = Some (ai, af)" "list_all is_digit ai" "list_all is_digit af"
    "x = dec_val (int (dec_nat (ai @ af))) (length af)" using assms(1,2) by (rule order_valueE)
  obtain bi bf where b: "order_parseDecimal b = Some (bi, bf)" "list_all is_digit bi" "list_all is_digit bf"
    "y = dec_val (int (dec_nat (bi @ bf))) (length bf)" using assms(3,4) by (rule order_valueE)
  let ?p = "int (dec_nat (ai @ af)) * int (dec_nat (bi @ bf))"
  have xy: "x * y = dec_val ?p (length af + length bf)" by (simp only: a(4) b(4) dec_val_mult)
  have "big_of (digits_or_zero (ai @ af)) = int (dec_nat (ai @ af))"
    "big_of (digits_or_zero (bi @ bf)) = int (dec_nat (bi @ bf))"
    using a(2,3) b(2,3) by (simp_all add: big_of_digits list_all_digits_or_zero)
  then have "multiplyAmounts a b =
      (if ?p = 0 then None else Some (place_digits (int_text ?p) (length af + length bf)))"
    using a(1) b(1) by (simp add: multiplyAmounts_def Let_def)
  moreover have "x * y = 0 \<longleftrightarrow> ?p = 0" by (simp only: xy dec_val_def) simp
  ultimately show ?thesis
    using order_value_render [of ?p "length af + length bf"] by (simp add: xy)
qed

lemma subtractAmounts_value:
  assumes "order_value a = Some x" "not_big a" "order_value b = Some y" "not_big b"
  shows "map_option (\<lambda>t. order_value (JStr t)) (subtractAmounts a b)
         = (if x \<le> y then None else Some (Some (x - y)))"
proof -
  obtain ai af where a: "order_parseDecimal a = Some (ai, af)" "list_all is_digit ai" "list_all is_digit af"
    "x = dec_val (int (dec_nat (ai @ af))) (length af)" using assms(1,2) by (rule order_valueE)
  obtain bi bf where b: "order_parseDecimal b = Some (bi, bf)" "list_all is_digit bi" "list_all is_digit bf"
    "y = dec_val (int (dec_nat (bi @ bf))) (length bf)" using assms(3,4) by (rule order_valueE)
  let ?k = "max (length af) (length bf)"
  let ?d = "order_scaled_trim ?k (ai, af) - order_scaled_trim ?k (bi, bf)"
  have d: "x - y = dec_val ?d ?k"
    using a b by (simp add: order_scaled_val dec_val_diff dec_val_rescale_to)
  then have "x \<le> y \<longleftrightarrow> ?d \<le> 0" using dec_val_less_iff [of 0 ?k ?d] by (simp add: dec_val_def) linarith
  moreover have "subtractAmounts a b = (if ?d \<le> 0 then None else Some (place_digits (int_text ?d) ?k))"
    using a(1) b(1) by (simp add: subtractAmounts_def Let_def)
  ultimately show ?thesis using order_value_render [of ?d ?k] by (simp add: d)
qed

lemma compareAmounts_value:
  assumes "order_value a = Some x" "not_big a" "order_value b = Some y" "not_big b"
  shows "compareAmounts a b = Some (if x = y then 0 else if x < y then -1 else 1)"
proof -
  obtain ai af where a: "order_parseDecimal a = Some (ai, af)" "list_all is_digit ai" "list_all is_digit af"
    "x = dec_val (int (dec_nat (ai @ af))) (length af)" using assms(1,2) by (rule order_valueE)
  obtain bi bf where b: "order_parseDecimal b = Some (bi, bf)" "list_all is_digit bi" "list_all is_digit bf"
    "y = dec_val (int (dec_nat (bi @ bf))) (length bf)" using assms(3,4) by (rule order_valueE)
  show ?thesis
    using a b by (simp add: compareAmounts_def order_scaled_val Let_def common_scale_less common_scale_eq)
qed

text \<open>
  The order form's arithmetic is exact and total on readable amounts: a total is the
  product of price and size (none when it is zero), a debit is the difference (none unless it is
  positive), and the funding comparison orders amounts as numbers.
\<close>

lemma order_arithmetic_exact:
  assumes "order_value a = Some x" "not_big a" "order_value b = Some y" "not_big b"
  shows "map_option (\<lambda>t. order_value (JStr t)) (multiplyAmounts a b)
           = (if x * y = 0 then None else Some (Some (x * y)))
       \<and> map_option (\<lambda>t. order_value (JStr t)) (subtractAmounts a b)
           = (if x \<le> y then None else Some (Some (x - y)))
       \<and> compareAmounts a b = Some (if x = y then 0 else if x < y then -1 else 1)"
  using assms by (simp only: multiplyAmounts_value subtractAmounts_value compareAmounts_value simp_thms)

subsection \<open>Sums and plain forms\<close>

definition entry_value :: "js \<Rightarrow> rat option" where
  "entry_value v = map_option (\<lambda>(neg, i, f).
     (if neg then - 1 else 1) * dec_val (int (dec_nat (i @ f))) (length f)) (sum_entry v)"

lemma sum_entry_digits: "sum_entry v = Some (n, i, f) \<Longrightarrow> list_all is_digit i \<and> i \<noteq> [] \<and> list_all is_digit f"
  using match_decimal_Some by (fastforce simp: sum_entry_def Let_def split: if_splits option.splits)

lemma fold_scale_bounds:
  "m \<le> foldl (\<lambda>m (neg, i, f). if m < length f then length f else m) m ps"
  "(neg, i, f) \<in> set ps \<Longrightarrow> length f \<le> foldl (\<lambda>m (neg, i, f). if m < length f then length f else m) m ps"
proof (induction ps arbitrary: m)
  case (Cons p ps)
  obtain n i' f' where p: "p = (n, i', f')" by (cases p)
  { case 1
    let ?m = "if m < length f' then length f' else m"
    have "m \<le> ?m" by (simp add: less_imp_le)
    also have "\<dots> \<le> foldl (\<lambda>m (neg, i, f). if m < length f then length f else m) ?m ps" by (rule Cons.IH(1))
    finally show ?case by (simp add: p) }
  { case 2
    let ?m = "if m < length f' then length f' else m"
    have "length f' \<le> ?m" by simp
    also have "\<dots> \<le> foldl (\<lambda>m (neg, i, f). if m < length f then length f else m) ?m ps" by (rule Cons.IH(1))
    finally show ?case using 2 Cons.IH(2) [of ?m] by (auto simp: p) }
qed auto

definition entry_units :: "nat \<Rightarrow> bool \<times> string \<times> string \<Rightarrow> int" where
  "entry_units k e = (case e of (neg, i, f) \<Rightarrow>
     let scaled = int (dec_nat (i @ pad_end k CHR ''0'' f)) in if neg then - scaled else scaled)"

lemma fold_total: "foldl (\<lambda>t (neg, i, f). let scaled = int (dec_nat (i @ pad_end k CHR ''0'' f))
     in t + (if neg then - scaled else scaled)) t ps = t + sum_list (map (entry_units k) ps)"
  by (induction ps arbitrary: t) (auto simp: entry_units_def Let_def)

lemma entry_units_val:
  assumes "length f \<le> k"
  shows "dec_val (entry_units k (neg, i, f)) k = (if neg then - 1 else 1) * dec_val (int (dec_nat (i @ f))) (length f)"
proof -
  have "dec_nat (i @ pad_end k CHR ''0'' f) = dec_nat (i @ f) * 10 ^ (k - length f)"
    unfolding pad_end_def by (simp add: dec_nat_append algebra_simps power_add)
  then have "dec_val (int (dec_nat (i @ pad_end k CHR ''0'' f))) k = dec_val (int (dec_nat (i @ f))) (length f)"
    using assms dec_val_rescale_to [of "length f" k "int (dec_nat (i @ f))"] by simp
  then show ?thesis by (simp add: entry_units_def Let_def dec_val_uminus)
qed

lemma entry_units_sum:
  "\<forall>(neg, i, f) \<in> set ps. length f \<le> k \<Longrightarrow> dec_val (sum_list (map (entry_units k) ps)) k =
     (\<Sum>(neg, i, f) \<leftarrow> ps. (if neg then - 1 else 1) * dec_val (int (dec_nat (i @ f))) (length f))"
  by (induction ps) (auto simp: dec_val_add entry_units_val simp: dec_val_def [of 0])

lemma renderDecimal_whole: "renderDecimal u 0 trim = int_text u"
  by (cases "u < 0") (simp_all add: renderDecimal_def int_text_def pad_start_def Suc_le_eq)

lemma sumDecimalStrings_parsed:
  assumes "List.map_filter sum_entry vs = ps" "ps \<noteq> []"
  shows "\<exists>k. (\<forall>(neg, i, f) \<in> set ps. length f \<le> k)
           \<and> sumDecimalStrings vs = renderDecimal (sum_list (map (entry_units k) ps)) k False"
proof -
  define k where "k = foldl (\<lambda>m (neg, i, f). if m < length f then length f else m) 0 ps"
  let ?t = "sum_list (map (entry_units k) ps)"
  have k: "\<forall>(neg, i, f) \<in> set ps. length f \<le> k" using fold_scale_bounds(2) by (auto simp: k_def)
  have "sumDecimalStrings vs = renderDecimal ?t k False"
  proof (cases "k = 0")
    case True
    have "sumDecimalStrings vs = int_text ?t"
      using assms(2) True unfolding sumDecimalStrings_def Let_def assms(1) k_def [symmetric] fold_total [unfolded Let_def] by simp
    moreover have "renderDecimal ?t k False = int_text ?t"
      using True by (simp add: renderDecimal_whole)
    ultimately show ?thesis by simp
  next
    case False
    have "drop (length (pad_start (k + 1) CHR ''0'' r) - k) (pad_start (k + 1) CHR ''0'' r) \<noteq> []" for r
    proof -
      have "length (pad_start (k + 1) CHR ''0'' r) \<noteq> 0" by simp
      with False show ?thesis unfolding drop_eq_Nil by linarith
    qed
    with False assms show ?thesis
      unfolding sumDecimalStrings_def renderDecimal_def Let_def assms(1) k_def [symmetric] fold_total [unfolded Let_def]
      by (simp del: length_pad_start drop_eq_Nil One_nat_def add_Suc_right)
  qed
  with k show ?thesis by blast
qed

lemma map_filter_entry_sum:
  "(\<Sum>(neg, i, f) \<leftarrow> List.map_filter sum_entry vs. (if neg then - 1 else 1) * dec_val (int (dec_nat (i @ f))) (length f))
   = sum_list (List.map_filter entry_value vs)"
  by (induction vs) (auto simp: List.map_filter_simps entry_value_def split: option.splits)

text \<open>
  Summing raw amounts is exact over the readable entries: the printed total spells the
  sum of every entry that is a plain signed decimal, and the others contribute nothing.
\<close>

lemma sumDecimalStrings_exact:
  "amount_value (JStr (sumDecimalStrings vs)) = Some (sum_list (List.map_filter entry_value vs))"
proof (cases "List.map_filter sum_entry vs = []")
  case True
  have "amount_value (JStr ''0'') = Some 0" by (simp add: amount_eval)
  with True map_filter_entry_sum [of vs] show ?thesis by (simp add: sumDecimalStrings_def)
next
  case False
  then obtain k where k: "\<forall>(neg, i, f) \<in> set (List.map_filter sum_entry vs). length f \<le> k"
    and r: "sumDecimalStrings vs =
      renderDecimal (sum_list (map (entry_units k) (List.map_filter sum_entry vs))) k False"
    using sumDecimalStrings_parsed [OF refl] by blast
  show ?thesis by (simp add: r entry_units_sum [OF k] map_filter_entry_sum)
qed

text \<open>The number a reservation amount denotes, plain or scientific.\<close>

definition plain_value :: "string \<Rightarrow> rat option" where
  "plain_value s = map_option (\<lambda>(i, fo). dec_val (int (dec_nat (i @ opt_text fo))) (length (opt_text fo))) (match_decimal s)"

definition reserved_value :: "js \<Rightarrow> rat option" where
  "reserved_value raw =
    (let s = js_trim (js_text raw)
     in case plain_value s of Some x \<Rightarrow> Some x
      | None \<Rightarrow> map_option (\<lambda>(i, f, e). dec_val (int (dec_nat (i @ f))) (length f)
          * (if 0 \<le> e then 10 ^ nat e else 1 / 10 ^ nat (- e))) (match_scientific s))"

lemma plain_value_join:
  "list_all is_digit w \<Longrightarrow> w \<noteq> [] \<Longrightarrow> list_all is_digit f \<Longrightarrow>
   plain_value (join_point w f) = Some (dec_val (int (dec_nat (w @ f))) (length f))"
  by (simp add: plain_value_def match_decimal_join)

lemma plain_value_digits: "list_all is_digit w \<Longrightarrow> w \<noteq> [] \<Longrightarrow> plain_value w = Some (of_nat (dec_nat w))"
  using plain_value_join [of w "[]"] by (simp add: join_point_def)

lemma plain_value_None: "plain_value s = None \<longleftrightarrow> match_decimal s = None"
  by (simp add: plain_value_def)

lemma scientific_digits:
  "match_scientific s = Some (i, f, e) \<Longrightarrow> list_all is_digit i \<and> i \<noteq> [] \<and> list_all is_digit f"
  using match_decimal_Some by (fastforce simp: match_scientific_def Let_def split: if_splits option.splits prod.splits)

lemma scientific_value:
  "dec_val (int n) l * (if 0 \<le> e then 10 ^ nat e else 1 / 10 ^ nat (- e))
   = (if int l \<le> e then of_nat n * 10 ^ nat (e - int l) else dec_val (int n) (nat (int l - e)))"
proof (cases "0 \<le> e")
  case True
  then obtain m where e: "e = int m" using nonneg_int_cases by blast
  show ?thesis
  proof (cases "l \<le> m")
    case True
    then obtain d where "m = l + d" using le_Suc_ex by blast
    then show ?thesis by (simp add: e dec_val_def power_add nat_int_add)
  next
    case False
    then obtain d where "l = m + d" by (metis le_Suc_ex nat_le_linear)
    with False show ?thesis by (simp add: e dec_val_def power_add)
  qed
next
  case False
  obtain m where "m = nat (- e)" by blast
  with False have "e = - int m" "0 < m" by auto
  then show ?thesis by (simp add: dec_val_def power_add nat_int_add)
qed

text \<open>
  A reservation's amount reaches the netting in plain form with its value intact: the
  plain form exists exactly for amounts that denote a number, and spells that number.
\<close>

lemma toPlainDecimal_value:
  "map_option plain_value (toPlainDecimal raw) = map_option Some (reserved_value raw)"
proof -
  define s where "s = js_trim (js_text raw)"
  show ?thesis
  proof (cases "match_decimal s")
    case (Some p)
    then obtain x where "plain_value s = Some x" by (auto simp: plain_value_def)
    with Some show ?thesis by (simp add: toPlainDecimal_def reserved_value_def s_def Let_def)
  next
    case None
    then have pn: "plain_value s = None" by (simp add: plain_value_None)
    show ?thesis
    proof (cases "match_scientific s")
      case None
      with pn \<open>match_decimal s = None\<close> show ?thesis
        unfolding toPlainDecimal_def reserved_value_def Let_def s_def [symmetric] by simp
    next
      case (Some r)
      then obtain i f e where r: "match_scientific s = Some (i, f, e)" by (cases r) auto
      from scientific_digits [OF r] have d: "list_all is_digit i" "i \<noteq> []" "list_all is_digit f" by auto
      let ?g = "i @ f" and ?p = "int (length i) + e"
      have g: "list_all is_digit ?g" "?g \<noteq> []" using d by auto
      define t where "t = (if ?p \<le> 0 then ''0.'' @ replicate (nat (- ?p)) CHR ''0'' @ ?g
          else if int (length ?g) \<le> ?p then ?g @ replicate (nat ?p - length ?g) CHR ''0''
          else take (nat ?p) ?g @ CHR ''.'' # drop (nat ?p) ?g)"
      have t: "toPlainDecimal raw = Some t"
        using \<open>match_decimal s = None\<close> r
        by (simp add: toPlainDecimal_def s_def [symmetric] t_def Let_def)
      have v: "reserved_value raw = Some (if int (length f) \<le> e then of_nat (dec_nat ?g) * 10 ^ nat (e - int (length f))
          else dec_val (int (dec_nat ?g)) (nat (int (length f) - e)))"
        using pn r unfolding reserved_value_def Let_def s_def [symmetric] by (simp add: scientific_value)
      consider (neg) "?p \<le> 0" | (big) "0 < ?p" "int (length ?g) \<le> ?p" | (mid) "0 < ?p" "?p < int (length ?g)"
        by linarith
      then have "plain_value t = reserved_value raw"
      proof cases
        case neg
        let ?z = "replicate (nat (- ?p)) CHR ''0'' @ ?g"
        have "t = join_point ''0'' ?z" using neg g by (simp add: t_def join_point_def)
        moreover have "list_all is_digit ?z" using g by (auto simp: list_all_iff)
        moreover have "dec_nat (''0'' @ ?z) = dec_nat ?g"
          using dec_nat_append [of "''0''" ?z] by (simp add: dec_nat_def [of "''0''"])
        moreover have "length ?z = nat (int (length f) - e)" "\<not> int (length f) \<le> e" using neg d(2) by (cases i; auto)+
        ultimately show ?thesis using v plain_value_join [of "''0''" ?z] by simp
      next
        case big
        let ?z = "replicate (nat (e - int (length f))) CHR ''0''"
        have "nat ?p - length ?g = nat (e - int (length f))" and le: "int (length f) \<le> e" using big by auto
        then have t': "t = ?g @ ?z" using big by (simp add: t_def)
        have "list_all is_digit (?g @ ?z)" using g by (auto simp: list_all_iff)
        moreover have "dec_nat (?g @ ?z) = dec_nat ?g * 10 ^ nat (e - int (length f))"
          unfolding dec_nat_append [of ?g ?z] by simp
        moreover have "?g @ ?z \<noteq> []" using d(2) by simp
        ultimately have "plain_value t = Some (of_nat (dec_nat ?g * 10 ^ nat (e - int (length f))))"
          unfolding t' by (metis plain_value_digits)
        with v le show ?thesis by simp
      next
        case mid
        let ?w = "take (nat ?p) ?g" and ?h = "drop (nat ?p) ?g"
        have h: "?h \<noteq> []" "?w \<noteq> []" using mid by auto
        then have "t = join_point ?w ?h" using mid by (simp add: t_def join_point_def)
        moreover have "dec_nat (?w @ ?h) = dec_nat ?g" by (simp only: append_take_drop_id)
        moreover have "length ?h = nat (int (length f) - e)" "\<not> int (length f) \<le> e" using mid by auto
        ultimately have "plain_value t = Some (dec_val (int (dec_nat ?g)) (nat (int (length f) - e)))"
          using plain_value_join [OF list_all_take [OF g(1)] h(2) list_all_drop [OF g(1)]]
          by (simp only:)
        with v mid show ?thesis by simp
      qed
      with t v show ?thesis by simp
    qed
  qed
qed

end
