(* ===== verification/Double_Round.thy ===== *)
theory Double_Round
  imports Wallet_Prelude
begin

text \<open>
  The rounding of a double result. A JavaScript number is a rational here; an operation whose exact result
  is not a double gives the nearest one, ties to even (ECMA-262, the Number type). \<open>double_round\<close> is
  that rounding for results below the overflow threshold, and the lemmas bound its error, for the
  code that multiplies a fee rate by a size and takes the ceiling.
\<close>

section \<open>The exponent of a rational\<close>

fun bit_size :: "int \<Rightarrow> int" where
  "bit_size n = (if n \<le> 0 then 0 else 1 + bit_size (n div 2))"

declare bit_size.simps [simp del]

lemma bit_size_bounds: "0 < n \<Longrightarrow> 2 powi bit_size n \<le> 2 * rat_of_int n \<and> rat_of_int n < 2 powi bit_size n"
proof (induction n rule: bit_size.induct)
  case (1 n)
  show ?case
  proof (cases "n div 2 \<le> 0")
    case True
    with 1(2) have "n = 1" by linarith
    thus ?thesis by (simp add: bit_size.simps)
  next
    case False
    from 1 False have IH: "2 powi bit_size (n div 2) \<le> 2 * rat_of_int (n div 2)" "rat_of_int (n div 2) < 2 powi bit_size (n div 2)"
      by simp_all
    have size: "(2::rat) powi bit_size n = 2 * 2 powi bit_size (n div 2)"
      using 1(2) by (simp add: bit_size.simps [of n] power_int_add)
    have "2 * (n div 2) \<le> n" by linarith
    hence low: "2 * rat_of_int (n div 2) \<le> rat_of_int n"
      by (metis of_int_le_iff of_int_mult of_int_numeral)
    have nonneg: "bit_size m \<ge> 0" for m by (induction m rule: bit_size.induct) (simp add: bit_size.simps)
    define k where "k = nat (bit_size (n div 2))"
    have k: "(2::rat) powi bit_size (n div 2) = rat_of_int (2 ^ k)"
      using nonneg [of "n div 2"] by (simp add: k_def power_int_nonneg_exp)
    have "n div 2 < 2 ^ k" using IH(2) unfolding k of_int_less_iff .
    hence "n < 2 * 2 ^ k" by linarith
    hence "rat_of_int n < rat_of_int (2 * 2 ^ k)" unfolding of_int_less_iff .
    hence "rat_of_int n < 2 * 2 powi bit_size (n div 2)" unfolding k by simp
    with IH(1) low size show ?thesis by linarith
  qed
qed

text \<open>The binary logarithm, rounded down, of a positive rational.\<close>

definition rat_log2 :: "rat \<Rightarrow> int" where
  "rat_log2 x = (case quotient_of x of (n, d) \<Rightarrow>
     let k = bit_size n - bit_size d in if 2 powi k \<le> x then k else k - 1)"

lemma rat_log2_bounds:
  assumes "0 < x"
  shows "2 powi (rat_log2 x) \<le> x" "x < 2 powi (rat_log2 x + 1)"
proof -
  obtain n d where q: "quotient_of x = (n, d)" by fastforce
  have x: "x = of_int n / of_int d" using quotient_of_div [OF q] .
  have d: "0 < d" using quotient_of_denom_pos [OF q] .
  have n: "0 < n" using assms d by (simp add: x zero_less_divide_iff)
  define a b :: rat where ab: "a = 2 powi bit_size n" "b = 2 powi bit_size d"
  have ab0: "0 < a" "0 < b" by (simp_all add: ab)
  have na: "a \<le> 2 * of_int n" "of_int n < a" and db: "b \<le> 2 * of_int d" "of_int d < b"
    using bit_size_bounds [OF n] bit_size_bounds [OF d] by (simp_all add: ab)
  define k where "k = bit_size n - bit_size d"
  have pk: "(2::rat) powi k = a / b" "(2::rat) powi (k - 1) = a / (2 * b)" "(2::rat) powi (k + 1) = 2 * a / b"
    by (simp_all add: k_def ab power_int_diff power_int_add)
  have dpos: "0 < (of_int d :: rat)" using d by simp
  have npos: "0 < (of_int n :: rat)" using n by simp
  have low: "2 powi (k - 1) \<le> x"
  proof -
    have "a * of_int d \<le> (2 * of_int n) * b"
      using na(1) db(2) dpos npos by (intro mult_mono) auto
    thus ?thesis unfolding pk x using dpos ab0 by (simp add: divide_simps mult_ac)
  qed
  have up: "x < 2 powi (k + 1)"
  proof -
    have "of_int n * b < a * (2 * of_int d)"
      using na(2) db(1) dpos npos ab0 by (intro mult_less_le_imp_less) auto
    thus ?thesis unfolding pk x using dpos ab0 by (simp add: divide_simps mult_ac)
  qed
  have "rat_log2 x = (if 2 powi k \<le> x then k else k - 1)"
    by (simp add: rat_log2_def q Let_def k_def)
  thus "2 powi (rat_log2 x) \<le> x" "x < 2 powi (rat_log2 x + 1)" using low up by (auto split: if_splits)
qed

section \<open>Rounding to the nearest double\<close>

definition half_even :: "rat \<Rightarrow> int" where
  "half_even q = (let f = \<lfloor>q\<rfloor>; r = q - of_int f in
     if r < 1 / 2 then f else if r > 1 / 2 then f + 1 else if even f then f else f + 1)"

text \<open>For a nonnegative \<open>x\<close>: 53 significant bits, and no bit below \<open>2 powi (- 1074)\<close>.\<close>

definition double_exponent :: "rat \<Rightarrow> int" where
  "double_exponent x = max (rat_log2 x - 52) (- 1074)"

definition double_round :: "rat \<Rightarrow> rat" where
  "double_round x = (if x \<le> 0 then 0
     else of_int (half_even (x / 2 powi double_exponent x)) * 2 powi double_exponent x)"

lemma half_even_near: "\<bar>of_int (half_even q) - q\<bar> \<le> 1 / 2"
proof -
  have "of_int \<lfloor>q\<rfloor> \<le> q" "q < of_int \<lfloor>q\<rfloor> + 1" by linarith+
  thus ?thesis unfolding half_even_def Let_def by (simp add: abs_if) linarith
qed

lemma half_even_ge: "of_int m \<le> q \<Longrightarrow> m \<le> half_even q"
  unfolding half_even_def Let_def by (auto simp: le_floor_iff intro: order_trans [of _ "\<lfloor>q\<rfloor>"])

lemma double_round_near: "0 < x \<Longrightarrow> \<bar>double_round x - x\<bar> \<le> 2 powi (double_exponent x - 1)"
proof -
  assume x: "0 < x"
  define p :: rat where "p = 2 powi double_exponent x"
  have p: "0 < p" by (simp add: p_def)
  have "double_round x - x = (of_int (half_even (x / p)) - x / p) * p"
    using x p by (simp add: double_round_def p_def field_simps)
  hence "\<bar>double_round x - x\<bar> = \<bar>of_int (half_even (x / p)) - x / p\<bar> * p"
    using p by (simp add: abs_mult)
  also have "\<dots> \<le> 1 / 2 * p" using half_even_near p by (intro mult_right_mono) auto
  also have "\<dots> = 2 powi (double_exponent x - 1)" by (simp add: p_def power_int_diff)
  finally show ?thesis .
qed

lemma double_round_nonneg: "0 \<le> double_round x"
proof (cases "x \<le> 0")
  case False
  hence "of_int 0 \<le> x / 2 powi double_exponent x" by simp
  from half_even_ge [OF this] False show ?thesis by (simp add: double_round_def)
qed (simp add: double_round_def)

text \<open>A result that stays below \<open>2 ^ 53\<close> is off by at most one half.\<close>

lemma double_round_ge_pow53: "2 ^ 53 \<le> x \<Longrightarrow> 2 ^ 53 \<le> double_round x"
proof -
  assume x: "2 ^ 53 \<le> (x::rat)"
  have pos: "0 < x" using x by (rule less_le_trans [rotated]) simp
  have k: "53 \<le> rat_log2 x"
  proof (rule ccontr)
    assume "\<not> 53 \<le> rat_log2 x"
    hence "(2::rat) powi (rat_log2 x + 1) \<le> 2 powi 53" by (intro power_int_increasing) auto
    also have "\<dots> = 2 ^ 53" by (simp add: power_int_numeral)
    finally show False using rat_log2_bounds(2) [OF pos] x by linarith
  qed
  define e where "e = double_exponent x"
  have e: "e = rat_log2 x - 52" "1 \<le> e" using k by (simp_all add: e_def double_exponent_def)
  have "of_int (2 ^ 52) * 2 powi e = (2::rat) powi rat_log2 x"
  proof -
    have "(2::rat) powi rat_log2 x = 2 powi (52 + e)" using e(1) by simp
    also have "\<dots> = 2 powi 52 * 2 powi e" by (simp add: power_int_add)
    finally show ?thesis by (simp add: power_int_numeral)
  qed
  hence "of_int (2 ^ 52) * 2 powi e \<le> x" using rat_log2_bounds(1) [OF pos] by simp
  hence "of_int (2 ^ 52) \<le> x / 2 powi e" by (simp add: divide_simps)
  from half_even_ge [OF this] have h: "(2::rat) ^ 52 \<le> of_int (half_even (x / 2 powi e))"
    by (metis of_int_le_iff of_int_numeral of_int_power)
  have two: "(2::rat) \<le> 2 powi e"
    using power_int_increasing [of 1 e "2::rat"] e(2) by simp
  have "(2::rat) ^ 53 = 2 ^ 52 * 2" by simp
  also have "\<dots> \<le> of_int (half_even (x / 2 powi e)) * 2 powi e"
    using h two by (intro mult_mono) auto
  also have "\<dots> = double_round x" using pos by (simp add: double_round_def e_def)
  finally show ?thesis .
qed

lemma double_round_error:
  assumes "double_round x < 2 ^ 53"
  shows "x \<le> double_round x + 1 / 2"
proof (cases "0 < x")
  case True
  have small: "x < 2 ^ 53" using double_round_ge_pow53 [of x] assms by linarith
  have "rat_log2 x < 53"
  proof (rule ccontr)
    assume "\<not> rat_log2 x < 53"
    hence "(2::rat) powi 53 \<le> 2 powi (rat_log2 x)" by (intro power_int_increasing) auto
    with rat_log2_bounds(1) [OF True] small show False by (simp add: power_int_numeral)
  qed
  hence "double_exponent x - 1 \<le> - 1" by (simp add: double_exponent_def)
  hence "(2::rat) powi (double_exponent x - 1) \<le> 2 powi (- 1)" by (intro power_int_increasing) auto
  with double_round_near [OF True] show ?thesis by (simp add: power_int_minus abs_le_iff)
qed (use double_round_nonneg [of x] in linarith)

text \<open>An integer below \<open>2 ^ 53\<close> is a double.\<close>

lemma half_even_int [simp]: "half_even (of_int m) = m"
  by (simp add: half_even_def)

lemma double_round_nat: "n < 2 ^ 53 \<Longrightarrow> double_round (of_nat n) = of_nat n"
proof (cases "n = 0")
  case False
  assume n: "n < 2 ^ 53"
  define x :: rat where "x = of_nat n"
  have pos: "0 < x" using False by (simp add: x_def)
  have small: "x < 2 ^ 53" using n unfolding x_def by (metis of_nat_less_iff of_nat_numeral of_nat_power)
  have "rat_log2 x < 53"
  proof (rule ccontr)
    assume "\<not> rat_log2 x < 53"
    hence "(2::rat) powi 53 \<le> 2 powi (rat_log2 x)" by (intro power_int_increasing) auto
    with rat_log2_bounds(1) [OF pos] small show False by (simp add: power_int_numeral)
  qed
  hence e: "double_exponent x \<le> 0" by (simp add: double_exponent_def)
  have "x / 2 powi e = x * 2 ^ nat (- e)" if "e \<le> 0" for e
    using that by (simp add: divide_inverse flip: power_int_minus power_int_nonneg_exp)
  from this [OF e] have "x / 2 powi double_exponent x = x * 2 ^ nat (- double_exponent x)" .
  also have "\<dots> = of_int (int n * 2 ^ nat (- double_exponent x))" by (simp add: x_def)
  finally have q: "x / 2 powi double_exponent x = of_int (int n * 2 ^ nat (- double_exponent x))" .
  have "double_round x = of_int (half_even (x / 2 powi double_exponent x)) * 2 powi double_exponent x"
    using pos by (simp add: double_round_def)
  also have "\<dots> = (x / 2 powi double_exponent x) * 2 powi double_exponent x"
    by (subst (1 2) q) (simp only: half_even_int)
  also have "\<dots> = x" by simp
  finally have "double_round x = x" .
  thus ?thesis by (simp add: x_def)
qed (simp add: double_round_def)

section \<open>Number conversion\<close>

text \<open>\<^verbatim>\<open>Number(v)\<close>: the exact value of the text, rounded, with its overflow.\<close>

definition double_limit :: rat where
  "double_limit = 2 ^ 1024"

definition to_double :: "jnum \<Rightarrow> jnum" where
  "to_double x = (case x of
     Fin r \<Rightarrow> (let d = double_round \<bar>r\<bar> in
       if d \<ge> double_limit then (if r > 0 then PosInf else NegInf) else Fin (if r < 0 then - d else d))
   | _ \<Rightarrow> x)"

lemma to_double_NaN [simp]: "to_double NaN = NaN"
  by (simp add: to_double_def)

definition js_Number :: "js \<Rightarrow> jnum" where
  "js_Number v = to_double (js_number v)"

definition safe_int :: "int \<Rightarrow> bool" where
  "safe_int n \<longleftrightarrow> \<bar>n\<bar> \<le> 2 ^ 53 - 1"

definition is_safe_integer :: "jnum \<Rightarrow> bool" where
  "is_safe_integer x \<longleftrightarrow> is_integer (JNum x) \<and> safe_int \<lfloor>fin_val (JNum x)\<rfloor>"

definition safe_positive :: "js \<Rightarrow> nat option" where
  "safe_positive v = (let x = js_Number v in
     if is_safe_integer x \<and> 0 < fin_val (JNum x) then Some (nat \<lfloor>fin_val (JNum x)\<rfloor>) else None)"

text \<open>\<^verbatim>\<open>Math.ceil(rate * size)\<close>.\<close>

definition ceil_product :: "rat \<Rightarrow> rat \<Rightarrow> int" where
  "ceil_product rate bytes = \<lceil>double_round (rate * bytes)\<rceil>"

lemma ceil_product_covers: "safe_int (ceil_product r b) \<Longrightarrow> r * b < of_int (ceil_product r b) + 1"
proof -
  assume s: "safe_int (ceil_product r b)"
  have le: "double_round (r * b) \<le> of_int (ceil_product r b)" by (simp add: ceil_product_def)
  also have "of_int (ceil_product r b) \<le> (of_int (2 ^ 53 - 1) :: rat)"
    using s unfolding safe_int_def of_int_le_iff by linarith
  finally have "double_round (r * b) < 2 ^ 53" by simp
  from double_round_error [OF this] le show ?thesis by linarith
qed

lemma ceil_product_exact: "r = of_nat a \<Longrightarrow> b = of_nat n \<Longrightarrow> a * n < 2 ^ 53 \<Longrightarrow> ceil_product r b = int (a * n)"
proof -
  assume "r = of_nat a" "b = of_nat n" "a * n < 2 ^ 53"
  hence "ceil_product r b = \<lceil>(of_nat (a * n)) :: rat\<rceil>"
    using double_round_nat [of "a * n"] by (simp add: ceil_product_def)
  thus ?thesis by (simp only: ceiling_of_nat)
qed

lemma ceil_product_nonneg: "0 \<le> ceil_product r b"
  using double_round_nonneg [of "r * b"] unfolding ceil_product_def by (simp add: le_ceiling_iff)

lemma to_double_nat: "n < 2 ^ 53 \<Longrightarrow> to_double (Fin (of_nat n)) = Fin (of_nat n)"
proof -
  assume n: "n < 2 ^ 53"
  have "(of_nat n :: rat) < 2 ^ 53" using n by (metis of_nat_less_iff of_nat_numeral of_nat_power)
  also have "\<dots> \<le> double_limit" unfolding double_limit_def by (rule power_increasing) auto
  finally have "\<not> double_limit \<le> (of_nat n :: rat)" by (rule not_le [THEN iffD2])
  thus ?thesis unfolding to_double_def jnum.case abs_of_nat double_round_nat [OF n] Let_def
    by (simp only: if_False of_nat_less_0_iff)
qed

lemma safe_positive_pos: "safe_positive v = Some n \<Longrightarrow> 0 < n \<and> n \<le> 2 ^ 53 - 1"
proof -
  assume some: "safe_positive v = Some n"
  define z where "z = \<lfloor>fin_val (JNum (js_Number v))\<rfloor>"
  have safe: "is_safe_integer (js_Number v)" and pos: "0 < fin_val (JNum (js_Number v))" and n: "n = nat z"
    using some by (auto simp: safe_positive_def Let_def z_def split: if_splits)
  have int: "is_integer (JNum (js_Number v))" and "\<bar>z\<bar> \<le> 2 ^ 53 - 1"
    using safe by (simp_all only: is_safe_integer_def safe_int_def z_def)
  hence z: "z \<le> 2 ^ 53 - 1" by linarith
  have whole: "fin_val (JNum (js_Number v)) = of_int z"
    using int unfolding z_def by (cases "js_Number v"; simp only: is_integer.simps fin_val.simps)
  from whole pos have "0 < z" by simp
  thus ?thesis using z n by (simp add: nat_le_iff)
qed

text \<open>Small numerals are doubles and multiply exactly, so concrete rates and sizes evaluate.\<close>

lemma to_double_numeral [simp]:
  "(numeral k :: nat) < 2 ^ 53 \<Longrightarrow> to_double (Fin (numeral k)) = Fin (numeral k)"
  "to_double (Fin 0) = Fin 0" "to_double (Fin 1) = Fin 1"
  using to_double_nat [of "numeral k"] to_double_nat [of 0] to_double_nat [of 1] by simp_all

lemma ceil_product_numeral [simp]:
  "(numeral a * numeral b :: nat) < 2 ^ 53 \<Longrightarrow> ceil_product (numeral a) (numeral b) = numeral a * numeral b"
  using ceil_product_exact [of "numeral a" "numeral a" "numeral b" "numeral b"] by simp

lemma double_round_numeral [simp]: "(numeral k :: nat) < 2 ^ 53 \<Longrightarrow> double_round (numeral k) = numeral k"
  using double_round_nat [of "numeral k"] by simp

end
