(* ===== verification/Autopay_Policy.thy ===== *)
theory Autopay_Policy
  imports Decimal_Strings Double_Round
begin

text \<open>
  The decision to pay a matched order unattended: \<^verbatim>\<open>core/src/market/obligationStatus.js\<close> (the
  deadline and the amount of an obligation) and \<^verbatim>\<open>autopayPolicy.js\<close> (\<open>evaluateObligation\<close> and the
  payer lease). Rows and consents are arbitrary JavaScript values, as the explorer and the vault hand them
  over. A decision carries the code's reason; \<open>None\<close> is the exception a null payment row raises. The early
  returns of \<^verbatim>\<open>evaluateObligation\<close> are grouped into four gates, each of which stops with a decision or
  lets the next one run.
\<close>

section \<open>obligationStatus.js\<close>

definition AT_RISK_SECONDS :: int where
  "AT_RISK_SECONDS = 30 * 60"

datatype due_state = Due_open | Due_at_risk | Due_expired

definition classifyObligation :: "js \<Rightarrow> rat \<Rightarrow> due_state \<times> int option" where
  "classifyObligation expiration nowSeconds =
     (case js_Number expiration of
        Fin n \<Rightarrow>
          if n \<le> 0 \<or> n \<ge> 10000000000 then (Due_open, None)
          else let secondsLeft = \<lfloor>n - nowSeconds\<rfloor> in
            if secondsLeft \<le> 0 then (Due_expired, Some secondsLeft)
            else if secondsLeft \<le> AT_RISK_SECONDS then (Due_at_risk, Some secondsLeft)
            else (Due_open, Some secondsLeft)
      | _ \<Rightarrow> (Due_open, None))"

definition two_digits :: "int \<Rightarrow> string" where
  "two_digits n = pad_start 2 CHR ''0'' (int_text n)"

definition countdownText :: "js \<Rightarrow> string option" where
  "countdownText secondsLeft =
     (if \<not> is_finite secondsLeft \<or> fin_val secondsLeft \<le> 0 then None
      else let s = \<lfloor>fin_val secondsLeft\<rfloor>; h = s div 3600; m = (s mod 3600) div 60; sec = s mod 60 in
        if h > 0 then Some (num_text (Fin (of_int h)) @ ''h '' @ two_digits m @ ''m'')
        else if m > 0 then Some (int_text m @ ''m '' @ two_digits sec @ ''s'')
        else Some (int_text sec @ ''s''))"

text \<open>A coin amount in base units: a plain decimal of at most eight places, at scale 10^8.\<close>

definition obligationBaseUnits :: "js \<Rightarrow> nat option" where
  "obligationBaseUnits raw =
     (if is_nullish raw \<or> raw = JStr '''' then None
      else (case match_decimal (js_trim (js_text raw)) of
        None \<Rightarrow> None
      | Some (w, f) \<Rightarrow>
          let frac = opt_text f in
          if length frac > 8 then None
          else Some (dec_nat w * 100000000 + dec_nat (pad_end 8 CHR ''0'' frac))))"

definition baseUnitsToCoinText :: "js \<Rightarrow> string option" where
  "baseUnitsToCoinText raw =
     (if is_nullish raw \<or> raw = JStr '''' then None
      else let s = js_trim (js_text raw) in
        if s = [] \<or> \<not> list_all is_digit s then None
        else let v = dec_nat s; intPart = v div 100000000; fracPart = v mod 100000000 in
          if fracPart = 0 then Some (nat_text intPart)
          else Some (nat_text intPart @ CHR ''.'' # strip_trailing_zeros (pad_start 8 CHR ''0'' (nat_text fracPart))))"

section \<open>autopayPolicy.js: amounts and ledger\<close>

definition ARMING_CUTOFF_SECONDS :: int where
  "ARMING_CUTOFF_SECONDS = 45 * 60"

definition RETRY_CUTOFF_SECONDS :: int where
  "RETRY_CUTOFF_SECONDS = AT_RISK_SECONDS"

definition DEFAULT_CONFIRM_DEPTH :: rat where
  "DEFAULT_CONFIRM_DEPTH = 2"

definition CONFIRM_DEPTH_BY_CHAIN :: "(string \<times> rat) list" where
  "CONFIRM_DEPTH_BY_CHAIN = []"

definition confirmDepthForChain :: "js \<Rightarrow> rat" where
  "confirmDepthForChain chainId = (case map_of CONFIRM_DEPTH_BY_CHAIN (js_text chainId) of
     None \<Rightarrow> DEFAULT_CONFIRM_DEPTH | Some d \<Rightarrow> d)"

text \<open>The compatibility export: a decimal string only.\<close>

definition policy_decimalToBaseUnits :: "js \<Rightarrow> nat option" where
  "policy_decimalToBaseUnits v = (case v of JStr s \<Rightarrow> obligationBaseUnits v | _ \<Rightarrow> None)"

definition decimal_groups :: "js \<Rightarrow> (string \<times> string) option" where
  "decimal_groups v = (case v of JStr s \<Rightarrow> map_option (\<lambda>(w, f). (w, opt_text f)) (match_decimal (js_trim s)) | _ \<Rightarrow> None)"

definition toCommonScale :: "js \<Rightarrow> js \<Rightarrow> (nat \<times> nat) option" where
  "toCommonScale a b =
     (case (decimal_groups a, decimal_groups b) of
        (Some (wa, fa), Some (wb, fb)) \<Rightarrow>
          let k = max (length fa) (length fb) in
          Some (dec_nat (wa @ pad_end k CHR ''0'' fa), dec_nat (wb @ pad_end k CHR ''0'' fb))
      | _ \<Rightarrow> None)"

definition payment_amount :: "js \<Rightarrow> nat option" where
  "payment_amount p = (case (js_get p ''orderMatchActionIndex'', js_get p ''coinAmountBase'') of
     (JStr i, JStr s) \<Rightarrow>
       if i \<noteq> [] \<and> s \<noteq> [] \<and> list_all is_digit s \<and> list_ex nonzero_digit s then Some (dec_nat s) else None
   | _ \<Rightarrow> None)"

fun sum_payments :: "js list \<Rightarrow> nat option" where
  "sum_payments [] = Some 0"
| "sum_payments (p # ps) = (case payment_amount p of None \<Rightarrow> None
     | Some n \<Rightarrow> map_option ((+) n) (sum_payments ps))"

definition paidBase :: "js \<Rightarrow> nat option" where
  "paidBase consent = (case js_get consent ''payments'' of JArr ps \<Rightarrow> sum_payments ps | _ \<Rightarrow> None)"

definition remainingGiveBase :: "js \<Rightarrow> nat option" where
  "remainingGiveBase consent =
     (case obligationBaseUnits (js_get consent ''giveCoinAmount'') of None \<Rightarrow> None
      | Some giveTotal \<Rightarrow> (case paidBase consent of None \<Rightarrow> None | Some paid \<Rightarrow> Some (giveTotal - paid)))"

text \<open>The match row names two orders; the amounts belong to the one that triggered it.\<close>

definition index_text :: "js \<Rightarrow> string option" where
  "index_text v = (if is_nullish v then None else Some (js_text v))"

definition text_field :: "js \<Rightarrow> string option" where
  "text_field v = (case v of JStr s \<Rightarrow> if s = [] then None else Some s | _ \<Rightarrow> None)"

definition orientMatch :: "js \<Rightarrow> js \<Rightarrow> (string \<times> string) option" where
  "orientMatch matchRow orderActionIndex =
     (if \<not> js_truthy matchRow \<or> \<not> js_truthy orderActionIndex then None
      else let mine = js_text orderActionIndex;
               give = index_text (js_get matchRow ''give_action_index'');
               get = index_text (js_get matchRow ''get_action_index'');
               fills = (if get = Some mine then Some (js_get matchRow ''give_amount'', js_get matchRow ''get_amount'')
                 else if give = Some mine then Some (js_get matchRow ''get_amount'', js_get matchRow ''give_amount'')
                 else None) in
        (case fills of None \<Rightarrow> None | Some (coin, token) \<Rightarrow>
           (case (text_field coin, text_field token) of (Some c, Some t) \<Rightarrow> Some (c, t) | _ \<Rightarrow> None)))"

section \<open>autopayPolicy.js: the decision\<close>

datatype decision = Pay string | Wait string | Skip string | Notify_manual string

definition field_of :: "js \<Rightarrow> string \<Rightarrow> string \<Rightarrow> js" where
  "field_of v snake camel = js_coalesce (js_get v snake) (js_get v camel)"

definition obligation_match_index :: "js \<Rightarrow> string" where
  "obligation_match_index row = js_text (js_coalesce (field_of row ''action_index'' ''actionIndex'') (JStr ''''))"

text \<open>\<^verbatim>\<open>payments.some(...)\<close>: a null row before the match raises.\<close>

fun paid_already :: "string \<Rightarrow> js list \<Rightarrow> bool option" where
  "paid_already m [] = Some False"
| "paid_already m (p # ps) =
     (if is_nullish p then None
      else if js_text (js_get p ''orderMatchActionIndex'') = m then Some True
      else paid_already m ps)"

definition deadline_gate :: "js \<Rightarrow> rat \<Rightarrow> bool \<Rightarrow> decision option" where
  "deadline_gate obligation nowSeconds alreadyAttempted =
     (case classifyObligation (js_get obligation ''expiration'') nowSeconds of
        (Due_expired, _) \<Rightarrow> Some (Skip ''expired'')
      | (_, None) \<Rightarrow> Some (Notify_manual ''no-deadline'')
      | (_, Some secondsLeft) \<Rightarrow>
          if alreadyAttempted \<and> secondsLeft \<le> RETRY_CUTOFF_SECONDS then Some (Notify_manual ''past-retry-cutoff'')
          else if \<not> alreadyAttempted \<and> secondsLeft \<le> ARMING_CUTOFF_SECONDS then Some (Notify_manual ''past-arming-cutoff'')
          else None)"

definition positive_number :: "jnum \<Rightarrow> bool" where
  "positive_number x \<longleftrightarrow> is_finite (JNum x) \<and> 0 < fin_val (JNum x)"

definition depth_gate :: "js \<Rightarrow> js \<Rightarrow> js \<Rightarrow> decision option" where
  "depth_gate obligation consent tipHeight =
     (let blockIndex = js_Number (field_of obligation ''block_index'' ''blockIndex''); tip = js_Number tipHeight in
      if \<not> positive_number blockIndex \<or> \<not> positive_number tip then Some (Wait ''awaiting-depth'')
      else if fin_val (JNum tip) - fin_val (JNum blockIndex) + 1 < confirmDepthForChain (js_get consent ''chainId'')
      then Some (Wait ''awaiting-depth'') else None)"

definition match_gate :: "js \<Rightarrow> js \<Rightarrow> string \<Rightarrow> decision option" where
  "match_gate consent matchRow matchIndex =
     (if \<not> js_truthy matchRow then Some (Notify_manual ''match-unavailable'')
      else if js_text (js_get matchRow ''action_index'') \<noteq> matchIndex then Some (Notify_manual ''match-mismatch'')
      else if js_get matchRow ''settlement_type'' \<noteq> JStr ''coinpay'' then Some (Notify_manual ''match-shape'')
      else if (case js_get matchRow ''status'' of JStr s \<Rightarrow> js_lower (take 7 s) = ''invalid'' | _ \<Rightarrow> False)
      then Some (Skip ''match-invalid'')
      else if \<not> js_truthy (js_get consent ''orderActionIndex'') then Some (Wait ''order-index-unresolved'')
      else None)"

definition price_gate :: "js \<Rightarrow> js \<Rightarrow> js \<Rightarrow> decision" where
  "price_gate obligation consent matchRow =
     (case orientMatch matchRow (js_get consent ''orderActionIndex'') of
        None \<Rightarrow> Notify_manual ''amounts-unavailable''
      | Some (coinFill, tokenFill) \<Rightarrow>
     (case (obligationBaseUnits (field_of obligation ''coin_amount'' ''coinAmount''), obligationBaseUnits (JStr coinFill)) of
        (Some owed, Some fillBase) \<Rightarrow>
          if owed \<noteq> fillBase then Notify_manual ''amount-mismatch''
          else (case (obligationBaseUnits (js_get consent ''giveCoinAmount''),
                      toCommonScale (JStr tokenFill) (js_get consent ''getAmount'')) of
              (Some giveTotal, Some (a, b)) \<Rightarrow>
                if b = 0 then Notify_manual ''terms-unparseable''
                else if fillBase > (giveTotal * a) div b + 1 then Notify_manual ''price-exceeds-terms''
                else (case remainingGiveBase consent of
                    None \<Rightarrow> Notify_manual ''terms-unparseable''
                  | Some remaining \<Rightarrow>
                      if fillBase > remaining then Notify_manual ''exceeds-give-budget'' else Pay (nat_text owed))
            | _ \<Rightarrow> Notify_manual ''terms-unparseable'')
      | _ \<Rightarrow> Notify_manual ''amount-mismatch''))"

definition evaluateObligation :: "js \<Rightarrow> js \<Rightarrow> js \<Rightarrow> js \<Rightarrow> rat \<Rightarrow> bool \<Rightarrow> decision option" where
  "evaluateObligation obligation consent matchRow tipHeight nowSeconds alreadyAttempted =
     (if \<not> js_truthy obligation \<or> \<not> js_truthy consent then Some (Skip ''missing-input'')
      else if field_of obligation ''coinpay_status'' ''coinpayStatus'' \<noteq> JStr ''pending_coinpay'' then Some (Skip ''not-pending'')
      else if js_get consent ''autopay'' \<noteq> JBool True then Some (Skip ''consent-revoked'')
      else let matchIndex = obligation_match_index obligation in
        if matchIndex = [] then Some (Notify_manual ''no-match-index'')
        else (case js_get consent ''payments'' of
            JArr payments \<Rightarrow>
              (case paid_already matchIndex payments of
                 None \<Rightarrow> None
               | Some True \<Rightarrow> Some (Skip ''already-paid'')
               | Some False \<Rightarrow> Some
                   (case deadline_gate obligation nowSeconds alreadyAttempted of Some d \<Rightarrow> d | None \<Rightarrow>
                    case depth_gate obligation consent tipHeight of Some d \<Rightarrow> d | None \<Rightarrow>
                    case match_gate consent matchRow matchIndex of Some d \<Rightarrow> d | None \<Rightarrow>
                    price_gate obligation consent matchRow))
          | _ \<Rightarrow> Some (Notify_manual ''terms-unparseable'')))"

section \<open>autopayPolicy.js: the payer lease\<close>

text \<open>\<^verbatim>\<open>Date.parse\<close> leaves texts outside the ISO format to the platform, so it is an argument.\<close>

datatype lease_state = Lease_mine | Lease_other_live | Lease_claimable

definition leaseState :: "(string \<Rightarrow> jnum) \<Rightarrow> js \<Rightarrow> string \<Rightarrow> rat \<Rightarrow> rat \<Rightarrow> lease_state" where
  "leaseState date_parse lease holderId nowMs ttlMs =
     (if \<not> js_truthy lease then Lease_claimable
      else (case js_get lease ''renewedAt'' of
          JStr s \<Rightarrow>
            (case date_parse s of
               Fin renewed \<Rightarrow>
                 if nowMs - renewed > ttlMs then Lease_claimable
                 else if js_get lease ''holderId'' = JStr holderId then Lease_mine else Lease_other_live
             | _ \<Rightarrow> Lease_claimable)
        | _ \<Rightarrow> Lease_claimable))"

section \<open>What the amounts denote\<close>

lemma match_decimal_split_sign: "match_decimal s = Some p \<Longrightarrow> split_sign s = (False, s)"
  by (cases s) (auto simp: match_decimal_def split_sign_def is_digit_def Let_def split: if_splits)

lemma amount_value_match:
  "\<not> is_nullish v \<Longrightarrow> match_decimal (js_trim (js_text v)) = Some (w, f) \<Longrightarrow>
     amount_value v = Some (dec_val (int (dec_nat (w @ opt_text f))) (length (opt_text f)))"
  by (simp add: amount_value_def parseDecimal_def match_decimal_split_sign scaled_val_def Let_def)

lemma obligationBaseUnits_value: "obligationBaseUnits raw = Some n \<Longrightarrow> amount_value raw = Some (of_nat n / 10 ^ 8)"
proof -
  assume n: "obligationBaseUnits raw = Some n"
  then obtain w f where wf: "\<not> is_nullish raw" "match_decimal (js_trim (js_text raw)) = Some (w, f)"
    "length (opt_text f) \<le> 8" "n = dec_nat w * 100000000 + dec_nat (pad_end 8 CHR ''0'' (opt_text f))"
    by (auto simp: obligationBaseUnits_def Let_def split: if_splits option.splits)
  let ?f = "opt_text f"
  have "n = dec_nat (w @ pad_end 8 CHR ''0'' ?f)" using wf(3,4) by (simp add: dec_nat_append)
  also have "\<dots> = dec_nat (w @ ?f) * 10 ^ (8 - length ?f)" using wf(3) by (simp add: dec_nat_append dec_nat_pad_end algebra_simps flip: power_add)
  finally have "int n = int (dec_nat (w @ ?f)) * 10 ^ (8 - length ?f)" by simp
  hence "dec_val (int n) 8 = dec_val (int (dec_nat (w @ ?f))) (length ?f)"
    using dec_val_rescale_to [OF wf(3)] by simp
  with amount_value_match [OF wf(1,2)] show ?thesis by (simp add: dec_val_def)
qed

lemma decimal_groups_value:
  "decimal_groups v = Some (w, f) \<Longrightarrow> amount_value v = Some (dec_val (int (dec_nat (w @ f))) (length f))"
  by (cases v) (auto simp: decimal_groups_def amount_value_match)

lemma toCommonScale_value:
  assumes "toCommonScale x y = Some (a, b)"
  shows "\<exists>k. amount_value x = Some (dec_val (int a) k) \<and> amount_value y = Some (dec_val (int b) k)"
proof -
  obtain w f v g where groups: "decimal_groups x = Some (w, f)" "decimal_groups y = Some (v, g)"
    and ab: "a = dec_nat (w @ pad_end (max (length f) (length g)) CHR ''0'' f)"
      "b = dec_nat (v @ pad_end (max (length f) (length g)) CHR ''0'' g)"
    using assms by (auto simp: toCommonScale_def Let_def split: option.splits prod.splits)
  let ?k = "max (length f) (length g)"
  have pad: "int (dec_nat (u @ pad_end ?k CHR ''0'' h)) = int (dec_nat (u @ h)) * 10 ^ (?k - length h)"
    if "length h \<le> ?k" for u h
    using that by (simp add: dec_nat_append dec_nat_pad_end algebra_simps flip: power_add)
  have "dec_val (int a) ?k = dec_val (int (dec_nat (w @ f))) (length f)"
    "dec_val (int b) ?k = dec_val (int (dec_nat (v @ g))) (length g)"
    unfolding ab by (simp_all add: pad dec_val_rescale_to)
  with groups show ?thesis by (intro exI [of _ ?k]) (simp add: decimal_groups_value)
qed

lemma baseUnitsToCoinText_reads_back:
  "\<exists>t. baseUnitsToCoinText (JStr (nat_text n)) = Some t \<and> obligationBaseUnits (JStr t) = Some n"
proof -
  let ?w = "nat_text (n div 100000000)" and ?p = "pad_start 8 CHR ''0'' (nat_text (n mod 100000000))"
  have trim: "js_trim (nat_text n) = nat_text n"
    using nat_text_digits [of n] by (intro js_trim_no_space) (auto simp: list_all_iff dest: not_space_digit)
  show ?thesis
  proof (cases "n mod 100000000 = 0")
    case True
    have "match_decimal (js_trim ?w) = Some (?w, None)"
      using match_decimal_join [of ?w "[]"] js_trim_join(1) [of ?w "[]"] by (simp add: join_point_def)
    with True show ?thesis
      by (auto simp: baseUnitsToCoinText_def obligationBaseUnits_def trim Let_def dec_nat_pad_end)
  next
    case False
    let ?f = "strip_trailing_zeros ?p"
    have len: "length ?p = 8"
      using nat_text_length_upto [of "n mod 100000000" 8] by simp
    obtain z where z: "?p = ?f @ replicate z CHR ''0''"
      by (metis strip_trailing_zeros_split)
    have "is_digit CHR ''0''" by (simp add: is_digit_def)
    hence "list_all is_digit ?p"
      using nat_text_digits [of "n mod 100000000"] by (auto simp: pad_start_def list_all_iff)
    hence digits: "list_all is_digit ?f" using z by (metis list_all_append)
    have pv: "dec_nat ?p = n mod 100000000" by simp
    hence ne: "?f \<noteq> []" using False z by (metis append_Nil dec_nat_replicate_zero)
    have eight: "length ?f + z = 8" using len arg_cong [OF z, of length] by (simp only: length_append length_replicate)
    have z8: "length ?f \<le> 8" "pad_end 8 CHR ''0'' ?f = ?p"
    proof -
      show "length ?f \<le> 8" using eight by linarith
      have "8 - length ?f = z" using eight by linarith
      thus "pad_end 8 CHR ''0'' ?f = ?p" by (simp only: pad_end_def z [symmetric])
    qed
    have "match_decimal (js_trim (join_point ?w ?f)) = Some (?w, Some ?f)"
      using match_decimal_join [of ?w ?f] js_trim_join(1) [of ?w ?f] digits ne by simp
    hence "obligationBaseUnits (JStr (join_point ?w ?f)) = Some (n div 100000000 * 100000000 + dec_nat ?p)"
      using z8 by (simp add: obligationBaseUnits_def Let_def join_point_def)
    thus ?thesis using False ne pv
      by (intro exI [of _ "join_point ?w ?f"])
         (simp add: baseUnitsToCoinText_def trim Let_def join_point_def div_mult_mod_eq)
  qed
qed

section \<open>What a decision to pay guarantees\<close>

lemma deadline_gate_passed:
  assumes "deadline_gate obligation now attempted = None"
  shows "\<exists>deadline. js_Number (js_get obligation ''expiration'') = Fin deadline
     \<and> of_int (if attempted then RETRY_CUTOFF_SECONDS else ARMING_CUTOFF_SECONDS) < deadline - now"
proof -
  have "\<exists>d s. js_Number (js_get obligation ''expiration'') = Fin d \<and> s = \<lfloor>d - now\<rfloor>
      \<and> (if attempted then RETRY_CUTOFF_SECONDS else ARMING_CUTOFF_SECONDS) < s"
    using assms by (cases "js_Number (js_get obligation ''expiration'')")
      (auto simp: deadline_gate_def classifyObligation_def Let_def split: if_splits)
  thus ?thesis by (auto simp: less_floor_iff)
qed

lemma depth_gate_passed:
  assumes "depth_gate obligation consent tip = None"
  shows "\<exists>b t. js_Number (field_of obligation ''block_index'' ''blockIndex'') = Fin b \<and> js_Number tip = Fin t
     \<and> confirmDepthForChain (js_get consent ''chainId'') \<le> t - b + 1"
proof -
  let ?b = "js_Number (field_of obligation ''block_index'' ''blockIndex'')" and ?t = "js_Number tip"
  have "is_finite (JNum ?b)" "is_finite (JNum ?t)"
    "confirmDepthForChain (js_get consent ''chainId'') \<le> fin_val (JNum ?t) - fin_val (JNum ?b) + 1"
    using assms by (auto simp: depth_gate_def positive_number_def Let_def split: if_splits)
  thus ?thesis by (cases ?b; cases ?t; auto)
qed

lemma gate_run:
  assumes "(case g of Some d \<Rightarrow> d | None \<Rightarrow> r) = x" "g \<noteq> Some x"
  shows "g = None" "r = x"
  using assms by (cases g; simp)+

lemma gates_never_pay:
  "deadline_gate obligation now attempted \<noteq> Some (Pay amt)" "depth_gate obligation consent tip \<noteq> Some (Pay amt)"
  "match_gate consent matchRow m \<noteq> Some (Pay amt)"
  by (auto simp: deadline_gate_def depth_gate_def match_gate_def Let_def split: due_state.splits option.splits prod.splits)

lemma paid_already_false:
  "paid_already m ps = Some False \<Longrightarrow> p \<in> set ps \<Longrightarrow> js_text (js_get p ''orderMatchActionIndex'') \<noteq> m"
  by (induction m ps rule: paid_already.induct) (auto split: if_splits)

lemma nat_div_bound: "fill \<le> give * a div b + 1 \<Longrightarrow> 0 < b \<Longrightarrow> (of_nat fill :: rat) \<le> of_nat give * (of_nat a / of_nat b) + 1"
proof -
  assume fill: "fill \<le> give * a div b + 1" and b: "0 < b"
  have "(of_nat (give * a div b) :: rat) * of_nat b \<le> of_nat (give * a)"
    by (simp only: of_nat_le_iff div_times_less_eq_dividend flip: of_nat_mult)
  hence "(of_nat (give * a div b) :: rat) \<le> of_nat give * (of_nat a / of_nat b)"
    using b by (simp add: field_simps)
  moreover have "(of_nat fill :: rat) \<le> of_nat (give * a div b + 1)" using fill by (simp only: of_nat_le_iff)
  ultimately show ?thesis by simp
qed

text \<open>The caps on the amount of a payment.\<close>

definition within_terms :: "js \<Rightarrow> js \<Rightarrow> js \<Rightarrow> nat \<Rightarrow> bool" where
  "within_terms obligation consent matchRow pay \<longleftrightarrow>
     (\<exists>paid give coin token fill got. obligationBaseUnits (field_of obligation ''coin_amount'' ''coinAmount'') = Some pay
        \<and> paidBase consent = Some paid \<and> obligationBaseUnits (js_get consent ''giveCoinAmount'') = Some give
        \<and> paid + pay \<le> max give paid
        \<and> orientMatch matchRow (js_get consent ''orderActionIndex'') = Some (coin, token)
        \<and> obligationBaseUnits (JStr coin) = Some pay
        \<and> amount_value (JStr token) = Some fill \<and> amount_value (js_get consent ''getAmount'') = Some got
        \<and> 0 < got \<and> of_nat pay \<le> of_nat give * (fill / got) + 1)"

lemma price_gate_pay:
  assumes "price_gate obligation consent matchRow = Pay amt"
  shows "\<exists>pay. amt = nat_text pay \<and> within_terms obligation consent matchRow pay"
proof -
  obtain coin token pay give a b remaining where
    parts: "orientMatch matchRow (js_get consent ''orderActionIndex'') = Some (coin, token)"
    "obligationBaseUnits (field_of obligation ''coin_amount'' ''coinAmount'') = Some pay"
    "obligationBaseUnits (JStr coin) = Some pay" "obligationBaseUnits (js_get consent ''giveCoinAmount'') = Some give"
    and scaled: "toCommonScale (JStr token) (js_get consent ''getAmount'') = Some (a, b)"
    and num: "b \<noteq> 0" "pay \<le> give * a div b + 1" "remainingGiveBase consent = Some remaining" "pay \<le> remaining"
      "amt = nat_text pay"
    using assms by (auto simp: price_gate_def not_less split: option.splits prod.splits if_splits)
  from toCommonScale_value [OF scaled] obtain k where
    k: "amount_value (JStr token) = Some (dec_val (int a) k)" "amount_value (js_get consent ''getAmount'') = Some (dec_val (int b) k)"
    by blast
  have ratio: "dec_val (int a) k / dec_val (int b) k = of_nat a / of_nat b" by (simp add: dec_val_def)
  have got: "0 < dec_val (int b) k" using num(1) by (simp add: dec_val_def)
  have bound: "of_nat pay \<le> of_nat give * (dec_val (int a) k / dec_val (int b) k) + 1"
    unfolding ratio using nat_div_bound [OF num(2)] num(1) by simp
  obtain paid where paid: "paidBase consent = Some paid" "remaining = give - paid"
    using num(3) parts(4) by (auto simp: remainingGiveBase_def split: option.splits)
  have "paid + pay \<le> max give paid" using num(4) paid(2) by linarith
  with parts k got bound paid(1) num(5) show ?thesis unfolding within_terms_def by blast
qed

text \<open>A decision to pay has passed every gate.\<close>

lemma decision_gates:
  assumes "evaluateObligation obligation consent matchRow tip now attempted = Some (Pay amt)"
  shows "deadline_gate obligation now attempted = None" "depth_gate obligation consent tip = None"
    "price_gate obligation consent matchRow = Pay amt"
proof -
  have "(case deadline_gate obligation now attempted of Some d \<Rightarrow> d | None \<Rightarrow>
       case depth_gate obligation consent tip of Some d \<Rightarrow> d | None \<Rightarrow>
       case match_gate consent matchRow (obligation_match_index obligation) of Some d \<Rightarrow> d
       | None \<Rightarrow> price_gate obligation consent matchRow) = Pay amt"
    using assms by (auto simp: evaluateObligation_def Let_def split: if_splits js.splits option.splits bool.splits)
  note run = this
  show "deadline_gate obligation now attempted = None" "depth_gate obligation consent tip = None"
      "price_gate obligation consent matchRow = Pay amt"
    using gate_run [OF run gates_never_pay(1)] gate_run [OF gate_run(2) [OF run gates_never_pay(1)] gates_never_pay(2)]
      gate_run(2) [OF gate_run(2) [OF gate_run(2) [OF run gates_never_pay(1)] gates_never_pay(2)] gates_never_pay(3)]
    by (simp_all only:)
qed

text \<open>
  Property C38. The engine decides to pay only a pending obligation of an order whose consent stands, for a
  match the consent's ledger does not hold, at least two blocks deep, and before the cutoff that leaves
  time for it to confirm. What it pays is the amount owed, equal to the match's coin side; it is priced at
  the consented ratio up to one base unit of rounding, and with the payments recorded so far stays within the
  order's total.
\<close>

theorem autopay_pays_within_terms:
  assumes "evaluateObligation obligation consent matchRow tip now attempted = Some (Pay amt)"
  shows "field_of obligation ''coinpay_status'' ''coinpayStatus'' = JStr ''pending_coinpay''
     \<and> js_get consent ''autopay'' = JBool True
     \<and> (\<exists>ps. js_get consent ''payments'' = JArr ps
          \<and> obligation_match_index obligation \<notin> (\<lambda>p. js_text (js_get p ''orderMatchActionIndex'')) ` set ps)
     \<and> (\<exists>deadline. js_Number (js_get obligation ''expiration'') = Fin deadline
          \<and> of_int (if attempted then RETRY_CUTOFF_SECONDS else ARMING_CUTOFF_SECONDS) < deadline - now)
     \<and> (\<exists>b t. js_Number (field_of obligation ''block_index'' ''blockIndex'') = Fin b \<and> js_Number tip = Fin t \<and> 2 \<le> t - b + 1)
     \<and> (\<exists>pay. amt = nat_text pay \<and> within_terms obligation consent matchRow pay)"
proof -
  let ?m = "obligation_match_index obligation"
  have start: "js_truthy obligation" "js_truthy consent"
    "field_of obligation ''coinpay_status'' ''coinpayStatus'' = JStr ''pending_coinpay''"
    "js_get consent ''autopay'' = JBool True" "?m \<noteq> []"
    using assms by (auto simp: evaluateObligation_def Let_def split: if_splits)
  then obtain ps where head: "js_get consent ''payments'' = JArr ps"
    using assms by (auto simp: evaluateObligation_def Let_def split: js.splits)
  have paid: "paid_already ?m ps = Some False"
    using assms start head by (auto simp: evaluateObligation_def Let_def split: option.splits bool.splits)
  note gates = decision_gates [OF assms]
  have "?m \<notin> (\<lambda>p. js_text (js_get p ''orderMatchActionIndex'')) ` set ps" by (auto dest: paid_already_false [OF paid])
  moreover have "\<exists>b t. js_Number (field_of obligation ''block_index'' ''blockIndex'') = Fin b \<and> js_Number tip = Fin t \<and> 2 \<le> t - b + 1"
    using depth_gate_passed [OF gates(2)]
    by (simp add: confirmDepthForChain_def CONFIRM_DEPTH_BY_CHAIN_def DEFAULT_CONFIRM_DEPTH_def)
  ultimately show ?thesis
    using start(3,4) head deadline_gate_passed [OF gates(1)] price_gate_pay [OF gates(3)] by blast
qed

text \<open>
  An order that gives 1 coin for 100 tokens, and an obligation of 0.8 coin for 80 of them.
\<close>

definition sample_consent :: js where
  "sample_consent = JObj [(''schemaVersion'', JNum (Fin 1)), (''id'', JStr ''btc::ab''), (''walletId'', JStr ''w''),
     (''chainId'', JStr ''btc''), (''sourceAddress'', JStr ''me''), (''txid'', JStr ''ab''), (''orderActionIndex'', JStr ''5''),
     (''giveCoinAmount'', JStr ''1''), (''getTick'', JStr ''T''), (''getAmount'', JStr ''100''), (''autopay'', JBool True),
     (''payments'', JArr []), (''createdAt'', JStr ''now'')]"

definition sample_row :: "string \<Rightarrow> js" where
  "sample_row m = JObj [(''coinpay_status'', JStr ''pending_coinpay''), (''action_index'', JStr m), (''expiration'', JNum (Fin 10000)),
     (''block_index'', JNum (Fin 10)), (''coin_amount'', JStr ''0.8''), (''payer_address'', JStr ''me''), (''payee_address'', JStr ''you'')]"

definition sample_match :: "string \<Rightarrow> js" where
  "sample_match m = JObj [(''action_index'', JStr m), (''settlement_type'', JStr ''coinpay''), (''give_action_index'', JStr ''4''),
     (''get_action_index'', JStr ''5''), (''give_amount'', JStr ''0.8''), (''get_amount'', JStr ''80'')]"

lemma sample_amounts:
  "obligationBaseUnits (JStr ''0.8'') = Some 80000000" "obligationBaseUnits (JStr ''1'') = Some 100000000"
  "toCommonScale (JStr ''80'') (JStr ''100'') = Some (80, 100)"
proof -
  have digits: "match_decimal ''0.8'' = Some (''0'', Some ''8'')" "match_decimal ''1'' = Some (''1'', None)"
    "match_decimal ''80'' = Some (''80'', None)" "match_decimal ''100'' = Some (''100'', None)"
    by (simp_all add: match_decimal_def is_digit_def)
  have trim: "js_trim ''0.8'' = ''0.8''" "js_trim ''1'' = ''1''" "js_trim ''80'' = ''80''" "js_trim ''100'' = ''100''"
    by (simp_all add: js_trim_def js_space_def)
  have nums: "dec_nat ''0'' = 0" "dec_nat ''8'' = 8" "dec_nat ''1'' = 1" "dec_nat ''80'' = 80" "dec_nat ''100'' = 100"
    by (simp_all add: dec_nat_def digit_val_def)
  show "obligationBaseUnits (JStr ''0.8'') = Some 80000000" "obligationBaseUnits (JStr ''1'') = Some 100000000"
    by (simp_all add: obligationBaseUnits_def trim digits nums dec_nat_pad_end)
  show "toCommonScale (JStr ''80'') (JStr ''100'') = Some (80, 100)"
    by (simp add: toCommonScale_def decimal_groups_def trim digits nums pad_end_def)
qed

lemma sample_text: "nat_text 80000000 = ''80000000''"
  by (simp add: nat_text.simps digit_char_def)

lemma sample_pays:
  assumes "m \<noteq> []"
  shows "evaluateObligation (sample_row m) sample_consent (sample_match m) (JNum (Fin 12)) 0 False = Some (Pay ''80000000'')"
proof -
  have ratio: "(100000000 * 80) div (100 :: nat) + 1 = 80000001" by simp
  have "price_gate (sample_row m) sample_consent (sample_match m) = Pay ''80000000''"
    by (simp add: price_gate_def orientMatch_def sample_row_def sample_consent_def sample_match_def index_text_def
        text_field_def field_of_def js_coalesce_def Let_def sample_amounts remainingGiveBase_def paidBase_def sample_text)
  with assms show ?thesis
    by (simp add: evaluateObligation_def sample_row_def sample_consent_def sample_match_def obligation_match_index_def
        field_of_def js_coalesce_def Let_def deadline_gate_def classifyObligation_def js_Number_def AT_RISK_SECONDS_def
        ARMING_CUTOFF_SECONDS_def depth_gate_def positive_number_def confirmDepthForChain_def CONFIRM_DEPTH_BY_CHAIN_def
        DEFAULT_CONFIRM_DEPTH_def match_gate_def)
qed

theorem autopay_pays_within_terms_witness:
  "within_terms (sample_row ''7'') sample_consent (sample_match ''7'') 80000000"
proof -
  obtain pay where pay: "''80000000'' = nat_text pay" "within_terms (sample_row ''7'') sample_consent (sample_match ''7'') pay"
    using autopay_pays_within_terms [OF sample_pays [of "''7''"]] by blast
  have "pay = 80000000" using pay(1) sample_text nat_text_inj by metis
  with pay(2) show ?thesis by simp
qed

end
