(* ===== verification/Coinpay_Pending.thy ===== *)
theory Coinpay_Pending
  imports Wallet_Prelude
begin

text \<open>
  Payments of a match that may already be on their way: \<^verbatim>\<open>core/src/market/coinpayPending.js\<close>. The engine
  of unattended payments and the payment flow both scan the pending transactions with it.
\<close>

definition ATTEMPTED_STATUSES :: "string list" where
  "ATTEMPTED_STATUSES = [''signed'', ''queued'', ''broadcasting'', ''broadcast'', ''indexed'']"

text \<open>The label of a match somewhere in a summary, with no digit after it.\<close>

definition labelled :: "string \<Rightarrow> string \<Rightarrow> bool" where
  "labelled label s \<longleftrightarrow> starts_with label s
     \<and> (case drop (length label) s of [] \<Rightarrow> True | c # _ \<Rightarrow> \<not> is_digit c)"

fun mentions :: "string \<Rightarrow> string \<Rightarrow> bool" where
  "mentions label s = (labelled label s \<or> (case s of [] \<Rightarrow> False | _ # r \<Rightarrow> mentions label r))"

definition pendingTxReferencesMatch :: "js \<Rightarrow> string \<Rightarrow> bool" where
  "pendingTxReferencesMatch tx idx \<longleftrightarrow> js_get tx ''action'' = JStr ''COINPAY'' \<and> idx \<noteq> [] \<and> list_all is_digit idx
     \<and> (\<not> is_nullish (js_get (js_get tx ''params'') ''ORDER_MATCH_ACTION_INDEX'')
          \<and> js_text (js_get (js_get tx ''params'') ''ORDER_MATCH_ACTION_INDEX'') = idx
        \<or> (case js_get tx ''actionSummary'' of
             JStr s \<Rightarrow> mentions (''ORDER_MATCH #'' @ idx) s \<or> mentions (''match #'' @ idx) s | _ \<Rightarrow> False))"

definition attempted_status :: "js \<Rightarrow> bool" where
  "attempted_status tx \<longleftrightarrow> (case js_get tx ''status'' of JStr s \<Rightarrow> s \<in> set ATTEMPTED_STATUSES | _ \<Rightarrow> False)"

definition hasAttemptedCoinpay :: "js list \<Rightarrow> string \<Rightarrow> bool" where
  "hasAttemptedCoinpay pendingTxs idx \<longleftrightarrow>
     list_ex (\<lambda>tx. attempted_status tx \<and> pendingTxReferencesMatch tx idx) pendingTxs"

text \<open>A summary that carries the label of a match, with no digit after it, names that match.\<close>

lemma mentions_append: "labelled label t \<Longrightarrow> mentions label (s @ t)"
proof (induction s)
  case Nil
  thus ?case by (subst append_Nil, subst mentions.simps) simp
next
  case (Cons c s)
  thus ?case by (subst append_Cons, subst mentions.simps) simp
qed

lemma labelled_end: "labelled label label"
  by (simp add: labelled_def starts_with_def)

lemma labelled_before: "\<not> is_digit c \<Longrightarrow> labelled label (label @ c # rest)"
  by (simp add: labelled_def starts_with_def)

end
