(* ===== verification/Byte_Codec.thy ===== *)
theory Byte_Codec
  imports Wallet_Prelude "HOL-Library.Word"
begin

text \<open>
  Bytes as 8-bit words and their lower-case hexadecimal text: the small codec the signing, parsing
  and QR modules each define (\<^verbatim>\<open>hexToBytes\<close>, \<^verbatim>\<open>bytesToHex\<close>), with its round
  trips.
\<close>

type_synonym byte = "8 word"

definition hex_digit :: "nat \<Rightarrow> char" where
  "hex_digit n = ''0123456789abcdef'' ! n"

definition byte_hex :: "byte \<Rightarrow> string" where
  "byte_hex b = [hex_digit (unat b div 16), hex_digit (unat b mod 16)]"

definition bytesToHex :: "byte list \<Rightarrow> string" where
  "bytesToHex bs = concat (map byte_hex bs)"

fun hexToBytes :: "string \<Rightarrow> byte list" where
  "hexToBytes (c # d # s) = word_of_nat (16 * hex_val c + hex_val d) # hexToBytes s"
| "hexToBytes _ = []"

definition lower_hex :: "string \<Rightarrow> bool" where
  "lower_hex s \<longleftrightarrow> s \<noteq> [] \<and> list_all is_lower_hex s"

definition hex_of_length :: "nat \<Rightarrow> string \<Rightarrow> bool" where
  "hex_of_length n s \<longleftrightarrow> lower_hex s \<and> length s = 2 * n"

lemma hex_digit_table: "list_all (\<lambda>n. is_lower_hex (hex_digit n) \<and> hex_val (hex_digit n) = n) [0..<16]"
  by code_simp

lemma hex_digit_ok [simp]: "n < 16 \<Longrightarrow> is_lower_hex (hex_digit n)"
  and hex_val_digit [simp]: "n < 16 \<Longrightarrow> hex_val (hex_digit n) = n"
  using hex_digit_table by (simp_all add: list_all_iff)

lemma hex_digit_val: "is_lower_hex c \<Longrightarrow> hex_digit (hex_val c) = c \<and> hex_val c < 16"
  by (auto simp: is_lower_hex_def hex_digit_def hex_val_def Let_def)

lemma unat_byte_less [simp]: "unat (b :: byte) < 256"
  using unsigned_less [of b] by simp

lemma byte_hex_digits [simp]: "list_all is_lower_hex (byte_hex b)"
  by (simp add: byte_hex_def less_mult_imp_div_less)

lemma hexToBytes_byte: "hexToBytes (byte_hex b @ s) = b # hexToBytes s"
  by (simp add: byte_hex_def less_mult_imp_div_less)

lemma hexToBytes_bytesToHex [simp]: "hexToBytes (bytesToHex bs) = bs"
  by (induction bs) (simp_all add: bytesToHex_def hexToBytes_byte)

lemma length_bytesToHex [simp]: "length (bytesToHex bs) = 2 * length bs"
  by (induction bs) (simp_all add: bytesToHex_def byte_hex_def)

lemma bytesToHex_digits [simp]: "list_all is_lower_hex (bytesToHex bs)"
  by (induction bs) (simp_all add: bytesToHex_def)

lemma bytesToHex_Nil [simp]: "bytesToHex [] = []"
  by (simp add: bytesToHex_def)

lemma bytesToHex_Cons: "bytesToHex (b # bs) = byte_hex b @ bytesToHex bs"
  by (simp add: bytesToHex_def)

lemma bytesToHex_hexToBytes:
  "list_all is_lower_hex s \<Longrightarrow> even (length s) \<Longrightarrow> bytesToHex (hexToBytes s) = s"
proof (induction s rule: hexToBytes.induct)
  case (1 c d s)
  then have h: "hex_digit (hex_val c) = c" "hex_val c < 16" "hex_digit (hex_val d) = d" "hex_val d < 16"
    using hex_digit_val by auto
  then have u: "unat (word_of_nat (16 * hex_val c + hex_val d) :: byte) = 16 * hex_val c + hex_val d"
    unfolding unsigned_of_nat by (simp add: take_bit_eq_mod)
  then have "byte_hex (word_of_nat (16 * hex_val c + hex_val d)) = [c, d]"
    using h by (simp add: byte_hex_def)
  with 1 show ?case by (simp add: bytesToHex_Cons)
qed (auto simp: bytesToHex_def)

lemma hex_of_length_bytes: "0 < n \<Longrightarrow> length bs = n \<Longrightarrow> hex_of_length n (bytesToHex bs)"
  by (cases bs) (auto simp: hex_of_length_def lower_hex_def bytesToHex_Cons byte_hex_def less_mult_imp_div_less)

lemma is_lower_hex_low: "is_hex c \<Longrightarrow> is_lower_hex (low_char c)"
proof -
  assume "is_hex c"
  moreover have "list_all (\<lambda>c. is_lower_hex (low_char c)) ''0123456789abcdefABCDEF''" by code_simp
  ultimately show ?thesis unfolding is_hex_def list_all_iff by blast
qed

end
