(* ===== verification/Address_Validation.thy ===== *)
theory Address_Validation
  imports Byte_Codec
begin

text \<open>
  The address check in front of every payment: \<^verbatim>\<open>core/src/shared/utils/addressValidation.js\<close>, with the
  placeholder addresses of \<^verbatim>\<open>core/src/sdk/devMockAddresses.js\<close>. The Base58Check and Bech32 codecs are
  a package, so they are arguments; what the wallet does with what they decode is modelled, tables included.
\<close>

section \<open>Placeholder addresses\<close>

definition MOCK_ADDRESS_PREFIXES :: "(string \<times> string list) list" where
  "MOCK_ADDRESS_PREFIXES =
    [(''bitcoin-mainnet'', [''1devmock'', ''3devmock'', ''bc1qdevmock'', ''bc1pdevmock'']),
     (''bitcoin-testnet'', [''mdevmock'', ''2devmock'', ''tb1qdevmock'', ''tb1pdevmock'']),
     (''bitcoin-regtest'', [''mdevmock'', ''2devmock'', ''bcrt1qdevmock'', ''bcrt1pdevmock'']),
     (''litecoin-mainnet'', [''Ldevmock'', ''Mdevmock'', ''ltc1qdevmock'']),
     (''litecoin-testnet'', [''mdevmock'', ''2devmock'', ''tltc1qdevmock'']),
     (''litecoin-regtest'', [''mdevmock'', ''2devmock'', ''rltc1qdevmock'']),
     (''dogecoin-mainnet'', [''Ddevmock'']),
     (''dogecoin-testnet'', [''ndevmock'']),
     (''dogecoin-regtest'', [''ndevmock''])]"

definition MOCK_TAIL_LENGTH :: nat where
  "MOCK_TAIL_LENGTH = 24"

definition isDevMockAddress :: "js \<Rightarrow> bool" where
  "isDevMockAddress address =
     (let a = js_trim (js_text (js_coalesce address (JStr ''''))) in
      list_ex (\<lambda>p. starts_with p a
          \<and> length (drop (length p) a) \<le> MOCK_TAIL_LENGTH \<and> list_all is_lower_hex (drop (length p) a))
        (concat (map snd MOCK_ADDRESS_PREFIXES)))"

section \<open>Tables and codecs\<close>

definition MAX_ADDRESS_LENGTH :: nat where
  "MAX_ADDRESS_LENGTH = 90"

record address_params =
  ap_p2pkh :: byte
  ap_p2sh :: byte
  ap_hrp :: "string option"

definition ADDRESS_PARAMS :: "(string \<times> (string \<times> address_params) list) list" where
  "ADDRESS_PARAMS =
    [(''bitcoin'',
       [(''mainnet'', \<lparr> ap_p2pkh = 0x00, ap_p2sh = 0x05, ap_hrp = Some ''bc'' \<rparr>),
        (''testnet'', \<lparr> ap_p2pkh = 0x6f, ap_p2sh = 0xc4, ap_hrp = Some ''tb'' \<rparr>),
        (''regtest'', \<lparr> ap_p2pkh = 0x6f, ap_p2sh = 0xc4, ap_hrp = Some ''bcrt'' \<rparr>)]),
     (''litecoin'',
       [(''mainnet'', \<lparr> ap_p2pkh = 0x30, ap_p2sh = 0x32, ap_hrp = Some ''ltc'' \<rparr>),
        (''testnet'', \<lparr> ap_p2pkh = 0x6f, ap_p2sh = 0xc4, ap_hrp = Some ''tltc'' \<rparr>),
        (''regtest'', \<lparr> ap_p2pkh = 0x6f, ap_p2sh = 0xc4, ap_hrp = Some ''rltc'' \<rparr>)]),
     (''dogecoin'',
       [(''mainnet'', \<lparr> ap_p2pkh = 0x1e, ap_p2sh = 0x16, ap_hrp = None \<rparr>),
        (''testnet'', \<lparr> ap_p2pkh = 0x71, ap_p2sh = 0xc4, ap_hrp = None \<rparr>),
        (''regtest'', \<lparr> ap_p2pkh = 0x6f, ap_p2sh = 0xc4, ap_hrp = None \<rparr>)])]"

text \<open>The rows of the table in the order the code visits them.\<close>

definition chain_rows :: "((string \<times> string) \<times> address_params) list" where
  "chain_rows = concat (map (\<lambda>(coin, networks). map (\<lambda>(network, params). ((coin, network), params)) networks) ADDRESS_PARAMS)"

definition params_of :: "string \<Rightarrow> string \<Rightarrow> address_params option" where
  "params_of coin network = (case map_of ADDRESS_PARAMS coin of None \<Rightarrow> None | Some networks \<Rightarrow> map_of networks network)"

text \<open>
  The package's decoders: Base58Check with its checksum taken off, the two Bech32 checksums with the length
  limit of 90, and the regrouping of 5-bit words. \<open>None\<close> is a decoder that throws.
\<close>

record address_decoders =
  ad_base58 :: "string \<Rightarrow> byte list option"
  ad_bech32 :: "string \<Rightarrow> (string \<times> nat list) option"
  ad_bech32m :: "string \<Rightarrow> (string \<times> nat list) option"
  ad_words :: "nat list \<Rightarrow> byte list option"

section \<open>The check for one chain\<close>

definition witness_ok :: "address_decoders \<Rightarrow> bool \<Rightarrow> string \<Rightarrow> string \<times> nat list \<Rightarrow> bool" where
  "witness_ok D is_bech32 hrp decoded =
     (case decoded of (prefix, words) \<Rightarrow>
       if prefix \<noteq> hrp then False
       else (case words of
           [] \<Rightarrow> False
         | version # rest \<Rightarrow>
             if version > 16 then False
             else if (version = 0) \<noteq> is_bech32 then False
             else (case ad_words D rest of
                 None \<Rightarrow> False
               | Some program \<Rightarrow>
                   if length program < 2 \<or> length program > 40 then False
                   else \<not> (version = 0 \<and> length program \<noteq> 20 \<and> length program \<noteq> 32))))"

definition isSegwitAddress :: "address_decoders \<Rightarrow> string \<Rightarrow> string \<Rightarrow> bool" where
  "isSegwitAddress D lower hrp =
     (case ad_bech32 D lower of
        Some decoded \<Rightarrow> witness_ok D True hrp decoded
      | None \<Rightarrow> (case ad_bech32m D lower of Some decoded \<Rightarrow> witness_ok D False hrp decoded | None \<Rightarrow> False))"

text \<open>Whether a string starts like a Bech32 address of these parameters, in either case.\<close>

definition has_hrp :: "string \<Rightarrow> address_params \<Rightarrow> bool" where
  "has_hrp address params = (case ap_hrp params of None \<Rightarrow> False | Some hrp \<Rightarrow> starts_with (hrp @ ''1'') (js_lower address))"

definition base58_version :: "address_decoders \<Rightarrow> string \<Rightarrow> byte option" where
  "base58_version D address = (case ad_base58 D address of
     Some (version # hash) \<Rightarrow> if length hash = 20 then Some version else None | _ \<Rightarrow> None)"

definition matchesParams :: "address_decoders \<Rightarrow> string \<Rightarrow> address_params \<Rightarrow> bool" where
  "matchesParams D address params =
     (if length address > MAX_ADDRESS_LENGTH then False
      else if has_hrp address params then
        (if address \<noteq> js_lower address \<and> address \<noteq> js_upper address then False
         else isSegwitAddress D (js_lower address) (the (ap_hrp params)))
      else (case base58_version D address of
          None \<Rightarrow> False | Some version \<Rightarrow> version = ap_p2pkh params \<or> version = ap_p2sh params))"

definition clean_address :: "js \<Rightarrow> string" where
  "clean_address address = js_trim (js_text (js_or address (JStr '''')))"

definition isValidAddressForChain :: "address_decoders \<Rightarrow> js \<Rightarrow> string \<Rightarrow> string \<Rightarrow> bool" where
  "isValidAddressForChain D address coin network =
     (let a = clean_address address in
      if a = [] then False
      else if isDevMockAddress (JStr a) then True
      else (case params_of coin network of None \<Rightarrow> False | Some params \<Rightarrow> matchesParams D a params))"

definition isValidAddressAnyNetwork :: "address_decoders \<Rightarrow> js \<Rightarrow> bool" where
  "isValidAddressAnyNetwork D address =
     (let a = clean_address address in
      if a = [] then False
      else if isDevMockAddress (JStr a) then True
      else list_ex (\<lambda>(_, params). matchesParams D a params) chain_rows)"

section \<open>Reading the chain from the address\<close>

record address_chain =
  ac_coin :: "string option"
  ac_network :: "string option"
  ac_candidates :: "string list"

text \<open>A JavaScript set keeps the order of first insertion.\<close>

definition distinct_in_order :: "'a list \<Rightarrow> 'a list" where
  "distinct_in_order xs = rev (remdups (rev xs))"

definition only_one :: "'a list \<Rightarrow> 'a option" where
  "only_one xs = (case xs of [x] \<Rightarrow> Some x | _ \<Rightarrow> None)"

definition detectAddressChain :: "address_decoders \<Rightarrow> js \<Rightarrow> address_chain option" where
  "detectAddressChain D address =
     (let a = clean_address address in
      if a = [] \<or> length a > MAX_ADDRESS_LENGTH then None
      else (case List.find (\<lambda>(_, params). has_hrp a params) chain_rows of
          Some ((coin, network), params) \<Rightarrow>
            if matchesParams D a params
            then Some \<lparr> ac_coin = Some coin, ac_network = Some network, ac_candidates = [coin] \<rparr> else None
        | None \<Rightarrow>
            (case base58_version D a of
               None \<Rightarrow> None
             | Some version \<Rightarrow>
                 let hits = map fst (List.filter (\<lambda>(_, params). version = ap_p2pkh params \<or> version = ap_p2sh params) chain_rows);
                     coins = distinct_in_order (map fst hits); networks = distinct_in_order (map snd hits) in
                 if hits = [] then None
                 else Some \<lparr> ac_coin = only_one coins, ac_network = only_one networks, ac_candidates = coins \<rparr>)))"

definition detectAddressCoin :: "address_decoders \<Rightarrow> js \<Rightarrow> string option" where
  "detectAddressCoin D address =
     (let a = clean_address address; lower = js_lower a in
      case a of
        [] \<Rightarrow> None
      | c # _ \<Rightarrow>
          if list_ex (\<lambda>p. starts_with p lower) [''bc1'', ''tb1'', ''bcrt1''] then Some ''bitcoin''
          else if list_ex (\<lambda>p. starts_with p lower) [''ltc1'', ''tltc1'', ''rltc1''] then Some ''litecoin''
          else if c = CHR ''1'' then Some ''bitcoin''
          else if c = CHR ''L'' \<or> c = CHR ''M'' then Some ''litecoin''
          else if c = CHR ''D'' \<or> c = CHR ''A'' \<or> c = CHR ''9'' then Some ''dogecoin''
          else (case detectAddressChain D (JStr a) of None \<Rightarrow> None | Some d \<Rightarrow> ac_coin d))"

section \<open>The message under an address field\<close>

datatype address_problem =
    Payment_link
  | Other_chain string string
  | Test_network
  | Mistyped
  | No_address

definition is_base58 :: "char \<Rightarrow> bool" where
  "is_base58 c \<longleftrightarrow> c \<in> set ''123456789ABCDEFGHJKLMNPQRSTUVWXYZabcdefghijkmnopqrstuvwxyz''"

definition is_lower_alnum :: "char \<Rightarrow> bool" where
  "is_lower_alnum c \<longleftrightarrow> c \<in> set ''abcdefghijklmnopqrstuvwxyz0123456789''"

definition looksLikeAddress :: "string \<Rightarrow> bool" where
  "looksLikeAddress a \<longleftrightarrow>
     (list_all is_base58 a \<and> 25 \<le> length a \<and> length a \<le> 36)
     \<or> list_ex (\<lambda>p. let rest = drop (Suc (length p)) (js_lower a) in
           starts_with (p @ ''1'') (js_lower a) \<and> list_all is_lower_alnum rest \<and> 6 \<le> length rest \<and> length rest \<le> 87)
         [''bc'', ''tb'', ''bcrt'', ''ltc'', ''tltc'', ''rltc'']"

definition is_payment_link :: "string \<Rightarrow> bool" where
  "is_payment_link a \<longleftrightarrow> list_ex (\<lambda>p. starts_with p (js_lower a))
     [''bitcoin:'', ''litecoin:'', ''dogecoin:'', ''xchain:'', ''web+xchain:'']"

definition addressValidationError :: "address_decoders \<Rightarrow> js \<Rightarrow> (string \<times> string) option \<Rightarrow> address_problem option" where
  "addressValidationError D address descriptor =
     (let a = clean_address address in
      case descriptor of
        None \<Rightarrow> None
      | Some (coin, network) \<Rightarrow>
          if a = [] \<or> coin = [] \<or> network = [] then None
          else if isValidAddressForChain D (JStr a) coin network then None
          else if is_payment_link a then Some Payment_link
          else (case detectAddressChain D (JStr a) of
              None \<Rightarrow> if looksLikeAddress a then Some Mistyped else Some No_address
            | Some d \<Rightarrow>
                (case (ac_coin d, ac_network d) of
                   (Some c, Some n) \<Rightarrow> Some (Other_chain c n)
                 | (_, None) \<Rightarrow> Some Test_network
                 | (None, Some n) \<Rightarrow> if looksLikeAddress a then Some Mistyped else Some No_address)))"

section \<open>The table\<close>

text \<open>
  The first characters of a Base58Check string of 25 bytes, by its version byte: a fact of the encoding
  that \<^verbatim>\<open>detectAddressCoin\<close> relies on too.
\<close>

definition leaders :: "byte \<Rightarrow> string option" where
  "leaders v = map_of [(0x00, ''1''), (0x05, ''3''), (0x6f, ''mn''), (0xc4, ''2''), (0x30, ''L''), (0x32, ''M''),
     (0x1e, ''D''), (0x16, ''9A''), (0x71, ''n'')] v"

definition base58_leads :: "address_decoders \<Rightarrow> bool" where
  "base58_leads D \<longleftrightarrow> (\<forall>a v cs. base58_version D a = Some v \<longrightarrow> leaders v = Some cs \<longrightarrow> a \<noteq> [] \<and> hd a \<in> set cs)"

lemma rows: "chain_rows =
  [((''bitcoin'', ''mainnet''), \<lparr> ap_p2pkh = 0x00, ap_p2sh = 0x05, ap_hrp = Some ''bc'' \<rparr>),
   ((''bitcoin'', ''testnet''), \<lparr> ap_p2pkh = 0x6f, ap_p2sh = 0xc4, ap_hrp = Some ''tb'' \<rparr>),
   ((''bitcoin'', ''regtest''), \<lparr> ap_p2pkh = 0x6f, ap_p2sh = 0xc4, ap_hrp = Some ''bcrt'' \<rparr>),
   ((''litecoin'', ''mainnet''), \<lparr> ap_p2pkh = 0x30, ap_p2sh = 0x32, ap_hrp = Some ''ltc'' \<rparr>),
   ((''litecoin'', ''testnet''), \<lparr> ap_p2pkh = 0x6f, ap_p2sh = 0xc4, ap_hrp = Some ''tltc'' \<rparr>),
   ((''litecoin'', ''regtest''), \<lparr> ap_p2pkh = 0x6f, ap_p2sh = 0xc4, ap_hrp = Some ''rltc'' \<rparr>),
   ((''dogecoin'', ''mainnet''), \<lparr> ap_p2pkh = 0x1e, ap_p2sh = 0x16, ap_hrp = None \<rparr>),
   ((''dogecoin'', ''testnet''), \<lparr> ap_p2pkh = 0x71, ap_p2sh = 0xc4, ap_hrp = None \<rparr>),
   ((''dogecoin'', ''regtest''), \<lparr> ap_p2pkh = 0x6f, ap_p2sh = 0xc4, ap_hrp = None \<rparr>)]"
  by (simp add: chain_rows_def ADDRESS_PARAMS_def)

lemma params_of_row: "params_of coin network = Some p \<longleftrightarrow> ((coin, network), p) \<in> set chain_rows"
proof -
  have "distinct (map fst ADDRESS_PARAMS)" "\<forall>(c, ns) \<in> set ADDRESS_PARAMS. distinct (map fst ns)"
    by (simp_all add: ADDRESS_PARAMS_def)
  hence "params_of coin network = Some p \<longleftrightarrow> (\<exists>ns. (coin, ns) \<in> set ADDRESS_PARAMS \<and> (network, p) \<in> set ns)"
    by (fastforce simp: params_of_def split: option.splits dest: map_of_SomeD intro: map_of_is_SomeI)
  thus ?thesis by (fastforce simp: chain_rows_def)
qed

text \<open>A prefix names its chain, and a string has at most one.\<close>

lemma hrp_of_start:
  assumes "starts_with (h @ ''1'') l" "CHR ''1'' \<notin> set h"
  shows "takeWhile (\<lambda>c. c \<noteq> CHR ''1'') l = h"
proof -
  have "l = (h @ ''1'') @ drop (length (h @ ''1'')) l"
    using assms(1) unfolding starts_with_def by (metis append_take_drop_id)
  then obtain r where "l = h @ CHR ''1'' # r" by (metis append.assoc append_Cons append_Nil)
  moreover have "takeWhile (\<lambda>c. c \<noteq> CHR ''1'') h = h" using assms(2) by (auto simp: takeWhile_eq_all_conv)
  ultimately show ?thesis using assms(2) by (auto simp: takeWhile_append)
qed

lemma rows_by_hrp: "list_all (\<lambda>x. list_all (\<lambda>y. ap_hrp (snd x) = None \<or> ap_hrp (snd x) \<noteq> ap_hrp (snd y) \<or> fst x = fst y) chain_rows) chain_rows"
  by code_simp

lemma rows_by_name: "list_all (\<lambda>x. list_all (\<lambda>y. fst x \<noteq> fst y \<or> snd x = snd y) chain_rows) chain_rows"
  by code_simp

lemma has_hrp_unique:
  assumes "((c, n), p) \<in> set chain_rows" "has_hrp a p" "((c', n'), p') \<in> set chain_rows" "has_hrp a p'"
  shows "(c, n, p) = (c', n', p')"
proof -
  have one: "ap_hrp q = Some (takeWhile (\<lambda>c. c \<noteq> CHR ''1'') (js_lower a))"
    if row: "((d, m), q) \<in> set chain_rows" and q: "has_hrp a q" for d m q
  proof -
    obtain h where h: "ap_hrp q = Some h" "starts_with (h @ ''1'') (js_lower a)"
      using q by (auto simp: has_hrp_def split: option.splits)
    have "CHR ''1'' \<notin> set h" using row h(1) by (auto simp: rows)
    with h hrp_of_start show ?thesis by metis
  qed
  from one [OF assms(1,2)] one [OF assms(3,4)] have "ap_hrp p = ap_hrp p'" "ap_hrp p \<noteq> None" by auto
  with assms(1,3) rows_by_hrp have "(c, n) = (c', n')" unfolding list_all_iff by fastforce
  with assms(1,3) rows_by_name show ?thesis unfolding list_all_iff by fastforce
qed

lemma low_leaders:
  "list_all (\<lambda>c. low_char c \<notin> {CHR ''b'', CHR ''t'', CHR ''r''} \<and> (low_char c = CHR ''l'' \<longrightarrow> c = CHR ''L'')) ''13mn2LMD9A''"
  by code_simp

lemma low_leader:
  "c \<in> set ''13mn2LMD9A'' \<Longrightarrow> low_char c \<notin> {CHR ''b'', CHR ''t'', CHR ''r''} \<and> (low_char c = CHR ''l'' \<longrightarrow> c = CHR ''L'')"
  using low_leaders unfolding list_all_iff by blast

lemma low_char_first: "low_char c \<in> {CHR ''b'', CHR ''t'', CHR ''r''} \<Longrightarrow> c \<notin> set ''13mn2LMD9A''"
  using low_leader [of c] by blast

lemma low_char_l: "low_char c = CHR ''l'' \<Longrightarrow> c \<in> set ''13mn2LMD9A'' \<Longrightarrow> c = CHR ''L''"
  using low_leader [of c] by blast

lemma has_hrp_first:
  assumes "((c, n), p) \<in> set chain_rows" "has_hrp a p"
  shows "a \<noteq> [] \<and> (low_char (hd a) \<in> {CHR ''b'', CHR ''t'', CHR ''r''} \<or> low_char (hd a) = CHR ''l'' \<and> (c, n) = (''litecoin'', ''mainnet''))"
  using assms by (cases a) (auto simp: rows has_hrp_def starts_with_def js_lower_def)

text \<open>No legacy address of the table starts like a Bech32 address of another chain.\<close>

lemma legacy_prefix:
  assumes "base58_leads D" "((c, n), p) \<in> set chain_rows" "has_hrp a p"
    and "((c', n'), p') \<in> set chain_rows" "base58_version D a = Some v" "v = ap_p2pkh p' \<or> v = ap_p2sh p'"
  shows "(c', n', p') = (c, n, p) \<and> (c, n) = (''litecoin'', ''mainnet'')"
proof -
  have "leaders v \<noteq> None \<and> (\<forall>cs. leaders v = Some cs \<longrightarrow> set cs \<subseteq> set ''13mn2LMD9A''
      \<and> (CHR ''L'' \<in> set cs \<longrightarrow> (c', n') = (''litecoin'', ''mainnet'')))"
    using assms(4,6) by (auto simp: rows leaders_def)
  then obtain cs where cs: "leaders v = Some cs" "set cs \<subseteq> set ''13mn2LMD9A''"
    "CHR ''L'' \<in> set cs \<longrightarrow> (c', n') = (''litecoin'', ''mainnet'')" by blast
  have hd: "hd a \<in> set cs" using assms(1,5) cs(1) by (auto simp: base58_leads_def)
  hence known: "hd a \<in> set ''13mn2LMD9A''" using cs(2) by blast
  with has_hrp_first [OF assms(2,3)] low_char_first [of "hd a"]
  have l: "low_char (hd a) = CHR ''l''" "(c, n) = (''litecoin'', ''mainnet'')" by auto
  from low_char_l [OF l(1) known] hd cs(3) have "(c', n') = (''litecoin'', ''mainnet'')" by simp
  with l(2) assms(2,4) show ?thesis by (auto simp: rows)
qed

section \<open>What a valid address is valid for\<close>

lemma valid_iff:
  assumes "\<not> isDevMockAddress (JStr (clean_address address))"
  shows "isValidAddressForChain D address coin network \<longleftrightarrow> clean_address address \<noteq> []
    \<and> (\<exists>p. ((coin, network), p) \<in> set chain_rows \<and> matchesParams D (clean_address address) p)"
  using assms by (auto simp: isValidAddressForChain_def Let_def simp flip: params_of_row split: option.splits)

lemma matches_legacy:
  assumes "matchesParams D a p" "\<not> has_hrp a p"
  obtains v where "base58_version D a = Some v" "v = ap_p2pkh p \<or> v = ap_p2sh p"
  using assms by (auto simp: matchesParams_def split: if_splits option.splits)

text \<open>The version bytes that two chains share belong to test networks.\<close>

lemma shared_versions: "list_all (\<lambda>x. list_all (\<lambda>y.
    fst x = fst y \<or> list_all (\<lambda>v. (v \<noteq> ap_p2pkh (snd y) \<and> v \<noteq> ap_p2sh (snd y))
        \<or> (v \<in> {0x6f, 0xc4} \<and> snd (fst x) \<noteq> ''mainnet'' \<and> snd (fst y) \<noteq> ''mainnet''))
      [ap_p2pkh (snd x), ap_p2sh (snd x)]) chain_rows) chain_rows"
  by code_simp

lemma matches_two:
  assumes "base58_leads D" "((c, n), p) \<in> set chain_rows" "matchesParams D a p"
    and "((c', n'), p') \<in> set chain_rows" "matchesParams D a p'" "(c, n) \<noteq> (c', n')"
  shows "n \<noteq> ''mainnet'' \<and> n' \<noteq> ''mainnet'' \<and> base58_version D a \<in> {Some 0x6f, Some 0xc4}"
proof -
  have no_hrp: "\<not> has_hrp a p" if p: "((c, n), p) \<in> set chain_rows" "matchesParams D a p"
      "((c', n'), p') \<in> set chain_rows" "matchesParams D a p'" "(c, n) \<noteq> (c', n')" for c n p c' n' p'
  proof
    assume h: "has_hrp a p"
    show False
    proof (cases "has_hrp a p'")
      case True
      from has_hrp_unique [OF p(1) h p(3) True] p(5) show False by simp
    next
      case False
      from p(4) False obtain v where "base58_version D a = Some v" "v = ap_p2pkh p' \<or> v = ap_p2sh p'"
        by (rule matches_legacy)
      from legacy_prefix [OF assms(1) p(1) h p(3) this] p(5) show False by simp
    qed
  qed
  from no_hrp [OF assms(2-6)] assms(3) obtain v where
    v: "base58_version D a = Some v" "v = ap_p2pkh p \<or> v = ap_p2sh p" by (metis matches_legacy)
  from no_hrp [OF assms(4,5,2,3)] assms(5,6) obtain w where
    w: "base58_version D a = Some w" "w = ap_p2pkh p' \<or> w = ap_p2sh p'" by (metis matches_legacy)
  from v w have "v \<in> set [ap_p2pkh p, ap_p2sh p]" "v = ap_p2pkh p' \<or> v = ap_p2sh p'" by auto
  moreover from shared_versions assms(2,4) have "(c, n) = (c', n') \<or> list_all (\<lambda>v. (v \<noteq> ap_p2pkh p' \<and> v \<noteq> ap_p2sh p')
        \<or> (v \<in> {0x6f, 0xc4} \<and> n \<noteq> ''mainnet'' \<and> n' \<noteq> ''mainnet'')) [ap_p2pkh p, ap_p2sh p]"
    unfolding list_all_iff by fastforce
  ultimately show ?thesis using assms(6) v(1) by (auto simp: list_all_iff)
qed

text \<open>
  Property C17. An address (other than the stub's placeholders) that the check accepts for a chain is accepted
  for no other: the one exception is a legacy address of a test network whose version byte, 0x6f or 0xc4,
  several test networks share. So an address accepted for a main network pays on that network alone.
\<close>

theorem address_pays_one_chain:
  assumes "base58_leads D" and "\<not> isDevMockAddress (JStr (clean_address address))"
    and "isValidAddressForChain D address coin network" and "isValidAddressForChain D address coin' network'"
    and "(coin, network) \<noteq> (coin', network')"
  shows "network \<noteq> ''mainnet'' \<and> network' \<noteq> ''mainnet''
    \<and> base58_version D (clean_address address) \<in> {Some 0x6f, Some 0xc4}"
proof -
  obtain p q where p: "((coin, network), p) \<in> set chain_rows" "matchesParams D (clean_address address) p"
    and q: "((coin', network'), q) \<in> set chain_rows" "matchesParams D (clean_address address) q"
    using assms(2-4) by (auto simp: valid_iff)
  from matches_two [OF assms(1) p q assms(5)] show ?thesis .
qed

section \<open>The verdict under the field\<close>

lemma clean_clean [simp]: "clean_address (JStr (clean_address address)) = clean_address address"
  by (cases "clean_address address = []") (simp_all add: clean_address_def js_or_def js_trim_def [of "[]"])

lemma valid_clean [simp]: "isValidAddressForChain D (JStr (clean_address address)) coin network \<longleftrightarrow> isValidAddressForChain D address coin network"
  by (simp add: isValidAddressForChain_def)

lemma any_network_iff:
  assumes "\<not> isDevMockAddress (JStr (clean_address address))"
  shows "isValidAddressAnyNetwork D address \<longleftrightarrow> (\<exists>coin network. isValidAddressForChain D address coin network)"
  using assms by (auto simp: valid_iff isValidAddressAnyNetwork_def Let_def list_ex_iff)

lemma only_one_set: "only_one (distinct_in_order xs) = Some x \<Longrightarrow> set xs = {x}"
proof -
  assume "only_one (distinct_in_order xs) = Some x"
  hence "distinct_in_order xs = [x]" by (auto simp: only_one_def split: list.splits)
  moreover have "set (distinct_in_order xs) = set xs" by (simp add: distinct_in_order_def)
  ultimately show ?thesis by simp
qed

definition hits :: "byte \<Rightarrow> (string \<times> string) list" where
  "hits v = map fst (List.filter (\<lambda>(_, params). v = ap_p2pkh params \<or> v = ap_p2sh params) chain_rows)"

lemma hits_iff: "(c, n) \<in> set (hits v) \<longleftrightarrow> (\<exists>p. ((c, n), p) \<in> set chain_rows \<and> (v = ap_p2pkh p \<or> v = ap_p2sh p))"
  by (force simp: hits_def)

text \<open>A version byte names a coin and a network, or it is one of the two shared by test networks only.\<close>

lemma version_table: "list_all (\<lambda>v.
    (only_one (distinct_in_order (map snd (hits v))) = None \<longrightarrow> v = 0x6f \<or> v = 0xc4)
    \<and> (only_one (distinct_in_order (map fst (hits v))) = None \<longrightarrow> only_one (distinct_in_order (map snd (hits v))) = None))
  (concat (map (\<lambda>(_, p). [ap_p2pkh p, ap_p2sh p]) chain_rows))"
  by code_simp

lemma shared_hits: "v = 0x6f \<or> v = 0xc4 \<Longrightarrow> {(''bitcoin'', ''testnet''), (''bitcoin'', ''regtest'')} \<subseteq> set (hits v) \<and> ''mainnet'' \<notin> snd ` set (hits v)"
  by (auto simp: hits_def rows)

lemma legacy_matches:
  "((c, n), p) \<in> set chain_rows \<Longrightarrow> \<not> has_hrp a p \<Longrightarrow> length a \<le> MAX_ADDRESS_LENGTH
    \<Longrightarrow> matchesParams D a p \<longleftrightarrow> (\<exists>v. base58_version D a = Some v \<and> (v = ap_p2pkh p \<or> v = ap_p2sh p))"
  by (auto simp: matchesParams_def split: option.splits)

text \<open>The two ways the decoding reads a chain: from the prefix, or from the version byte.\<close>

lemma detect_cases:
  assumes "base58_leads D" "clean_address address \<noteq> []"
  obtains
    (nothing) "detectAddressChain D address = None"
      "\<And>c n p. ((c, n), p) \<in> set chain_rows \<Longrightarrow> \<not> matchesParams D (clean_address address) p"
  | (prefix) c n p where "((c, n), p) \<in> set chain_rows" "matchesParams D (clean_address address) p" "has_hrp (clean_address address) p"
      "detectAddressChain D address = Some \<lparr> ac_coin = Some c, ac_network = Some n, ac_candidates = [c] \<rparr>"
  | (version) v where "base58_version D (clean_address address) = Some v" "hits v \<noteq> []"
      "\<And>c n p. ((c, n), p) \<in> set chain_rows \<Longrightarrow> matchesParams D (clean_address address) p \<longleftrightarrow> (c, n) \<in> set (hits v)"
      "detectAddressChain D address = Some \<lparr> ac_coin = only_one (distinct_in_order (map fst (hits v))),
         ac_network = only_one (distinct_in_order (map snd (hits v))), ac_candidates = distinct_in_order (map fst (hits v)) \<rparr>"
proof (cases "length (clean_address address) > MAX_ADDRESS_LENGTH")
  case True
  have "detectAddressChain D address = None" using True by (simp add: detectAddressChain_def)
  moreover have "\<not> matchesParams D (clean_address address) p" for p using True by (simp add: matchesParams_def)
  ultimately show ?thesis by (rule nothing)
next
  case short: False
  let ?a = "clean_address address"
  show ?thesis
  proof (cases "List.find (\<lambda>(_, params). has_hrp ?a params) chain_rows")
    case (Some row)
    obtain c n p where row: "row = ((c, n), p)" by (metis prod.exhaust)
    with Some have p: "((c, n), p) \<in> set chain_rows" "has_hrp ?a p"
      by (auto simp: find_Some_iff in_set_conv_nth)
    show ?thesis
    proof (cases "matchesParams D ?a p")
      case True
      with p Some row short assms(2) show ?thesis by - (rule prefix, auto simp: detectAddressChain_def Let_def)
    next
      case False
      have "\<not> matchesParams D ?a p'" if q: "((c', n'), p') \<in> set chain_rows" for c' n' p'
      proof
        assume m: "matchesParams D ?a p'"
        show False
        proof (cases "has_hrp ?a p'")
          case True
          from has_hrp_unique [OF p q True] m False show False by simp
        next
          case no: False
          from m no obtain v where "base58_version D ?a = Some v" "v = ap_p2pkh p' \<or> v = ap_p2sh p'" by (rule matches_legacy)
          from legacy_prefix [OF assms(1) p q this] m False show False by simp
        qed
      qed
      with Some row short assms(2) False show ?thesis by - (rule nothing, auto simp: detectAddressChain_def Let_def)
    qed
  next
    case None
    hence no: "\<not> has_hrp ?a p" if "((c, n), p) \<in> set chain_rows" for c n p
      using that by (auto simp: find_None_iff)
    show ?thesis
    proof (cases "base58_version D ?a")
      case none: None
      with None short assms(2) show ?thesis
        by - (rule nothing, auto simp: detectAddressChain_def Let_def legacy_matches no)
    next
      case (Some v)
      have m: "matchesParams D ?a p \<longleftrightarrow> (c, n) \<in> set (hits v)" if r: "((c, n), p) \<in> set chain_rows" for c n p
      proof -
        have same: "p = p'" if "((c, n), p') \<in> set chain_rows" for p'
          using rows_by_name r that unfolding list_all_iff by fastforce
        have "matchesParams D ?a p \<longleftrightarrow> v = ap_p2pkh p \<or> v = ap_p2sh p"
          using legacy_matches [OF r no [OF r]] short Some by simp
        also have "\<dots> \<longleftrightarrow> (c, n) \<in> set (hits v)" unfolding hits_iff using r same by blast
        finally show ?thesis .
      qed
      show ?thesis
      proof (cases "hits v = []")
        case True
        have "detectAddressChain D address = None"
          using True None Some short assms(2) by (simp add: detectAddressChain_def Let_def hits_def)
        moreover have "\<not> matchesParams D ?a p" if "((c, n), p) \<in> set chain_rows" for c n p
          using m [OF that] True by simp
        ultimately show ?thesis by (rule nothing)
      next
        case False
        hence "detectAddressChain D address = Some \<lparr> ac_coin = only_one (distinct_in_order (map fst (hits v))),
           ac_network = only_one (distinct_in_order (map snd (hits v))), ac_candidates = distinct_in_order (map fst (hits v)) \<rparr>"
          using None Some short assms(2) by (simp add: detectAddressChain_def Let_def hits_def)
        from version [OF Some False m this] show ?thesis .
      qed
    qed
  qed
qed

text \<open>
  The message under an address field is true. No message means the address is valid for the
  chain (or nothing was entered). The message that names another chain names the only chain the address is
  valid for; the one about test networks appears when the address is valid on several of them and on no main
  network; a typo, or no address at all, is reported only for a string that no supported chain accepts.
\<close>

lemma address_verdict_is_right:
  assumes "base58_leads D" and "clean_address address \<noteq> []" and "coin \<noteq> []" and "network \<noteq> []"
  shows "case addressValidationError D address (Some (coin, network)) of
      None \<Rightarrow> isValidAddressForChain D address coin network
    | Some Payment_link \<Rightarrow> \<not> isValidAddressForChain D address coin network
    | Some (Other_chain c n) \<Rightarrow> (c, n) \<noteq> (coin, network)
        \<and> (\<forall>c' n'. isValidAddressForChain D address c' n' \<longleftrightarrow> (c', n') = (c, n))
    | Some Test_network \<Rightarrow> \<not> isValidAddressForChain D address coin network
        \<and> (\<exists>c. isValidAddressForChain D address c ''testnet'') \<and> (\<exists>c. isValidAddressForChain D address c ''regtest'')
        \<and> (\<forall>c. \<not> isValidAddressForChain D address c ''mainnet'')
    | Some Mistyped \<Rightarrow> \<not> isValidAddressAnyNetwork D address
    | Some No_address \<Rightarrow> \<not> isValidAddressAnyNetwork D address"
proof (cases "isValidAddressForChain D address coin network")
  case True
  thus ?thesis using assms by (simp add: addressValidationError_def)
next
  case bad: False
  hence mock: "\<not> isDevMockAddress (JStr (clean_address address))" using assms(2) by (auto simp: isValidAddressForChain_def Let_def)
  note valid = valid_iff [OF mock]
  have clean: "detectAddressChain D (JStr (clean_address address)) = detectAddressChain D address"
    by (simp add: detectAddressChain_def)
  show ?thesis
  proof (cases "is_payment_link (clean_address address)")
    case True
    thus ?thesis using bad assms(2-4) by (simp add: addressValidationError_def Let_def)
  next
    case link: False
    note verdict = addressValidationError_def [of D address "Some (coin, network)"]
    show ?thesis
    proof (cases rule: detect_cases [OF assms(1,2)])
      case nothing: 1
      thus ?thesis using bad assms(2-4) link by (simp add: verdict Let_def clean any_network_iff [OF mock] valid)
    next
      case prefix: (2 c n p)
      have "isValidAddressForChain D address c' n' \<longleftrightarrow> (c', n') = (c, n)" for c' n'
      proof
        assume "isValidAddressForChain D address c' n'"
        then obtain q where q: "((c', n'), q) \<in> set chain_rows" "matchesParams D (clean_address address) q" by (auto simp: valid)
        show "(c', n') = (c, n)"
        proof (rule ccontr)
          assume "(c', n') \<noteq> (c, n)"
          hence "(c, n) \<noteq> (c', n')" by auto
          from matches_two [OF assms(1) prefix(1,2) q this] obtain v where "base58_version D (clean_address address) = Some v"
            "v = 0x6f \<or> v = 0xc4" by auto
          moreover obtain cs where "leaders v = Some cs" "set cs \<subseteq> set ''mn2''"
            using \<open>v = 0x6f \<or> v = 0xc4\<close> by (auto simp: leaders_def)
          ultimately have "hd (clean_address address) \<in> set ''mn2''" using assms(1) by (auto simp: base58_leads_def)
          hence "hd (clean_address address) \<in> set ''13mn2LMD9A''" "hd (clean_address address) \<noteq> CHR ''L''" by auto
          with has_hrp_first [OF prefix(1,3)] low_char_first [of "hd (clean_address address)"]
            low_char_l [of "hd (clean_address address)"] show False by blast
        qed
      next
        assume "(c', n') = (c, n)"
        thus "isValidAddressForChain D address c' n'" using prefix(1,2) assms(2) by (auto simp: valid)
      qed
      thus ?thesis using bad assms(2-4) link prefix(4) by (auto simp: verdict Let_def clean)
    next
      case version: (3 v)
      have iff: "isValidAddressForChain D address c n \<longleftrightarrow> (c, n) \<in> set (hits v)" for c n
      proof -
        have "isValidAddressForChain D address c n
            \<longleftrightarrow> (\<exists>p. ((c, n), p) \<in> set chain_rows \<and> matchesParams D (clean_address address) p)"
          using assms(2) by (simp add: valid)
        also have "\<dots> \<longleftrightarrow> (\<exists>p. ((c, n), p) \<in> set chain_rows) \<and> (c, n) \<in> set (hits v)" using version(3) by blast
        also have "\<dots> \<longleftrightarrow> (c, n) \<in> set (hits v)" by (auto simp: hits_iff)
        finally show ?thesis .
      qed
      have "v \<in> set (concat (map (\<lambda>(_, p). [ap_p2pkh p, ap_p2sh p]) chain_rows))"
        using version(2) by (auto simp: hits_def filter_empty_conv)
      from version_table [unfolded list_all_iff, rule_format, OF this]
      have table: "only_one (distinct_in_order (map snd (hits v))) = None \<longrightarrow> v = 0x6f \<or> v = 0xc4"
        "only_one (distinct_in_order (map fst (hits v))) = None \<longrightarrow> only_one (distinct_in_order (map snd (hits v))) = None" by auto
      show ?thesis
      proof (cases "only_one (distinct_in_order (map snd (hits v)))")
        case None
        with table(1) shared_hits have "{(''bitcoin'', ''testnet''), (''bitcoin'', ''regtest'')} \<subseteq> set (hits v)"
          "''mainnet'' \<notin> snd ` set (hits v)" by blast+
        hence "(\<exists>c. (c, ''testnet'') \<in> set (hits v)) \<and> (\<exists>c. (c, ''regtest'') \<in> set (hits v)) \<and> (\<forall>c. (c, ''mainnet'') \<notin> set (hits v))"
          by force
        thus ?thesis using bad assms(2-4) link version(4) None
          by (simp add: verdict Let_def clean iff split: option.split)
      next
        case (Some n)
        with table(2) obtain c where c: "only_one (distinct_in_order (map fst (hits v))) = Some c" by fastforce
        from only_one_set [OF Some] only_one_set [OF c] have "set (hits v) = {(c, n)}"
          using version(2) by (fastforce simp: set_eq_iff image_iff neq_Nil_conv)
        thus ?thesis using bad assms(2-4) link version(4) Some c
          by (auto simp: verdict Let_def clean iff)
      qed
    qed
  qed
qed

section \<open>Samples\<close>

text \<open>A decoder that knows two strings: a legacy address of Bitcoin, and one that test networks share.\<close>

definition sample_main :: string where
  "sample_main = ''16L5yRNPTuciSgXGHqYwn9N6NeoKqopAu''"

definition sample_test :: string where
  "sample_test = ''mfcHP2WMCVLsVZA8yrovmhMgxNFW9r98xw''"

definition sample_decoders :: address_decoders where
  "sample_decoders = \<lparr> ad_base58 = map_of [(sample_main, 0x00 # map of_nat [1..<21]), (sample_test, 0x6f # map of_nat [1..<21])],
     ad_bech32 = (\<lambda>_. None), ad_bech32m = (\<lambda>_. None), ad_words = (\<lambda>_. None) \<rparr>"

lemma sample_leads: "base58_leads sample_decoders"
  by (auto simp: base58_leads_def base58_version_def sample_decoders_def sample_main_def sample_test_def leaders_def
      split: option.splits list.splits if_splits)

lemma sample_clean: "clean_address (JStr sample_main) = sample_main" "clean_address (JStr sample_test) = sample_test"
  by code_simp+

lemma sample_not_mock: "\<not> isDevMockAddress (JStr sample_test)" "\<not> isDevMockAddress (JStr sample_main)"
  by code_simp+

lemma sample_valid_on:
  "isValidAddressForChain sample_decoders (JStr sample_test) ''litecoin'' ''testnet''"
  "isValidAddressForChain sample_decoders (JStr sample_test) ''bitcoin'' ''regtest''"
  by code_simp+

theorem address_pays_one_chain_witness:
  "base58_version sample_decoders sample_test \<in> {Some 0x6f, Some 0xc4}"
  using address_pays_one_chain [OF sample_leads _ sample_valid_on] sample_not_mock(1) by (simp add: sample_clean)

section \<open>A Litecoin address that is refused\<close>

text \<open>
  Legacy Litecoin addresses begin with L, and about one in thirty thousand begins with LTC1 or LTc1. Such a
  string is taken for a Bech32 address before it is decoded, and refused for its mixed case, whatever its
  version byte and checksum say; the message calls it a typo.
\<close>

definition ltc1_address :: string where
  "ltc1_address = ''LTc1g6Sg8uMKSxEobXW5kpuyRCihASb4HE''"

lemma ltc1_address_refused:
  assumes "ad_base58 D ltc1_address = Some (0x30 # map of_nat [0x5b, 0xed, 0x01, 0x63, 0x04, 0x17, 0xb0, 0xb8, 0xd1, 0x8b, 0x68,
      0x91, 0x2a, 0x4d, 0x81, 0x8b, 0x5a, 0x59, 0x9d, 0x39])"
  shows "base58_version D ltc1_address = Some 0x30" "params_of ''litecoin'' ''mainnet'' = Some \<lparr> ap_p2pkh = 0x30, ap_p2sh = 0x32, ap_hrp = Some ''ltc'' \<rparr>"
    "\<not> isValidAddressForChain D (JStr ltc1_address) ''litecoin'' ''mainnet''"
    "addressValidationError D (JStr ltc1_address) (Some (''litecoin'', ''mainnet'')) = Some Mistyped"
proof -
  show "base58_version D ltc1_address = Some 0x30" using assms by (simp add: base58_version_def)
  show p: "params_of ''litecoin'' ''mainnet'' = Some \<lparr> ap_p2pkh = 0x30, ap_p2sh = 0x32, ap_hrp = Some ''ltc'' \<rparr>" by code_simp
  have clean: "clean_address (JStr ltc1_address) = ltc1_address" by code_simp
  have mock: "\<not> isDevMockAddress (JStr ltc1_address)" by code_simp
  have shape: "has_hrp ltc1_address \<lparr> ap_p2pkh = 0x30, ap_p2sh = 0x32, ap_hrp = Some ''ltc'' \<rparr>"
    "ltc1_address \<noteq> js_lower ltc1_address" "ltc1_address \<noteq> js_upper ltc1_address" "ltc1_address \<noteq> []"
    "length ltc1_address \<le> MAX_ADDRESS_LENGTH" "\<not> is_payment_link ltc1_address" "looksLikeAddress ltc1_address"
    by code_simp+
  have no: "\<not> matchesParams D ltc1_address \<lparr> ap_p2pkh = 0x30, ap_p2sh = 0x32, ap_hrp = Some ''ltc'' \<rparr>"
    using shape by (simp add: matchesParams_def)
  show bad: "\<not> isValidAddressForChain D (JStr ltc1_address) ''litecoin'' ''mainnet''"
    using mock no p by (simp add: isValidAddressForChain_def clean)
  have find: "List.find (\<lambda>(_, params). has_hrp ltc1_address params) chain_rows
      = Some ((''litecoin'', ''mainnet''), \<lparr> ap_p2pkh = 0x30, ap_p2sh = 0x32, ap_hrp = Some ''ltc'' \<rparr>)" by code_simp
  have "detectAddressChain D (JStr ltc1_address) = None"
    using find no shape by (simp add: detectAddressChain_def clean)
  thus "addressValidationError D (JStr ltc1_address) (Some (''litecoin'', ''mainnet'')) = Some Mistyped"
    using bad shape by (simp add: addressValidationError_def clean)
qed

section \<open>Placeholders pass for every chain\<close>

lemma placeholder_accepted:
  "isDevMockAddress (JStr (clean_address address)) \<Longrightarrow> clean_address address \<noteq> []
    \<Longrightarrow> isValidAddressForChain D address coin network"
  by (simp add: isValidAddressForChain_def)

end
