(* ===== verification/Native_Payment.thy ===== *)
theory Native_Payment
  imports Decimal_Strings
begin

text \<open>
  A plain payment in a chain's own coin: \<^verbatim>\<open>core/src/flows/nativePayment.js\<close>, with the ticker of a coin
  from \<^verbatim>\<open>core/src/registry/coinTicker.js\<close> and the refusal of other actions before the mainnet launch,
  \<^verbatim>\<open>core/src/flows/mainnetPrelaunch.js\<close>. Such a payment drops the action text from its transaction and
  pays by an output, so the two decisions must agree.
\<close>

section \<open>The payment output\<close>

text \<open>Of the coin table only the tickers.\<close>

definition tickerForCoin :: "js \<Rightarrow> string" where
  "tickerForCoin coin = (let key = js_lower (js_text (js_or coin (JStr ''''))) in
     case map_of [(''bitcoin'', ''BTC''), (''litecoin'', ''LTC''), (''dogecoin'', ''DOGE'')] key of
       Some t \<Rightarrow> t | None \<Rightarrow> js_upper key)"

definition sats_of :: "string \<Rightarrow> string \<Rightarrow> nat" where
  "sats_of i f = dec_nat i * 10 ^ 8 + dec_nat (pad_end 8 CHR ''0'' (take 8 f))"

definition satsStringFromDecimal :: "js \<Rightarrow> string option" where
  "satsStringFromDecimal raw =
     (let s = js_trim (js_text raw); i = takeWhile is_digit s in
      case dropWhile is_digit s of
        [] \<Rightarrow> if i = [] then None else Some (nat_text (sats_of i []))
      | c # f \<Rightarrow> if c = CHR ''.'' \<and> f \<noteq> [] \<and> list_all is_digit f then Some (nat_text (sats_of i f)) else None)"

record payment_output =
  po_address :: string
  po_value :: string

definition nativePaymentOutput :: "js \<Rightarrow> js \<Rightarrow> js \<Rightarrow> js \<Rightarrow> payment_output option" where
  "nativePaymentOutput tick amount destination descriptor =
     (if \<not> js_truthy (js_get descriptor ''coin'') \<or> \<not> js_truthy tick \<or> \<not> js_truthy destination then None
      else if js_upper (js_trim (js_text tick)) \<noteq> tickerForCoin (js_get descriptor ''coin'') then None
      else (case satsStringFromDecimal amount of
          None \<Rightarrow> None
        | Some v \<Rightarrow> if v = ''0'' then None else Some \<lparr> po_address = js_trim (js_text destination), po_value = v \<rparr>))"

definition action_params :: "js \<Rightarrow> js" where
  "action_params actionData = js_or (js_get actionData ''params'') (JObj [])"

text \<open>The output an action's parameters ask for, as the three callers of the module read them.\<close>

definition action_output :: "js \<Rightarrow> js \<Rightarrow> payment_output option" where
  "action_output actionData descriptor = (let p = action_params actionData in
     nativePaymentOutput (js_get p ''TICK'') (js_get p ''AMOUNT'') (js_get p ''DESTINATION'') descriptor)"

definition isBareNativePayment :: "js \<Rightarrow> js \<Rightarrow> bool" where
  "isBareNativePayment actionData descriptor \<longleftrightarrow>
     js_truthy actionData \<and> js_truthy (js_get descriptor ''coin'')
     \<and> js_upper (js_text (js_or (js_get actionData ''action'') (JStr ''''))) = ''SEND''
     \<and> (case js_get actionData ''rest'' of JArr (_ # _) \<Rightarrow> False | _ \<Rightarrow> True)
     \<and> (let params = action_params actionData; nativeTicker = tickerForCoin (js_get descriptor ''coin'') in
          nativeTicker \<noteq> []
          \<and> js_upper (js_trim (js_text (js_or (js_get params ''TICK'') (JStr '''')))) = nativeTicker
          \<and> (is_nullish (js_get params ''MEMO'') \<or> js_text (js_get params ''MEMO'') = [])
          \<and> action_output actionData descriptor \<noteq> None)"

definition hasOutput :: "js \<Rightarrow> payment_output \<Rightarrow> bool" where
  "hasOutput customOutputs out = (case customOutputs of
     JArr os \<Rightarrow> list_ex (\<lambda>v. js_text (js_get v ''address'') = po_address out \<and> js_text (js_get v ''value'') = po_value out) os
   | _ \<Rightarrow> False)"

definition outputs_of :: "js \<Rightarrow> js list" where
  "outputs_of encoderOpts = (case js_get encoderOpts ''customOutputs'' of JArr os \<Rightarrow> os | _ \<Rightarrow> [])"

definition output_js :: "payment_output \<Rightarrow> js" where
  "output_js out = JObj [(''address'', JStr (po_address out)), (''value'', JStr (po_value out))]"

definition withNativePaymentOutput :: "js \<Rightarrow> js \<Rightarrow> js \<Rightarrow> js" where
  "withNativePaymentOutput actionData descriptor encoderOpts =
     (case action_output actionData descriptor of
        None \<Rightarrow> encoderOpts
      | Some out \<Rightarrow>
          if hasOutput (js_get encoderOpts ''customOutputs'') out then encoderOpts
          else js_put (if is_plain_object encoderOpts then encoderOpts else JObj []) ''customOutputs''
                 (JArr (outputs_of encoderOpts @ [output_js out])))"

definition hasNativePaymentOutput :: "js \<Rightarrow> js \<Rightarrow> js \<Rightarrow> bool" where
  "hasNativePaymentOutput actionData descriptor encoderOpts =
     (case action_output actionData descriptor of
        None \<Rightarrow> False
      | Some out \<Rightarrow> hasOutput (js_get encoderOpts ''customOutputs'') out)"

section \<open>Before the launch\<close>

definition MAINNET_LAUNCH_EPOCH :: nat where
  "MAINNET_LAUNCH_EPOCH = 1798761600"

definition isMainnetChainId :: "string \<Rightarrow> bool" where
  "isMainnetChainId chainId \<longleftrightarrow> starts_with (rev ''-mainnet'') (rev chainId)"

text \<open>Whether the action may be submitted at a time in milliseconds; the refusal names the chain.\<close>

definition assertMainnetActionAllowed :: "string \<Rightarrow> js \<Rightarrow> js \<Rightarrow> rat \<Rightarrow> string option" where
  "assertMainnetActionAllowed chainId actionData descriptor now =
     (if \<not> isMainnetChainId chainId then None
      else if now \<ge> of_nat (MAINNET_LAUNCH_EPOCH * 1000) then None
      else if isBareNativePayment actionData descriptor then None
      else Some chainId)"

section \<open>The output pays what the action says\<close>

text \<open>The coins an amount text stands for; the whole part may be missing.\<close>

definition coin_value :: "js \<Rightarrow> rat option" where
  "coin_value raw = (let s = js_trim (js_text raw) in
     if s \<noteq> [] \<and> hd s = CHR ''.'' then plain_value (CHR ''0'' # s) else plain_value s)"

lemma dec_nat_less: "list_all is_digit s \<Longrightarrow> dec_nat s < 10 ^ length s"
proof (induction s rule: rev_induct)
  case (snoc c s)
  then have "dec_nat s < 10 ^ length s" "digit_val c < 10" by (auto dest: digit_val_less)
  then show ?case by (simp add: dec_nat_snoc)
qed simp

lemma floor_of_nat_div: "\<lfloor>(of_nat m :: rat) / of_nat n\<rfloor> = int (m div n)"
  using floor_divide_of_nat_eq [of m n, where ?'a = rat] by simp

lemma sats_of_floor:
  assumes "list_all is_digit f"
  shows "int (sats_of i f) = \<lfloor>10 ^ 8 * dec_val (int (dec_nat (i @ f))) (length f)\<rfloor>"
proof (cases "length f \<le> 8")
  case True
  then have "(10 :: nat) ^ 8 = 10 ^ length f * 10 ^ (8 - length f)" by (simp only: flip: power_add) simp
  then have "sats_of i f = dec_nat (i @ f) * 10 ^ (8 - length f)"
    using True by (simp only: sats_of_def dec_nat_pad_end dec_nat_append take_all) (simp add: algebra_simps)
  then have "dec_val (int (sats_of i f)) 8 = dec_val (int (dec_nat (i @ f))) (length f)"
    using dec_val_rescale_to [OF True, of "int (dec_nat (i @ f))"] by simp
  then have "10 ^ 8 * dec_val (int (dec_nat (i @ f))) (length f) = of_int (int (sats_of i f))"
    by (simp add: dec_val_def field_simps flip: power_numeral)
  then show ?thesis by simp
next
  case False
  define n where "n = length f - 8"
  have f: "f = take 8 f @ drop 8 f" "length (drop 8 f) = n" "length (take 8 f) = 8" "length f = 8 + n"
    using False by (auto simp: n_def)
  have d: "dec_nat (i @ f) = dec_nat (i @ take 8 f) * 10 ^ n + dec_nat (drop 8 f)"
    using dec_nat_append [of "i @ take 8 f" "drop 8 f"] f(2) by simp
  have "dec_nat (drop 8 f) < 10 ^ n"
    using dec_nat_less [OF list_all_drop [OF assms], of 8] f(2) by simp
  then have "dec_nat (i @ f) div 10 ^ n = dec_nat (i @ take 8 f)" by (simp add: d)
  moreover have "sats_of i f = dec_nat (i @ take 8 f)"
    using f(3) by (simp add: sats_of_def pad_end_def dec_nat_append)
  moreover have "10 ^ 8 * dec_val (int (dec_nat (i @ f))) (length f) = of_nat (dec_nat (i @ f)) / of_nat (10 ^ n)"
    by (simp add: dec_val_def f(4) power_add)
  ultimately show ?thesis by (simp only: floor_of_nat_div)
qed

lemma sats_string_parts:
  assumes "satsStringFromDecimal raw = Some v"
  obtains i f where "list_all is_digit f" "v = nat_text (sats_of i f)"
    "coin_value raw = Some (dec_val (int (dec_nat (i @ f))) (length f))"
proof -
  define s where "s = js_trim (js_text raw)"
  define i where "i = takeWhile is_digit s"
  define r where "r = dropWhile is_digit s"
  have s: "s = i @ r" by (simp add: i_def r_def)
  have i: "list_all is_digit i" by (auto simp: i_def list_all_iff dest: set_takeWhileD)
  have nodot: "\<not> is_digit CHR ''.''" by (simp add: is_digit_def)
  have *: "(case r of [] \<Rightarrow> if i = [] then None else Some (nat_text (sats_of i []))
      | c # f \<Rightarrow> if c = CHR ''.'' \<and> f \<noteq> [] \<and> list_all is_digit f then Some (nat_text (sats_of i f)) else None) = Some v"
    using assms by (simp only: satsStringFromDecimal_def Let_def s_def i_def r_def)
  have ne: "plain_value (i @ t) = coin_value raw" if "i \<noteq> []" "s = i @ t" for t
    using that i nodot by (cases i) (auto simp: coin_value_def Let_def s_def [symmetric])
  show thesis
  proof (cases r)
    case Nil
    with * i ne [of "[]"] s show thesis
      by (intro that [of "[]" i]) (auto simp: plain_value_digits dec_val_def split: if_splits)
  next
    case (Cons c f)
    with * have c: "c = CHR ''.''" and f: "list_all is_digit f" "f \<noteq> []" and v: "v = nat_text (sats_of i f)"
      by (auto split: if_splits)
    have j: "plain_value (w @ CHR ''.'' # f) = Some (dec_val (int (dec_nat (w @ f))) (length f))"
      if "list_all is_digit w" "w \<noteq> []" for w
      using plain_value_join [OF that f(1)] f(2) by (simp add: join_point_def)
    have "coin_value raw = Some (dec_val (int (dec_nat (i @ f))) (length f))"
    proof (cases "i = []")
      case True
      then have "js_trim (js_text raw) = CHR ''.'' # f" using s Cons c by (simp add: s_def)
      with True j [of "''0''"] show ?thesis
        using dec_nat_append [of "''0''" f] by (simp add: coin_value_def dec_nat_def digit_val_def)
    next
      case False
      with ne [OF False] j [OF i False] s Cons c show ?thesis by simp
    qed
    with f v show thesis by (intro that)
  qed
qed

lemma hasOutput_added [simp]: "hasOutput (JArr (os @ [output_js out])) out"
  by (simp add: hasOutput_def output_js_def)

lemma with_output_has: "action_output a d = Some out \<Longrightarrow> hasOutput (js_get (withNativePaymentOutput a d opts) ''customOutputs'') out"
  by (auto simp: withNativePaymentOutput_def js_get_put)

lemma with_output_outputs:
  "action_output a d = Some out \<Longrightarrow>
   outputs_of (withNativePaymentOutput a d opts) = outputs_of opts @
     (if hasOutput (js_get opts ''customOutputs'') out then [] else [output_js out])"
  by (auto simp: withNativePaymentOutput_def outputs_of_def js_get_put)

lemma nativePaymentOutput_Some:
  assumes "nativePaymentOutput t a dest d = Some out"
  shows "satsStringFromDecimal a = Some (po_value out)" "po_value out \<noteq> ''0''" "po_address out = js_trim (js_text dest)"
  using assms by (auto simp: nativePaymentOutput_def split: if_splits option.splits)

lemma nat_text_zero: "nat_text 0 = ''0''"
  by (simp add: nat_text.simps digit_char_def)

text \<open>
  Property C23. Dropping the action text of a plain coin payment and adding its output are one decision: when the
  action is judged a plain payment, folding the payment in leaves exactly the outputs the caller had and, unless
  it was among them, one more to the trimmed destination. Its value is the amount rounded down to the base unit,
  and positive; folding it in again changes nothing.
\<close>

theorem bare_payment_pays:
  assumes "isBareNativePayment action descriptor"
  shows "\<exists>out x sats. action_output action descriptor = Some out
    \<and> coin_value (js_get (action_params action) ''AMOUNT'') = Some x
    \<and> po_value out = nat_text sats \<and> int sats = \<lfloor>10 ^ 8 * x\<rfloor> \<and> 0 < sats
    \<and> po_address out = js_trim (js_text (js_get (action_params action) ''DESTINATION''))
    \<and> hasNativePaymentOutput action descriptor (withNativePaymentOutput action descriptor opts)
    \<and> outputs_of (withNativePaymentOutput action descriptor opts) = outputs_of opts @
        (if hasNativePaymentOutput action descriptor opts then [] else [output_js out])
    \<and> withNativePaymentOutput action descriptor (withNativePaymentOutput action descriptor opts)
        = withNativePaymentOutput action descriptor opts"
proof -
  obtain out where out: "action_output action descriptor = Some out"
    using assms by (auto simp: isBareNativePayment_def Let_def)
  note o = nativePaymentOutput_Some [OF out [unfolded action_output_def Let_def]]
  obtain i f where f: "list_all is_digit f" "po_value out = nat_text (sats_of i f)"
    and x: "coin_value (js_get (action_params action) ''AMOUNT'') = Some (dec_val (int (dec_nat (i @ f))) (length f))"
    using sats_string_parts [OF o(1)] by blast
  have "0 < sats_of i f" using o(2) f(2) by (cases "sats_of i f") (auto simp: nat_text_zero)
  moreover have "withNativePaymentOutput action descriptor (withNativePaymentOutput action descriptor opts)
      = withNativePaymentOutput action descriptor opts"
    by (subst withNativePaymentOutput_def) (simp add: out with_output_has [OF out])
  ultimately show ?thesis
    using out f x sats_of_floor [OF f(1), of i] o(3) with_output_has [OF out] with_output_outputs [OF out]
    by (intro exI [of _ out] exI [of _ "dec_val (int (dec_nat (i @ f))) (length f)"] exI [of _ "sats_of i f"])
      (simp add: hasNativePaymentOutput_def)
qed

definition sample_payment :: js where
  "sample_payment = JObj [(''action'', JStr ''send''), (''params'', JObj [(''TICK'', JStr '' btc ''),
     (''AMOUNT'', JStr ''.500000019''), (''DESTINATION'', JStr ''bc1q '')])]"

theorem bare_payment_pays_witness:
  "\<exists>out (x :: rat) sats. action_output sample_payment (JObj [(''coin'', JStr ''bitcoin'')]) = Some out
    \<and> po_value out = nat_text sats \<and> int sats = \<lfloor>10 ^ 8 * x\<rfloor> \<and> (0 :: nat) < sats \<and> po_address out = ''bc1q''"
proof -
  have "takeWhile is_digit ''.500000019'' = ''''" "dropWhile is_digit ''.500000019'' = ''.500000019''"
    "js_trim ''.500000019'' = ''.500000019''" "list_all is_digit ''500000019''"
    "js_trim ''bc1q '' = ''bc1q''" "js_upper (js_trim '' btc '') = ''BTC''" by code_simp+
  moreover have "sats_of '''' ''500000019'' = 50000001" by (simp add: sats_of_def pad_end_def dec_nat_def digit_val_def)
  moreover have "tickerForCoin (JStr ''bitcoin'') = ''BTC''" "js_upper ''send'' = ''SEND''" by code_simp+
  ultimately have "isBareNativePayment sample_payment (JObj [(''coin'', JStr ''bitcoin'')])"
    by (simp add: isBareNativePayment_def sample_payment_def js_or_def action_output_def action_params_def
        nativePaymentOutput_def satsStringFromDecimal_def nat_text.simps)
  from bare_payment_pays [OF this, of Undef] obtain out and x :: rat and sats :: nat where
    "action_output sample_payment (JObj [(''coin'', JStr ''bitcoin'')]) = Some out"
    "po_value out = nat_text sats" "int sats = \<lfloor>10 ^ 8 * x\<rfloor>" "0 < sats"
    "po_address out = js_trim (js_text (js_get (action_params sample_payment) ''DESTINATION''))" by blast
  moreover have "js_trim (js_text (js_get (action_params sample_payment) ''DESTINATION'')) = ''bc1q''" by code_simp
  ultimately show ?thesis by (intro exI [of _ out] exI [of _ x] exI [of _ sats]) simp
qed

text \<open>Before the launch only plain payments reach a main chain.\<close>

lemma prelaunch_only_payments:
  "assertMainnetActionAllowed chainId action descriptor now = None \<Longrightarrow> isMainnetChainId chainId
   \<Longrightarrow> now < of_nat (MAINNET_LAUNCH_EPOCH * 1000) \<Longrightarrow> isBareNativePayment action descriptor"
  by (auto simp: assertMainnetActionAllowed_def split: if_splits)

end
