(* ===== verification/Coinpay_Payment.thy ===== *)
theory Coinpay_Payment
  imports Autopay_Policy Coinpay_Pending Address_Validation Native_Payment "HOL-Library.Multiset"
begin

text \<open>
  Paying an obligation: the reads of \<^verbatim>\<open>core/src/flows/coinpayQueries.js\<close> with their batching, the
  check of an obligation just before it is signed, and \<^verbatim>\<open>core/src/flows/coinpayAction.js\<close> up to the request
  it hands to the submission flow. What the explorer, the vault and the registry answer are arguments.
\<close>

section \<open>Batched reads\<close>

definition COINPAY_BATCH_MAX_ADDRESSES :: nat where
  "COINPAY_BATCH_MAX_ADDRESSES = 20"

text \<open>
  A caller waits under a number of its own. A window collects the callers of one SDK instance and one chain
  until its timer fires; an answer is the explorer's reply or the error the caller is rejected with.
\<close>

record coinpay_caller =
  cc_id :: nat
  cc_address :: string

record coin_window =
  cw_sdk :: nat
  cw_chain :: string
  cw_callers :: "coinpay_caller list"
  cw_opts :: js
  cw_fresh :: bool

record coin_sdk =
  cs_has_batch :: bool
  cs_one :: "string \<Rightarrow> js \<Rightarrow> js + js"
  cs_batch :: "string list \<Rightarrow> js \<Rightarrow> js + js"

record batching =
  bt_windows :: "coin_window list"
  bt_unsupported :: "nat list"
  bt_answers :: "(nat \<times> (js + js)) list"

definition isBatchUnsupportedError :: "js \<Rightarrow> bool" where
  "isBatchUnsupportedError e \<longleftrightarrow> js_truthy e \<and> js_get e ''code'' \<in> {JStr ''EXPLORER_BATCH_UNSUPPORTED'', JStr ''EXPLORER_HTTP_404''}"

definition isBatchShape :: "js \<Rightarrow> string \<Rightarrow> bool" where
  "isBatchShape resp firstAddress \<longleftrightarrow> (case resp of JObj kvs \<Rightarrow> map_of kvs firstAddress \<noteq> None | _ \<Rightarrow> False)"

definition bodyOrThrow :: "js \<Rightarrow> string \<Rightarrow> js + js" where
  "bodyOrThrow slot address =
     (if js_truthy slot \<and> \<not> is_nullish (js_get slot ''coinpay_obligations'') then Inr (js_get slot ''coinpay_obligations'')
      else let err = js_get slot ''error'' in
        Inl (JObj ((''message'', JStr (js_text (js_or (js_get err ''error'') (JStr (''no coinpay batch result for '' @ address)))))
          # (case js_get err ''code'' of JStr c \<Rightarrow> [(''code'', JStr c)] | _ \<Rightarrow> [])
          @ (if is_nullish (js_get err ''status'') then [] else [(''status'', js_get err ''status'')]))))"

definition fallBack :: "coin_sdk \<Rightarrow> js \<Rightarrow> coinpay_caller list \<Rightarrow> (nat \<times> (js + js)) list" where
  "fallBack sdk opts callers = map (\<lambda>c. (cc_id c, cs_one sdk (cc_address c) opts)) callers"

text \<open>One request for the callers of a chunk; the second component says whether the instance is remembered as one without the batch route.\<close>

definition runCoinpayChunk :: "coin_sdk \<Rightarrow> js \<Rightarrow> coinpay_caller list \<Rightarrow> (nat \<times> (js + js)) list \<times> bool" where
  "runCoinpayChunk sdk opts callers =
     (case cs_batch sdk (distinct_in_order (map cc_address callers)) opts of
        Inl e \<Rightarrow> if isBatchUnsupportedError e then (fallBack sdk opts callers, True)
                 else (map (\<lambda>c. (cc_id c, Inl e)) callers, False)
      | Inr resp \<Rightarrow>
          if \<not> isBatchShape resp (cc_address (hd callers)) then (fallBack sdk opts callers, True)
          else (map (\<lambda>c. (cc_id c, bodyOrThrow (js_get resp (cc_address c)) (cc_address c))) callers, False))"

fun chunks :: "nat \<Rightarrow> 'a list \<Rightarrow> 'a list list" where
  "chunks n [] = []"
| "chunks n (x # xs) = (if n = 0 then [] else take n (x # xs) # chunks n (drop n (x # xs)))"

definition with_fresh :: "js \<Rightarrow> js" where
  "with_fresh opts = js_put (js_or opts (JObj [])) ''fresh'' (JBool True)"

definition window_opts :: "coin_window \<Rightarrow> js" where
  "window_opts w = (if cw_fresh w then with_fresh (cw_opts w) else cw_opts w)"

definition flushWindow :: "(nat \<Rightarrow> coin_sdk) \<Rightarrow> coin_window \<Rightarrow> batching \<Rightarrow> batching" where
  "flushWindow sdks w b =
     (let runs = map (runCoinpayChunk (sdks (cw_sdk w)) (window_opts w)) (chunks COINPAY_BATCH_MAX_ADDRESSES (cw_callers w)) in
      b\<lparr>bt_windows := remove1 w (bt_windows b),
        bt_unsupported := (if list_ex snd runs then cw_sdk w # bt_unsupported b else bt_unsupported b),
        bt_answers := bt_answers b @ concat (map fst runs)\<rparr>)"

fun join_window :: "nat \<Rightarrow> string \<Rightarrow> coinpay_caller \<Rightarrow> js \<Rightarrow> bool \<Rightarrow> coin_window list \<Rightarrow> coin_window list" where
  "join_window sdk chain c opts fresh [] =
     [\<lparr> cw_sdk = sdk, cw_chain = chain, cw_callers = [c], cw_opts = opts, cw_fresh = fresh \<rparr>]"
| "join_window sdk chain c opts fresh (w # ws) =
     (if cw_sdk w = sdk \<and> cw_chain w = chain
      then w\<lparr>cw_callers := cw_callers w @ [c], cw_fresh := cw_fresh w \<or> fresh\<rparr> # ws
      else w # join_window sdk chain c opts fresh ws)"

text \<open>A call; the registry names the SDK instance of a chain.\<close>

definition getCoinpayObligationsForAddress ::
  "(string \<Rightarrow> nat) \<Rightarrow> (nat \<Rightarrow> coin_sdk) \<Rightarrow> string \<Rightarrow> coinpay_caller \<Rightarrow> js \<Rightarrow> bool \<Rightarrow> batching \<Rightarrow> batching" where
  "getCoinpayObligationsForAddress registry sdks chainId c opts fresh b =
     (if chainId = [] then b\<lparr>bt_answers := bt_answers b @ [(cc_id c, Inl (JStr ''chainId is required''))]\<rparr>
      else if cc_address c = [] then b\<lparr>bt_answers := bt_answers b @ [(cc_id c, Inl (JStr ''address is required''))]\<rparr>
      else let sdk = registry chainId in
        if \<not> cs_has_batch (sdks sdk) \<or> sdk \<in> set (bt_unsupported b)
        then b\<lparr>bt_answers := bt_answers b @ [(cc_id c, cs_one (sdks sdk) (cc_address c) (if fresh then with_fresh opts else opts))]\<rparr>
        else b\<lparr>bt_windows := join_window sdk chainId c opts fresh (bt_windows b)\<rparr>)"

datatype coin_event = Ask string coinpay_caller js bool | Fire nat string

definition coin_step :: "(string \<Rightarrow> nat) \<Rightarrow> (nat \<Rightarrow> coin_sdk) \<Rightarrow> batching \<Rightarrow> coin_event \<Rightarrow> batching" where
  "coin_step registry sdks b e = (case e of
     Ask chainId c opts fresh \<Rightarrow> getCoinpayObligationsForAddress registry sdks chainId c opts fresh b
   | Fire sdk chain \<Rightarrow> (case List.find (\<lambda>w. cw_sdk w = sdk \<and> cw_chain w = chain) (bt_windows b) of
       None \<Rightarrow> b | Some w \<Rightarrow> flushWindow sdks w b))"

definition no_batching :: batching where
  "no_batching = \<lparr> bt_windows = [], bt_unsupported = [], bt_answers = [] \<rparr>"

section \<open>The obligation at sign time\<close>

definition extractRows :: "js \<Rightarrow> js list" where
  "extractRows resp = (case resp of
     JArr rows \<Rightarrow> rows
   | _ \<Rightarrow> (case List.find (\<lambda>v. case v of JArr _ \<Rightarrow> True | _ \<Rightarrow> False)
             (map (js_get resp) [''data'', ''rows'', ''obligations'', ''coinpay_obligations'']) of
       Some (JArr rows) \<Rightarrow> rows | _ \<Rightarrow> []))"

datatype obligation_refusal =
    Read_failed js
  | No_obligation
  | Not_pending string
  | Window_expired
  | Other_payer string
  | No_payee
  | Payee_mismatch string
  | Unusable_amount
  | Amount_mismatch nat

text \<open>\<^verbatim>\<open>BigInt(text)\<close> of a base-unit amount the flow has already put in digits.\<close>

definition big_digits :: "js \<Rightarrow> nat option" where
  "big_digits v = (let s = js_trim (js_text v) in if s \<noteq> [] \<and> list_all is_digit s then Some (dec_nat s) else None)"

definition verifyCoinpayObligation :: "(js + js) \<Rightarrow> rat \<Rightarrow> string \<Rightarrow> string \<Rightarrow> string \<Rightarrow> js \<Rightarrow> obligation_refusal + js" where
  "verifyCoinpayObligation reply nowSeconds payerAddress orderMatch payeeAddress coinAmount =
     (case reply of
        Inl e \<Rightarrow> Inl (Read_failed e)
      | Inr resp \<Rightarrow>
     (case List.find (\<lambda>r. js_text (field_of r ''action_index'' ''actionIndex'') = orderMatch) (extractRows resp) of
        None \<Rightarrow> Inl No_obligation
      | Some row \<Rightarrow>
          let status = js_text (js_coalesce (js_coalesce (js_get row ''coinpay_status'') (js_get row ''status'')) (JStr ''''));
              payer = field_of row ''payer_address'' ''payerAddress'';
              truePayee = js_text (js_coalesce (field_of row ''payee_address'' ''payeeAddress'') (JStr '''')) in
          if status \<noteq> [] \<and> status \<noteq> ''pending_coinpay'' then Inl (Not_pending status)
          else if fst (classifyObligation (js_get row ''expiration'') nowSeconds) = Due_expired then Inl Window_expired
          else if js_truthy payer \<and> js_text payer \<noteq> payerAddress then Inl (Other_payer (js_text payer))
          else if truePayee = [] then Inl No_payee
          else if truePayee \<noteq> payeeAddress then Inl (Payee_mismatch truePayee)
          else (case obligationBaseUnits (field_of row ''coin_amount'' ''coinAmount'') of
              None \<Rightarrow> Inl Unusable_amount
            | Some owed \<Rightarrow>
                if owed = 0 then Inl Unusable_amount
                else if big_digits coinAmount \<noteq> Some owed then Inl (Amount_mismatch owed)
                else Inr row)))"

section \<open>The payment\<close>

definition IN_FLIGHT_STATUSES :: "string list" where
  "IN_FLIGHT_STATUSES = [''signed'', ''queued'', ''broadcasting'', ''broadcast'']"

text \<open>
  What the flow is answered: the pending transactions (\<open>None\<close> when the vault has no list or refuses it), the
  chain's descriptor, the fresh read of an address's obligations, the clock in seconds, and the address codecs.
\<close>

record coinpay_world =
  cp_pending :: "js option"
  cp_descriptor :: js
  cp_read :: "string \<Rightarrow> js + js"
  cp_now :: rat
  cp_decoders :: address_decoders

record coinpay_opts =
  co_chain :: string
  co_match :: js
  co_payee :: js
  co_amount :: js
  co_from :: js
  co_summary :: js
  co_track :: bool
  co_fee :: js
  co_fee_per_kb :: js
  co_rbf :: js

datatype coinpay_error =
    Match_required
  | Payee_required
  | Amount_not_integer
  | Amount_not_positive
  | Amount_unsafe
  | Amount_too_large
  | From_required
  | From_address
  | From_public_key
  | From_watch_only
  | From_address_id
  | Payment_in_flight
  | Obligation obligation_refusal
  | Bad_destination string

record coin_source =
  so_address :: string
  so_public_key :: string
  so_path :: "string option"
  so_address_id :: string

definition summaryCoinTicker :: "js \<Rightarrow> string \<Rightarrow> string" where
  "summaryCoinTicker descriptor chainId =
     (let t = tickerForCoin (js_coalesce (js_get descriptor ''coin'') (JStr (takeWhile (\<lambda>c. c \<noteq> CHR ''-'') chainId)))
      in if t = [] then ''COIN'' else t)"

definition normalizeCoinAmount :: "js \<Rightarrow> coinpay_error + js" where
  "normalizeCoinAmount v =
     (let raw = (case v of JStr s \<Rightarrow> JStr (js_trim s) | _ \<Rightarrow> v) in
      if (case raw of JStr s \<Rightarrow> s = [] \<or> \<not> list_all is_digit s | _ \<Rightarrow> False) then Inl Amount_not_integer
      else (case js_Number raw of
          Fin amount \<Rightarrow>
            if amount \<le> 0 then Inl Amount_not_positive
            else if \<not> js_is_int amount then Inl Amount_not_integer
            else if \<not> is_safe_integer (Fin amount) then
              (case raw of
                 JStr s \<Rightarrow> if dec_nat s > 0xffffffffffffffff then Inl Amount_too_large else Inr raw
               | _ \<Rightarrow> Inl Amount_unsafe)
            else Inr (JNum (Fin amount))
        | _ \<Rightarrow> Inl Amount_not_positive))"

definition nonempty_js :: "js \<Rightarrow> string option" where
  "nonempty_js v = (case v of JStr (c # s) \<Rightarrow> Some (c # s) | _ \<Rightarrow> None)"

definition normalizeSource :: "js \<Rightarrow> coinpay_error + coin_source" where
  "normalizeSource source =
     (if \<not> (case source of JObj _ \<Rightarrow> True | JArr _ \<Rightarrow> True | _ \<Rightarrow> False) then Inl From_required
      else (case nonempty_js (js_get source ''address'') of
          None \<Rightarrow> Inl From_address
        | Some address \<Rightarrow>
     (case nonempty_js (js_get source ''publicKey'') of
          None \<Rightarrow> Inl From_public_key
        | Some publicKey \<Rightarrow>
            if js_get source ''source'' = JStr ''watch-only'' then Inl From_watch_only
            else (case nonempty_js (js_get source ''derivationPath'') of
                Some path \<Rightarrow> Inr \<lparr> so_address = address, so_public_key = publicKey, so_path = Some path, so_address_id = [] \<rparr>
              | None \<Rightarrow>
                  (case nonempty_js (js_get source ''addressId'') of
                     Some i \<Rightarrow> Inr \<lparr> so_address = address, so_public_key = publicKey, so_path = None, so_address_id = i \<rparr>
                   | None \<Rightarrow>
                       (case nonempty_js (js_get source ''id'') of
                          Some i \<Rightarrow> Inr \<lparr> so_address = address, so_public_key = publicKey, so_path = None, so_address_id = i \<rparr>
                        | None \<Rightarrow> Inl From_address_id))))))"

definition in_flight_status :: "js \<Rightarrow> bool" where
  "in_flight_status tx \<longleftrightarrow> (case js_get tx ''status'' of JStr s \<Rightarrow> s \<in> set IN_FLIGHT_STATUSES | _ \<Rightarrow> False)"

text \<open>Whether a payment of the match is in flight; the descriptor's and the rows' fields are strings.\<close>

definition paymentInFlight :: "coinpay_world \<Rightarrow> string \<Rightarrow> string \<Rightarrow> bool" where
  "paymentInFlight W actionIndex sourceAddress = (case cp_pending W of
     None \<Rightarrow> False
   | Some rows \<Rightarrow>
       let pendingTxs = (case rows of JArr txs \<Rightarrow> txs | _ \<Rightarrow> []);
           d = cp_descriptor W;
           sameNetwork = (js_truthy d \<and> list_ex (\<lambda>tx. js_truthy tx \<and> in_flight_status tx
             \<and> js_get tx ''chain'' = js_get d ''coin'' \<and> js_get tx ''network'' = js_get d ''networkKind''
             \<and> pendingTxReferencesMatch tx actionIndex) pendingTxs);
           sameSource = hasAttemptedCoinpay (List.filter (\<lambda>tx. \<not> js_truthy (js_get tx ''fromAddress'')
             \<or> js_get tx ''fromAddress'' = JStr sourceAddress) pendingTxs) actionIndex
       in sameNetwork \<or> sameSource)"

definition assertValidDestination :: "coinpay_world \<Rightarrow> string \<Rightarrow> bool" where
  "assertValidDestination W address \<longleftrightarrow>
     (let d = cp_descriptor W in
      \<not> js_truthy (js_get d ''coin'') \<or> \<not> js_truthy (js_get d ''networkKind'')
      \<or> isValidAddressForChain (cp_decoders W) (JStr address) (js_text (js_get d ''coin'')) (js_text (js_get d ''networkKind'')))"

record prepared_coinpay =
  pc_source :: coin_source
  pc_match :: string
  pc_payee :: string
  pc_amount :: js

definition prepareCoinpay :: "coinpay_world \<Rightarrow> coinpay_opts \<Rightarrow> coinpay_error + prepared_coinpay" where
  "prepareCoinpay W opts = (case nonempty_js (co_match opts) of
     None \<Rightarrow> Inl Match_required
   | Some actionIndex \<Rightarrow> (case nonempty_js (co_payee opts) of
     None \<Rightarrow> Inl Payee_required
   | Some payee \<Rightarrow> (case normalizeCoinAmount (co_amount opts) of
     Inl e \<Rightarrow> Inl e
   | Inr coinAmount \<Rightarrow> (case normalizeSource (co_from opts) of
     Inl e \<Rightarrow> Inl e
   | Inr source \<Rightarrow>
       if paymentInFlight W actionIndex (so_address source) then Inl Payment_in_flight
       else (case verifyCoinpayObligation (cp_read W (so_address source)) (cp_now W) (so_address source) actionIndex payee coinAmount of
         Inl e \<Rightarrow> Inl (Obligation e)
       | Inr obligation \<Rightarrow>
           let payeeAddress = js_text (field_of obligation ''payee_address'' ''payeeAddress'') in
           (case obligationBaseUnits (field_of obligation ''coin_amount'' ''coinAmount'') of
              None \<Rightarrow> Inl (Obligation Unusable_amount)
            | Some base \<Rightarrow>
                if base = 0 then Inl (Obligation Unusable_amount)
                else (case normalizeCoinAmount (JStr (nat_text base)) of
                    Inl e \<Rightarrow> Inl e
                  | Inr payAmount \<Rightarrow>
                      if \<not> assertValidDestination W payeeAddress then Inl (Bad_destination payeeAddress)
                      else Inr \<lparr> pc_source = source, pc_match = actionIndex, pc_payee = payeeAddress, pc_amount = payAmount \<rparr>)))))))"

section \<open>The requests\<close>

definition coinpay_params :: "prepared_coinpay \<Rightarrow> js" where
  "coinpay_params p = JObj [(''VERSION'', JStr ''0''), (''ORDER_MATCH_ACTION_INDEX'', JStr (pc_match p))]"

definition custom_output :: "prepared_coinpay \<Rightarrow> js" where
  "custom_output p = JArr [JObj [(''address'', JStr (pc_payee p)), (''value'', pc_amount p)]]"

text \<open>The watcher's unsigned request: the caller's encoder options with the verified output.\<close>

definition buildCoinpayPsbtRequest :: "coinpay_world \<Rightarrow> coinpay_opts \<Rightarrow> js \<Rightarrow> coinpay_error + js \<times> js" where
  "buildCoinpayPsbtRequest W opts encoderOpts = (case prepareCoinpay W opts of
     Inl e \<Rightarrow> Inl e
   | Inr p \<Rightarrow> Inr (coinpay_params p, js_put (js_coalesce encoderOpts (JObj [])) ''customOutputs'' (custom_output p)))"

record tx_meta =
  tm_from :: string
  tm_to :: string
  tm_summary :: string

record submit_request =
  rq_params :: js
  rq_encoder :: js
  rq_path :: "string option"
  rq_address_id :: string
  rq_meta :: "tx_meta option"

definition given :: "string \<Rightarrow> js \<Rightarrow> (string \<times> js) list" where
  "given k v = (if v = Undef then [] else [(k, v)])"

definition amount_label :: "coinpay_world \<Rightarrow> string \<Rightarrow> js \<Rightarrow> string" where
  "amount_label W chainId amount =
     (let ticker = summaryCoinTicker (cp_descriptor W) chainId in
      case baseUnitsToCoinText amount of
        Some coinText \<Rightarrow> coinText @ '' '' @ ticker
      | None \<Rightarrow> js_text amount @ '' '' @ ticker @ '' base units'')"

definition coinpayAction :: "coinpay_world \<Rightarrow> coinpay_opts \<Rightarrow> coinpay_error + submit_request" where
  "coinpayAction W opts = (case prepareCoinpay W opts of
     Inl e \<Rightarrow> Inl e
   | Inr p \<Rightarrow>
       let source = pc_source p in
       Inr \<lparr> rq_params = coinpay_params p,
         rq_encoder = JObj ([(''pubkey'', JStr (so_public_key source)), (''sourceAddress'', JStr (so_address source)),
             (''change'', JStr (so_address source)), (''customOutputs'', custom_output p)]
           @ given ''fee'' (co_fee opts) @ given ''feePerKb'' (co_fee_per_kb opts) @ given ''rbf'' (co_rbf opts)),
         rq_path = so_path source, rq_address_id = so_address_id source,
         rq_meta = (if \<not> co_track opts then None
           else Some \<lparr> tm_from = so_address source, tm_to = pc_payee p,
             tm_summary = (if js_truthy (co_summary opts) then js_text (co_summary opts)
               else ''Pay '' @ amount_label W (co_chain opts) (pc_amount p) @ '' for match #'' @ pc_match p) \<rparr>) \<rparr>)"
section \<open>The payment is the debt\<close>

lemma double_of_big:
  assumes "2 ^ 53 \<le> n" "to_double (Fin (of_nat n)) = Fin d"
  shows "2 ^ 53 \<le> d"
proof -
  have "(2 :: rat) ^ 53 \<le> of_nat n" using assms(1) by (metis of_nat_le_iff of_nat_numeral of_nat_power)
  hence "2 ^ 53 \<le> double_round (of_nat n)" by (rule double_round_ge_pow53)
  moreover have "d = double_round (of_nat n)" using assms(2) by (simp add: to_double_def Let_def split: if_splits)
  ultimately show ?thesis by simp
qed

definition exact_amount :: "nat \<Rightarrow> js \<Rightarrow> bool" where
  "exact_amount n v \<longleftrightarrow> (n < 2 ^ 53 \<and> v = JNum (Fin (of_nat n))) \<or> (2 ^ 53 \<le> n \<and> n < 2 ^ 64 \<and> v = JStr (nat_text n))"

lemma normalize_exact:
  assumes "normalizeCoinAmount (JStr (nat_text n)) = Inr a"
  shows "exact_amount n a"
proof -
  have trim: "js_trim (nat_text n) = nat_text n"
    using nat_text_digits [of n] by (intro js_trim_no_space) (auto simp: list_all_iff not_space_digit)
  have number: "js_Number (JStr (nat_text n)) = to_double (Fin (of_nat n))"
    by (simp add: js_Number_def string_number_digits)
  show ?thesis
  proof (cases "n < 2 ^ 53")
    case True
    hence "js_Number (JStr (nat_text n)) = Fin (of_nat n)" unfolding number by (rule to_double_nat)
    moreover have "is_safe_integer (Fin (of_nat n))" using True by (simp add: is_safe_integer_def safe_int_def)
    ultimately show ?thesis using assms True
      by (auto simp: normalizeCoinAmount_def trim Let_def exact_amount_def split: if_splits)
  next
    case False
    then obtain d where d: "to_double (Fin (of_nat n)) = Fin d"
      using assms by (cases "to_double (Fin (of_nat n))") (auto simp: normalizeCoinAmount_def trim number Let_def split: if_splits)
    with False have "2 ^ 53 \<le> d" by (intro double_of_big) auto
    hence "2 ^ 53 \<le> \<lfloor>d\<rfloor>" by (simp add: le_floor_iff)
    hence "\<not> is_safe_integer (Fin d)" by (simp add: is_safe_integer_def safe_int_def)
    with assms d False show ?thesis
      by (auto simp: normalizeCoinAmount_def trim number Let_def exact_amount_def split: if_splits)
  qed
qed

lemma nonempty_js_Some: "nonempty_js v = Some s \<longleftrightarrow> v = JStr s \<and> s \<noteq> []"
  by (cases v) (auto simp: nonempty_js_def split: list.splits)

text \<open>What the check of an obligation establishes.\<close>

definition owed_row :: "js \<Rightarrow> rat \<Rightarrow> string \<Rightarrow> string \<Rightarrow> string \<Rightarrow> nat \<Rightarrow> js \<Rightarrow> bool" where
  "owed_row resp now payer m payee n row \<longleftrightarrow> row \<in> set (extractRows resp)
     \<and> js_text (field_of row ''action_index'' ''actionIndex'') = m
     \<and> js_text (js_coalesce (js_coalesce (js_get row ''coinpay_status'') (js_get row ''status'')) (JStr '''')) \<in> {'''', ''pending_coinpay''}
     \<and> fst (classifyObligation (js_get row ''expiration'') now) \<noteq> Due_expired
     \<and> (js_truthy (field_of row ''payer_address'' ''payerAddress'') \<longrightarrow> js_text (field_of row ''payer_address'' ''payerAddress'') = payer)
     \<and> js_text (js_coalesce (field_of row ''payee_address'' ''payeeAddress'') (JStr '''')) = payee \<and> payee \<noteq> []
     \<and> obligationBaseUnits (field_of row ''coin_amount'' ''coinAmount'') = Some n \<and> 0 < n"

lemma verify_owed:
  assumes "verifyCoinpayObligation reply now payer m payee amount = Inr row"
  obtains resp n where "reply = Inr resp" "owed_row resp now payer m payee n row" "big_digits amount = Some n"
proof -
  obtain resp where r: "reply = Inr resp" using assms by (auto simp: verifyCoinpayObligation_def split: sum.splits)
  from assms r have f: "List.find (\<lambda>r. js_text (field_of r ''action_index'' ''actionIndex'') = m) (extractRows resp) = Some row"
    by (auto simp: verifyCoinpayObligation_def Let_def split: option.splits if_splits)
  hence "row \<in> set (extractRows resp)" "js_text (field_of row ''action_index'' ''actionIndex'') = m"
    by (auto simp: find_Some_iff)
  moreover from assms r f obtain n where n: "obligationBaseUnits (field_of row ''coin_amount'' ''coinAmount'') = Some n"
    "0 < n" "big_digits amount = Some n"
    by (auto simp: verifyCoinpayObligation_def Let_def split: option.splits if_splits)
  ultimately have "owed_row resp now payer m payee n row"
    using assms r f by (auto simp: verifyCoinpayObligation_def owed_row_def Let_def split: if_splits)
  from that [OF r this n(3)] show ?thesis .
qed

lemma prepare_parts:
  assumes "prepareCoinpay W opts = Inr p"
  obtains m payee asked source row base pay where "co_match opts = JStr m" "co_payee opts = JStr payee"
    "normalizeCoinAmount (co_amount opts) = Inr asked" "normalizeSource (co_from opts) = Inr source"
    "\<not> paymentInFlight W m (so_address source)"
    "verifyCoinpayObligation (cp_read W (so_address source)) (cp_now W) (so_address source) m payee asked = Inr row"
    "obligationBaseUnits (field_of row ''coin_amount'' ''coinAmount'') = Some base"
    "normalizeCoinAmount (JStr (nat_text base)) = Inr pay"
    "assertValidDestination W (js_text (field_of row ''payee_address'' ''payeeAddress''))"
    "p = \<lparr> pc_source = source, pc_match = m, pc_payee = js_text (field_of row ''payee_address'' ''payeeAddress''), pc_amount = pay \<rparr>"
  using assms by (auto simp: prepareCoinpay_def nonempty_js_Some Let_def split: option.splits sum.splits if_splits)

text \<open>
  Property C10. A prepared payment is the debt the explorer listed a moment ago: an obligation of this match, not
  settled and not expired, owed by the paying address (or by nobody in particular), to the payee the caller
  named. The amount is the obligation's, exact to the base unit at any size below 2^64, and equals what the
  caller asked for; the payee is an address of the chain; and no payment of the match was in flight.
\<close>

theorem coinpay_pays_the_debt:
  assumes "prepareCoinpay W opts = Inr p"
  shows "\<exists>resp n row asked. cp_read W (so_address (pc_source p)) = Inr resp
    \<and> owed_row resp (cp_now W) (so_address (pc_source p)) (pc_match p) (pc_payee p) n row
    \<and> co_match opts = JStr (pc_match p) \<and> co_payee opts = JStr (pc_payee p)
    \<and> exact_amount n (pc_amount p) \<and> normalizeCoinAmount (co_amount opts) = Inr asked \<and> big_digits asked = Some n
    \<and> normalizeSource (co_from opts) = Inr (pc_source p)
    \<and> assertValidDestination W (pc_payee p) \<and> \<not> paymentInFlight W (pc_match p) (so_address (pc_source p))"
proof -
  from assms obtain m payee asked source row base pay where m: "co_match opts = JStr m" and payee: "co_payee opts = JStr payee"
    and asked: "normalizeCoinAmount (co_amount opts) = Inr asked" and source: "normalizeSource (co_from opts) = Inr source"
    and flight: "\<not> paymentInFlight W m (so_address source)"
    and row: "verifyCoinpayObligation (cp_read W (so_address source)) (cp_now W) (so_address source) m payee asked = Inr row"
    and base: "obligationBaseUnits (field_of row ''coin_amount'' ''coinAmount'') = Some base"
    and pay: "normalizeCoinAmount (JStr (nat_text base)) = Inr pay"
    and dest: "assertValidDestination W (js_text (field_of row ''payee_address'' ''payeeAddress''))"
    and p: "p = \<lparr> pc_source = source, pc_match = m, pc_payee = js_text (field_of row ''payee_address'' ''payeeAddress''), pc_amount = pay \<rparr>"
    by (rule prepare_parts)
  from row obtain resp n where v: "cp_read W (so_address source) = Inr resp"
    "owed_row resp (cp_now W) (so_address source) m payee n row" "big_digits asked = Some n" by (rule verify_owed)
  have n: "n = base" using v(2) base by (simp add: owed_row_def)
  have "js_text (field_of row ''payee_address'' ''payeeAddress'') = payee"
    using v(2) by (auto simp: owed_row_def js_coalesce_def split: if_splits)
  thus ?thesis using v m payee asked source flight dest normalize_exact [OF pay] unfolding p n by auto
qed

section \<open>A payment blocks the next one\<close>

text \<open>
  The label of a payment is also its mark: a record of it, while its status is one of an attempted payment,
  is found by the scan through the label alone.
\<close>

definition payment_record :: "tx_meta \<Rightarrow> js \<Rightarrow> bool" where
  "payment_record meta row \<longleftrightarrow> js_get row ''action'' = JStr ''COINPAY'' \<and> js_get row ''actionSummary'' = JStr (tm_summary meta)
     \<and> js_get row ''fromAddress'' = JStr (tm_from meta) \<and> attempted_status row"

lemma match_label:
  assumes "m \<noteq> []" "list_all is_digit m" "payment_record meta row"
    and "tm_summary meta = s @ ''match #'' @ m \<or> tm_summary meta = s @ ''match #'' @ m @ '' for order #'' @ k"
  shows "pendingTxReferencesMatch row m"
proof -
  have "\<not> is_digit CHR '' ''" by (simp add: is_digit_def)
  hence "labelled (''match #'' @ m) ((''match #'' @ m) @ '' for order #'' @ k)"
    using labelled_before [of "CHR '' ''" "''match #'' @ m"] by simp
  hence "mentions (''match #'' @ m) (s @ (''match #'' @ m) @ '' for order #'' @ k)" "mentions (''match #'' @ m) (s @ ''match #'' @ m)"
    using mentions_append labelled_end by blast+
  hence "mentions (''match #'' @ m) (tm_summary meta)" using assms(4) by auto
  thus ?thesis using assms(1-3) by (simp add: pendingTxReferencesMatch_def payment_record_def)
qed

text \<open>
  Property C36. A payment stops its repetition. Once the record of a submitted payment is in the vault, in any
  status in which it may still confirm and whatever else it holds, preparing another payment of the same match
  from the same address fails: the label the flow writes (its own or the unattended engine's) is one the scan
  of the next payment recognises.
\<close>

theorem second_payment_refused:
  assumes "coinpayAction W opts = Inr rq" and "rq_meta rq = Some meta"
    and "co_match opts = JStr m" and "list_all is_digit m"
    and "\<not> js_truthy (co_summary opts) \<or> co_summary opts = JStr (''Auto-paid match #'' @ m @ '' for order #'' @ order)"
    and "cp_pending W' = Some (JArr rows)" and "row \<in> set rows" and "payment_record meta row"
    and "prepareCoinpay W' opts' = Inr p" and "pc_match p = m"
  shows "so_address (pc_source p) \<noteq> tm_from meta"
proof
  assume same: "so_address (pc_source p) = tm_from meta"
  from assms(1) obtain q where q: "prepareCoinpay W opts = Inr q"
    and rq: "coinpayAction W opts = Inr rq" by (auto simp: coinpayAction_def split: sum.splits)
  from q obtain m' where "co_match opts = JStr m'" "pc_match q = m'" "co_match opts \<noteq> JStr []"
    by (auto simp: prepareCoinpay_def nonempty_js_Some Let_def split: option.splits sum.splits if_splits)
  hence m: "pc_match q = m" "m \<noteq> []" using assms(3) by auto
  have "tm_summary meta = (''Pay '' @ amount_label W (co_chain opts) (pc_amount q) @ '' for '') @ ''match #'' @ m
      \<or> tm_summary meta = ''Auto-paid '' @ ''match #'' @ m @ '' for order #'' @ order"
    using rq q assms(2,5) m(1) by (auto simp: coinpayAction_def Let_def split: if_splits)
  then obtain s where "tm_summary meta = s @ ''match #'' @ m \<or> tm_summary meta = s @ ''match #'' @ m @ '' for order #'' @ order" by blast
  from match_label [OF m(2) assms(4,8) this] have "pendingTxReferencesMatch row m" .
  hence "paymentInFlight W' m (so_address (pc_source p))"
    using assms(6-8) same by (auto simp: paymentInFlight_def Let_def hasAttemptedCoinpay_def list_ex_iff payment_record_def)
  moreover have "\<not> paymentInFlight W' (pc_match p) (so_address (pc_source p))"
    using assms(9) by (rule prepare_parts) simp
  ultimately show False using assms(10) by simp
qed
section \<open>Batched reads answer every caller once\<close>

lemma concat_chunks: "0 < n \<Longrightarrow> concat (chunks n xs) = xs"
  by (induction n xs rule: chunks.induct) auto

lemma chunks_short: "c \<in> set (chunks n xs) \<Longrightarrow> c \<noteq> [] \<and> length c \<le> n"
  by (induction n xs rule: chunks.induct) (auto split: if_splits)

definition own_body :: "coin_sdk \<Rightarrow> js \<Rightarrow> string \<Rightarrow> js \<Rightarrow> bool" where
  "own_body sdk opts address body \<longleftrightarrow> cs_one sdk address opts = Inr body
     \<or> (\<exists>addresses resp. cs_batch sdk addresses opts = Inr resp \<and> address \<in> set addresses \<and> distinct addresses
          \<and> length addresses \<le> COINPAY_BATCH_MAX_ADDRESSES
          \<and> js_get (js_get resp address) ''coinpay_obligations'' = body)"

definition own_answer :: "coin_sdk \<Rightarrow> js \<Rightarrow> coinpay_caller \<Rightarrow> nat \<times> (js + js) \<Rightarrow> bool" where
  "own_answer sdk opts c a \<longleftrightarrow> fst a = cc_id c \<and> (case snd a of Inl e \<Rightarrow> True | Inr body \<Rightarrow> own_body sdk opts (cc_address c) body)"

lemma body_slot: "bodyOrThrow slot address = Inr body \<Longrightarrow> js_get slot ''coinpay_obligations'' = body"
  by (auto simp: bodyOrThrow_def Let_def split: if_splits)

lemma chunk_answers:
  assumes "length callers \<le> COINPAY_BATCH_MAX_ADDRESSES"
  shows "list_all2 (own_answer sdk opts) callers (fst (runCoinpayChunk sdk opts callers))"
proof -
  let ?as = "distinct_in_order (map cc_address callers)"
  have as: "set ?as = cc_address ` set callers" "distinct ?as" by (simp_all add: distinct_in_order_def)
  have "length ?as \<le> length callers" unfolding distinct_in_order_def by (metis length_map length_remdups_leq length_rev)
  hence len: "length ?as \<le> COINPAY_BATCH_MAX_ADDRESSES" using assms by simp
  have one: "list_all2 (own_answer sdk opts) callers (fallBack sdk opts callers)"
    by (auto simp: fallBack_def list_all2_conv_all_nth own_answer_def own_body_def split: sum.splits)
  show ?thesis
  proof (cases "cs_batch sdk ?as opts")
    case (Inl e)
    thus ?thesis using one by (auto simp: runCoinpayChunk_def list_all2_conv_all_nth own_answer_def)
  next
    case (Inr resp)
    have "own_body sdk opts (cc_address c) body"
      if "c \<in> set callers" "bodyOrThrow (js_get resp (cc_address c)) (cc_address c) = Inr body" for c body
      using that Inr as len body_slot unfolding own_body_def by (metis image_eqI)
    thus ?thesis using Inr one
      by (auto simp: runCoinpayChunk_def list_all2_conv_all_nth own_answer_def split: sum.splits)
  qed
qed

lemma list_all2_concat: "list_all2 (\<lambda>x y. list_all2 P x (f y)) xs ys \<Longrightarrow> list_all2 P (concat xs) (concat (map f ys))"
  by (induction rule: list_all2_induct) (auto intro: list_all2_appendI)

lemma window_answers:
  "list_all2 (own_answer sdk opts) callers
     (concat (map fst (map (runCoinpayChunk sdk opts) (chunks COINPAY_BATCH_MAX_ADDRESSES callers))))"
proof -
  have "list_all2 (\<lambda>x y. list_all2 (own_answer sdk opts) x (fst y)) cs (map (runCoinpayChunk sdk opts) cs)"
    if "\<forall>c \<in> set cs. length c \<le> COINPAY_BATCH_MAX_ADDRESSES" for cs
    using that chunk_answers by (auto simp: list_all2_conv_all_nth)
  hence "list_all2 (own_answer sdk opts) (concat (chunks COINPAY_BATCH_MAX_ADDRESSES callers))
      (concat (map fst (map (runCoinpayChunk sdk opts) (chunks COINPAY_BATCH_MAX_ADDRESSES callers))))"
    using chunks_short by (intro list_all2_concat) blast
  thus ?thesis by (simp add: concat_chunks COINPAY_BATCH_MAX_ADDRESSES_def)
qed

definition asked_ids :: "coin_event list \<Rightarrow> nat list" where
  "asked_ids es = List.map_filter (\<lambda>e. case e of Ask chain c opts fresh \<Rightarrow> Some (cc_id c) | _ \<Rightarrow> None) es"

definition waiting_ids :: "batching \<Rightarrow> nat list" where
  "waiting_ids b = concat (map (\<lambda>w. map cc_id (cw_callers w)) (bt_windows b))"

definition asker :: "coin_event list \<Rightarrow> string \<Rightarrow> coinpay_caller \<Rightarrow> bool" where
  "asker es chain c \<longleftrightarrow> (\<exists>opts fresh. Ask chain c opts fresh \<in> set es)"

definition served :: "(string \<Rightarrow> nat) \<Rightarrow> (nat \<Rightarrow> coin_sdk) \<Rightarrow> coin_event list \<Rightarrow> nat \<times> (js + js) \<Rightarrow> bool" where
  "served registry sdks es a \<longleftrightarrow> (\<exists>chain c opts. asker es chain c \<and> own_answer (sdks (registry chain)) opts c a)"

definition coin_inv :: "(string \<Rightarrow> nat) \<Rightarrow> (nat \<Rightarrow> coin_sdk) \<Rightarrow> coin_event list \<Rightarrow> batching \<Rightarrow> bool" where
  "coin_inv registry sdks es b \<longleftrightarrow> mset (map fst (bt_answers b)) + mset (waiting_ids b) = mset (asked_ids es)
     \<and> list_all (served registry sdks es) (bt_answers b)
     \<and> list_all (\<lambda>w. cw_sdk w = registry (cw_chain w) \<and> list_all (asker es (cw_chain w)) (cw_callers w)) (bt_windows b)"

lemma served_more: "served registry sdks es a \<Longrightarrow> served registry sdks (es @ es') a"
  by (auto simp: served_def asker_def)

lemma asker_more: "asker es chain c \<Longrightarrow> asker (es @ es') chain c"
  by (auto simp: asker_def)

lemma waiting_join: "mset (concat (map (\<lambda>w. map cc_id (cw_callers w)) (join_window sdk chain c opts fresh ws)))
    = mset (concat (map (\<lambda>w. map cc_id (cw_callers w)) ws)) + {# cc_id c #}"
  by (induction ws) auto

lemma windows_join:
  assumes "list_all (\<lambda>w. cw_sdk w = registry (cw_chain w) \<and> list_all (asker es (cw_chain w)) (cw_callers w)) ws" "asker es chain c"
  shows "list_all (\<lambda>w. cw_sdk w = registry (cw_chain w) \<and> list_all (asker es (cw_chain w)) (cw_callers w))
    (join_window (registry chain) chain c opts fresh ws)"
  using assms by (induction ws) auto

lemma waiting_remove: "w \<in> set ws \<Longrightarrow> mset (concat (map (\<lambda>w. map cc_id (cw_callers w)) (remove1 w ws))) + mset (map cc_id (cw_callers w))
    = mset (concat (map (\<lambda>w. map cc_id (cw_callers w)) ws))"
  by (induction ws) auto

lemma coin_inv_step:
  assumes "coin_inv registry sdks es b"
  shows "coin_inv registry sdks (es @ [e]) (coin_step registry sdks b e)"
proof -
  have old: "list_all (served registry sdks (es @ [e])) (bt_answers b)"
    "list_all (\<lambda>w. cw_sdk w = registry (cw_chain w) \<and> list_all (asker (es @ [e]) (cw_chain w)) (cw_callers w)) (bt_windows b)"
    using assms by (auto simp: coin_inv_def list_all_iff intro: served_more asker_more)
  have count: "mset (map fst (bt_answers b)) + mset (waiting_ids b) = mset (asked_ids es)" using assms by (simp add: coin_inv_def)
  show ?thesis
  proof (cases e)
    case (Ask chain c opts fresh)
    have ids: "mset (asked_ids (es @ [e])) = mset (asked_ids es) + {# cc_id c #}" by (simp add: asked_ids_def Ask List.map_filter_def)
    have me: "asker (es @ [e]) chain c" by (auto simp: asker_def Ask)
    have answer: "coin_inv registry sdks (es @ [e]) (b\<lparr>bt_answers := bt_answers b @ [(cc_id c, r)]\<rparr>)"
      if "own_answer (sdks (registry chain)) opts' c (cc_id c, r)" for r opts'
      using old count ids me that by (auto simp: coin_inv_def waiting_ids_def served_def)
    show ?thesis
    proof (cases "chain = [] \<or> cc_address c = [] \<or> \<not> cs_has_batch (sdks (registry chain)) \<or> registry chain \<in> set (bt_unsupported b)")
      case True
      define r where "r = (if chain = [] then Inl (JStr ''chainId is required'') else if cc_address c = [] then Inl (JStr ''address is required'')
        else cs_one (sdks (registry chain)) (cc_address c) (if fresh then with_fresh opts else opts))"
      have "own_answer (sdks (registry chain)) (if fresh then with_fresh opts else opts) c (cc_id c, r)"
        unfolding own_answer_def own_body_def r_def by (simp split: sum.split)
      hence "coin_inv registry sdks (es @ [e]) (b\<lparr>bt_answers := bt_answers b @ [(cc_id c, r)]\<rparr>)" by (rule answer)
      moreover have "coin_step registry sdks b e = b\<lparr>bt_answers := bt_answers b @ [(cc_id c, r)]\<rparr>"
        using True unfolding coin_step_def Ask getCoinpayObligationsForAddress_def Let_def r_def coin_event.case
        by (cases "chain = []"; cases "cc_address c = []") simp_all
      ultimately show ?thesis by simp
    next
      case False
      have "mset (waiting_ids (b\<lparr>bt_windows := join_window (registry chain) chain c opts fresh (bt_windows b)\<rparr>))
          = mset (waiting_ids b) + {# cc_id c #}" by (simp add: waiting_ids_def waiting_join del: mset_concat)
      thus ?thesis using False old count ids windows_join [OF old(2) me]
        by (simp add: coin_step_def Ask getCoinpayObligationsForAddress_def Let_def coin_inv_def)
    qed
  next
    case (Fire sdk chain)
    have ids: "asked_ids (es @ [e]) = asked_ids es" by (simp add: asked_ids_def Fire List.map_filter_def)
    show ?thesis
    proof (cases "List.find (\<lambda>w. cw_sdk w = sdk \<and> cw_chain w = chain) (bt_windows b)")
      case None
      thus ?thesis using old count ids by (simp add: coin_step_def Fire coin_inv_def)
    next
      case (Some w)
      hence w: "w \<in> set (bt_windows b)" by (auto simp: find_Some_iff)
      hence win: "cw_sdk w = registry (cw_chain w)" "list_all (asker (es @ [e]) (cw_chain w)) (cw_callers w)"
        using old(2) by (auto simp: list_all_iff)
      define ans where "ans = concat (map fst (map (runCoinpayChunk (sdks (cw_sdk w)) (window_opts w))
        (chunks COINPAY_BATCH_MAX_ADDRESSES (cw_callers w))))"
      have all: "list_all2 (own_answer (sdks (registry (cw_chain w))) (window_opts w)) (cw_callers w) ans"
        unfolding ans_def win(1) by (rule window_answers)
      hence "map fst ans = map cc_id (cw_callers w)"
        by (auto simp: list_all2_conv_all_nth own_answer_def intro: nth_equalityI)
      moreover have "list_all (served registry sdks (es @ [e])) ans"
        using all win(2) unfolding served_def list_all_iff list_all2_conv_all_nth by (metis in_set_conv_nth nth_mem)
      moreover have "bt_windows (coin_step registry sdks b e) = remove1 w (bt_windows b)"
        "bt_answers (coin_step registry sdks b e) = bt_answers b @ ans"
        by (simp_all add: coin_step_def Fire Some flushWindow_def Let_def ans_def)
      moreover have "mset (map fst (bt_answers b @ ans))
          + mset (concat (map (\<lambda>w. map cc_id (cw_callers w)) (remove1 w (bt_windows b)))) = mset (asked_ids es)"
        using \<open>map fst ans = map cc_id (cw_callers w)\<close> count waiting_remove [OF w]
        by (simp add: waiting_ids_def ac_simps del: mset_concat mset_map)
      moreover have "list_all P (remove1 w ws)" if "list_all P ws" for P and ws :: "coin_window list"
        using that notin_set_remove1 by (fastforce simp: list_all_iff)
      ultimately show ?thesis using old ids by (simp add: coin_inv_def waiting_ids_def)
    qed
  qed
qed

text \<open>
  Batching loses no read and mixes none up. At every moment the calls are exactly those answered and
  those waiting in an open window, each counted once; and every answer that is not an error is the body of the
  caller's own address on the caller's own chain, read alone or from its slot in a reply to a request that named
  the address among at most twenty distinct ones.
\<close>

lemma coinpay_reads_settle_once:
  "let b = foldl (coin_step registry sdks) no_batching es in
     mset (map fst (bt_answers b)) + mset (waiting_ids b) = mset (asked_ids es)
     \<and> list_all (served registry sdks es) (bt_answers b)"
proof -
  have "coin_inv registry sdks es (foldl (coin_step registry sdks) no_batching es)"
  proof (induction es rule: rev_induct)
    case Nil
    show ?case by (simp add: coin_inv_def no_batching_def waiting_ids_def asked_ids_def List.map_filter_def)
  next
    case (snoc e es)
    thus ?case by (simp add: coin_inv_step)
  qed
  thus ?thesis by (simp add: coin_inv_def Let_def)
qed

section \<open>A sample payment\<close>

definition sample_debt :: js where
  "sample_debt = JObj [(''data'', JArr [JObj [(''action_index'', JStr ''900''), (''coinpay_status'', JStr ''pending_coinpay''),
     (''payer_address'', JStr sample_test), (''payee_address'', JStr sample_main), (''coin_amount'', JStr ''0.5''),
     (''expiration'', JNum (Fin 2000000000))]])]"

definition sample_coinpay_world :: coinpay_world where
  "sample_coinpay_world = \<lparr> cp_pending = Some (JArr []),
     cp_descriptor = JObj [(''coin'', JStr ''bitcoin''), (''networkKind'', JStr ''mainnet'')],
     cp_read = (\<lambda>_. Inr sample_debt), cp_now = 1700000000, cp_decoders = sample_decoders \<rparr>"

definition sample_coinpay_opts :: coinpay_opts where
  "sample_coinpay_opts = \<lparr> co_chain = ''bitcoin-mainnet'', co_match = JStr ''900'', co_payee = JStr sample_main,
     co_amount = JStr ''50000000'', co_from = JObj [(''address'', JStr sample_test), (''publicKey'', JStr ''02ab''), (''derivationPath'', JStr ''m/44'')],
     co_summary = Undef, co_track = True, co_fee = Undef, co_fee_per_kb = Undef, co_rbf = Undef \<rparr>"

definition sample_prepared :: prepared_coinpay where
  "sample_prepared = \<lparr> pc_source = \<lparr> so_address = sample_test, so_public_key = ''02ab'', so_path = Some ''m/44'', so_address_id = [] \<rparr>,
     pc_match = ''900'', pc_payee = sample_main, pc_amount = JNum (Fin 50000000) \<rparr>"

lemma normalize_small: "0 < n \<Longrightarrow> n < 2 ^ 53 \<Longrightarrow> normalizeCoinAmount (JStr (nat_text n)) = Inr (JNum (Fin (of_nat n)))"
proof -
  assume n: "0 < n" "n < 2 ^ 53"
  have "js_trim (nat_text n) = nat_text n"
    using nat_text_digits [of n] by (intro js_trim_no_space) (auto simp: list_all_iff not_space_digit)
  moreover have "js_Number (JStr (nat_text n)) = Fin (of_nat n)"
    using to_double_nat [OF n(2)] by (simp add: js_Number_def string_number_digits)
  moreover have "is_safe_integer (Fin (of_nat n))" using n by (simp add: is_safe_integer_def safe_int_def)
  ultimately show ?thesis using n by (simp add: normalizeCoinAmount_def Let_def js_is_int_def)
qed

lemma sample_amount: "nat_text 50000000 = ''50000000''"
  by (simp add: nat_text.simps digit_char_def)

lemma sample_amount_read: "normalizeCoinAmount (JStr ''50000000'') = Inr (JNum (Fin 50000000))"
  using normalize_small [of 50000000] unfolding sample_amount by simp

definition sample_row_owed :: js where
  "sample_row_owed = hd (extractRows sample_debt)"

lemma sample_owed_parts:
  "extractRows sample_debt = [sample_row_owed]"
  "js_text (field_of sample_row_owed ''action_index'' ''actionIndex'') = ''900''"
  "field_of sample_row_owed ''coin_amount'' ''coinAmount'' = JStr ''0.5''"
  "js_text (field_of sample_row_owed ''payee_address'' ''payeeAddress'') = sample_main"
  "js_text (js_coalesce (field_of sample_row_owed ''payee_address'' ''payeeAddress'') (JStr '''')) = sample_main" "sample_main \<noteq> []"
  "js_text (js_coalesce (js_coalesce (js_get sample_row_owed ''coinpay_status'') (js_get sample_row_owed ''status'')) (JStr '''')) = ''pending_coinpay''"
  "js_text (field_of sample_row_owed ''payer_address'' ''payerAddress'') = sample_test"
  "js_get sample_row_owed ''expiration'' = JNum (Fin 2000000000)"
  by (simp_all add: sample_row_owed_def sample_debt_def extractRows_def field_of_def js_coalesce_def sample_main_def)

lemma sample_half: "obligationBaseUnits (JStr ''0.5'') = Some 50000000"
proof -
  have "match_decimal ''0.5'' = Some (''0'', Some ''5'')" by (simp add: match_decimal_def is_digit_def)
  moreover have "js_trim ''0.5'' = ''0.5''" by (simp add: js_trim_def js_space_def)
  moreover have "dec_nat ''0'' = 0" "dec_nat ''5'' = 5" by (simp_all add: dec_nat_def digit_val_def)
  ultimately show ?thesis by (simp add: obligationBaseUnits_def dec_nat_pad_end)
qed

lemma sample_digits: "big_digits (JNum (Fin 50000000)) = Some 50000000"
proof -
  have "num_text (Fin 50000000) = nat_text 50000000" using num_text_nat [of 50000000] by simp
  moreover have "js_trim (nat_text 50000000) = nat_text 50000000"
    using nat_text_digits [of 50000000] by (intro js_trim_no_space) (auto simp: list_all_iff not_space_digit)
  ultimately show ?thesis by (simp add: big_digits_def)
qed

lemma sample_open: "fst (classifyObligation (JNum (Fin 2000000000)) 1700000000) \<noteq> Due_expired"
  by (simp add: classifyObligation_def js_Number_def Let_def)

lemma sample_verified:
  "verifyCoinpayObligation (Inr sample_debt) 1700000000 sample_test ''900'' sample_main (JNum (Fin 50000000)) = Inr sample_row_owed"
  using sample_open by (simp add: verifyCoinpayObligation_def sample_owed_parts sample_half sample_digits Let_def)

lemma sample_source: "normalizeSource (co_from sample_coinpay_opts) = Inr (pc_source sample_prepared)"
  by (simp add: normalizeSource_def sample_coinpay_opts_def sample_prepared_def nonempty_js_def sample_test_def)

lemma sample_free: "\<not> paymentInFlight sample_coinpay_world ''900'' sample_test"
  by (simp add: paymentInFlight_def sample_coinpay_world_def hasAttemptedCoinpay_def)

lemma sample_destination: "assertValidDestination sample_coinpay_world sample_main"
proof -
  have "isValidAddressForChain sample_decoders (JStr sample_main) ''bitcoin'' ''mainnet''" by code_simp
  thus ?thesis by (simp add: assertValidDestination_def sample_coinpay_world_def)
qed

lemma sample_fields: "co_match sample_coinpay_opts = JStr ''900''" "co_payee sample_coinpay_opts = JStr sample_main"
  "co_amount sample_coinpay_opts = JStr ''50000000''" "cp_read sample_coinpay_world a = Inr sample_debt"
  "cp_now sample_coinpay_world = 1700000000" "so_address (pc_source sample_prepared) = sample_test"
  by (simp_all add: sample_coinpay_opts_def sample_coinpay_world_def sample_prepared_def)

lemma sample_prepares: "prepareCoinpay sample_coinpay_world sample_coinpay_opts = Inr sample_prepared"
proof -
  have "nonempty_js (JStr ''900'') = Some ''900''" "nonempty_js (JStr sample_main) = Some sample_main"
    by (simp_all add: nonempty_js_Some sample_owed_parts)
  thus ?thesis using sample_amount_read sample_destination
    by (simp add: prepareCoinpay_def sample_fields sample_source sample_free sample_verified sample_owed_parts sample_half sample_amount)
       (simp add: sample_prepared_def)
qed

theorem coinpay_pays_the_debt_witness: "exact_amount 50000000 (pc_amount sample_prepared)"
  using coinpay_pays_the_debt [OF sample_prepares] by (auto simp: exact_amount_def sample_prepared_def)
text \<open>Another address may still pay: its record shows up only for the address that made it.\<close>

definition sample_meta :: tx_meta where
  "sample_meta = \<lparr> tm_from = sample_test, tm_to = sample_main, tm_summary = ''Pay 0.5 BTC for match #900'' \<rparr>"

definition sample_paid_row :: js where
  "sample_paid_row = JObj [(''action'', JStr ''COINPAY''), (''actionSummary'', JStr (tm_summary sample_meta)),
     (''fromAddress'', JStr sample_test), (''status'', JStr ''broadcast'')]"

definition sample_later_world :: coinpay_world where
  "sample_later_world = sample_coinpay_world\<lparr>cp_pending := Some (JArr [sample_paid_row]),
     cp_read := (\<lambda>_. Inr (JArr [js_put sample_row_owed ''payer_address'' Null]))\<rparr>"

definition sample_later_opts :: coinpay_opts where
  "sample_later_opts = sample_coinpay_opts\<lparr>co_from := JObj [(''address'', JStr ''other''), (''publicKey'', JStr ''02cd''), (''id'', JStr ''7'')]\<rparr>"

definition sample_later :: prepared_coinpay where
  "sample_later = sample_prepared\<lparr>pc_source := \<lparr> so_address = ''other'', so_public_key = ''02cd'', so_path = None, so_address_id = ''7'' \<rparr>\<rparr>"

lemma sample_request:
  obtains rq where "coinpayAction sample_coinpay_world sample_coinpay_opts = Inr rq" "rq_meta rq = Some sample_meta"
proof -
  have "baseUnitsToCoinText (JNum (Fin 50000000)) = Some ''0.5''"
  proof -
    have "num_text (Fin 50000000) = nat_text 50000000" using num_text_nat [of 50000000] by simp
    moreover have "js_trim (nat_text 50000000) = nat_text 50000000"
      using nat_text_digits [of 50000000] by (intro js_trim_no_space) (auto simp: list_all_iff not_space_digit)
    ultimately show ?thesis
      by (simp add: baseUnitsToCoinText_def) (simp add: sample_amount pad_start_def strip_trailing_zeros_def nat_text.simps digit_char_def)
  qed
  moreover have "summaryCoinTicker (cp_descriptor sample_coinpay_world) ''bitcoin-mainnet'' = ''BTC''" by code_simp
  ultimately have "amount_label sample_coinpay_world ''bitcoin-mainnet'' (JNum (Fin 50000000)) = ''0.5 BTC''"
    by (simp add: amount_label_def)
  hence label: "amount_label sample_coinpay_world (co_chain sample_coinpay_opts) (pc_amount sample_prepared) = ''0.5 BTC''"
    by (simp add: sample_coinpay_opts_def sample_prepared_def)
  obtain rq where rq: "coinpayAction sample_coinpay_world sample_coinpay_opts = Inr rq"
    by (simp add: coinpayAction_def sample_prepares Let_def)
  moreover have "rq_meta rq = Some sample_meta"
    using rq label unfolding coinpayAction_def sample_prepares
    by (auto simp: Let_def sample_coinpay_opts_def sample_prepared_def sample_meta_def)
  ultimately show ?thesis by (rule that)
qed

lemma sample_later_row: "sample_row_owed = JObj [(''action_index'', JStr ''900''), (''coinpay_status'', JStr ''pending_coinpay''),
     (''payer_address'', JStr sample_test), (''payee_address'', JStr sample_main), (''coin_amount'', JStr ''0.5''),
     (''expiration'', JNum (Fin 2000000000))]"
  by (simp add: sample_row_owed_def sample_debt_def extractRows_def)

lemma sample_later_prepares: "prepareCoinpay sample_later_world sample_later_opts = Inr sample_later"
proof -
  have main: "sample_main \<noteq> []" by (simp add: sample_main_def)
  have "nonempty_js (JStr ''900'') = Some ''900''" "nonempty_js (JStr sample_main) = Some sample_main"
    using main by (simp_all add: nonempty_js_Some)
  moreover have "normalizeSource (co_from sample_later_opts) = Inr (pc_source sample_later)"
    by (simp add: normalizeSource_def sample_later_opts_def sample_later_def nonempty_js_def)
  moreover have "\<not> paymentInFlight sample_later_world ''900'' ''other''"
    by (simp add: paymentInFlight_def sample_later_world_def sample_coinpay_world_def sample_paid_row_def hasAttemptedCoinpay_def sample_test_def)
  moreover have "verifyCoinpayObligation (cp_read sample_later_world a) 1700000000 ''other'' ''900'' sample_main (JNum (Fin 50000000))
      = Inr (js_put sample_row_owed ''payer_address'' Null)" for a
    using sample_open main by (simp add: verifyCoinpayObligation_def sample_later_world_def sample_later_row extractRows_def field_of_def
        js_coalesce_def sample_half sample_digits Let_def)
  moreover have "field_of (js_put sample_row_owed ''payer_address'' Null) ''payee_address'' ''payeeAddress'' = JStr sample_main"
    "field_of (js_put sample_row_owed ''payer_address'' Null) ''coin_amount'' ''coinAmount'' = JStr ''0.5''"
    by (simp_all add: sample_later_row field_of_def js_coalesce_def)
  moreover have "assertValidDestination sample_later_world sample_main"
    using sample_destination by (simp add: assertValidDestination_def sample_later_world_def)
  ultimately show ?thesis using sample_amount_read
    by (simp add: prepareCoinpay_def sample_later_opts_def sample_coinpay_opts_def sample_later_world_def sample_coinpay_world_def
        sample_half sample_amount sample_later_def)
       (simp add: sample_prepared_def)
qed

theorem second_payment_refused_witness:
  "prepareCoinpay sample_later_world sample_later_opts = Inr sample_later \<and> so_address (pc_source sample_later) \<noteq> tm_from sample_meta"
proof -
  obtain rq where rq: "coinpayAction sample_coinpay_world sample_coinpay_opts = Inr rq" "rq_meta rq = Some sample_meta"
    by (rule sample_request)
  have "payment_record sample_meta sample_paid_row"
    by (simp add: payment_record_def sample_paid_row_def sample_meta_def attempted_status_def ATTEMPTED_STATUSES_def)
  moreover have "list_all is_digit ''900''" by (simp add: is_digit_def)
  ultimately show ?thesis
    using second_payment_refused [OF rq, of "''900''" "''''" sample_later_world "[sample_paid_row]" sample_paid_row sample_later_opts sample_later]
      sample_later_prepares
    by (simp add: sample_coinpay_opts_def sample_later_world_def sample_later_def sample_prepared_def)
qed

end
