(* ===== verification/Qr_Codec.thy ===== *)
theory Qr_Codec
  imports Byte_Codec
begin

unbundle bit_operations_syntax

text \<open>
  The codecs under the PSBT-over-QR transports (\<^verbatim>\<open>core/src/uri\<close>): base64 as
  \<^verbatim>\<open>core/src/crypto/kdf.js\<close> calls it (the platform's \<^verbatim>\<open>btoa\<close> and
  \<^verbatim>\<open>atob\<close>, RFC 4648 with the forgiving decoder), the table-driven CRC-32 of
  \<^verbatim>\<open>psbtQr.js\<close> on 32-bit words, the normalisation of a PSBT argument, and the interface
  of a frame transport that both formats provide.
\<close>

section \<open>Base64\<close>

definition b64_alphabet :: string where
  "b64_alphabet = ''ABCDEFGHIJKLMNOPQRSTUVWXYZabcdefghijklmnopqrstuvwxyz0123456789+/''"

definition b64_char :: "nat \<Rightarrow> char" where
  "b64_char n = b64_alphabet ! n"

definition b64_index :: "char \<Rightarrow> nat" where
  "b64_index c = length (takeWhile (\<lambda>d. d \<noteq> c) b64_alphabet)"

fun b64_groups :: "nat list \<Rightarrow> string" where
  "b64_groups (a # b # c # s) =
     b64_char (a div 4) # b64_char (a mod 4 * 16 + b div 16) #
     b64_char (b mod 16 * 4 + c div 64) # b64_char (c mod 64) # b64_groups s"
| "b64_groups [a, b] =
     [b64_char (a div 4), b64_char (a mod 4 * 16 + b div 16), b64_char (b mod 16 * 4), CHR ''='']"
| "b64_groups [a] = [b64_char (a div 4), b64_char (a mod 4 * 16), CHR ''='', CHR ''='']"
| "b64_groups [] = []"

definition bytesToBase64 :: "byte list \<Rightarrow> string" where
  "bytesToBase64 bs = b64_groups (map unat bs)"

fun b64_ungroup :: "nat list \<Rightarrow> nat list" where
  "b64_ungroup (w # x # y # z # s) =
     (w * 4 + x div 16) # (x mod 16 * 16 + y div 4) # (y mod 4 * 64 + z) # b64_ungroup s"
| "b64_ungroup [w, x, y] = [w * 4 + x div 16, x mod 16 * 16 + y div 4]"
| "b64_ungroup [w, x] = [w * 4 + x div 16]"
| "b64_ungroup _ = []"

definition b64_space :: "char \<Rightarrow> bool" where
  "b64_space c \<longleftrightarrow> of_char c \<in> {9, 10, 12, 13, 32 :: nat}"

definition b64_unpad :: "string \<Rightarrow> string" where
  "b64_unpad s =
     (if length s mod 4 = 0 \<and> s \<noteq> [] \<and> last s = CHR ''=''
      then (if butlast s \<noteq> [] \<and> last (butlast s) = CHR ''='' then butlast (butlast s) else butlast s)
      else s)"

definition base64ToBytes :: "string \<Rightarrow> byte list option" where
  "base64ToBytes text =
     (let s = b64_unpad (List.filter (\<lambda>c. \<not> b64_space c) text) in
      if length s mod 4 = 1 \<or> \<not> list_all (\<lambda>c. c \<in> set b64_alphabet) s then None
      else Some (map word_of_nat (b64_ungroup (map b64_index s))))"

lemma b64_table: "list_all (\<lambda>n. b64_index (b64_char n) = n \<and> b64_char n \<in> set b64_alphabet) [0..<64]"
  by code_simp

lemma b64_index_char [simp]: "n < 64 \<Longrightarrow> b64_index (b64_char n) = n"
  and b64_char_mem [simp]: "n < 64 \<Longrightarrow> b64_char n \<in> set b64_alphabet"
  using b64_table by (simp_all add: list_all_iff)

lemma b64_alphabet_plain: "list_all (\<lambda>c. \<not> b64_space c \<and> \<not> js_space c \<and> c \<noteq> CHR ''='') b64_alphabet"
  by code_simp

lemma b64_char_plain [simp]:
  "n < 64 \<Longrightarrow> \<not> b64_space (b64_char n)" "n < 64 \<Longrightarrow> \<not> js_space (b64_char n)"
  "n < 64 \<Longrightarrow> b64_char n \<noteq> CHR ''=''"
  using b64_alphabet_plain b64_char_mem by (auto simp: list_all_iff)

lemma pad_not_space [simp]: "\<not> b64_space CHR ''=''" "\<not> js_space CHR ''=''"
  by (simp_all add: b64_space_def js_space_def)

lemma sextet_high [simp]: "(a :: nat) < 256 \<Longrightarrow> a div 4 < 64" "(b :: nat) < 256 \<Longrightarrow> b div 16 < 16"
    "(c :: nat) < 256 \<Longrightarrow> c div 64 < 4"
  by (simp_all add: less_mult_imp_div_less)

lemma sextet_fits [simp]: "(b :: nat) < 256 \<Longrightarrow> a mod 4 * 16 + b div 16 < 64"
    "(c :: nat) < 256 \<Longrightarrow> b mod 16 * 4 + c div 64 < 64" "(a :: nat) mod 4 * 16 < 64" "(b :: nat) mod 16 * 4 < 64"
  using sextet_high [of b] sextet_high [of c] mod_less_divisor [of 4 a] mod_less_divisor [of 16 b] by linarith+

lemma regroup [simp]:
  "(b :: nat) < 256 \<Longrightarrow> b div 16 div 16 = 0" "(b :: nat) < 256 \<Longrightarrow> b div 16 mod 16 = b div 16"
  "(c :: nat) < 256 \<Longrightarrow> c div 64 div 4 = 0" "(c :: nat) < 256 \<Longrightarrow> c div 64 mod 4 = c div 64"
  by simp_all

lemma length_b64_groups: "length (b64_groups ns) = (length ns + 2) div 3 * 4"
proof (induction ns rule: b64_groups.induct)
  case (1 a b c s)
  have "(length (a # b # c # s) + 2) div 3 = Suc ((length s + 2) div 3)" by simp
  with 1 show ?case by (simp only: b64_groups.simps list.size) simp
qed simp_all

lemma b64_groups_chars:
  "list_all (\<lambda>n. n < 256) ns \<Longrightarrow>
   list_all (\<lambda>c. \<not> b64_space c \<and> \<not> js_space c \<and> (c \<in> set b64_alphabet \<or> c = CHR ''='')) (b64_groups ns)"
  by (induction ns rule: b64_groups.induct) auto

lemma b64_groups_nonempty: "ns \<noteq> [] \<Longrightarrow> b64_groups ns \<noteq> []"
  by (cases ns rule: b64_groups.cases) simp_all

lemma b64_unpad_Cons4:
  "s \<noteq> [] \<Longrightarrow> length s mod 4 = 0 \<Longrightarrow> b64_unpad (a # b # c # d # s) = a # b # c # d # b64_unpad s"
  by (simp add: b64_unpad_def) (cases s; cases "tl s"; auto)

lemma b64_unpad_groups:
  "list_all (\<lambda>n. n < 256) ns \<Longrightarrow>
   b64_ungroup (map b64_index (b64_unpad (b64_groups ns))) = ns
   \<and> list_all (\<lambda>c. c \<in> set b64_alphabet) (b64_unpad (b64_groups ns))
   \<and> length (b64_unpad (b64_groups ns)) mod 4 \<noteq> 1"
proof (induction ns rule: b64_groups.induct)
  case (1 a b c s)
  show ?case
  proof (cases "s = []")
    case True
    with 1 show ?thesis by (auto simp: b64_unpad_def)
  next
    case False
    then have n: "b64_groups s \<noteq> []" "length (b64_groups s) mod 4 = 0"
      using b64_groups_nonempty length_b64_groups by auto
    with 1 show ?thesis
      by (simp add: b64_unpad_Cons4)
  qed
qed (auto simp: b64_unpad_def)

lemma base64_roundtrip [simp]: "base64ToBytes (bytesToBase64 bs) = Some bs"
proof -
  let ?ns = "map unat bs"
  have b: "list_all (\<lambda>n. n < 256) ?ns" by (simp add: list_all_iff)
  have "List.filter (\<lambda>c. \<not> b64_space c) (b64_groups ?ns) = b64_groups ?ns"
    using b64_groups_chars [OF b] by (simp add: list_all_iff)
  moreover have "map word_of_nat ?ns = bs" by (simp add: comp_def)
  ultimately show ?thesis
    using b64_unpad_groups [OF b] unfolding base64ToBytes_def bytesToBase64_def by (simp add: Let_def)
qed

lemma bytesToBase64_plain:
  "list_all (\<lambda>c. \<not> b64_space c \<and> \<not> js_space c \<and> (c \<in> set b64_alphabet \<or> c = CHR ''='')) (bytesToBase64 bs)"
  unfolding bytesToBase64_def by (rule b64_groups_chars) (simp add: list_all_iff)

lemma bytesToBase64_nonempty [simp]: "bytesToBase64 bs = [] \<longleftrightarrow> bs = []"
  using b64_groups_nonempty [of "map unat bs"] by (auto simp: bytesToBase64_def)

section \<open>CRC-32\<close>

definition crc_step :: "32 word \<Rightarrow> 32 word" where
  "crc_step c = (if bit c 0 then 0xedb88320 XOR drop_bit 1 c else drop_bit 1 c)"

definition crc32_table :: "32 word list" where
  "crc32_table = map (\<lambda>i. (crc_step ^^ 8) (word_of_nat i)) [0..<256]"

definition crc32_update :: "32 word \<Rightarrow> byte \<Rightarrow> 32 word" where
  "crc32_update c b = crc32_table ! unat ((c XOR ucast b) AND 0xff) XOR drop_bit 8 c"

definition crc32 :: "byte list \<Rightarrow> 32 word" where
  "crc32 bs = foldl crc32_update 0xffffffff bs XOR 0xffffffff"

definition crc32_bitwise :: "byte list \<Rightarrow> 32 word" where
  "crc32_bitwise bs = foldl (\<lambda>c b. (crc_step ^^ 8) (c XOR ucast b)) 0xffffffff bs XOR 0xffffffff"

lemma crc_step_xor: "crc_step (x XOR y) = crc_step x XOR crc_step y"
  by (rule bit_eqI) (auto simp: crc_step_def bit_simps)

lemma crc_pow_xor: "(crc_step ^^ n) (x XOR y) = (crc_step ^^ n) x XOR (crc_step ^^ n) y"
  by (induction n) (simp_all add: crc_step_xor)

lemma crc_pow_high: "take_bit n (x :: 32 word) = 0 \<Longrightarrow> (crc_step ^^ n) x = drop_bit n x"
proof (induction n arbitrary: x)
  case (Suc n)
  have z: "\<not> bit x i" if "i < Suc n" for i
    using arg_cong [OF Suc.prems, of "\<lambda>y. bit y i"] that by (simp add: bit_take_bit_iff)
  have b: "\<not> bit x 0" "take_bit n (drop_bit 1 x) = 0"
    by (simp add: z) (rule bit_eqI, auto simp: bit_simps z)
  then have "crc_step x = drop_bit 1 x" by (simp add: crc_step_def)
  with Suc.IH [OF b(2)] show ?case
    by (simp add: funpow_Suc_right del: funpow.simps)
qed simp

lemma crc32_update_bitwise: "crc32_update c b = (crc_step ^^ 8) (c XOR ucast b)"
proof -
  let ?x = "c XOR ucast b :: 32 word"
  let ?l = "?x AND 0xff"
  let ?h = "?x XOR ?l"
  have m: "?l = take_bit 8 ?x" by (simp add: take_bit_eq_mask mask_eq_exp_minus_1)
  then have u: "unat ?l < 256"
    by (simp only: m unsigned_take_bit_eq) (rule order_less_le_trans [OF take_bit_nat_less_exp]; simp)
  then have t: "crc32_table ! unat ?l = (crc_step ^^ 8) ?l"
    by (simp add: crc32_table_def)
  have "take_bit 8 ?h = 0" unfolding m by (simp add: take_bit_xor)
  then have "(crc_step ^^ 8) ?h = drop_bit 8 ?h" by (rule crc_pow_high)
  also have "\<dots> = drop_bit 8 c"
    unfolding m by (rule bit_eqI) (auto simp: bit_simps dest: bit_imp_le_length)
  finally have "(crc_step ^^ 8) (?l XOR ?h) = (crc_step ^^ 8) ?l XOR drop_bit 8 c"
    by (simp add: crc_pow_xor)
  moreover have "?l XOR ?h = ?x" by (simp add: xor.left_commute)
  ultimately show ?thesis by (simp add: crc32_update_def t)
qed

lemma crc32_is_bitwise: "crc32 bs = crc32_bitwise bs"
  unfolding crc32_def crc32_bitwise_def
  by (rule arg_cong [of _ _ "\<lambda>c. c XOR 0xffffffff"]) (rule foldl_cong; simp add: crc32_update_bitwise)

lemma xor_cancel [simp]: "(a :: 32 word) XOR b = a XOR c \<longleftrightarrow> b = c" "(b :: 32 word) XOR a = c XOR a \<longleftrightarrow> b = c"
proof -
  show "a XOR b = a XOR c \<longleftrightarrow> b = c"
  proof
    assume "a XOR b = a XOR c"
    then have "a XOR (a XOR b) = a XOR (a XOR c)" by simp
    then show "b = c" by (simp flip: xor.assoc)
  qed simp
  then show "b XOR a = c XOR a \<longleftrightarrow> b = c" by (simp add: xor.commute)
qed

lemma crc_step_top: "bit (crc_step x) 31 \<longleftrightarrow> bit x 0"
  by (auto simp: crc_step_def bit_simps dest: bit_imp_le_length)

lemma crc_step_inj: "crc_step x = crc_step y \<Longrightarrow> x = y"
proof (rule bit_eqI)
  fix n assume e: "crc_step x = crc_step y" and "possible_bit TYPE(32 word) n"
  then have zero: "bit x 0 = bit y 0" using crc_step_top by metis
  with e have d: "drop_bit 1 x = drop_bit 1 y"
    by (simp add: crc_step_def split: if_splits)
  have "bit x (Suc m) = bit y (Suc m)" for m
    using arg_cong [OF d, of "\<lambda>w. bit w m"] by (simp add: bit_drop_bit_eq)
  with zero show "bit x n = bit y n" by (cases n) simp_all
qed

lemma crc_pow_inj: "(crc_step ^^ n) x = (crc_step ^^ n) y \<Longrightarrow> x = y"
  by (induction n) (auto dest: crc_step_inj)

text \<open>Up to four consecutive bytes act on the register as one word, little-endian.\<close>

fun le_word :: "byte list \<Rightarrow> 32 word" where
  "le_word [] = 0"
| "le_word (b # bs) = ucast b XOR push_bit 8 (le_word bs)"

lemma le_word_bit: "bit (le_word bs) n \<longleftrightarrow> n < 32 \<and> n div 8 < length bs \<and> bit (bs ! (n div 8)) (n mod 8)"
proof (induction bs arbitrary: n)
  case (Cons b bs)
  show ?case
  proof (cases "n < 8")
    case True
    then show ?thesis by (auto simp: bit_simps)
  next
    case False
    then have d: "n div 8 = Suc ((n - 8) div 8)" "n mod 8 = (n - 8) mod 8"
      by (simp_all add: le_div_geq le_mod_geq)
    from False show ?thesis
      by (simp add: bit_simps Cons.IH d) (auto dest: bit_imp_le_length)
  qed
qed simp

lemma le_word_inj:
  assumes "length xs = length ys" "length xs \<le> 4" "le_word xs = le_word ys"
  shows "xs = ys"
proof (rule nth_equalityI)
  fix i assume i: "i < length xs"
  show "xs ! i = ys ! i"
  proof (rule bit_eqI)
    fix j assume "possible_bit TYPE(8 word) j"
    then have j: "j < 8" by simp
    with i assms(2) have "8 * i + j < 32" "(8 * i + j) div 8 = i" "(8 * i + j) mod 8 = j" by auto
    then show "bit (xs ! i) j = bit (ys ! i) j"
      using le_word_bit [of xs "8 * i + j"] le_word_bit [of ys "8 * i + j"] assms i by simp
  qed
qed (rule assms(1))

lemma crc_burst:
  "length bs \<le> 4 \<Longrightarrow> foldl crc32_update c bs = (crc_step ^^ (8 * length bs)) (c XOR le_word bs)"
proof (induction bs arbitrary: c)
  case (Cons b bs)
  let ?h = "push_bit 8 (le_word bs)"
  have "(crc_step ^^ 8) ?h = drop_bit 8 ?h"
    by (rule crc_pow_high) (simp add: take_bit_push_bit)
  also have "\<dots> = le_word bs"
    using Cons.prems by (intro bit_eqI) (auto simp: bit_simps le_word_bit)
  finally have "(crc_step ^^ 8) (c XOR le_word (b # bs)) = crc32_update c b XOR le_word bs"
    by (simp add: crc32_update_bitwise crc_pow_xor xor.assoc [symmetric])
  then show ?case
    using Cons by (simp add: funpow_add add.commute [of 8])
qed simp

lemma crc_update_inj_state: "foldl crc32_update c bs = foldl crc32_update d bs \<Longrightarrow> c = d"
proof (induction bs arbitrary: c d)
  case (Cons b bs)
  then have "crc32_update c b = crc32_update d b" by simp
  then have "c XOR ucast b = d XOR ucast b"
    unfolding crc32_update_bitwise by (rule crc_pow_inj)
  then show ?case by simp
qed simp

lemma crc32_burst_detected:
  assumes "length x = length y" "length x \<le> 4" "x \<noteq> y"
  shows "crc32 (u @ x @ v) \<noteq> crc32 (u @ y @ v)"
proof
  assume "crc32 (u @ x @ v) = crc32 (u @ y @ v)"
  then have "foldl crc32_update 0xffffffff (u @ x @ v) = foldl crc32_update 0xffffffff (u @ y @ v)"
    unfolding crc32_def by simp
  then have "foldl crc32_update (foldl crc32_update 0xffffffff u) x =
      foldl crc32_update (foldl crc32_update 0xffffffff u) y"
    unfolding foldl_append by (rule crc_update_inj_state)
  then have "foldl crc32_update 0xffffffff u XOR le_word x = foldl crc32_update 0xffffffff u XOR le_word y"
    using assms crc_pow_inj by (simp only: crc_burst)
  then have "le_word x = le_word y" by simp
  with assms show False using le_word_inj by blast
qed

section \<open>Checksum text\<close>

definition word_hex8 :: "32 word \<Rightarrow> string" where
  "word_hex8 w = map (\<lambda>k. hex_digit (unat (drop_bit (4 * k) w AND 15))) [7, 6, 5, 4, 3, 2, 1, 0]"

lemma nibble_less: "unat (w AND 15 :: 32 word) < 16"
proof -
  have "w AND 15 = take_bit 4 w" by (simp add: take_bit_eq_mask mask_eq_exp_minus_1)
  then show ?thesis
    by (simp only: unsigned_take_bit_eq) (rule order_less_le_trans [OF take_bit_nat_less_exp]; simp)
qed

lemma word_hex8_digits [simp]: "list_all is_lower_hex (word_hex8 w)" "length (word_hex8 w) = 8"
  by (simp_all add: word_hex8_def nibble_less)

lemma word_hex8_inj: "word_hex8 v = word_hex8 w \<Longrightarrow> v = w"
proof (rule bit_eqI)
  fix n assume e: "word_hex8 v = word_hex8 w" and "possible_bit TYPE(32 word) n"
  then have n: "n < 32" by simp
  have "hex_digit (unat (drop_bit (4 * k) v AND 15)) = hex_digit (unat (drop_bit (4 * k) w AND 15))"
    if "k < 8" for k :: nat
  proof -
    have "k \<in> set [7, 6, 5, 4, 3, 2, 1, 0]" using that by simp presburger
    then show ?thesis using e unfolding word_hex8_def map_eq_conv by blast
  qed
  then have "unat (drop_bit (4 * k) v AND 15) = unat (drop_bit (4 * k) w AND 15)" if "k < 8" for k :: nat
    using that hex_val_digit [OF nibble_less] by metis
  then have k: "drop_bit (4 * k) v AND 15 = drop_bit (4 * k) w AND 15" if "k < 8" for k :: nat
    using that by (intro unsigned_word_eqI) blast
  have "bit v n = bit (drop_bit (4 * (n div 4)) v AND 15) (n mod 4)" for v :: "32 word"
  proof -
    have "(15 :: 32 word) = mask 4" by (simp add: mask_eq_exp_minus_1)
    then show ?thesis by (simp only: bit_and_iff bit_drop_bit_eq comp_def bit_mask_iff) auto
  qed
  with k [of "n div 4"] n show "bit v n = bit w n" by simp
qed

section \<open>The PSBT argument\<close>

datatype psbt_input = Psbt_bytes "byte list" | Psbt_value js

definition strip_0x :: "string \<Rightarrow> string" where
  "strip_0x s = (if take 2 s = ''0x'' then drop 2 s else s)"

definition psbt_hex_bytes :: "string \<Rightarrow> byte list option" where
  "psbt_hex_bytes text =
     (let clean = strip_0x (js_lower (js_trim text)) in
      if \<not> list_all is_lower_hex clean \<or> length clean mod 2 \<noteq> 0 then None else Some (hexToBytes clean))"

section \<open>The interface of a frame transport\<close>

text \<open>
  What an animated QR transport promises its screens: whatever order the camera sees the frames in,
  and however often each, the bytes that were shown come out.
\<close>

locale frame_transport =
  fixes encode :: "'c \<Rightarrow> byte list \<Rightarrow> string list option"
    and decode :: "string list \<Rightarrow> byte list option"
  assumes any_scan: "encode c bs = Some frames \<Longrightarrow> set scans = set frames \<Longrightarrow> decode scans = Some bs"
begin

lemma in_order: "encode c bs = Some frames \<Longrightarrow> decode frames = Some bs"
  by (rule any_scan) simp_all

lemma reversed: "encode c bs = Some frames \<Longrightarrow> decode (rev frames) = Some bs"
  by (rule any_scan) simp_all

lemma frames_determine_bytes:
  "encode c bs = Some frames \<Longrightarrow> encode d cs = Some frames' \<Longrightarrow> set frames = set frames' \<Longrightarrow> bs = cs"
  using any_scan in_order by (metis option.inject)

end

end
