(* ===== verification/Vault_Backend.thy ===== *)
theory Vault_Backend
  imports Qr_Codec
begin

unbundle bit_operations_syntax

text \<open>
  The storage backends of the vault: one opaque blob per device, replaced by a compare-and-swap
  (\<^verbatim>\<open>core/src/storage/backend.js\<close>, \<^verbatim>\<open>extension/src/storage/ChromeStorageBackend.js\<close>,
  \<^verbatim>\<open>web/src/storage/IndexedDBStorageBackend.js\<close>). The locale \<open>cas_backend\<close> is the contract
  the vault relies on; the three implementations provide it. The extension's Web Lock and IndexedDB's
  transaction make each save one step, so a save is a function of the stored value.
\<close>

type_synonym blob = "byte list"

datatype load_error = Unexpected_type | Empty_vault | Bad_base64

datatype save_error = Save_conflict | Save_empty_blob

section \<open>Comparing blobs\<close>

definition vaultBlobsEqual :: "blob option \<Rightarrow> blob option \<Rightarrow> bool" where
  "vaultBlobsEqual left right = (case (left, right) of
     (Some l, Some r) \<Rightarrow> length l = length r \<and> foldl (\<lambda>d (a, b). d OR (a XOR b)) 0 (zip l r) = 0
   | _ \<Rightarrow> left = right)"

lemma xor_zero: "x XOR y = 0 \<longleftrightarrow> x = (y :: byte)"
proof
  assume "x XOR y = 0"
  hence "(x XOR y) XOR y = y" by simp
  thus "x = y" by (simp only: xor.assoc xor_self_eq xor.right_neutral)
qed simp

lemma differences_zero:
  "length l = length r \<Longrightarrow> foldl (\<lambda>d (a, b). d OR (a XOR b)) c (zip l r) = 0 \<longleftrightarrow> c = 0 \<and> l = (r :: byte list)"
proof (induction l r arbitrary: c rule: list_induct2)
  case (Cons x xs y ys)
  have "c OR (x XOR y) = 0 \<longleftrightarrow> c = 0 \<and> x = y" by (simp only: or_eq_0_iff xor_zero)
  with Cons.IH [of "c OR (x XOR y)"] show ?case by simp
qed simp

lemma vaultBlobsEqual_iff [simp]: "vaultBlobsEqual left right \<longleftrightarrow> left = right"
  by (auto simp: vaultBlobsEqual_def differences_zero split: option.splits)

section \<open>The contract\<close>

text \<open>
  A save replaces the blob only if it is still the expected one, and refuses otherwise. \<open>ok\<close> says that
  what is stored was stored by the backend itself.
\<close>

locale cas_backend =
  fixes ok :: "'s \<Rightarrow> bool"
    and load :: "'s \<Rightarrow> load_error + blob option"
    and save :: "'s \<Rightarrow> blob \<Rightarrow> blob option \<Rightarrow> save_error + 's"
    and clear :: "'s \<Rightarrow> 's"
  assumes load_ok: "ok s \<Longrightarrow> \<exists>stored. load s = Inr stored"
    and save_match: "ok s \<Longrightarrow> blob \<noteq> [] \<Longrightarrow> load s = Inr expected \<Longrightarrow>
      \<exists>s'. save s blob expected = Inr s' \<and> ok s' \<and> load s' = Inr (Some blob)"
    and save_stale: "ok s \<Longrightarrow> blob \<noteq> [] \<Longrightarrow> load s \<noteq> Inr expected \<Longrightarrow> save s blob expected = Inl Save_conflict"
    and clear_ok: "ok s \<Longrightarrow> ok (clear s) \<and> load (clear s) = Inr None"
begin

lemma saved:
  assumes "ok s" "blob \<noteq> []" "save s blob expected = Inr s'"
  shows "load s = Inr expected" "ok s'" "load s' = Inr (Some blob)"
proof -
  show expected: "load s = Inr expected" using save_stale [OF assms(1,2), of expected] assms(3) by auto
  show "ok s'" "load s' = Inr (Some blob)" using save_match [OF assms(1,2) expected] assms(3) by auto
qed

lemma refused: "ok s \<Longrightarrow> blob \<noteq> [] \<Longrightarrow> save s blob expected = Inl e \<Longrightarrow> e = Save_conflict \<and> load s \<noteq> Inr expected"
  using save_match [of s blob expected] save_stale [of s blob expected] by (cases "load s = Inr expected") auto

text \<open>Of two writers that read the same blob only the first is stored.\<close>

lemma second_writer_refused:
  assumes "ok s" "first \<noteq> []" "second \<noteq> []" "Some first \<noteq> expected" "save s first expected = Inr s'"
  shows "save s' second expected = Inl Save_conflict"
  using saved [OF assms(1,2,5)] save_stale [of s' second expected] assms(3,4) by simp

end

section \<open>InMemoryBackend\<close>

definition memory_load :: "blob option \<Rightarrow> load_error + blob option" where
  "memory_load s = Inr s"

definition memory_save :: "blob option \<Rightarrow> blob \<Rightarrow> blob option \<Rightarrow> save_error + blob option" where
  "memory_save s blob expected = (if \<not> vaultBlobsEqual s expected then Inl Save_conflict else Inr (Some blob))"

definition memory_clear :: "blob option \<Rightarrow> blob option" where
  "memory_clear s = None"

interpretation memory: cas_backend "\<lambda>s. True" memory_load memory_save memory_clear
  by unfold_locales (auto simp: memory_load_def memory_save_def memory_clear_def)

section \<open>ChromeStorageBackend\<close>

text \<open>The value under the vault's key of \<^verbatim>\<open>chrome.storage.local\<close>, \<open>Undef\<close> when there is none.\<close>

definition chrome_load :: "js \<Rightarrow> load_error + blob option" where
  "chrome_load s =
     (if is_nullish s then Inr None
      else (case s of
          JStr encoded \<Rightarrow>
            if encoded = [] then Inl Empty_vault
            else (case base64ToBytes encoded of
                None \<Rightarrow> Inl Bad_base64
              | Some blob \<Rightarrow> if bytesToBase64 blob \<noteq> encoded then Inl Bad_base64 else Inr (Some blob))
        | _ \<Rightarrow> Inl Unexpected_type))"

definition chrome_save :: "js \<Rightarrow> blob \<Rightarrow> blob option \<Rightarrow> save_error + js" where
  "chrome_save s blob expected =
     (if blob = [] then Inl Save_empty_blob
      else let current = js_coalesce s Null;
               encodedExpected = (case expected of None \<Rightarrow> Null | Some e \<Rightarrow> JStr (bytesToBase64 e))
           in if current \<noteq> encodedExpected then Inl Save_conflict else Inr (JStr (bytesToBase64 blob)))"

definition chrome_clear :: "js \<Rightarrow> js" where
  "chrome_clear s = Undef"

definition stored_base64 :: "js \<Rightarrow> bool" where
  "stored_base64 s \<longleftrightarrow> is_nullish s \<or> (\<exists>blob. blob \<noteq> [] \<and> s = JStr (bytesToBase64 blob))"

lemma bytesToBase64_inj: "bytesToBase64 a = bytesToBase64 b \<longleftrightarrow> a = b"
  by (metis base64_roundtrip option.inject)

lemma nullish_cases: "is_nullish s \<Longrightarrow> s = Undef \<or> s = Null"
  by (cases s) auto

interpretation chrome: cas_backend stored_base64 chrome_load chrome_save chrome_clear
  by unfold_locales
     (auto simp: stored_base64_def chrome_load_def chrome_save_def chrome_clear_def js_coalesce_def Let_def
       bytesToBase64_inj dest!: nullish_cases split: option.splits)

section \<open>IndexedDBStorageBackend\<close>

text \<open>The value under the key of the object store; the compare-and-set is one read-write transaction.\<close>

definition idb_load :: "js \<Rightarrow> load_error + blob option" where
  "idb_load s =
     (if is_nullish s then Inr None
      else (case s of
          JStr value \<Rightarrow> (case base64ToBytes value of None \<Rightarrow> Inl Bad_base64 | Some blob \<Rightarrow> Inr (Some blob))
        | _ \<Rightarrow> Inl Unexpected_type))"

definition idbCompareAndSet :: "js \<Rightarrow> js \<Rightarrow> js \<Rightarrow> js option" where
  "idbCompareAndSet s expected new = (let current = (if is_nullish s then Null else s) in
     if current \<noteq> expected then None else Some new)"

definition idb_save :: "js \<Rightarrow> blob \<Rightarrow> blob option \<Rightarrow> save_error + js" where
  "idb_save s blob expected =
     (let encoded = JStr (bytesToBase64 blob);
          encodedExpected = (case expected of None \<Rightarrow> Null | Some e \<Rightarrow> JStr (bytesToBase64 e))
      in case idbCompareAndSet s encodedExpected encoded of None \<Rightarrow> Inl Save_conflict | Some s' \<Rightarrow> Inr s')"

definition idb_clear :: "js \<Rightarrow> js" where
  "idb_clear s = Undef"

interpretation idb: cas_backend stored_base64 idb_load idb_save idb_clear
  by unfold_locales
     (auto simp: stored_base64_def idb_load_def idb_save_def idbCompareAndSet_def idb_clear_def Let_def
       bytesToBase64_inj dest!: nullish_cases split: option.splits)

end
