(* ===== verification/Vault_Store.thy ===== *)
theory Vault_Store
  imports Vault_Backend "HOL-Library.Countable"
begin

text \<open>
  The encrypted vault (\<^verbatim>\<open>core/src/storage/Vault.js\<close> and \<^verbatim>\<open>codec.js\<close>): one document
  of record collections, sealed under the master key and stored as one blob. Every write goes through a
  queue, is stored by compare-and-swap against the blob the handle last saw, and on a conflict is replayed
  on the reloaded document if it only adds a wallet's records or renames a wallet. Handles in several
  contexts share the backend, and a lock may close a handle between any two of its waits.

  A plaintext is represented by the JSON value it spells. The cipher is a parameter (\<open>seal\<close> with a nonce,
  \<open>unseal\<close>), and so are the validators of the schemas
  and the reduction of the settings to their deltas, which gives an object. The records are at their current version, for which
  the migration that a read runs returns them as they are.
\<close>

section \<open>JSON\<close>

text \<open>
  What \<^verbatim>\<open>JSON.parse(JSON.stringify(v))\<close> gives: absent members are dropped, absent elements and
  numbers that are not finite become null. A BigInt, which \<^verbatim>\<open>stringify\<close> refuses, is no part of a document.
\<close>

fun json_norm :: "js \<Rightarrow> js" where
  "json_norm (JNum x) = (case x of Fin r \<Rightarrow> JNum (Fin r) | _ \<Rightarrow> Null)"
| "json_norm (JArr vs) = JArr (map (\<lambda>v. if v = Undef then Null else json_norm v) vs)"
| "json_norm (JObj kvs) = JObj (map (\<lambda>(k, v). (k, json_norm v)) (List.filter (\<lambda>(k, v). v \<noteq> Undef) kvs))"
| "json_norm v = v"

definition recordsEqual :: "js \<Rightarrow> js \<Rightarrow> bool" where
  "recordsEqual left right \<longleftrightarrow> json_norm left = json_norm right"

lemma json_norm_Undef [simp]: "json_norm v = Undef \<longleftrightarrow> v = Undef"
  by (cases v) (auto split: jnum.splits)

lemma json_norm_idem [simp]: "json_norm (json_norm v) = json_norm v"
proof (induction v rule: json_norm.induct)
  case (3 kvs)
  have "List.filter (\<lambda>(k, v). v \<noteq> Undef) (map (\<lambda>(k, v). (k, json_norm v)) (List.filter (\<lambda>(k, v). v \<noteq> Undef) kvs))
      = map (\<lambda>(k, v). (k, json_norm v)) (List.filter (\<lambda>(k, v). v \<noteq> Undef) kvs)"
    by (rule filter_True) auto
  with 3 show ?case by auto
qed (auto split: jnum.splits)

section \<open>codec.js\<close>

definition DOCUMENT_VERSION :: js where
  "DOCUMENT_VERSION = JNum (Fin 1)"

definition DOCUMENT_ARRAY_KEYS :: "string list" where
  "DOCUMENT_ARRAY_KEYS = [''wallets'', ''accounts'', ''addresses'', ''contacts'', ''connectedSites'', ''pendingTxs'',
     ''signers'', ''pendingAirdrops'', ''pendingDeploys'', ''watchlistEntries'', ''priceAlerts'',
     ''multisigSigningSessions'', ''coSignerAccounts'', ''gatedKeys'', ''autopayOrders'', ''autopayLeases'']"

definition document_keys :: "string list" where
  "document_keys = ''documentVersion'' # DOCUMENT_ARRAY_KEYS @ [''settings'']"

definition emptyDocument :: js where
  "emptyDocument = JObj ((''documentVersion'', DOCUMENT_VERSION) # map (\<lambda>k. (k, JArr [])) DOCUMENT_ARRAY_KEYS @ [(''settings'', Null)])"

datatype codec_error = Not_opened | Not_an_object | Unsupported_version

definition encodeDocument :: "('k \<Rightarrow> nat \<Rightarrow> js \<Rightarrow> blob) \<Rightarrow> 'k \<Rightarrow> nat \<Rightarrow> js \<Rightarrow> blob" where
  "encodeDocument seal masterKey nonce document = seal masterKey nonce (json_norm document)"

definition decodeDocument :: "('k \<Rightarrow> blob \<Rightarrow> js option) \<Rightarrow> 'k \<Rightarrow> blob \<Rightarrow> codec_error + js" where
  "decodeDocument unseal masterKey blob = (case unseal masterKey blob of
     None \<Rightarrow> Inl Not_opened
   | Some parsed \<Rightarrow>
       if \<not> (case parsed of JObj _ \<Rightarrow> True | JArr _ \<Rightarrow> True | _ \<Rightarrow> False) then Inl Not_an_object
       else if js_get parsed ''documentVersion'' \<noteq> DOCUMENT_VERSION then Inl Unsupported_version
       else Inr (JObj (map (\<lambda>k. (k, js_coalesce (js_get parsed k) (js_get emptyDocument k))) document_keys)))"

section \<open>Collections of a document\<close>

definition isNonEmptyString :: "js \<Rightarrow> bool" where
  "isNonEmptyString v = (case v of JStr s \<Rightarrow> s \<noteq> [] | _ \<Rightarrow> False)"

definition record_id :: "js \<Rightarrow> js" where
  "record_id r = js_get r ''id''"

definition coll_get :: "js list \<Rightarrow> string \<Rightarrow> js option" where
  "coll_get rows i = List.find (\<lambda>r. record_id r = JStr i) rows"

fun replace_first :: "js \<Rightarrow> js list \<Rightarrow> js list" where
  "replace_first record [] = [record]"
| "replace_first record (r # rows) =
     (if record_id r = record_id record then record # rows else r # replace_first record rows)"

text \<open>\<^verbatim>\<open>putMany\<close> of a collection finds the place of a record in a map of ids, which holds the last one.\<close>

definition replace_last :: "js \<Rightarrow> js list \<Rightarrow> js list" where
  "replace_last record rows =
     (if record_id record \<in> record_id ` set rows then rev (replace_first record (rev rows)) else rows @ [record])"

fun delete_first :: "string \<Rightarrow> js list \<Rightarrow> js list" where
  "delete_first i [] = []"
| "delete_first i (r # rows) = (if record_id r = JStr i then rows else r # delete_first i rows)"

datatype vault_error = Id_required | Invalid_record "string list" | Not_written

definition check_record :: "(js \<Rightarrow> string list) \<Rightarrow> js \<Rightarrow> vault_error option" where
  "check_record validate record =
     (if \<not> js_truthy record \<or> \<not> isNonEmptyString (record_id record) then Some Id_required
      else if validate record \<noteq> [] then Some (Invalid_record (validate record))
      else None)"

text \<open>One collection on its own, with whether the document was stored as the answer of its write.\<close>

definition coll_put :: "(js \<Rightarrow> string list) \<Rightarrow> bool \<Rightarrow> js \<Rightarrow> js list \<Rightarrow> vault_error + js list" where
  "coll_put validate written record rows = (case check_record validate record of
     Some e \<Rightarrow> Inl e
   | None \<Rightarrow> if \<not> written then Inl Not_written else Inr (replace_first record rows))"

definition doc_rows :: "js \<Rightarrow> string \<Rightarrow> js list" where
  "doc_rows document collection = (case js_get document collection of JArr rows \<Rightarrow> rows | _ \<Rightarrow> [])"

section \<open>Operations on a document\<close>

text \<open>
  \<open>Put\<close>, \<open>Put_all\<close> and \<open>Delete\<close> are the writes of a collection, \<open>Put ''settings''\<close> and \<open>Clear_settings\<close>
  those of the settings slot, and \<open>Put_many\<close> is \<^verbatim>\<open>Vault.putMany\<close> over several stores. A put is
  prepared first, which may refuse the record, and gives the step that stores it.
\<close>

datatype vault_op =
    Put string js
  | Put_all string "js list"
  | Delete string string
  | Clear_settings
  | Put_many "(string \<times> js) list"

type_synonym validators = "string \<Rightarrow> js \<Rightarrow> string list"

definition prepare_error :: "validators \<Rightarrow> string \<Rightarrow> js \<Rightarrow> vault_error option" where
  "prepare_error validate store record =
     (if store = ''settings''
      then (if validate store record \<noteq> [] then Some (Invalid_record (validate store record)) else None)
      else check_record (validate store) record)"

definition prepare_step :: "(js \<Rightarrow> (string \<times> js) list) \<Rightarrow> string \<Rightarrow> js \<Rightarrow> js \<Rightarrow> js" where
  "prepare_step deflate store record document =
     (if store = ''settings'' then js_put document store (JObj (deflate record))
      else js_put document store (JArr (replace_first record (doc_rows document store))))"

fun apply_op :: "(js \<Rightarrow> (string \<times> js) list) \<Rightarrow> vault_op \<Rightarrow> js \<Rightarrow> js" where
  "apply_op deflate (Put store record) document = prepare_step deflate store record document"
| "apply_op deflate (Put_all collection records) document =
     js_put document collection (JArr (fold replace_last records (doc_rows document collection)))"
| "apply_op deflate (Delete collection i) document =
     js_put document collection (JArr (delete_first i (doc_rows document collection)))"
| "apply_op deflate Clear_settings document = js_put document ''settings'' Null"
| "apply_op deflate (Put_many entries) document =
     foldl (\<lambda>next (store, record). prepare_step deflate store record next) document entries"

fun first_error :: "vault_error option list \<Rightarrow> vault_error option" where
  "first_error [] = None"
| "first_error (Some e # es) = Some e"
| "first_error (None # es) = first_error es"

fun op_error :: "validators \<Rightarrow> vault_op \<Rightarrow> vault_error option" where
  "op_error validate (Put store record) = prepare_error validate store record"
| "op_error validate (Put_all collection records) = first_error (map (check_record (validate collection)) records)"
| "op_error validate (Put_many entries) = first_error (map (\<lambda>(store, record). prepare_error validate store record) entries)"
| "op_error validate _ = None"

text \<open>Whether an operation changes the document, and whether the change is stored.\<close>

fun op_noop :: "vault_op \<Rightarrow> bool" where
  "op_noop (Put_all collection records) = (records = [])"
| "op_noop (Put_many entries) = (entries = [])"
| "op_noop _ = False"

fun op_persists :: "vault_op \<Rightarrow> js \<Rightarrow> bool" where
  "op_persists (Delete collection i) document = (JStr i \<in> record_id ` set (doc_rows document collection))"
| "op_persists _ document = True"

section \<open>Replaying a write after a conflict\<close>

datatype replay =
    No_replay
  | Add_records "(string \<times> js list) list"
  | Rename js js

text \<open>A map of records by id holds the last record of each id.\<close>

definition by_id :: "js list \<Rightarrow> js \<Rightarrow> js option" where
  "by_id rows i = List.find (\<lambda>r. record_id r = i) (rev rows)"

definition without_name :: "js \<Rightarrow> js" where
  "without_name r = (case r of JObj kvs \<Rightarrow> JObj (List.filter (\<lambda>(k, v). k \<noteq> ''name'') kvs) | x \<Rightarrow> x)"

definition name_only :: "js \<Rightarrow> js \<Rightarrow> bool" where
  "name_only before after \<longleftrightarrow> js_get before ''name'' \<noteq> js_get after ''name''
     \<and> recordsEqual (without_name before) (without_name after)"

text \<open>The records of one collection against their replacements; the answer is the wallet renamed so far.\<close>

fun compare_rows :: "string \<Rightarrow> js list \<Rightarrow> js list \<Rightarrow> (js \<times> js) option \<Rightarrow> (js \<times> js) option option" where
  "compare_rows key [] after changed = Some changed"
| "compare_rows key (r # before) after changed = (case by_id after (record_id r) of
     None \<Rightarrow> None
   | Some replacement \<Rightarrow>
       if recordsEqual r replacement then compare_rows key before after changed
       else if key \<noteq> ''wallets'' \<or> changed \<noteq> None \<or> \<not> name_only r replacement then None
       else compare_rows key before after (Some (r, replacement)))"

definition added_rows :: "js list \<Rightarrow> js list \<Rightarrow> js list" where
  "added_rows before after = List.filter (\<lambda>r. record_id r \<notin> record_id ` set before) after"

fun compare_collections :: "js \<Rightarrow> js \<Rightarrow> string list \<Rightarrow> (js \<times> js) option \<Rightarrow> (js \<times> js) option option" where
  "compare_collections previous next [] changed = Some changed"
| "compare_collections previous next (key # keys) changed =
     (if length (doc_rows next key) < length (doc_rows previous key) then None
      else (case compare_rows key (doc_rows previous key) (doc_rows next key) changed of
          None \<Rightarrow> None
        | Some changed' \<Rightarrow> compare_collections previous next keys changed'))"

definition additions :: "js \<Rightarrow> js \<Rightarrow> (string \<times> js list) list" where
  "additions previous next =
     map (\<lambda>key. (key, added_rows (doc_rows previous key) (doc_rows next key))) DOCUMENT_ARRAY_KEYS"

definition other_slots_equal :: "js \<Rightarrow> js \<Rightarrow> bool" where
  "other_slots_equal previous next \<longleftrightarrow> (case previous of
     JObj kvs \<Rightarrow> list_all (\<lambda>(key, v). key \<in> set DOCUMENT_ARRAY_KEYS \<or> recordsEqual v (js_get next key)) kvs
   | _ \<Rightarrow> True)"

definition makeConflictReplay :: "js option \<Rightarrow> js option \<Rightarrow> replay" where
  "makeConflictReplay previous next = (case (previous, next) of
     (Some p, Some n) \<Rightarrow>
       (case compare_collections p n DOCUMENT_ARRAY_KEYS None of
          None \<Rightarrow> No_replay
        | Some changed \<Rightarrow>
            if \<not> other_slots_equal p n then No_replay
            else let adds = additions p n;
                     addedWallets = length (added_rows (doc_rows p ''wallets'') (doc_rows n ''wallets''));
                     total = sum_list (map (\<lambda>(key, rows). length rows) adds)
                 in (case changed of
                       None \<Rightarrow> if addedWallets = 1 then Add_records adds else No_replay
                     | Some (before, after) \<Rightarrow> if total = 0 then Rename before after else No_replay))
   | _ \<Rightarrow> No_replay)"

definition add_rows :: "js \<Rightarrow> (string \<times> js list) \<Rightarrow> js" where
  "add_rows merged a = (case a of (key, rows) \<Rightarrow>
     if rows = [] then merged else js_put merged key (JArr (doc_rows merged key @ rows)))"

fun replace_at :: "js \<Rightarrow> js \<Rightarrow> js list \<Rightarrow> js list option" where
  "replace_at before after [] = None"
| "replace_at before after (r # rows) =
     (if record_id r = record_id before then (if recordsEqual r before then Some (after # rows) else None)
      else map_option ((#) r) (replace_at before after rows))"

fun run_replay :: "replay \<Rightarrow> js \<Rightarrow> js option" where
  "run_replay No_replay reloaded = None"
| "run_replay (Add_records adds) reloaded =
     (if list_ex (\<lambda>(key, rows). list_ex (\<lambda>r. record_id r \<in> record_id ` set (doc_rows reloaded key)) rows) adds
      then None else Some (foldl add_rows reloaded adds))"
| "run_replay (Rename before after) reloaded =
     map_option (\<lambda>rows. js_put reloaded ''wallets'' (JArr rows)) (replace_at before after (doc_rows reloaded ''wallets''))"

section \<open>The handle\<close>

text \<open>
  The fields of a \<^verbatim>\<open>Vault\<close>: the master key, the document, the blob and document last known to be
  stored, and the flags. \<open>h_phase\<close> is where its current write waits: for the cipher, for the backend's
  save, or for the reload after a conflict. \<open>h_answer\<close> is what the last operation answered.
\<close>

datatype 'k job =
    Mutation js replay
  | Flush replay
  | Rekey js js "'k option"

datatype 'k phase =
    Idle
  | Encoding bool "'k job" blob "js option"
  | Storing bool "'k job" blob "blob option" "js option" bool
  | Reloading bool "'k job"

datatype answer =
    Done
  | Superseded
  | Not_open
  | Refused vault_error
  | Conflict
  | No_such_wallet
  | Quota_full
  | Backend_failed

record 'k handle =
  h_key :: "'k option"
  h_doc :: "js option"
  h_blob :: "blob option"
  h_seen :: "js option"
  h_opened :: bool
  h_auto :: bool
  h_phase :: "'k phase"
  h_answer :: answer

definition new_handle :: "'k \<Rightarrow> bool \<Rightarrow> 'k handle" where
  "new_handle masterKey autoSave = \<lparr> h_key = Some masterKey, h_doc = None, h_blob = None, h_seen = None,
     h_opened = False, h_auto = autoSave, h_phase = Idle, h_answer = Done \<rparr>"

text \<open>What the platform provides: the backend, the cipher, the validators and the reduction of settings.\<close>

record ('k, 's) world =
  w_load :: "'s \<Rightarrow> load_error + blob option"
  w_save :: "'s \<Rightarrow> blob \<Rightarrow> blob option \<Rightarrow> save_error + 's"
  w_clear :: "'s \<Rightarrow> 's"
  w_seal :: "'k \<Rightarrow> nat \<Rightarrow> js \<Rightarrow> blob"
  w_unseal :: "'k \<Rightarrow> blob \<Rightarrow> js option"
  w_validate :: validators
  w_deflate :: "js \<Rightarrow> (string \<times> js) list"

definition answered :: "answer \<Rightarrow> 'k handle \<Rightarrow> 'k handle" where
  "answered a h = h\<lparr>h_phase := Idle, h_answer := a\<rparr>"

definition assert_open :: "'k handle \<Rightarrow> bool" where
  "assert_open h \<longleftrightarrow> h_opened h \<and> h_doc h \<noteq> None \<and> h_key h \<noteq> None"

definition close_vault :: "'k handle \<Rightarrow> 'k handle" where
  "close_vault h = h\<lparr>h_key := None, h_doc := None, h_blob := None, h_seen := None, h_opened := False\<rparr>"

definition open_vault :: "('k, 's) world \<Rightarrow> bool \<Rightarrow> 's \<Rightarrow> 'k handle \<Rightarrow> 'k handle" where
  "open_vault W fault store h =
     (if h_opened h then answered Done h
      else if fault then answered Backend_failed h
      else (case w_load W store of
          Inl e \<Rightarrow> answered Backend_failed h
        | Inr None \<Rightarrow> answered Done (h\<lparr>h_doc := Some emptyDocument, h_blob := None, h_seen := Some emptyDocument, h_opened := True\<rparr>)
        | Inr (Some blob) \<Rightarrow>
            (case h_key h of
               None \<Rightarrow> answered Backend_failed h
             | Some key \<Rightarrow> (case decodeDocument (w_unseal W) key blob of
                   Inl e \<Rightarrow> answered Backend_failed h
                 | Inr document \<Rightarrow>
                     answered Done (h\<lparr>h_doc := Some document, h_blob := Some blob, h_seen := Some document, h_opened := True\<rparr>)))))"

section \<open>Starting a write\<close>

text \<open>A mutation replaces the document in memory at once and is undone if its save fails.\<close>

definition mutate :: "('k, 's) world \<Rightarrow> vault_op \<Rightarrow> nat \<Rightarrow> 'k handle \<Rightarrow> 'k handle" where
  "mutate W op nonce h =
     (if \<not> assert_open h then answered Not_open h
      else case op_error (w_validate W) op of
          Some e \<Rightarrow> answered (Refused e) h
        | None \<Rightarrow>
            if op_noop op then answered Done h
            else (case (h_key h, h_doc h) of
               (Some key, Some previous) \<Rightarrow>
                 if \<not> op_persists op previous then answered Done h
                 else let document = apply_op (w_deflate W) op previous in
                   if h_auto h then
                     h\<lparr>h_doc := Some document,
                       h_phase := Encoding False (Mutation previous (makeConflictReplay (Some previous) (Some document)))
                         (encodeDocument (w_seal W) key nonce document) None\<rparr>
                   else answered Done (h\<lparr>h_doc := Some document\<rparr>)
             | _ \<Rightarrow> answered Not_open h))"

definition save_vault :: "('k, 's) world \<Rightarrow> nat \<Rightarrow> 'k handle \<Rightarrow> 'k handle" where
  "save_vault W nonce h =
     (if \<not> assert_open h then answered Not_open h
      else (case (h_key h, h_doc h) of
         (Some key, Some document) \<Rightarrow>
           h\<lparr>h_phase := Encoding False (Flush (makeConflictReplay (h_seen h) (h_doc h)))
               (encodeDocument (w_seal W) key nonce document) None\<rparr>
       | _ \<Rightarrow> answered Not_open h))"

text \<open>
  \<open>rekey\<close> replaces wallet records and possibly the key in one write, if the stored wallets are still the
  records the caller prepared the replacements from.
\<close>

fun replace_wallets :: "js list \<Rightarrow> js list \<Rightarrow> js list option" where
  "replace_wallets [] rows = Some rows"
| "replace_wallets (record # records) rows =
     (if record_id record \<in> record_id ` set rows then replace_wallets records (replace_first record rows) else None)"

definition rekey :: "('k, 's) world \<Rightarrow> 'k option \<Rightarrow> js list \<Rightarrow> js list option \<Rightarrow> nat \<Rightarrow> 'k handle \<Rightarrow> 'k handle" where
  "rekey W masterKey wallets readWallets nonce h =
     (if \<not> assert_open h then answered Not_open h
      else case first_error (map (check_record (w_validate W ''wallets'')) wallets) of
          Some e \<Rightarrow> answered (Refused e) h
        | None \<Rightarrow>
            (case (h_key h, h_doc h) of
               (Some key, Some previous) \<Rightarrow>
                 if (case readWallets of None \<Rightarrow> False | Some read \<Rightarrow> read \<noteq> doc_rows previous ''wallets'')
                 then answered Conflict h
                 else (case replace_wallets wallets (doc_rows previous ''wallets'') of
                     None \<Rightarrow> answered No_such_wallet h
                   | Some rows \<Rightarrow>
                       let next = js_put previous ''wallets'' (JArr rows) in
                       h\<lparr>h_phase := Encoding False (Rekey previous next masterKey)
                           (encodeDocument (w_seal W) (case masterKey of None \<Rightarrow> key | Some k \<Rightarrow> k) nonce next) (Some next)\<rparr>)
             | _ \<Rightarrow> answered Not_open h))"

section \<open>The waits of a write\<close>

text \<open>
  Dropping the caches on a full storage and opening a blob that was loaded are waits too; nothing of the handle is
  read between them and the step they are part of. The cipher has answered and the save is issued: the blob it expects is the one the handle knows at this
  moment. \<open>given\<close> is the document the blob was made from, when it is not the one in memory.
\<close>

definition issue :: "'k handle \<Rightarrow> 'k handle" where
  "issue h = (case h_phase h of
     Encoding retry job blob given \<Rightarrow>
       h\<lparr>h_phase := Storing retry job blob (h_blob h) (case given of None \<Rightarrow> h_doc h | Some d \<Rightarrow> Some d) False\<rparr>
   | _ \<Rightarrow> h)"

text \<open>A save that fails undoes a mutation, unless the document has been reloaded or the handle closed.\<close>

definition fail :: "bool \<Rightarrow> 'k job \<Rightarrow> answer \<Rightarrow> 'k handle \<Rightarrow> 'k handle" where
  "fail reloaded job a h = answered a (case job of
     Mutation previous replay \<Rightarrow> if reloaded \<or> h_doc h = None then h else h\<lparr>h_doc := Some previous\<rparr>
   | _ \<Rightarrow> h)"

definition finish :: "bool \<Rightarrow> 'k job \<Rightarrow> js option \<Rightarrow> 'k handle \<Rightarrow> 'k handle" where
  "finish retry job document h = (case job of
     Rekey previous next masterKey \<Rightarrow>
       if h_doc h \<noteq> Some previous \<or> h_key h = None then answered Superseded h
       else answered Done (h\<lparr>h_key := (case masterKey of None \<Rightarrow> h_key h | Some k \<Rightarrow> Some k), h_doc := Some next\<rparr>)
   | _ \<Rightarrow> if retry \<and> h_key h \<noteq> None then answered Done (h\<lparr>h_doc := document\<rparr>) else answered Done h)"

datatype fault = No_fault | Quota | Other_fault

text \<open>
  The backend answers the save. A full storage is retried once after the disposable caches are dropped; a
  conflict is followed by a reload.
\<close>

definition save_answer :: "('k, 's) world \<Rightarrow> fault \<Rightarrow> 's \<times> 'k handle \<Rightarrow> 's \<times> 'k handle" where
  "save_answer W fault sh = (case sh of (store, h) \<Rightarrow> (case h_phase h of
     Storing retry job blob expected document second \<Rightarrow>
       (case fault of
          Quota \<Rightarrow> if second then (store, fail retry job Quota_full h)
                   else (store, h\<lparr>h_phase := Storing retry job blob expected document True\<rparr>)
        | Other_fault \<Rightarrow> (store, fail retry job Backend_failed h)
        | No_fault \<Rightarrow>
            (case w_save W store blob expected of
               Inl Save_conflict \<Rightarrow> (store, h\<lparr>h_phase := Reloading retry job\<rparr>)
             | Inl Save_empty_blob \<Rightarrow> (store, fail retry job Backend_failed h)
             | Inr store' \<Rightarrow>
                 (store', finish retry job document
                   (if h_key h = None then h else h\<lparr>h_blob := Some blob, h_seen := document\<rparr>))))
   | _ \<Rightarrow> (store, h)))"

definition job_replay :: "'k job \<Rightarrow> replay" where
  "job_replay job = (case job of Mutation previous replay \<Rightarrow> replay | Flush replay \<Rightarrow> replay | Rekey p n k \<Rightarrow> No_replay)"

text \<open>The reload after a conflict, and the replay of the write on what was reloaded.\<close>

definition reload :: "('k, 's) world \<Rightarrow> bool \<Rightarrow> nat \<Rightarrow> 's \<Rightarrow> 'k handle \<Rightarrow> 'k handle" where
  "reload W fault nonce store h = (case h_phase h of
     Reloading retry job \<Rightarrow>
       (case h_key h of
          None \<Rightarrow> fail True job Conflict h
        | Some key \<Rightarrow>
            if fault then fail retry job Backend_failed h
            else (case w_load W store of
                Inl e \<Rightarrow> fail retry job Backend_failed h
              | Inr None \<Rightarrow> fail True job Conflict (close_vault h)
              | Inr (Some blob) \<Rightarrow>
                  (case decodeDocument (w_unseal W) key blob of
                     Inl e \<Rightarrow> fail True job Conflict (close_vault h)
                   | Inr document \<Rightarrow>
                       let h' = h\<lparr>h_doc := Some document, h_blob := Some blob, h_seen := Some document\<rparr> in
                       if retry then fail True job Conflict h'
                       else (case run_replay (job_replay job) document of
                           None \<Rightarrow> fail True job Conflict h'
                         | Some retried \<Rightarrow>
                             h'\<lparr>h_phase := Encoding True job (encodeDocument (w_seal W) key nonce retried) (Some retried)\<rparr>))))
   | _ \<Rightarrow> h)"

definition clear_vault :: "('k, 's) world \<Rightarrow> bool \<Rightarrow> 's \<times> 'k handle \<Rightarrow> 's \<times> 'k handle" where
  "clear_vault W fault sh = (case sh of (store, h) \<Rightarrow>
     if fault then (store, answered Backend_failed h)
     else (w_clear W store, answered Done (h\<lparr>h_doc := None, h_blob := None, h_seen := None, h_opened := False\<rparr>)))"

section \<open>Handles sharing a backend\<close>

datatype 'k handle_event =
    Open_vault bool
  | Set_auto_save bool
  | Mutate vault_op nat
  | Save nat
  | Rekey_vault "'k option" "js list" "js list option" nat
  | Clear_vault bool
  | Issue
  | Save_answer fault
  | Reload bool nat
  | Close

datatype 'k event =
    Handle nat "'k handle_event"
  | Wipe

record ('k, 's) vaults =
  v_store :: 's
  v_handles :: "nat \<Rightarrow> 'k handle"

definition handle_step :: "('k, 's) world \<Rightarrow> 'k handle_event \<Rightarrow> 's \<times> 'k handle \<Rightarrow> 's \<times> 'k handle" where
  "handle_step W e sh = (case sh of (store, h) \<Rightarrow> (case e of
     Open_vault fault \<Rightarrow> (store, open_vault W fault store h)
   | Set_auto_save b \<Rightarrow> (store, h\<lparr>h_auto := b\<rparr>)
   | Mutate op nonce \<Rightarrow> (store, mutate W op nonce h)
   | Save nonce \<Rightarrow> (store, save_vault W nonce h)
   | Rekey_vault key wallets readWallets nonce \<Rightarrow> (store, rekey W key wallets readWallets nonce h)
   | Clear_vault fault \<Rightarrow> clear_vault W fault (store, h)
   | Issue \<Rightarrow> (store, issue h)
   | Save_answer fault \<Rightarrow> save_answer W fault (store, h)
   | Reload fault nonce \<Rightarrow> (store, reload W fault nonce store h)
   | Close \<Rightarrow> (store, close_vault h)))"

definition vaults_step :: "('k, 's) world \<Rightarrow> ('k, 's) vaults \<Rightarrow> 'k event \<Rightarrow> ('k, 's) vaults" where
  "vaults_step W s e = (case e of
     Handle i he \<Rightarrow> (case handle_step W he (v_store s, v_handles s i) of
       (store, h) \<Rightarrow> s\<lparr>v_store := store, v_handles := (v_handles s)(i := h)\<rparr>)
   | Wipe \<Rightarrow> s\<lparr>v_store := w_clear W (v_store s)\<rparr>)"

text \<open>
  The write queue: an operation that starts a write runs when the one before it has answered. A handle that
  was closed is not opened again, since the shells make a new one, and the stores are those of the vault.
\<close>

fun op_ok :: "vault_op \<Rightarrow> bool" where
  "op_ok (Put store record) = (store = ''settings'' \<or> store \<in> set DOCUMENT_ARRAY_KEYS)"
| "op_ok (Put_all collection records) = (collection \<in> set DOCUMENT_ARRAY_KEYS)"
| "op_ok (Delete collection i) = (collection \<in> set DOCUMENT_ARRAY_KEYS)"
| "op_ok Clear_settings = True"
| "op_ok (Put_many entries) = list_all (\<lambda>(store, record). store = ''settings'' \<or> store \<in> set DOCUMENT_ARRAY_KEYS) entries"

definition event_ok :: "('k, 's) vaults \<Rightarrow> 'k event \<Rightarrow> bool" where
  "event_ok s e = (case e of
     Wipe \<Rightarrow> True
   | Handle i he \<Rightarrow> (case he of
       Issue \<Rightarrow> True | Save_answer _ \<Rightarrow> True | Reload _ _ \<Rightarrow> True | Close \<Rightarrow> True | Set_auto_save _ \<Rightarrow> True
     | Open_vault _ \<Rightarrow> h_phase (v_handles s i) = Idle \<and> h_key (v_handles s i) \<noteq> None
     | Mutate op _ \<Rightarrow> h_phase (v_handles s i) = Idle \<and> op_ok op
     | _ \<Rightarrow> h_phase (v_handles s i) = Idle))"

section \<open>Well-formed documents\<close>

definition doc_ok :: "js \<Rightarrow> bool" where
  "doc_ok d \<longleftrightarrow> (\<exists>kvs. d = JObj kvs \<and> map fst kvs = document_keys)
     \<and> js_get d ''documentVersion'' = DOCUMENT_VERSION
     \<and> (\<forall>key \<in> set DOCUMENT_ARRAY_KEYS. \<exists>rows. js_get d key = JArr rows)
     \<and> js_get d ''settings'' \<noteq> Undef"

lemma keys_distinct: "distinct document_keys"
  by (simp add: document_keys_def DOCUMENT_ARRAY_KEYS_def)

lemma key_sets:
  "key \<in> set DOCUMENT_ARRAY_KEYS \<Longrightarrow> key \<in> set document_keys \<and> key \<noteq> ''settings'' \<and> key \<noteq> ''documentVersion''"
  "''settings'' \<in> set document_keys" "''documentVersion'' \<in> set document_keys"
  by (auto simp: document_keys_def DOCUMENT_ARRAY_KEYS_def)

lemma doc_ok_object: "doc_ok d \<Longrightarrow> is_plain_object d"
  by (auto simp: doc_ok_def)

lemma put_keys:
  "map fst kvs = ks \<Longrightarrow> k \<in> set ks \<Longrightarrow> \<exists>kvs'. js_put (JObj kvs) k v = JObj kvs' \<and> map fst kvs' = ks"
  by (auto simp: map_of_eq_None_iff)

lemma doc_ok_put:
  assumes "doc_ok d" "k \<in> set DOCUMENT_ARRAY_KEYS"
  shows "doc_ok (js_put d k (JArr rows))"
proof -
  have o: "is_plain_object d" using doc_ok_object [OF assms(1)] .
  obtain kvs where "d = JObj kvs" "map fst kvs = document_keys" using assms(1) by (auto simp: doc_ok_def)
  with put_keys [of kvs document_keys k "JArr rows"] key_sets(1) [OF assms(2)]
  have "\<exists>kvs. js_put d k (JArr rows) = JObj kvs \<and> map fst kvs = document_keys" by blast
  with assms key_sets(1) [OF assms(2)] show ?thesis by (auto simp: doc_ok_def js_get_put [OF o])
qed

lemma doc_ok_put_settings:
  assumes "doc_ok d" "v \<noteq> Undef"
  shows "doc_ok (js_put d ''settings'' v)"
proof -
  have o: "is_plain_object d" using doc_ok_object [OF assms(1)] .
  obtain kvs where "d = JObj kvs" "map fst kvs = document_keys" using assms(1) by (auto simp: doc_ok_def)
  with put_keys [of kvs document_keys "''settings''" v] key_sets(2)
  have "\<exists>kvs. js_put d ''settings'' v = JObj kvs \<and> map fst kvs = document_keys" by blast
  with assms key_sets(1) show ?thesis by (auto simp: doc_ok_def js_get_put [OF o])
qed

lemma doc_ok_empty: "doc_ok emptyDocument"
  by (simp add: doc_ok_def emptyDocument_def document_keys_def DOCUMENT_ARRAY_KEYS_def)

lemma doc_ok_step:
  "doc_ok d \<Longrightarrow> store = ''settings'' \<or> store \<in> set DOCUMENT_ARRAY_KEYS \<Longrightarrow>
     doc_ok (prepare_step deflate store record d)"
  by (auto simp: prepare_step_def doc_ok_put doc_ok_put_settings)

lemma doc_ok_op:
  assumes "doc_ok d" "op_ok op"
  shows "doc_ok (apply_op deflate op d)"
proof (cases op)
  case (Put_many entries)
  have "doc_ok (foldl (\<lambda>next (store, record). prepare_step deflate store record next) d entries)"
    using assms(1) assms(2) [unfolded Put_many]
    by (induction entries arbitrary: d) (auto simp: doc_ok_step)
  thus ?thesis using Put_many by simp
qed (use assms in \<open>auto simp: doc_ok_step doc_ok_put doc_ok_put_settings\<close>)

section \<open>The codec\<close>

lemma map_of_norm:
  "distinct (map fst kvs) \<Longrightarrow> map_of (map (\<lambda>(k, v). (k, json_norm v)) (List.filter (\<lambda>(k, v). v \<noteq> Undef) kvs)) k
     = (case map_of kvs k of None \<Rightarrow> None | Some v \<Rightarrow> if v = Undef then None else Some (json_norm v))"
proof (induction kvs)
  case (Cons kv kvs)
  obtain j v where kv: "kv = (j, v)" by (cases kv)
  have "map_of kvs j = None" using Cons.prems kv by (simp add: map_of_eq_None_iff)
  with Cons kv show ?case by (cases "k = j") (simp_all split: option.splits)
qed simp

lemma js_get_norm:
  assumes "doc_ok d"
  shows "js_get (json_norm d) k = json_norm (js_get d k)"
proof -
  obtain kvs where d: "d = JObj kvs" "map fst kvs = document_keys" using assms by (auto simp: doc_ok_def)
  have "distinct (map fst kvs)" using d(2) keys_distinct by simp
  thus ?thesis using d(1) map_of_norm [of kvs k] by (auto split: option.splits)
qed

lemma object_of_keys: "map fst kvs = ks \<Longrightarrow> distinct ks \<Longrightarrow> JObj (map (\<lambda>k. (k, js_get (JObj kvs) k)) ks) = JObj kvs"
proof -
  assume ks: "map fst kvs = ks" and d: "distinct ks"
  have "map (\<lambda>k. (k, js_get (JObj kvs) k)) (map fst kvs) = map (\<lambda>kv. kv) kvs"
    unfolding map_map
  proof (rule map_cong [OF refl])
    fix kv assume "kv \<in> set kvs"
    hence "map_of kvs (fst kv) = Some (snd kv)" using d ks by (simp add: map_of_is_SomeI)
    thus "((\<lambda>k. (k, js_get (JObj kvs) k)) \<circ> fst) kv = kv" by simp
  qed
  thus ?thesis using ks by simp
qed

lemma doc_ok_defined: "doc_ok d \<Longrightarrow> k \<in> set document_keys \<Longrightarrow> js_get d k \<noteq> Undef"
  by (auto simp: doc_ok_def document_keys_def DOCUMENT_VERSION_def)

lemma doc_ok_norm:
  assumes "doc_ok d"
  shows "doc_ok (json_norm d)"
proof -
  obtain kvs where d: "d = JObj kvs" "map fst kvs = document_keys" using assms by (auto simp: doc_ok_def)
  have "List.filter (\<lambda>(k, v). v \<noteq> Undef) kvs = kvs"
  proof (rule filter_True)
    show "\<forall>kv \<in> set kvs. case kv of (k, v) \<Rightarrow> v \<noteq> Undef"
    proof clarify
      fix k v assume kv: "(k, Undef) \<in> set kvs"
      hence "map_of kvs k = Some Undef" using d(2) keys_distinct by (simp add: map_of_is_SomeI)
      hence "js_get d k = Undef" using d(1) by simp
      moreover have "k \<in> set document_keys" using kv d(2) by (metis fst_conv image_eqI list.set_map)
      ultimately show False using doc_ok_defined [OF assms] by simp
    qed
  qed
  hence "\<exists>kvs. json_norm d = JObj kvs \<and> map fst kvs = document_keys"
    using d by (auto simp: comp_def split_def)
  with assms show ?thesis
    unfolding doc_ok_def using js_get_norm [OF assms]
    by (auto simp: DOCUMENT_VERSION_def)
qed

lemma decode_encode:
  assumes "doc_ok d" "unseal k (seal k n (json_norm d)) = Some (json_norm d)"
  shows "decodeDocument unseal k (encodeDocument seal k n d) = Inr (json_norm d)"
proof -
  let ?p = "json_norm d"
  have p: "doc_ok ?p" using doc_ok_norm [OF assms(1)] .
  then obtain kvs where kvs: "?p = JObj kvs" "map fst kvs = document_keys" by (auto simp: doc_ok_def)
  have "js_coalesce (js_get ?p k) (js_get emptyDocument k) = js_get ?p k" if "k \<in> set document_keys" for k
  proof (cases "is_nullish (js_get ?p k)")
    case True
    have "k = ''settings''" "js_get ?p k = Null"
      using that True p nullish_cases [OF True] doc_ok_defined [OF p that]
      by (auto simp: doc_ok_def document_keys_def DOCUMENT_VERSION_def)
    moreover have "js_get emptyDocument ''settings'' = Null" by (simp add: emptyDocument_def DOCUMENT_ARRAY_KEYS_def)
    ultimately show ?thesis by (simp add: js_coalesce_def)
  qed (simp add: js_coalesce_def)
  hence "JObj (map (\<lambda>k. (k, js_coalesce (js_get ?p k) (js_get emptyDocument k))) document_keys)
      = JObj (map (\<lambda>k. (k, js_get (JObj kvs) k)) document_keys)" using kvs(1) by simp
  also have "\<dots> = ?p" using object_of_keys [OF kvs(2) keys_distinct] kvs(1) by simp
  finally have "JObj (map (\<lambda>k. (k, js_coalesce (js_get ?p k) (js_get emptyDocument k))) document_keys) = ?p" .
  moreover have "js_get ?p ''documentVersion'' = DOCUMENT_VERSION" "case ?p of JObj _ \<Rightarrow> True | JArr _ \<Rightarrow> True | _ \<Rightarrow> False"
    using p kvs(1) by (auto simp: doc_ok_def)
  ultimately show ?thesis unfolding decodeDocument_def encodeDocument_def assms(2) by simp
qed

section \<open>What a replay does\<close>

lemma doc_rows_put:
  "is_plain_object d \<Longrightarrow> doc_rows (js_put d k (JArr rows)) key = (if key = k then rows else doc_rows d key)"
  by (simp add: doc_rows_def js_get_put)

lemma add_rows_one:
  assumes "doc_ok d" "k \<in> set DOCUMENT_ARRAY_KEYS"
  shows "doc_ok (add_rows d (k, rows))"
    and "doc_rows (add_rows d (k, rows)) key = doc_rows d key @ (if key = k then rows else [])"
    and "key \<noteq> k \<Longrightarrow> js_get (add_rows d (k, rows)) key = js_get d key"
  using assms doc_ok_object [OF assms(1)] by (auto simp: add_rows_def doc_ok_put doc_rows_put js_get_put)

lemma add_rows_all:
  assumes "doc_ok d" "distinct (map fst adds)" "fst ` set adds \<subseteq> set DOCUMENT_ARRAY_KEYS"
  shows "doc_ok (foldl add_rows d adds)
    \<and> (\<forall>key. doc_rows (foldl add_rows d adds) key = doc_rows d key @ (case map_of adds key of None \<Rightarrow> [] | Some rows \<Rightarrow> rows))
    \<and> (\<forall>key. key \<notin> set DOCUMENT_ARRAY_KEYS \<longrightarrow> js_get (foldl add_rows d adds) key = js_get d key)"
  using assms
proof (induction adds arbitrary: d)
  case (Cons a adds)
  obtain k rows where a: "a = (k, rows)" by (cases a)
  have k: "k \<in> set DOCUMENT_ARRAY_KEYS" and fresh: "map_of adds k = None"
    using Cons.prems a by (auto simp: map_of_eq_None_iff)
  note one = add_rows_one [OF Cons.prems(1) k, where rows = rows]
  have "doc_rows (foldl add_rows d (a # adds)) key
      = doc_rows d key @ (case map_of (a # adds) key of None \<Rightarrow> [] | Some rows \<Rightarrow> rows)" for key
    using Cons.IH [OF one(1)] Cons.prems(2,3) a one(2) [where key = key] fresh by (cases "key = k") simp_all
  moreover have "js_get (foldl add_rows d (a # adds)) key = js_get d key" if "key \<notin> set DOCUMENT_ARRAY_KEYS" for key
  proof -
    have "key \<noteq> k" using that k by metis
    thus ?thesis using Cons.IH [OF one(1)] Cons.prems(2,3) a one(3) [where key = key] that by simp
  qed
  ultimately show ?case using Cons.IH [OF one(1)] Cons.prems(2,3) a by simp
qed simp

lemma compare_rows_changed:
  "compare_rows key before after changed = Some (Some (b, a)) \<Longrightarrow>
     changed = Some (b, a) \<or> key = ''wallets'' \<and> b \<in> set before \<and> by_id after (record_id b) = Some a \<and> name_only b a"
  by (induction key before after changed rule: compare_rows.induct) (auto split: option.splits if_splits)

lemma compare_collections_changed:
  "compare_collections p n keys changed = Some (Some (b, a)) \<Longrightarrow> changed = Some (b, a) \<or>
     b \<in> set (doc_rows p ''wallets'') \<and> by_id (doc_rows n ''wallets'') (record_id b) = Some a \<and> name_only b a"
proof (induction p n keys changed rule: compare_collections.induct)
  case (2 p n key keys changed)
  then obtain c where c: "compare_rows key (doc_rows p key) (doc_rows n key) changed = Some c"
    "compare_collections p n keys c = Some (Some (b, a))" by (auto split: if_splits option.splits)
  have "c = Some (b, a) \<or> b \<in> set (doc_rows p ''wallets'') \<and> by_id (doc_rows n ''wallets'') (record_id b) = Some a \<and> name_only b a"
    using 2(1) c "2.prems" by (auto split: if_splits)
  with c(1) compare_rows_changed [of key "doc_rows p key" "doc_rows n key" changed b a] show ?case by auto
qed simp

lemma replay_cases:
  assumes "makeConflictReplay previous next = r"
  obtains "r = No_replay"
  | p n where "previous = Some p" "next = Some n" "r = Add_records (additions p n)"
      "length (added_rows (doc_rows p ''wallets'') (doc_rows n ''wallets'')) = 1"
  | p n b a where "previous = Some p" "next = Some n" "r = Rename b a"
      "b \<in> set (doc_rows p ''wallets'')" "record_id a = record_id b" "name_only b a"
proof -
  have id: "by_id rows i = Some a \<Longrightarrow> record_id a = i" for rows i a by (auto simp: by_id_def find_Some_iff)
  show ?thesis
  proof (cases r)
    case No_replay
    thus ?thesis using that(1) by simp
  next
    case (Add_records adds)
    thus ?thesis using assms that(2) by (auto simp: makeConflictReplay_def Let_def split: option.splits if_splits prod.splits)
  next
    case (Rename b a)
    then obtain p n where pn: "previous = Some p" "next = Some n"
      "compare_collections p n DOCUMENT_ARRAY_KEYS None = Some (Some (b, a))"
      using assms by (auto simp: makeConflictReplay_def Let_def split: option.splits if_splits prod.splits)
    with compare_collections_changed [OF pn(3)] Rename id show ?thesis by (auto intro: that(3))
  qed
qed

lemma replace_at_Some:
  "replace_at before after rows = Some rows' \<Longrightarrow>
     \<exists>pre w post. rows = pre @ w # post \<and> rows' = pre @ after # post \<and> recordsEqual w before \<and> record_id w = record_id before
       \<and> record_id before \<notin> record_id ` set pre"
proof (induction rows arbitrary: rows')
  case (Cons r rows)
  show ?case
  proof (cases "record_id r = record_id before")
    case True
    thus ?thesis using Cons.prems by (intro exI [of _ "[]"]) (auto split: if_splits)
  next
    case False
    then obtain rows'' where "replace_at before after rows = Some rows''" "rows' = r # rows''" using Cons.prems by auto
    with Cons.IH obtain pre w post where "rows = pre @ w # post" "rows' = r # pre @ after # post" "recordsEqual w before"
      "record_id w = record_id before" "record_id before \<notin> record_id ` set pre" by metis
    thus ?thesis using False by (intro exI [of _ "r # pre"]) auto
  qed
qed simp

lemma map_of_additions:
  "key \<in> set DOCUMENT_ARRAY_KEYS \<Longrightarrow> map_of (additions p n) key = Some (added_rows (doc_rows p key) (doc_rows n key))"
  by (auto simp: additions_def map_of_map_restrict map_of_map comp_def restrict_map_def)

lemma additions_keys: "map fst (additions p n) = DOCUMENT_ARRAY_KEYS"
  by (simp add: additions_def comp_def)

lemma array_keys_distinct: "distinct DOCUMENT_ARRAY_KEYS"
  using keys_distinct by (simp add: document_keys_def)

lemma disjoint_images: "\<forall>a \<in> A. f a \<notin> f ` B \<Longrightarrow> f ` B \<inter> f ` A = {}"
  by (simp add: disjoint_iff image_iff) metis

lemma run_add:
  assumes "doc_ok s" "run_replay (Add_records (additions p n)) s = Some d"
  shows "doc_ok d" "key \<notin> set DOCUMENT_ARRAY_KEYS \<Longrightarrow> js_get d key = js_get s key"
    and "key \<in> set DOCUMENT_ARRAY_KEYS \<Longrightarrow>
      doc_rows d key = doc_rows s key @ added_rows (doc_rows p key) (doc_rows n key)
      \<and> record_id ` set (doc_rows s key) \<inter> record_id ` set (added_rows (doc_rows p key) (doc_rows n key)) = {}"
proof -
  have fresh: "\<not> list_ex (\<lambda>(key, rows). list_ex (\<lambda>r. record_id r \<in> record_id ` set (doc_rows s key)) rows) (additions p n)"
    and d: "d = foldl add_rows s (additions p n)"
    using assms(2) by (auto split: if_splits)
  have "fst ` set (additions p n) = set DOCUMENT_ARRAY_KEYS" by (metis additions_keys list.set_map)
  note all = add_rows_all [OF assms(1), of "additions p n", unfolded additions_keys, OF array_keys_distinct, folded d]
  show "doc_ok d" "key \<notin> set DOCUMENT_ARRAY_KEYS \<Longrightarrow> js_get d key = js_get s key"
    using all \<open>fst ` set (additions p n) = set DOCUMENT_ARRAY_KEYS\<close> by auto
  assume key: "key \<in> set DOCUMENT_ARRAY_KEYS"
  hence mem: "(key, added_rows (doc_rows p key) (doc_rows n key)) \<in> set (additions p n)" by (auto simp: additions_def)
  have "\<forall>a \<in> set (additions p n). \<not> (case a of (key, rows) \<Rightarrow> list_ex (\<lambda>r. record_id r \<in> record_id ` set (doc_rows s key)) rows)"
    using fresh by (simp only: list_ex_iff ball_simps bex_simps not_not simp_thms)
  from bspec [OF this mem]
  have "\<forall>r \<in> set (added_rows (doc_rows p key) (doc_rows n key)). record_id r \<notin> record_id ` set (doc_rows s key)"
    by (simp add: list_ex_iff)
  hence "record_id ` set (doc_rows s key) \<inter> record_id ` set (added_rows (doc_rows p key) (doc_rows n key)) = {}"
    by (rule disjoint_images)
  with all key map_of_additions [OF key, of p n] \<open>fst ` set (additions p n) = set DOCUMENT_ARRAY_KEYS\<close>
  show "doc_rows d key = doc_rows s key @ added_rows (doc_rows p key) (doc_rows n key)
      \<and> record_id ` set (doc_rows s key) \<inter> record_id ` set (added_rows (doc_rows p key) (doc_rows n key)) = {}" by simp
qed

lemma run_rename:
  assumes "doc_ok s" "run_replay (Rename before after) s = Some d"
  shows "doc_ok d" "key \<noteq> ''wallets'' \<Longrightarrow> js_get d key = js_get s key"
    and "\<exists>pre w post. doc_rows s ''wallets'' = pre @ w # post \<and> doc_rows d ''wallets'' = pre @ after # post
      \<and> recordsEqual w before \<and> record_id w = record_id before"
proof -
  obtain rows where rows: "replace_at before after (doc_rows s ''wallets'') = Some rows" "d = js_put s ''wallets'' (JArr rows)"
    using assms(2) by auto
  have o: "is_plain_object s" using doc_ok_object [OF assms(1)] .
  have "''wallets'' \<in> set DOCUMENT_ARRAY_KEYS" by (simp add: DOCUMENT_ARRAY_KEYS_def)
  thus "doc_ok d" "key \<noteq> ''wallets'' \<Longrightarrow> js_get d key = js_get s key"
    using rows(2) assms(1) o by (simp_all add: doc_ok_put js_get_put)
  show "\<exists>pre w post. doc_rows s ''wallets'' = pre @ w # post \<and> doc_rows d ''wallets'' = pre @ after # post
      \<and> recordsEqual w before \<and> record_id w = record_id before"
    using replace_at_Some [OF rows(1)] rows(2) o by (auto simp: doc_rows_put)
qed

lemma run_replay_ok:
  assumes "doc_ok s" "run_replay (makeConflictReplay previous next) s = Some d"
  shows "doc_ok d"
  using assms
  by (cases rule: replay_cases [OF refl, of previous "next"])
     (auto simp del: run_replay.simps(2,3) dest: run_add(1) run_rename(1))

section \<open>What every handle keeps\<close>

definition sealed :: "('k, 's) world \<Rightarrow> 'k \<Rightarrow> js \<Rightarrow> blob \<Rightarrow> bool" where
  "sealed W k d b \<longleftrightarrow> doc_ok d \<and> (\<exists>n. b = encodeDocument (w_seal W) k n d)"

definition origin :: "replay \<Rightarrow> bool" where
  "origin r \<longleftrightarrow> (\<exists>p n. r = makeConflictReplay p n)"

text \<open>A handle in use knows a stored document, and its key opens its blob.\<close>

definition live :: "('k, 's) world \<Rightarrow> 'k handle \<Rightarrow> 'k \<Rightarrow> js \<Rightarrow> js \<Rightarrow> bool" where
  "live W h k s d \<longleftrightarrow> h_key h = Some k \<and> h_seen h = Some s \<and> h_doc h = Some d \<and> doc_ok s \<and> doc_ok d
     \<and> (\<forall>b. h_blob h = Some b \<longrightarrow> sealed W k s b)"

definition dead :: "'k handle \<Rightarrow> bool" where
  "dead h \<longleftrightarrow> h_doc h = None \<and> h_blob h = None \<and> h_seen h = None"

definition job_ok :: "('k, 's) world \<Rightarrow> 'k handle \<Rightarrow> bool \<Rightarrow> 'k job \<Rightarrow> bool" where
  "job_ok W h retry job \<longleftrightarrow> (h_doc h = None \<longrightarrow> h_key h = None) \<and> (case job of
     Mutation previous r \<Rightarrow> origin r
       \<and> (h_seen h \<noteq> None \<longrightarrow> \<not> retry \<longrightarrow> doc_ok previous)
   | Flush r \<Rightarrow> origin r
   | Rekey previous next masterKey \<Rightarrow> True)"

definition target :: "'k handle \<Rightarrow> bool \<Rightarrow> 'k job \<Rightarrow> 'k \<Rightarrow> js \<Rightarrow> bool" where
  "target h retry job k d \<longleftrightarrow> (\<forall>d0. h_doc h = Some d0 \<longrightarrow> (case job of
     Rekey previous next masterKey \<Rightarrow>
       Some k = (case masterKey of None \<Rightarrow> h_key h | Some k' \<Rightarrow> Some k') \<and> next = d \<and> d0 = previous \<and> \<not> retry
   | _ \<Rightarrow> h_key h = Some k \<and> (retry \<or> d0 = d)))"

definition phase_ok :: "('k, 's) world \<Rightarrow> 'k handle \<Rightarrow> bool" where
  "phase_ok W h \<longleftrightarrow> (case h_phase h of
     Idle \<Rightarrow> True
   | Encoding retry job blob given \<Rightarrow> job_ok W h retry job
       \<and> (\<exists>k d. sealed W k d blob \<and> target h retry job k d
          \<and> (given = Some d \<or> given = None \<and> (\<forall>d0. h_doc h = Some d0 \<longrightarrow> d0 = d)))
   | Storing retry job blob expected document second \<Rightarrow> job_ok W h retry job
       \<and> (\<exists>k d. sealed W k d blob \<and> target h retry job k d
          \<and> (h_doc h \<noteq> None \<longrightarrow> document = Some d))
   | Reloading retry job \<Rightarrow> job_ok W h retry job)"

definition handle_ok :: "('k, 's) world \<Rightarrow> 'k handle \<Rightarrow> bool" where
  "handle_ok W h \<longleftrightarrow> (dead h \<or> (\<exists>k s d. live W h k s d)) \<and> phase_ok W h"

definition store_ok :: "('k, 's) world \<Rightarrow> ('s \<Rightarrow> bool) \<Rightarrow> 's \<Rightarrow> bool" where
  "store_ok W ok store \<longleftrightarrow> ok store \<and> (\<forall>b. w_load W store = Inr (Some b) \<longrightarrow> (\<exists>k d. sealed W k d b))"

definition vaults_inv :: "('k, 's) world \<Rightarrow> ('s \<Rightarrow> bool) \<Rightarrow> ('k, 's) vaults \<Rightarrow> bool" where
  "vaults_inv W ok s \<longleftrightarrow> store_ok W ok (v_store s) \<and> (\<forall>i. handle_ok W (v_handles s i))"

lemma handle_ok_idle: "handle_ok W h \<Longrightarrow> h_phase h = Idle \<Longrightarrow> handle_ok W (answered a h)"
  by (simp add: handle_ok_def phase_ok_def answered_def dead_def live_def)

lemma answered_ok: "dead h \<or> (\<exists>k s d. live W h k s d) \<Longrightarrow> handle_ok W (answered a h)"
  by (simp add: handle_ok_def phase_ok_def answered_def dead_def live_def)

lemma close_ok: "handle_ok W h \<Longrightarrow> handle_ok W (close_vault h)"
  by (auto simp: handle_ok_def phase_ok_def close_vault_def dead_def job_ok_def target_def
      split: phase.splits job.splits)

lemma job_ok_cong:
  "h_doc h' = h_doc h \<Longrightarrow> h_key h' = h_key h \<Longrightarrow> h_seen h' = h_seen h \<Longrightarrow> job_ok W h' retry job = job_ok W h retry job"
  by (cases job) (simp_all add: job_ok_def)

lemma target_cong:
  "h_doc h' = h_doc h \<Longrightarrow> h_key h' = h_key h \<Longrightarrow> target h' retry job k d = target h retry job k d"
  by (cases job) (simp_all add: target_def split: option.splits)

lemma encoding_intro:
  assumes "h_phase h = Encoding retry job blob given" "job_ok W h retry job" "sealed W k d blob" "target h retry job k d"
    "given = Some d \<or> given = None \<and> (\<forall>d0. h_doc h = Some d0 \<longrightarrow> d0 = d)"
  shows "phase_ok W h"
  using assms unfolding phase_ok_def by auto

lemma storing_intro:
  assumes "h_phase h = Storing retry job blob expected document second" "job_ok W h retry job" "sealed W k d blob"
    "target h retry job k d" "h_doc h \<noteq> None \<longrightarrow> document = Some d"
  shows "phase_ok W h"
  using assms unfolding phase_ok_def by auto

lemma issue_ok:
  assumes "handle_ok W h"
  shows "handle_ok W (issue h)"
proof (cases "h_phase h")
  case (Encoding retry job blob given)
  then obtain k d where ok: "job_ok W h retry job" "sealed W k d blob" "target h retry job k d"
    "given = Some d \<or> given = None \<and> (\<forall>d0. h_doc h = Some d0 \<longrightarrow> d0 = d)"
    using assms by (auto simp: handle_ok_def phase_ok_def)
  have doc: "h_doc h \<noteq> None \<longrightarrow> (case given of None \<Rightarrow> h_doc h | Some d \<Rightarrow> Some d) = Some d" using ok(4) by auto
  have fields: "h_doc (issue h) = h_doc h" "h_key (issue h) = h_key h" "h_seen (issue h) = h_seen h" "h_blob (issue h) = h_blob h"
    using Encoding by (simp_all add: issue_def)
  have same: "job_ok W (issue h) retry job = job_ok W h retry job" "target (issue h) retry job k d = target h retry job k d"
    "h_doc (issue h) = h_doc h" "dead (issue h) = dead h" "\<And>k s d. live W (issue h) k s d = live W h k s d"
    by (rule job_ok_cong [OF fields(1,2,3)]) (rule target_cong [OF fields(1,2)], simp_all add: fields dead_def live_def)
  have "h_phase (issue h) = Storing retry job blob (h_blob h) (case given of None \<Rightarrow> h_doc h | Some d \<Rightarrow> Some d) False"
    using Encoding by (simp add: issue_def)
  hence "phase_ok W (issue h)"
    unfolding phase_ok_def same using ok(1,2,3) doc same by (simp add: phase_ok_def) blast
  thus ?thesis using assms same by (simp add: handle_ok_def)
qed (use assms in \<open>simp_all add: issue_def\<close>)

lemma fail_ok:
  assumes "dead h \<or> (\<exists>k s d. live W h k s d)" "job_ok W h retry job" "retry \<longrightarrow> reloaded"
  shows "handle_ok W (fail reloaded job a h)"
proof (cases "\<exists>previous r. job = Mutation previous r \<and> \<not> reloaded \<and> h_doc h \<noteq> None")
  case False
  hence "fail reloaded job a h = answered a h" by (auto simp: fail_def split: job.splits)
  thus ?thesis using answered_ok [OF assms(1)] by simp
next
  case True
  then obtain previous r where job: "job = Mutation previous r" "\<not> reloaded" "h_doc h \<noteq> None" by auto
  then obtain k s d where "live W h k s d" using assms(1) by (auto simp: dead_def)
  hence "live W (h\<lparr>h_doc := Some previous\<rparr>) k s previous"
    using assms(2,3) job by (auto simp: live_def job_ok_def)
  thus ?thesis using job answered_ok [of "h\<lparr>h_doc := Some previous\<rparr>" W a] by (auto simp: fail_def)
qed

locale vault_world = cas_backend ok "w_load W" "w_save W" "w_clear W"
  for ok :: "'s \<Rightarrow> bool" and W :: "('k, 's) world" +
  assumes unseal_seal: "w_unseal W k' (w_seal W k n p) = (if k' = k then Some p else None)"
    and seal_nonempty: "w_seal W k n p \<noteq> []"
begin

lemma decode_sealed:
  assumes "sealed W k d b"
  shows "decodeDocument (w_unseal W) k' b = (if k' = k then Inr (json_norm d) else Inl Not_opened)"
proof (cases "k' = k")
  case True
  with assms show ?thesis using decode_encode [of d "w_unseal W" k "w_seal W"] unseal_seal by (auto simp: sealed_def)
next
  case False
  with assms show ?thesis by (auto simp: sealed_def decodeDocument_def encodeDocument_def unseal_seal)
qed

lemma sealed_norm: "sealed W k d b \<Longrightarrow> sealed W k (json_norm d) b"
  by (auto simp: sealed_def encodeDocument_def doc_ok_norm)

lemma sealed_nonempty: "sealed W k d b \<Longrightarrow> b \<noteq> []"
  using seal_nonempty by (auto simp: sealed_def encodeDocument_def)

lemma sealed_encode: "doc_ok d \<Longrightarrow> sealed W k d (encodeDocument (w_seal W) k n d)"
  by (auto simp: sealed_def)

text \<open>A document that the backend gives back is one a handle can use.\<close>

lemma reloaded_live:
  assumes "store_ok W ok store" "w_load W store = Inr (Some b)" "decodeDocument (w_unseal W) key b = Inr d"
    "h_key h = Some key" "h_seen h = Some d" "h_doc h = Some d" "h_blob h = Some b"
  shows "live W h key d d"
proof -
  obtain k p where p: "sealed W k p b" using assms(1,2) by (auto simp: store_ok_def)
  hence "key = k" "d = json_norm p" using decode_sealed [OF p, of key] assms(3) by (auto split: if_splits)
  with sealed_norm [OF p] have "sealed W key d b" by simp
  thus ?thesis using assms by (auto simp: live_def sealed_def)
qed

lemma open_ok:
  assumes "handle_ok W h" "store_ok W ok store" "h_phase h = Idle" "h_key h \<noteq> None"
  shows "handle_ok W (open_vault W fault store h)"
proof -
  obtain key where key: "h_key h = Some key" using assms(4) by auto
  note idle = handle_ok_idle [OF assms(1,3)]
  show ?thesis
  proof (cases "h_opened h \<or> fault \<or> (\<exists>e. w_load W store = Inl e)")
    case True
    thus ?thesis using idle by (auto simp: open_vault_def)
  next
    case False
    then obtain stored where stored: "w_load W store = Inr stored" by (cases "w_load W store") auto
    show ?thesis
    proof (cases stored)
      case None
      have "live W (h\<lparr>h_doc := Some emptyDocument, h_blob := None, h_seen := Some emptyDocument, h_opened := True\<rparr>)
          key emptyDocument emptyDocument" using key by (simp add: live_def doc_ok_empty)
      thus ?thesis using False stored None answered_ok by (fastforce simp: open_vault_def)
    next
      case (Some b)
      show ?thesis
      proof (cases "decodeDocument (w_unseal W) key b")
        case (Inl e)
        thus ?thesis using False stored Some key idle by (simp add: open_vault_def)
      next
        case (Inr d)
        have "live W (h\<lparr>h_doc := Some d, h_blob := Some b, h_seen := Some d, h_opened := True\<rparr>) key d d"
          by (rule reloaded_live [OF assms(2) stored [unfolded Some] Inr]) (simp_all add: key)
        thus ?thesis using False stored Some key Inr answered_ok by (fastforce simp: open_vault_def)
      qed
    qed
  qed
qed

lemma open_live: "handle_ok W h \<Longrightarrow> h_key h = Some key \<Longrightarrow> h_doc h = Some d \<Longrightarrow> \<exists>s. live W h key s d"
  by (auto simp: handle_ok_def dead_def live_def)

text \<open>A write starts with its blob sealed from the document it is to store.\<close>

lemma start_ok:
  assumes "live W h key s d0" "doc_ok d" "job_ok W h False job" "target h False job k d"
    "given = Some d \<or> given = None \<and> d0 = d"
  shows "handle_ok W (h\<lparr>h_phase := Encoding False job (encodeDocument (w_seal W) k nonce d) given\<rparr>)"
proof -
  let ?h = "h\<lparr>h_phase := Encoding False job (encodeDocument (w_seal W) k nonce d) given\<rparr>"
  have "job_ok W ?h False job" using assms(3) job_ok_cong [of ?h h W False job] by simp
  moreover have "target ?h False job k d" using assms(4) target_cong [of ?h h False job k d] by simp
  moreover have "sealed W k d (encodeDocument (w_seal W) k nonce d)" using sealed_encode assms(2) .
  moreover have "given = Some d \<or> given = None \<and> (\<forall>d1. h_doc ?h = Some d1 \<longrightarrow> d1 = d)"
    using assms(1,5) by (auto simp: live_def)
  ultimately have "phase_ok W ?h" by (intro encoding_intro [of ?h]) simp_all
  moreover have "live W ?h key s d0" using assms(1) by (simp add: live_def)
  ultimately show ?thesis by (auto simp: handle_ok_def)
qed

lemma mutate_ok:
  assumes "handle_ok W h" "h_phase h = Idle" "op_ok op"
  shows "handle_ok W (mutate W op nonce h)"
proof -
  note idle = handle_ok_idle [OF assms(1,2)]
  show ?thesis
  proof (cases "assert_open h \<and> op_error (w_validate W) op = None \<and> \<not> op_noop op")
    case False
    thus ?thesis using idle by (auto simp: mutate_def split: option.splits)
  next
    case True
    then obtain key previous where kp: "h_key h = Some key" "h_doc h = Some previous" by (auto simp: assert_open_def)
    then obtain s where s: "live W h key s previous" using open_live assms(1) by blast
    define d where "d = apply_op (w_deflate W) op previous"
    have d: "doc_ok d" using s assms(3) by (auto simp: d_def live_def doc_ok_op)
    have l: "live W (h\<lparr>h_doc := Some d\<rparr>) key s d" using s d by (simp add: live_def)
    show ?thesis
    proof (cases "op_persists op previous \<and> h_auto h")
      case False
      thus ?thesis using True kp idle answered_ok [of "h\<lparr>h_doc := Some d\<rparr>" W Done] l
        by (auto simp: mutate_def Let_def d_def)
    next
      case auto: True
      let ?job = "Mutation previous (makeConflictReplay (Some previous) (Some d))"
      have "origin (makeConflictReplay (Some previous) (Some d))" by (auto simp: origin_def)
      hence "job_ok W (h\<lparr>h_doc := Some d\<rparr>) False ?job" using s by (auto simp: job_ok_def live_def)
      moreover have "target (h\<lparr>h_doc := Some d\<rparr>) False ?job key d" using kp by (simp add: target_def)
      ultimately have "handle_ok W (h\<lparr>h_doc := Some d,
          h_phase := Encoding False ?job (encodeDocument (w_seal W) key nonce d) None\<rparr>)"
        using start_ok [OF l d, where given = None and nonce = nonce] by simp
      thus ?thesis using True kp auto by (auto simp: mutate_def Let_def d_def)
    qed
  qed
qed

lemma save_ok:
  assumes "handle_ok W h" "h_phase h = Idle"
  shows "handle_ok W (save_vault W nonce h)"
proof (cases "assert_open h")
  case False
  thus ?thesis using handle_ok_idle [OF assms] by (simp add: save_vault_def)
next
  case True
  then obtain key d where kd: "h_key h = Some key" "h_doc h = Some d" by (auto simp: assert_open_def)
  then obtain s where s: "live W h key s d" using open_live assms(1) by blast
  let ?job = "Flush (makeConflictReplay (h_seen h) (h_doc h))"
  have "origin (makeConflictReplay (h_seen h) (h_doc h))" by (auto simp: origin_def)
  hence "job_ok W h False ?job" using kd by (simp add: job_ok_def)
  moreover have "target h False ?job key d" using kd by (simp add: target_def)
  ultimately have "handle_ok W (h\<lparr>h_phase := Encoding False ?job (encodeDocument (w_seal W) key nonce d) None\<rparr>)"
    using start_ok [OF s, of d] s by (simp add: live_def)
  thus ?thesis using True kd by (simp add: save_vault_def)
qed

lemma rekey_ok:
  assumes "handle_ok W h" "h_phase h = Idle"
  shows "handle_ok W (rekey W masterKey wallets readWallets nonce h)"
proof -
  note idle = handle_ok_idle [OF assms]
  show ?thesis
  proof (cases "assert_open h \<and> first_error (map (check_record (w_validate W ''wallets'')) wallets) = None")
    case False
    thus ?thesis using idle by (auto simp: rekey_def split: option.splits)
  next
    case True
    then obtain key d where kd: "h_key h = Some key" "h_doc h = Some d" by (auto simp: assert_open_def)
    then obtain s where s: "live W h key s d" using open_live assms(1) by blast
    show ?thesis
    proof (cases "(case readWallets of None \<Rightarrow> False | Some read \<Rightarrow> read \<noteq> doc_rows d ''wallets'')
        \<or> replace_wallets wallets (doc_rows d ''wallets'') = None")
      case refused: True
      thus ?thesis using True kd idle by (auto simp: rekey_def split: option.splits)
    next
      case accepted: False
      then obtain rows where rows: "replace_wallets wallets (doc_rows d ''wallets'') = Some rows" by auto
      define n where "n = js_put d ''wallets'' (JArr rows)"
      have n: "doc_ok n"
        unfolding n_def using s by (intro doc_ok_put) (auto simp: DOCUMENT_ARRAY_KEYS_def live_def)
      let ?k = "case masterKey of None \<Rightarrow> key | Some k \<Rightarrow> k"
      have "job_ok W h False (Rekey d n masterKey)" using kd by (simp add: job_ok_def)
      moreover have "target h False (Rekey d n masterKey) ?k n" using kd by (simp add: target_def split: option.splits)
      ultimately have "handle_ok W (h\<lparr>h_phase := Encoding False (Rekey d n masterKey) (encodeDocument (w_seal W) ?k nonce n) (Some n)\<rparr>)"
        using start_ok [OF s n] by simp
      thus ?thesis using True kd accepted rows by (auto simp: rekey_def Let_def n_def split: option.splits)
    qed
  qed
qed

lemma clear_vault_ok:
  assumes "handle_ok W h" "store_ok W ok store" "h_phase h = Idle"
  shows "handle_ok W (snd (clear_vault W fault (store, h)))" "store_ok W ok (fst (clear_vault W fault (store, h)))"
proof -
  have "dead (h\<lparr>h_doc := None, h_blob := None, h_seen := None, h_opened := False\<rparr>)" by (simp add: dead_def)
  thus "handle_ok W (snd (clear_vault W fault (store, h)))"
    using handle_ok_idle [OF assms(1,3)] answered_ok by (auto simp: clear_vault_def)
  show "store_ok W ok (fst (clear_vault W fault (store, h)))"
    using assms(2) clear_ok by (auto simp: clear_vault_def store_ok_def)
qed

text \<open>The write is stored: the handle then knows the document it stored.\<close>

lemma stored_handle:
  assumes "handle_ok W h" "h_phase h = Storing retry job blob expected document second"
  shows "handle_ok W (finish retry job document (if h_key h = None then h else h\<lparr>h_blob := Some blob, h_seen := document\<rparr>))"
proof -
  obtain k d where p: "job_ok W h retry job" "sealed W k d blob" "target h retry job k d"
    "h_doc h \<noteq> None \<longrightarrow> document = Some d"
    using assms by (auto simp: handle_ok_def phase_ok_def)
  show ?thesis
  proof (cases "h_key h")
    case None
    hence "dead h" using assms(1) by (auto simp: handle_ok_def live_def)
    hence "handle_ok W (answered a h)" for a using answered_ok by blast
    thus ?thesis using None by (auto simp: finish_def split: job.splits)
  next
    case (Some key)
    hence "h_doc h \<noteq> None" using p(1) by (auto simp: job_ok_def)
    then obtain d0 where d0: "h_doc h = Some d0" by auto
    have doc: "document = Some d" "doc_ok d" using p(2,4) d0 by (auto simp: sealed_def)
    let ?h = "h\<lparr>h_blob := Some blob, h_seen := Some d\<rparr>"
    show ?thesis
    proof (cases "\<exists>previous next masterKey. job = Rekey previous next masterKey")
      case True
      then obtain previous "next" masterKey where job: "job = Rekey previous next masterKey" by auto
      hence t: "Some k = (case masterKey of None \<Rightarrow> h_key h | Some k' \<Rightarrow> Some k')" "next = d" "d0 = previous"
        using p(3) d0 by (auto simp: target_def)
      let ?key = "case masterKey of None \<Rightarrow> h_key h | Some k' \<Rightarrow> Some k'"
      have "live W (?h\<lparr>h_key := ?key, h_doc := Some d\<rparr>) k d d" using t(1) p(2) doc(2) by (simp add: live_def)
      moreover have "finish retry job document (if h_key h = None then h else h\<lparr>h_blob := Some blob, h_seen := document\<rparr>)
          = answered Done (?h\<lparr>h_key := ?key, h_doc := Some d\<rparr>)"
        using job t d0 doc(1) Some by (cases masterKey) (simp_all add: finish_def)
      ultimately show ?thesis using answered_ok by metis
    next
      case False
      hence t: "k = key" "retry \<or> d0 = d" using p(3) d0 Some by (auto simp: target_def split: job.splits)
      have "finish retry job document (if h_key h = None then h else h\<lparr>h_blob := Some blob, h_seen := document\<rparr>)
          = answered Done (if retry then ?h\<lparr>h_doc := Some d\<rparr> else ?h)"
        using False doc(1) Some by (auto simp: finish_def split: job.splits)
      moreover have "live W (if retry then ?h\<lparr>h_doc := Some d\<rparr> else ?h) key d d"
        using t p(2) doc(2) Some d0 by (auto simp: live_def)
      ultimately show ?thesis using answered_ok by metis
    qed
  qed
qed

lemma save_answer_ok:
  assumes "handle_ok W h" "store_ok W ok store"
  shows "handle_ok W (snd (save_answer W fault (store, h))) \<and> store_ok W ok (fst (save_answer W fault (store, h)))"
proof (cases "h_phase h")
  case (Storing retry job blob expected document second)
  obtain k d where p: "job_ok W h retry job" "sealed W k d blob" "target h retry job k d"
    "h_doc h \<noteq> None \<longrightarrow> document = Some d"
    using assms(1) Storing by (auto simp: handle_ok_def phase_ok_def)
  have st: "dead h \<or> (\<exists>k s d. live W h k s d)" using assms(1) by (simp add: handle_ok_def)
  have failed: "handle_ok W (fail retry job a h)" for a by (rule fail_ok [OF st p(1)]) simp
  have wait: "handle_ok W (h\<lparr>h_phase := q\<rparr>)"
    if "q = Storing retry job blob expected document True \<or> q = Reloading retry job" for q
  proof -
    let ?h = "h\<lparr>h_phase := q\<rparr>"
    have j: "job_ok W ?h retry job" using p(1) job_ok_cong [of ?h h W retry job] by simp
    have t: "target ?h retry job k d" using p(3) target_cong [of ?h h retry job k d] by simp
    have "phase_ok W ?h" using that
    proof
      assume "q = Storing retry job blob expected document True"
      thus ?thesis using j t p by (intro storing_intro [of ?h]) simp_all
    qed (use j in \<open>simp add: phase_ok_def\<close>)
    moreover have "dead ?h \<or> (\<exists>k s d. live W ?h k s d)" using st by (simp add: dead_def live_def)
    ultimately show ?thesis by (simp add: handle_ok_def)
  qed
  show ?thesis
  proof (cases fault)
    case No_fault
    show ?thesis
    proof (cases "w_save W store blob expected")
      case (Inl e)
      thus ?thesis using Storing No_fault wait failed assms(2) by (cases e) (simp_all add: save_answer_def)
    next
      case (Inr store')
      have "ok store" using assms(2) by (simp add: store_ok_def)
      note s = saved [OF this sealed_nonempty [OF p(2)] Inr]
      hence "store_ok W ok store'" using p(2) by (auto simp: store_ok_def)
      thus ?thesis using Storing No_fault Inr stored_handle [OF assms(1) Storing] by (simp add: save_answer_def)
    qed
  qed (use Storing wait failed assms(2) in \<open>auto simp: save_answer_def\<close>)
qed (use assms in \<open>simp_all add: save_answer_def\<close>)

lemma reload_ok:
  assumes "handle_ok W h" "store_ok W ok store"
  shows "handle_ok W (reload W fault nonce store h)"
proof (cases "h_phase h")
  case (Reloading retry job)
  have j: "job_ok W h retry job" and st: "dead h \<or> (\<exists>k s d. live W h k s d)"
    using assms(1) Reloading by (auto simp: handle_ok_def phase_ok_def)
  have failed: "handle_ok W (fail reloaded job a h)" if "retry \<longrightarrow> reloaded" for reloaded a
    by (rule fail_ok [OF st j that])
  have "job_ok W (close_vault h) retry job" using j by (cases job) (simp_all add: job_ok_def close_vault_def)
  moreover have "dead (close_vault h)" by (simp add: dead_def close_vault_def)
  ultimately have closed: "handle_ok W (fail True job a (close_vault h))" for a by (blast intro: fail_ok)
  show ?thesis
  proof (cases "h_key h")
    case None
    thus ?thesis using Reloading failed by (simp add: reload_def)
  next
    case (Some key)
    show ?thesis
    proof (cases "\<exists>b d. \<not> fault \<and> w_load W store = Inr (Some b) \<and> decodeDocument (w_unseal W) key b = Inr d")
      case False
      show ?thesis
      proof (cases "fault \<or> (\<exists>e. w_load W store = Inl e)")
        case True
        thus ?thesis using Reloading Some failed by (auto simp: reload_def)
      next
        case nofault: False
        then obtain stored where "w_load W store = Inr stored" by (cases "w_load W store") auto
        with False nofault show ?thesis using Reloading Some closed
          by (auto simp: reload_def split: option.splits sum.splits)
      qed
    next
      case True
      then obtain b d where bd: "\<not> fault" "w_load W store = Inr (Some b)" "decodeDocument (w_unseal W) key b = Inr d" by auto
      let ?h = "h\<lparr>h_doc := Some d, h_blob := Some b, h_seen := Some d\<rparr>"
      have l: "live W ?h key d d" by (rule reloaded_live [OF assms(2) bd(2,3)]) (simp_all add: Some)
      show ?thesis
      proof (cases "\<not> retry \<and> (\<exists>r. run_replay (job_replay job) d = Some r)")
        case False
        have "fail True job Conflict ?h = answered Conflict ?h" by (simp add: fail_def split: job.splits)
        thus ?thesis using Reloading Some bd False answered_ok [of ?h W Conflict] l
          by (auto simp: reload_def Let_def split: option.splits)
      next
        case replayed: True
        then obtain r where r: "\<not> retry" "run_replay (job_replay job) d = Some r" by auto
        have norekey: "\<nexists>p n k. job = Rekey p n k" using r(2) by (auto simp: job_replay_def)
        hence "origin (job_replay job)" using j by (cases job) (auto simp: job_ok_def job_replay_def)
        hence c: "doc_ok r" using r(2) run_replay_ok l by (auto simp: origin_def live_def)
        let ?h' = "?h\<lparr>h_phase := Encoding True job (encodeDocument (w_seal W) key nonce r) (Some r)\<rparr>"
        have "job_ok W ?h' True job" using j by (cases job) (simp_all add: job_ok_def)
        moreover have "target ?h' True job key r" using norekey Some by (cases job) (simp_all add: target_def)
        ultimately have "phase_ok W ?h'"
          using c sealed_encode [OF c]
          by (intro encoding_intro [of ?h' True job "encodeDocument (w_seal W) key nonce r" "Some r" W key r]) simp_all
        moreover have "live W ?h' key d d" using l by (simp add: live_def)
        ultimately have "handle_ok W ?h'" by (auto simp: handle_ok_def)
        thus ?thesis using Reloading Some bd r by (simp add: reload_def Let_def)
      qed
    qed
  qed
qed (use assms in \<open>simp_all add: reload_def\<close>)

lemma auto_save_ok: "handle_ok W h \<Longrightarrow> handle_ok W (h\<lparr>h_auto := b\<rparr>)"
  using job_ok_cong [of "h\<lparr>h_auto := b\<rparr>" h W] target_cong [of "h\<lparr>h_auto := b\<rparr>" h]
  by (cases "h_phase h") (simp_all add: handle_ok_def phase_ok_def dead_def live_def)

lemma vaults_step_ok:
  assumes "vaults_inv W ok s" "event_ok s e"
  shows "vaults_inv W ok (vaults_step W s e)"
proof (cases e)
  case Wipe
  thus ?thesis using assms(1) clear_ok by (auto simp: vaults_inv_def vaults_step_def store_ok_def)
next
  case (Handle i he)
  let ?h = "v_handles s i"
  have h: "handle_ok W ?h" and st: "store_ok W ok (v_store s)" using assms(1) by (auto simp: vaults_inv_def)
  have "handle_ok W (snd (handle_step W he (v_store s, ?h))) \<and> store_ok W ok (fst (handle_step W he (v_store s, ?h)))"
    using assms(2) Handle h st open_ok mutate_ok save_ok rekey_ok clear_vault_ok issue_ok save_answer_ok reload_ok close_ok auto_save_ok
    by (cases he) (simp_all add: handle_step_def event_ok_def)
  thus ?thesis using assms(1) Handle
    by (auto simp: vaults_step_def vaults_inv_def split: prod.splits)
qed

end

section \<open>The vault on the device's backends\<close>

type_synonym 'k cipher = "('k \<Rightarrow> nat \<Rightarrow> js \<Rightarrow> blob) \<times> ('k \<Rightarrow> blob \<Rightarrow> js option)"

text \<open>What the code relies on: the key that sealed a document opens it, another does not, no blob is empty.\<close>

definition sound_cipher :: "'k cipher \<Rightarrow> bool" where
  "sound_cipher c \<longleftrightarrow> (\<forall>k' k n p. snd c k' (fst c k n p) = (if k' = k then Some p else None) \<and> fst c k n p \<noteq> [])"

definition memory_world :: "'k cipher \<Rightarrow> validators \<Rightarrow> (js \<Rightarrow> (string \<times> js) list) \<Rightarrow> ('k, blob option) world" where
  "memory_world c validate deflate = \<lparr> w_load = memory_load, w_save = memory_save, w_clear = memory_clear,
     w_seal = fst c, w_unseal = snd c, w_validate = validate, w_deflate = deflate \<rparr>"

definition chrome_world :: "'k cipher \<Rightarrow> validators \<Rightarrow> (js \<Rightarrow> (string \<times> js) list) \<Rightarrow> ('k, js) world" where
  "chrome_world c validate deflate = \<lparr> w_load = chrome_load, w_save = chrome_save, w_clear = chrome_clear,
     w_seal = fst c, w_unseal = snd c, w_validate = validate, w_deflate = deflate \<rparr>"

definition idb_world :: "'k cipher \<Rightarrow> validators \<Rightarrow> (js \<Rightarrow> (string \<times> js) list) \<Rightarrow> ('k, js) world" where
  "idb_world c validate deflate = \<lparr> w_load = idb_load, w_save = idb_save, w_clear = idb_clear,
     w_seal = fst c, w_unseal = snd c, w_validate = validate, w_deflate = deflate \<rparr>"

lemma chrome_vault_world: "sound_cipher c \<Longrightarrow> vault_world stored_base64 (chrome_world c validate deflate)"
  using chrome.cas_backend_axioms
  by (simp add: vault_world_def vault_world_axioms_def chrome_world_def sound_cipher_def)

lemma idb_vault_world: "sound_cipher c \<Longrightarrow> vault_world stored_base64 (idb_world c validate deflate)"
  using idb.cas_backend_axioms
  by (simp add: vault_world_def vault_world_axioms_def idb_world_def sound_cipher_def)

lemma memory_vault_world: "sound_cipher c \<Longrightarrow> vault_world (\<lambda>s. True) (memory_world c validate deflate)"
  using memory.cas_backend_axioms
  by (simp add: vault_world_def vault_world_axioms_def memory_world_def sound_cipher_def)

text \<open>An ideal cipher: a blob is the number of the key, the nonce and the document it was made from.\<close>

instance jnum :: countable by countable_datatype

instance js :: countable by countable_datatype

definition ideal_seal :: "nat \<Rightarrow> nat \<Rightarrow> js \<Rightarrow> blob" where
  "ideal_seal k n p = replicate (Suc (to_nat (k, n, p))) 0"

definition ideal_unseal :: "nat \<Rightarrow> blob \<Rightarrow> js option" where
  "ideal_unseal k b = (case from_nat (length b - 1) :: nat \<times> nat \<times> js of (k', n, p) \<Rightarrow> if k' = k then Some p else None)"

lemma ideal_sound: "sound_cipher (ideal_seal, ideal_unseal)"
  by (simp add: sound_cipher_def ideal_seal_def ideal_unseal_def)

interpretation chrome_vault: vault_world stored_base64 "chrome_world (ideal_seal, ideal_unseal) validate deflate"
  for validate deflate
  by (rule chrome_vault_world [OF ideal_sound])

interpretation idb_vault: vault_world stored_base64 "idb_world (ideal_seal, ideal_unseal) validate deflate"
  for validate deflate
  by (rule idb_vault_world [OF ideal_sound])

interpretation memory_vault: vault_world "\<lambda>s. True" "memory_world (ideal_seal, ideal_unseal) validate deflate"
  for validate deflate
  by (rule memory_vault_world [OF ideal_sound])

definition fresh_vaults :: "(nat \<Rightarrow> 'k) \<Rightarrow> (nat \<Rightarrow> bool) \<Rightarrow> ('k, js) vaults" where
  "fresh_vaults keys autos = \<lparr> v_store = Undef, v_handles = \<lambda>i. new_handle (keys i) (autos i) \<rparr>"

context vault_world
begin

lemma inv_run: "vaults_inv W ok s \<Longrightarrow> run_ok event_ok (vaults_step W) s es \<Longrightarrow> vaults_inv W ok (foldl (vaults_step W) s es)"
  by (induction es arbitrary: s) (auto intro: vaults_step_ok)

end

lemma run_ok_snoc: "run_ok P step s (es @ [e]) \<longleftrightarrow> run_ok P step s es \<and> P (foldl step s es) e"
  by (induction es arbitrary: s) auto

lemma run_ok_append: "run_ok P step s (es @ fs) \<longleftrightarrow> run_ok P step s es \<and> run_ok P step (foldl step s es) fs"
  by (induction es arbitrary: s) auto

lemma fresh_inv:
  assumes "W = chrome_world c validate deflate \<or> W = idb_world c validate deflate"
  shows "vaults_inv W stored_base64 (fresh_vaults keys autos)"
  using assms
  by (auto simp: vaults_inv_def fresh_vaults_def new_handle_def handle_ok_def dead_def phase_ok_def store_ok_def
      stored_base64_def chrome_world_def idb_world_def chrome_load_def idb_load_def)

section \<open>Writes that fail, and writes that end\<close>

text \<open>
  With saving on every write, the document in memory is the one last known to be stored, except while the
  first attempt of a mutation waits, which remembers that one.
\<close>

definition settled :: "'k handle \<Rightarrow> bool" where
  "settled h \<longleftrightarrow> h_doc h = None \<and> h_seen h = None \<or> (case h_phase h of
     Encoding False (Mutation previous r) blob given \<Rightarrow> h_seen h = Some previous \<and> given = None
   | Storing False (Mutation previous r) blob expected document second \<Rightarrow> h_seen h = Some previous
   | Reloading False (Mutation previous r) \<Rightarrow> h_seen h = Some previous
   | _ \<Rightarrow> h_doc h = h_seen h)"

lemma settled_idle: "h_phase h = Idle \<Longrightarrow> settled h \<longleftrightarrow> h_doc h = h_seen h"
  by (auto simp: settled_def)

lemma settled_answered: "settled (answered a h) \<longleftrightarrow> h_doc h = h_seen h"
  by (auto simp: settled_def answered_def)

lemma dead_or_live: "handle_ok W h \<Longrightarrow> h_key h = None \<Longrightarrow> h_doc h = None \<and> h_seen h = None"
  by (auto simp: handle_ok_def dead_def live_def)

lemma forgotten: "handle_ok W h \<Longrightarrow> h_doc h = None \<Longrightarrow> h_seen h = None"
  by (auto simp: handle_ok_def dead_def live_def)

lemma settled_fail:
  assumes "handle_ok W h" "settled h" "(\<exists>blob given. h_phase h = Encoding retry job blob given) \<or> h_phase h = Reloading retry job
    \<or> (\<exists>blob expected document second. h_phase h = Storing retry job blob expected document second)"
  shows "settled (fail retry job a h)"
  using assms(2,3) forgotten [OF assms(1)] unfolding fail_def settled_answered
  by (cases job; cases retry) (auto simp: settled_def)

lemma settled_failed_reload: "h_doc h = h_seen h \<Longrightarrow> settled (fail True job a h)"
  by (cases job) (simp_all add: fail_def settled_answered)

lemma settled_issue: "settled h \<Longrightarrow> settled (issue h)"
  by (cases "h_phase h") (auto simp: settled_def issue_def split: bool.splits job.splits)

lemma settled_close: "settled (close_vault h)"
  by (simp add: settled_def close_vault_def)

lemma settled_open: "settled h \<Longrightarrow> h_phase h = Idle \<Longrightarrow> settled (open_vault W fault store h)"
  by (auto simp: open_vault_def settled_idle settled_answered split: sum.splits option.splits)

lemma settled_start:
  assumes "settled h" "h_phase h = Idle" "h_auto h"
  shows "settled (mutate W op nonce h)" "settled (save_vault W nonce h)" "settled (rekey W masterKey wallets readWallets nonce h)"
proof -
  have eq: "h_doc h = h_seen h" using assms(1,2) by (simp add: settled_idle)
  have begun: "h_seen x = Some p \<Longrightarrow> settled (x\<lparr>h_phase := Encoding False (Mutation p r) b None\<rparr>)"
    "h_doc x = h_seen x \<Longrightarrow> settled (x\<lparr>h_phase := Encoding False (Flush r) b g\<rparr>)"
    "h_doc x = h_seen x \<Longrightarrow> settled (x\<lparr>h_phase := Encoding False (Rekey p n m) b g\<rparr>)" for x :: "'a handle" and p r b g n m
    by (simp_all add: settled_def)
  show "settled (mutate W op nonce h)" "settled (save_vault W nonce h)" "settled (rekey W masterKey wallets readWallets nonce h)"
    using eq assms(3)
    by (auto simp: mutate_def save_vault_def rekey_def Let_def settled_answered begun split: option.splits)
qed

lemma settled_stored:
  assumes "handle_ok W h" "settled h" "h_phase h = Storing retry job blob expected document second"
  shows "settled (finish retry job document (if h_key h = None then h else h\<lparr>h_blob := Some blob, h_seen := document\<rparr>))"
proof (cases "h_key h")
  case None
  thus ?thesis using dead_or_live [OF assms(1)] by (auto simp: finish_def settled_answered split: job.splits)
next
  case (Some key)
  obtain k d where "job_ok W h retry job" "target h retry job k d" "h_doc h \<noteq> None \<longrightarrow> document = Some d"
    using assms(1,3) by (auto simp: handle_ok_def phase_ok_def)
  then obtain d0 where d: "h_doc h = Some d0" "document = Some d" "target h retry job k d"
    using Some by (cases "h_doc h") (auto simp: job_ok_def)
  let ?h = "h\<lparr>h_blob := Some blob, h_seen := Some d\<rparr>"
  show ?thesis
  proof (cases job)
    case (Rekey previous "next" masterKey)
    with d Some show ?thesis by (simp add: finish_def settled_answered target_def)
  next
    case (Mutation previous r)
    with d Some show ?thesis by (cases retry) (simp_all add: finish_def settled_answered target_def)
  next
    case (Flush r)
    with d Some show ?thesis by (cases retry) (simp_all add: finish_def settled_answered target_def)
  qed
qed

lemma settled_save_answer:
  assumes "handle_ok W h" "settled h"
  shows "settled (snd (save_answer W fault (store, h)))"
proof (cases "h_phase h")
  case (Storing retry job blob expected document second)
  have wait: "settled (h\<lparr>h_phase := Storing retry job blob expected document True\<rparr>)" "settled (h\<lparr>h_phase := Reloading retry job\<rparr>)"
    using assms(2) Storing by (cases job; cases retry; auto simp: settled_def)+
  have failed: "settled (fail retry job a h)" for a using settled_fail [OF assms] Storing by blast
  show ?thesis
    using Storing wait failed settled_stored [OF assms Storing]
    by (auto simp: save_answer_def split: fault.splits sum.splits save_error.splits)
qed (use assms in \<open>simp_all add: save_answer_def\<close>)

lemma settled_reload:
  assumes "handle_ok W h" "settled h"
  shows "settled (reload W fault nonce store h)"
proof (cases "h_phase h")
  case (Reloading retry job)
  have failed: "settled (fail retry job a h)" for a using settled_fail [OF assms] Reloading by blast
  have closed: "settled (fail True job a (close_vault h))" for a by (rule settled_failed_reload) (simp add: close_vault_def)
  show ?thesis
  proof (cases "h_key h")
    case None
    thus ?thesis using Reloading settled_failed_reload [of h] dead_or_live [OF assms(1) None] by (simp add: reload_def)
  next
    case (Some key)
    show ?thesis
    proof (cases "fault \<or> (\<exists>e. w_load W store = Inl e)")
      case True
      thus ?thesis using Reloading Some failed by (auto simp: reload_def)
    next
      case False
      then obtain stored where stored: "w_load W store = Inr stored" by (cases "w_load W store") auto
      show ?thesis
      proof (cases "\<exists>b d. stored = Some b \<and> decodeDocument (w_unseal W) key b = Inr d")
        case False
        thus ?thesis using Reloading Some stored \<open>\<not> (fault \<or> _)\<close> closed
          by (auto simp: reload_def split: option.splits sum.splits)
      next
        case True
        then obtain b d where bd: "stored = Some b" "decodeDocument (w_unseal W) key b = Inr d" by auto
        let ?h = "h\<lparr>h_doc := Some d, h_blob := Some b, h_seen := Some d\<rparr>"
        have "settled (fail True job Conflict ?h)" by (rule settled_failed_reload) simp
        moreover have "settled (?h\<lparr>h_phase := Encoding True job blob given\<rparr>)" for blob given
          by (simp add: settled_def)
        ultimately show ?thesis using Reloading Some stored bd \<open>\<not> (fault \<or> _)\<close>
          by (simp add: reload_def Let_def split: option.split)
      qed
    qed
  qed
qed (use assms in \<open>simp_all add: reload_def\<close>)

lemma settled_step:
  assumes "handle_ok W h" "settled h" "h_auto h" "\<forall>b. he \<noteq> Set_auto_save b"
    and "\<not> (case he of Issue \<Rightarrow> True | Save_answer _ \<Rightarrow> True | Reload _ _ \<Rightarrow> True | Close \<Rightarrow> True | _ \<Rightarrow> False) \<Longrightarrow> h_phase h = Idle"
  shows "settled (snd (handle_step W he (store, h)))"
proof -
  have "h_phase h = Idle \<Longrightarrow> h_doc h = h_seen h" using assms(2) settled_idle by blast
  thus ?thesis
    using assms settled_open settled_start settled_issue settled_save_answer settled_reload settled_close
    by (cases he) (auto simp: handle_step_def clear_vault_def settled_answered)
qed

lemma auto_step:
  "\<forall>b. he \<noteq> Set_auto_save b \<Longrightarrow> h_auto (snd (handle_step W he (store, h))) = h_auto h"
  by (cases he)
     (auto simp: handle_step_def clear_vault_def answered_def open_vault_def mutate_def save_vault_def rekey_def issue_def
       save_answer_def fail_def finish_def reload_def close_vault_def Let_def
       split: option.splits sum.splits phase.splits fault.splits job.splits save_error.splits)

definition keeps_saving :: "'k event \<Rightarrow> bool" where
  "keeps_saving e \<longleftrightarrow> (\<forall>i b. e \<noteq> Handle i (Set_auto_save b))"

context vault_world
begin

lemma settled_run:
  assumes "vaults_inv W ok s" "run_ok event_ok (vaults_step W) s es" "list_all keeps_saving es"
    and "\<forall>i. h_auto (v_handles s i) \<and> settled (v_handles s i)"
  shows "settled (v_handles (foldl (vaults_step W) s es) i)"
  using assms
proof (induction es arbitrary: s)
  case (Cons e es)
  have "\<forall>i. h_auto (v_handles (vaults_step W s e) i) \<and> settled (v_handles (vaults_step W s e) i)"
  proof (cases e)
    case Wipe
    thus ?thesis using Cons.prems(4) by (simp add: vaults_step_def)
  next
    case (Handle j he)
    have he: "\<forall>b. he \<noteq> Set_auto_save b" using Cons.prems(3) Handle by (simp add: keeps_saving_def)
    have h: "handle_ok W (v_handles s j)" using Cons.prems(1) by (simp add: vaults_inv_def)
    have "settled (snd (handle_step W he (v_store s, v_handles s j)))"
      using Cons.prems(2,4) Handle he
      by (intro settled_step [OF h]) (auto simp: event_ok_def split: handle_event.splits)
    with auto_step [OF he, of W "v_store s" "v_handles s j"] show ?thesis
      using Cons.prems(4) Handle by (auto simp: vaults_step_def split: prod.splits)
  qed
  thus ?case using Cons vaults_step_ok by simp
qed simp

end

text \<open>
  Property C33. A write that fails leaves nothing behind it: with saving on every write, between two writes
  the document a handle shows is the one it knows to be stored, whatever was refused, failed, conflicted or
  replayed before, so a change that the caller was told failed cannot go out with a later save. The handle's
  own key opens the blob it knows, to that document.
\<close>

theorem failed_write_leaves_nothing:
  assumes "sound_cipher c" "W = chrome_world c validate deflate \<or> W = idb_world c validate deflate"
    and "run_ok event_ok (vaults_step W) (fresh_vaults keys (\<lambda>i. True)) es" "list_all keeps_saving es"
    and "h = v_handles (foldl (vaults_step W) (fresh_vaults keys (\<lambda>i. True)) es) i" "h_phase h = Idle"
  shows "h_doc h = h_seen h
    \<and> (\<forall>b. h_blob h = Some b \<longrightarrow>
        (\<exists>k d. h_key h = Some k \<and> h_doc h = Some d \<and> decodeDocument (snd c) k b = Inr (json_norm d)))"
proof -
  let ?s = "fresh_vaults keys (\<lambda>i. True)"
  have w: "vault_world stored_base64 W" using assms(1,2) chrome_vault_world idb_vault_world by blast
  have unseal: "w_unseal W = snd c" using assms(2) by (auto simp: chrome_world_def idb_world_def)
  note inv = fresh_inv [OF assms(2), of keys "\<lambda>i. True"]
  have "settled h"
    unfolding assms(5) using assms(3,4)
    by (intro vault_world.settled_run [OF w inv]) (simp_all add: fresh_vaults_def new_handle_def settled_def)
  hence doc: "h_doc h = h_seen h" using assms(6) settled_idle by blast
  have "handle_ok W h"
    using vault_world.inv_run [OF w inv assms(3)] assms(5) by (simp add: vaults_inv_def)
  hence "\<exists>k d. h_key h = Some k \<and> h_doc h = Some d \<and> decodeDocument (snd c) k b = Inr (json_norm d)"
    if "h_blob h = Some b" for b
    using that doc vault_world.decode_sealed [OF w] unseal by (fastforce simp: handle_ok_def dead_def live_def)
  with doc show ?thesis by blast
qed

section \<open>What a write stores\<close>

text \<open>
  The events that start a write of a handle, and what a write stores. \<open>seen\<close> is the document the
  handle knew to be stored when the write began and \<open>doc\<close> the one it had in memory. A write that meets
  no conflict replaces \<open>seen\<close> itself; after a conflict it is replayed on the document found stored.
\<close>

definition starts_write :: "nat \<Rightarrow> 'k event \<Rightarrow> bool" where
  "starts_write i e \<longleftrightarrow> (case e of Handle j he \<Rightarrow> j = i \<and> (case he of
     Mutate op nonce \<Rightarrow> True | Save nonce \<Rightarrow> True | Rekey_vault key wallets readWallets nonce \<Rightarrow> True | _ \<Rightarrow> False)
   | Wipe \<Rightarrow> False)"

definition replay_of :: "js \<Rightarrow> js \<Rightarrow> js \<Rightarrow> js \<Rightarrow> bool" where
  "replay_of before after stored d \<longleftrightarrow> run_replay (makeConflictReplay (Some before) (Some after)) stored = Some d"

definition write_of :: "('k, 's) world \<Rightarrow> 'k handle_event \<Rightarrow> js \<Rightarrow> js \<Rightarrow> js \<Rightarrow> js \<Rightarrow> bool" where
  "write_of W he seen doc stored d \<longleftrightarrow> (case he of
     Mutate op nonce \<Rightarrow> stored = seen \<and> d = apply_op (w_deflate W) op doc
       \<or> replay_of doc (apply_op (w_deflate W) op doc) stored d
   | Save nonce \<Rightarrow> stored = seen \<and> d = doc \<or> replay_of seen doc stored d
   | Rekey_vault key wallets readWallets nonce \<Rightarrow>
       stored = seen \<and> (readWallets = None \<or> readWallets = Some (doc_rows doc ''wallets''))
       \<and> (\<exists>rows. replace_wallets wallets (doc_rows doc ''wallets'') = Some rows \<and> d = js_put doc ''wallets'' (JArr rows))
   | _ \<Rightarrow> False)"

text \<open>A write in progress remembers the event that started it.\<close>

definition job_for :: "('k, 's) world \<Rightarrow> 'k handle_event \<Rightarrow> js \<Rightarrow> js \<Rightarrow> 'k job \<Rightarrow> bool" where
  "job_for W he seen doc job \<longleftrightarrow> (case he of
     Mutate op nonce \<Rightarrow> job = Mutation doc (makeConflictReplay (Some doc) (Some (apply_op (w_deflate W) op doc)))
   | Save nonce \<Rightarrow> job = Flush (makeConflictReplay (Some seen) (Some doc))
   | Rekey_vault key wallets readWallets nonce \<Rightarrow> (\<exists>p n k. job = Rekey p n k)
   | _ \<Rightarrow> False)"

definition tracks :: "('k, 's) world \<Rightarrow> 'k handle_event \<Rightarrow> js \<Rightarrow> js \<Rightarrow> 'k handle \<Rightarrow> bool" where
  "tracks W he seen doc h \<longleftrightarrow> (case h_phase h of
     Idle \<Rightarrow> True
   | Encoding retry job blob given \<Rightarrow> job_for W he seen doc job
       \<and> (\<exists>k d. sealed W k d blob \<and> (\<forall>s. h_seen h = Some s \<longrightarrow> write_of W he seen doc s d))
   | Storing retry job blob expected document second \<Rightarrow> job_for W he seen doc job
       \<and> (\<exists>k d. sealed W k d blob \<and> (\<forall>b. expected = Some b \<longrightarrow> (\<exists>k0 s. sealed W k0 s b \<and> write_of W he seen doc s d)))
   | Reloading retry job \<Rightarrow> job_for W he seen doc job)"

lemma phase_fail [simp]: "h_phase (answered a h) = Idle" "h_phase (fail r job a h) = Idle" "h_phase (finish r job d h) = Idle"
  by (simp_all add: fail_def finish_def answered_def split: job.splits)

lemma tracks_idle: "h_phase h = Idle \<Longrightarrow> tracks W he seen doc h"
  by (simp add: tracks_def)

lemma tracks_issue:
  assumes "handle_ok W h" "tracks W he seen doc h"
  shows "tracks W he seen doc (issue h)"
proof (cases "h_phase h")
  case (Encoding retry job blob given)
  then obtain k d where t: "job_for W he seen doc job" "sealed W k d blob" "\<And>s. h_seen h = Some s \<Longrightarrow> write_of W he seen doc s d"
    using assms(2) by (auto simp: tracks_def)
  have "\<exists>k0 s. sealed W k0 s b \<and> write_of W he seen doc s d" if "h_blob h = Some b" for b
    using assms(1) that t(3) by (auto simp: handle_ok_def dead_def live_def)
  then show ?thesis using t Encoding by (auto simp: tracks_def issue_def)
qed (use assms(2) in \<open>simp_all add: issue_def\<close>)

lemma tracks_save_answer:
  "tracks W he seen doc h \<Longrightarrow> tracks W he seen doc (snd (save_answer W fault (store, h)))"
  by (auto simp: save_answer_def tracks_def split: phase.splits fault.splits sum.splits save_error.splits)

context vault_world
begin

lemma tracks_written:
  assumes "h_phase h = Encoding False job (encodeDocument (w_seal W) k nonce d) given" "doc_ok d" "job_for W he seen doc job"
    and "\<forall>s. h_seen h = Some s \<longrightarrow> write_of W he seen doc s d"
  shows "tracks W he seen doc h"
  unfolding tracks_def assms(1) using assms(3,4) sealed_encode [OF assms(2), of k nonce] by auto

lemma tracks_start:
  assumes "handle_ok W h" "event_ok v (Handle i he)" "v_handles v i = h" "starts_write i (Handle i he)"
    and "h_phase (snd (handle_step W he (store, h))) \<noteq> Idle"
  shows "\<exists>s d. h_seen h = Some s \<and> h_doc h = Some d \<and> tracks W he s d (snd (handle_step W he (store, h)))"
proof -
  let ?h' = "snd (handle_step W he (store, h))"
  have idle: "h_phase h = Idle" using assms(2-4) by (cases he) (simp_all add: event_ok_def starts_write_def)
  have "assert_open h"
  proof (rule ccontr)
    assume "\<not> assert_open h"
    then show False using assms(4,5)
      by (cases he) (simp_all add: starts_write_def handle_step_def mutate_def save_vault_def rekey_def)
  qed
  then obtain key doc where kd: "h_key h = Some key" "h_doc h = Some doc" by (auto simp: assert_open_def)
  then obtain s where l: "live W h key s doc" using open_live assms(1) by blast
  then have s: "h_seen h = Some s" "doc_ok doc" by (simp_all add: live_def)
  have "tracks W he s doc ?h'"
  proof (cases he)
    case (Mutate op nonce)
    let ?d = "apply_op (w_deflate W) op doc" and ?r = "makeConflictReplay (Some doc) (Some (apply_op (w_deflate W) op doc))"
    have op: "op_ok op" using assms(2) Mutate by (simp add: event_ok_def)
    have "?h' = h\<lparr>h_doc := Some ?d, h_phase := Encoding False (Mutation doc ?r) (encodeDocument (w_seal W) key nonce ?d) None\<rparr>"
      using assms(5) Mutate kd
      by (auto simp: handle_step_def mutate_def Let_def split: if_splits option.splits)
    then show ?thesis using Mutate op s
      by (intro tracks_written [where d = ?d and job = "Mutation doc ?r"]) (auto simp: doc_ok_op job_for_def write_of_def)
  next
    case (Save nonce)
    have "?h' = h\<lparr>h_phase := Encoding False (Flush (makeConflictReplay (Some s) (Some doc))) (encodeDocument (w_seal W) key nonce doc) None\<rparr>"
      using assms(5) Save kd s by (auto simp: handle_step_def save_vault_def split: if_splits)
    then show ?thesis using Save s
      by (intro tracks_written [where d = doc]) (auto simp: job_for_def write_of_def)
  next
    case (Rekey_vault mk wallets readWallets nonce)
    then obtain rows where rows: "readWallets = None \<or> readWallets = Some (doc_rows doc ''wallets'')"
        "replace_wallets wallets (doc_rows doc ''wallets'') = Some rows"
        "?h' = h\<lparr>h_phase := Encoding False (Rekey doc (js_put doc ''wallets'' (JArr rows)) mk)
           (encodeDocument (w_seal W) (case mk of None \<Rightarrow> key | Some k \<Rightarrow> k) nonce (js_put doc ''wallets'' (JArr rows)))
           (Some (js_put doc ''wallets'' (JArr rows)))\<rparr>"
      using assms(5) kd by (auto simp: handle_step_def rekey_def Let_def split: if_splits option.splits)
    have "doc_ok (js_put doc ''wallets'' (JArr rows))"
      using s(2) by (intro doc_ok_put) (auto simp: DOCUMENT_ARRAY_KEYS_def)
    then show ?thesis using Rekey_vault rows s
      by (intro tracks_written [where d = "js_put doc ''wallets'' (JArr rows)"]) (auto simp: job_for_def write_of_def)
  qed (use assms(4) in \<open>simp_all add: starts_write_def\<close>)
  then show ?thesis using s kd by blast
qed

lemma tracks_reload:
  assumes "handle_ok W h" "store_ok W ok store" "tracks W he seen doc h"
  shows "tracks W he seen doc (reload W fault nonce store h)"
proof (cases "h_phase (reload W fault nonce store h) = Idle \<or> reload W fault nonce store h = h")
  case False
  then obtain retry job key b d r where p: "h_phase h = Reloading retry job" "h_key h = Some key"
      "w_load W store = Inr (Some b)" "decodeDocument (w_unseal W) key b = Inr d" "run_replay (job_replay job) d = Some r"
      "reload W fault nonce store h = h\<lparr>h_doc := Some d, h_blob := Some b, h_seen := Some d,
         h_phase := Encoding True job (encodeDocument (w_seal W) key nonce r) (Some r)\<rparr>"
    by (auto simp: reload_def Let_def split: phase.splits option.splits sum.splits if_splits)
  have j: "job_for W he seen doc job" using assms(3) p(1) by (simp add: tracks_def)
  have "live W (h\<lparr>h_doc := Some d, h_blob := Some b, h_seen := Some d\<rparr>) key d d"
    by (rule reloaded_live [OF assms(2) p(3,4)]) (simp_all add: p(2))
  then have "doc_ok d" by (simp add: live_def)
  moreover obtain x y where "job_replay job = makeConflictReplay x y"
    using j p(5) by (cases he) (auto simp: job_for_def job_replay_def)
  ultimately have "doc_ok r" using run_replay_ok p(5) by metis
  moreover have "write_of W he seen doc d r"
    using j p(5) by (cases he) (auto simp: job_for_def job_replay_def write_of_def replay_of_def)
  ultimately show ?thesis using sealed_encode [of r key nonce] j by (auto simp: tracks_def p(6))
qed (use assms(3) tracks_idle in auto)

lemma tracks_step:
  assumes "handle_ok W h" "store_ok W ok store" "tracks W he0 seen doc h" "event_ok v (Handle i he)" "v_handles v i = h"
    and "\<not> starts_write i (Handle i he)"
  shows "tracks W he0 seen doc (snd (handle_step W he (store, h)))"
proof (cases he)
  case Close
  then show ?thesis using assms(3) by (auto simp: handle_step_def close_vault_def tracks_def split: phase.splits)
next
  case (Set_auto_save b)
  then show ?thesis using assms(3) by (auto simp: handle_step_def tracks_def split: phase.splits)
next
  case (Open_vault fault)
  then show ?thesis using assms(4,5)
    by (intro tracks_idle) (auto simp: event_ok_def handle_step_def open_vault_def split: sum.splits option.splits)
next
  case (Clear_vault fault)
  then show ?thesis by (intro tracks_idle) (auto simp: handle_step_def clear_vault_def)
qed (use assms tracks_issue tracks_save_answer tracks_reload in \<open>auto simp: handle_step_def starts_write_def\<close>)

lemma tracks_run:
  assumes "vaults_inv W ok v0" "\<forall>i. h_phase (v_handles v0 i) = Idle" "run_ok event_ok (vaults_step W) v0 es"
    and "h_phase (v_handles (foldl (vaults_step W) v0 es) i) \<noteq> Idle"
  shows "\<exists>es1 he es2 s d. es = es1 @ Handle i he # es2 \<and> (\<forall>e \<in> set es2. \<not> starts_write i e)
    \<and> h_seen (v_handles (foldl (vaults_step W) v0 es1) i) = Some s \<and> h_doc (v_handles (foldl (vaults_step W) v0 es1) i) = Some d
    \<and> tracks W he s d (v_handles (foldl (vaults_step W) v0 es) i)"
  using assms(3,4)
proof (induction es rule: rev_induct)
  case (snoc e es)
  let ?v = "foldl (vaults_step W) v0 es"
  have run: "run_ok event_ok (vaults_step W) v0 es" "event_ok ?v e" using snoc.prems(1) by (simp_all add: run_ok_snoc)
  have inv: "store_ok W ok (v_store ?v)" "\<And>i. handle_ok W (v_handles ?v i)"
    using inv_run [OF assms(1) run(1)] by (auto simp: vaults_inv_def)
  show ?case
  proof (cases "starts_write i e")
    case True
    then obtain he where e: "e = Handle i he" by (auto simp: starts_write_def split: event.splits)
    have h': "v_handles (vaults_step W ?v e) i = snd (handle_step W he (v_store ?v, v_handles ?v i))"
      by (simp add: vaults_step_def e split: prod.splits)
    obtain s d where "h_seen (v_handles ?v i) = Some s" "h_doc (v_handles ?v i) = Some d" "tracks W he s d (v_handles (vaults_step W ?v e) i)"
      using tracks_start [OF inv(2) run(2) [unfolded e] refl, of "v_store ?v"] True snoc.prems(2) e h' by auto
    then show ?thesis
      by (intro exI [of _ es] exI [of _ he] exI [of _ "[]"] exI [of _ s] exI [of _ d]) (simp add: e)
  next
    case False
    have step: "v_handles (vaults_step W ?v e) i = v_handles ?v i
      \<or> (\<exists>he. e = Handle i he \<and> v_handles (vaults_step W ?v e) i = snd (handle_step W he (v_store ?v, v_handles ?v i)))"
      by (cases e) (auto simp: vaults_step_def split: prod.splits)
    have busy: "h_phase (v_handles ?v i) \<noteq> Idle"
    proof
      assume idle: "h_phase (v_handles ?v i) = Idle"
      have "h_phase (snd (handle_step W he (v_store ?v, v_handles ?v i))) = Idle" if "e = Handle i he" for he
        using False idle that
        by (cases he) (auto simp: starts_write_def handle_step_def open_vault_def clear_vault_def issue_def save_answer_def reload_def
            close_vault_def split: sum.splits option.splits)
      then show False using step snoc.prems(2) idle by auto
    qed
    have keep: "tracks W he0 s d (v_handles (vaults_step W ?v e) i)" if "tracks W he0 s d (v_handles ?v i)" for he0 s d
      using step that tracks_step [OF inv(2) inv(1) that, of ?v i] run(2) False by auto
    obtain es1 he es2 s d where ih: "es = es1 @ Handle i he # es2" "\<forall>e \<in> set es2. \<not> starts_write i e"
      "h_seen (v_handles (foldl (vaults_step W) v0 es1) i) = Some s" "h_doc (v_handles (foldl (vaults_step W) v0 es1) i) = Some d"
      "tracks W he s d (v_handles ?v i)"
      using snoc.IH [OF run(1) busy] by blast
    then show ?thesis using keep False
      by (intro exI [of _ es1] exI [of _ he] exI [of _ "es2 @ [e]"] exI [of _ s] exI [of _ d]) auto
  qed
qed (use assms(2) in simp)

text \<open>What a save that replaces a blob makes of the document it held.\<close>

lemma save_answer_written:
  assumes "tracks W he seen doc h" "handle_ok W h" "store_ok W ok store" "save_answer W fault (store, h) = (store', h')"
    "w_load W store = Inr (Some b)" "w_load W store' = Inr (Some b')" "b' \<noteq> b"
  shows "\<exists>k0 s k d. sealed W k0 s b \<and> sealed W k d b' \<and> write_of W he seen doc s d"
proof (cases "h_phase h")
  case (Storing retry job blob expected document second)
  obtain k d where p: "sealed W k d blob" "\<forall>b. expected = Some b \<longrightarrow> (\<exists>k0 s. sealed W k0 s b \<and> write_of W he seen doc s d)"
    using assms(1) Storing by (auto simp: tracks_def)
  have "store' \<noteq> store" using assms(5-7) by auto
  hence "w_save W store blob expected = Inr store'"
    using Storing assms(4) by (auto simp: save_answer_def split: fault.splits if_splits sum.splits save_error.splits)
  moreover have "ok store" using assms(3) by (simp add: store_ok_def)
  ultimately have "expected = Some b" "b' = blob"
    using saved [of store blob expected store'] sealed_nonempty [OF p(1)] assms(5,6) by auto
  thus ?thesis using p by blast
qed (use assms in \<open>simp_all add: save_answer_def\<close>)

text \<open>Only the answer of a save replaces one blob by another.\<close>

lemma replacing_step:
  assumes "vaults_inv W ok v" "event_ok v e" "w_load W (v_store v) = Inr (Some b)"
    "w_load W (v_store (vaults_step W v e)) = Inr (Some b')" "b' \<noteq> b"
  shows "\<exists>i fault h'. e = Handle i (Save_answer fault)
    \<and> save_answer W fault (v_store v, v_handles v i) = (v_store (vaults_step W v e), h')"
proof (cases e)
  case Wipe
  thus ?thesis using assms(1,4) clear_ok by (simp add: vaults_step_def store_ok_def vaults_inv_def)
next
  case (Handle i he)
  show ?thesis
  proof (cases he)
    case (Save_answer fault)
    thus ?thesis using Handle
      by (cases "save_answer W fault (v_store v, v_handles v i)") (simp add: vaults_step_def handle_step_def)
  next
    case (Clear_vault fault)
    thus ?thesis using Handle assms clear_ok
      by (auto simp: vaults_step_def handle_step_def clear_vault_def store_ok_def vaults_inv_def split: if_splits)
  qed (use Handle assms(3-5) in \<open>simp_all add: vaults_step_def handle_step_def\<close>)
qed

lemma step_written:
  assumes "vaults_inv W ok v0" "\<forall>i. h_phase (v_handles v0 i) = Idle"
    and "run_ok event_ok (vaults_step W) v0 (es @ [e])"
    and "w_load W (v_store (foldl (vaults_step W) v0 es)) = Inr (Some b)"
    "w_load W (v_store (foldl (vaults_step W) v0 (es @ [e]))) = Inr (Some b')" "b' \<noteq> b"
  shows "\<exists>i fault es1 he es2 s d k0 d0 k d1. e = Handle i (Save_answer fault)
    \<and> es = es1 @ Handle i he # es2 \<and> (\<forall>e \<in> set es2. \<not> starts_write i e)
    \<and> h_seen (v_handles (foldl (vaults_step W) v0 es1) i) = Some s \<and> h_doc (v_handles (foldl (vaults_step W) v0 es1) i) = Some d
    \<and> decodeDocument (w_unseal W) k0 b = Inr (json_norm d0) \<and> decodeDocument (w_unseal W) k b' = Inr (json_norm d1)
    \<and> write_of W he s d d0 d1"
proof -
  let ?v = "foldl (vaults_step W) v0 es"
  have run: "run_ok event_ok (vaults_step W) v0 es" "event_ok ?v e" using assms(3) by (simp_all add: run_ok_snoc)
  note inv = inv_run [OF assms(1) run(1)]
  have ok: "store_ok W ok (v_store ?v)" "\<And>i. handle_ok W (v_handles ?v i)" using inv by (auto simp: vaults_inv_def)
  have b': "w_load W (v_store (vaults_step W ?v e)) = Inr (Some b')" using assms(5) by simp
  obtain i fault h' where e: "e = Handle i (Save_answer fault)"
    and answer: "save_answer W fault (v_store ?v, v_handles ?v i) = (v_store (vaults_step W ?v e), h')"
    using replacing_step [OF inv run(2) assms(4) b' assms(6)] by blast
  have "v_store (vaults_step W ?v e) \<noteq> v_store ?v" using assms(4,6) b' by auto
  then have "h_phase (v_handles ?v i) \<noteq> Idle" using answer by (auto simp: save_answer_def)
  then obtain es1 he es2 s d where start: "es = es1 @ Handle i he # es2" "\<forall>e \<in> set es2. \<not> starts_write i e"
      "h_seen (v_handles (foldl (vaults_step W) v0 es1) i) = Some s" "h_doc (v_handles (foldl (vaults_step W) v0 es1) i) = Some d"
      "tracks W he s d (v_handles ?v i)"
    using tracks_run [OF assms(1,2) run(1)] by blast
  obtain k0 d0 k d1 where "sealed W k0 d0 b" "sealed W k d1 b'" "write_of W he s d d0 d1"
    using save_answer_written [OF start(5) ok(2,1) answer assms(4) b' assms(6)] by blast
  moreover from this(1,2) have "decodeDocument (w_unseal W) k0 b = Inr (json_norm d0)" "decodeDocument (w_unseal W) k b' = Inr (json_norm d1)"
    using decode_sealed by auto
  ultimately show ?thesis using e start by blast
qed

end

text \<open>
  Property C?. No update is lost between contexts. However many handles open, write, rename, re-key, lock
  and wipe the vault of the extension or of the web page, a step that replaces one stored blob by another
  answers the save of one handle, and the write is the one that handle started last, with \<open>seen\<close> known
  to be stored and \<open>doc\<close> in memory. Either the document replaced is \<open>seen\<close> itself and the new one is exactly
  that write applied to \<open>doc\<close>; or it is one another context stored, and the new one is the replay of that
  same write on it. A re-key is never replayed. With saving on every write, \<open>doc\<close> is \<open>seen\<close>, so the
  new document is the replaced one with this one write.
\<close>

theorem vault_no_lost_update:
  assumes "sound_cipher c" "W = chrome_world c validate deflate \<or> W = idb_world c validate deflate"
    and "run_ok event_ok (vaults_step W) (fresh_vaults keys autos) (es @ [e])"
    and "w_load W (v_store (foldl (vaults_step W) (fresh_vaults keys autos) es)) = Inr (Some b)"
    and "w_load W (v_store (foldl (vaults_step W) (fresh_vaults keys autos) (es @ [e]))) = Inr (Some b')" "b' \<noteq> b"
  shows "\<exists>i fault es1 he es2 seen doc k0 stored k new. e = Handle i (Save_answer fault)
    \<and> es = es1 @ Handle i he # es2 \<and> (\<forall>e \<in> set es2. \<not> starts_write i e)
    \<and> h_seen (v_handles (foldl (vaults_step W) (fresh_vaults keys autos) es1) i) = Some seen
    \<and> h_doc (v_handles (foldl (vaults_step W) (fresh_vaults keys autos) es1) i) = Some doc
    \<and> (autos = (\<lambda>i. True) \<and> list_all keeps_saving es \<longrightarrow> seen = doc)
    \<and> decodeDocument (snd c) k0 b = Inr (json_norm stored) \<and> decodeDocument (snd c) k b' = Inr (json_norm new)
    \<and> write_of W he seen doc stored new"
proof -
  let ?v = "fresh_vaults keys autos"
  have w: "vault_world stored_base64 W" using assms(1,2) chrome_vault_world idb_vault_world by blast
  have unseal: "w_unseal W = snd c" using assms(2) by (auto simp: chrome_world_def idb_world_def)
  note inv = fresh_inv [OF assms(2), of keys autos]
  have idle: "\<forall>i. h_phase (v_handles ?v i) = Idle" by (simp add: fresh_vaults_def new_handle_def)
  obtain i fault es1 he es2 s d k0 d0 k d1 where r: "e = Handle i (Save_answer fault)"
    "es = es1 @ Handle i he # es2" "\<forall>e \<in> set es2. \<not> starts_write i e"
    "h_seen (v_handles (foldl (vaults_step W) ?v es1) i) = Some s" "h_doc (v_handles (foldl (vaults_step W) ?v es1) i) = Some d"
    "decodeDocument (snd c) k0 b = Inr (json_norm d0)" "decodeDocument (snd c) k b' = Inr (json_norm d1)"
    "write_of W he s d d0 d1"
    using vault_world.step_written [OF w inv idle assms(3-6), unfolded unseal] by blast
  have "s = d" if auto: "autos = (\<lambda>i. True)" "list_all keeps_saving es"
  proof -
    have run: "run_ok event_ok (vaults_step W) ?v (es1 @ Handle i he # es2)" using assms(3) r(2) by (simp add: run_ok_append)
    have "settled (v_handles (foldl (vaults_step W) ?v es1) i)"
      using auto run r(2)
      by (intro vault_world.settled_run [OF w inv]) (simp_all add: run_ok_append fresh_vaults_def new_handle_def settled_def)
    moreover have "h_phase (v_handles (foldl (vaults_step W) ?v es1) i) = Idle"
      using run r(8) by (cases he) (simp_all add: run_ok_append event_ok_def write_of_def)
    ultimately show ?thesis using r(4,5) settled_idle by fastforce
  qed
  with r show ?thesis by blast
qed

section \<open>Every write answers\<close>

text \<open>
  The next answer a waiting write gets: the storage as it is then, whether the backend fails, and whether
  the handle is closed before the answer arrives.
\<close>

definition serve :: "('k, 's) world \<Rightarrow> 'k handle \<Rightarrow> 's \<times> fault \<times> bool \<times> nat \<times> bool \<Rightarrow> 'k handle" where
  "serve W h answer = (case answer of (store, save_fault, load_fault, nonce, closes) \<Rightarrow>
     let h' = (if closes then close_vault h else h) in
     (case h_phase h' of
        Idle \<Rightarrow> h'
      | Encoding retry job blob given \<Rightarrow> issue h'
      | Storing retry job blob expected document second \<Rightarrow> snd (save_answer W save_fault (store, h'))
      | Reloading retry job \<Rightarrow> reload W load_fault nonce store h'))"

definition waits :: "'k handle \<Rightarrow> nat" where
  "waits h = (case h_phase h of
     Idle \<Rightarrow> 0
   | Encoding retry job blob given \<Rightarrow> if retry then 4 else 8
   | Storing retry job blob expected document second \<Rightarrow> (if retry then 0 else 4) + (if second then 2 else 3)
   | Reloading retry job \<Rightarrow> if retry then 1 else 5)"

lemma phase_close [simp]: "h_phase (close_vault h) = h_phase h"
  by (simp add: close_vault_def)

lemma serve_progress: "waits (serve W h a) \<le> waits h - 1"
proof -
  obtain store save_fault load_fault nonce closes where a: "a = (store, save_fault, load_fault, nonce, closes)" by (cases a)
  define h' where "h' = (if closes then close_vault h else h)"
  have same: "h_phase h' = h_phase h" by (simp add: h'_def)
  show ?thesis
  proof (cases "h_phase h")
    case (Encoding retry job blob given)
    thus ?thesis using a same by (simp add: serve_def Let_def flip: h'_def) (simp add: waits_def issue_def)
  next
    case (Storing retry job blob expected document second)
    thus ?thesis using a same
      by (simp add: serve_def Let_def flip: h'_def)
         (auto simp: waits_def save_answer_def split: fault.splits sum.splits save_error.splits)
  next
    case (Reloading retry job)
    thus ?thesis using a same
      by (simp add: serve_def Let_def flip: h'_def)
         (auto simp: waits_def reload_def Let_def split: option.splits sum.splits)
  qed (use a same in \<open>simp add: serve_def Let_def waits_def flip: h'_def\<close>)
qed

lemma serve_all: "waits (foldl (serve W) h answers) \<le> waits h - length answers"
proof (induction answers arbitrary: h)
  case (Cons a answers)
  have "waits (foldl (serve W) (serve W h a) answers) \<le> waits (serve W h a) - length answers" using Cons .
  also have "\<dots> \<le> waits h - 1 - length answers" using serve_progress by (rule diff_le_mono)
  finally show ?case by simp
qed simp

text \<open>
  Property C35. Every write ends: whatever the backend answers, and however other contexts change the storage
  or a lock closes the handle in between, a write that has begun has given its answer after at most eight of
  them. A conflict is reloaded and retried once, a full storage is retried once, and nothing retries further.
\<close>

theorem vault_write_ends:
  assumes "8 \<le> length answers"
  shows "h_phase (foldl (serve W) h answers) = Idle"
proof -
  have "waits h \<le> 8" by (simp add: waits_def split: phase.split)
  hence "waits (foldl (serve W) h answers) = 0" using serve_all [of W h answers] assms by simp
  thus ?thesis by (auto simp: waits_def split: phase.splits if_splits)
qed

text \<open>
  Property C24. What a replay may do to a document that another context stored. Either it adds the records
  that the refused write added to each collection, under ids the document does not use, or it puts the
  renamed wallet in the place of the unchanged wallet it was made from, a record that differs from it in its
  name only. Everything else stays as the other context stored it.
\<close>

theorem replay_keeps_the_rest:
  assumes "doc_ok reloaded" "run_replay (makeConflictReplay (Some p) (Some n)) reloaded = Some d"
  shows "doc_ok d \<and> js_get d ''settings'' = js_get reloaded ''settings''
    \<and> ((\<forall>key \<in> set DOCUMENT_ARRAY_KEYS. let new = added_rows (doc_rows p key) (doc_rows n key) in
          doc_rows d key = doc_rows reloaded key @ new
          \<and> record_id ` set (doc_rows reloaded key) \<inter> record_id ` set new = {})
      \<or> (\<exists>pre wallet post before after. doc_rows reloaded ''wallets'' = pre @ wallet # post
          \<and> doc_rows d ''wallets'' = pre @ after # post
          \<and> recordsEqual wallet before \<and> name_only before after \<and> record_id after = record_id wallet
          \<and> (\<forall>key. key \<noteq> ''wallets'' \<longrightarrow> js_get d key = js_get reloaded key)))"
proof (cases rule: replay_cases [OF refl, of "Some p" "Some n"])
  case 1
  with assms(2) show ?thesis by simp
next
  case (2 p' n')
  hence run: "run_replay (Add_records (additions p n)) reloaded = Some d" using assms(2) by simp
  have "''settings'' \<notin> set DOCUMENT_ARRAY_KEYS" by (simp add: DOCUMENT_ARRAY_KEYS_def)
  thus ?thesis using run_add [OF assms(1) run] by (simp add: Let_def)
next
  case (3 p' n' b a)
  hence run: "run_replay (Rename b a) reloaded = Some d" using assms(2) by simp
  obtain pre wallet post where w: "doc_rows reloaded ''wallets'' = pre @ wallet # post" "doc_rows d ''wallets'' = pre @ a # post"
    "recordsEqual wallet b" "record_id wallet = record_id b" using run_rename(3) [OF assms(1) run] by blast
  have rest: "\<forall>key. key \<noteq> ''wallets'' \<longrightarrow> js_get d key = js_get reloaded key"
    using run_rename(2) [OF assms(1) run] by blast
  have "\<exists>pre wallet post before after. doc_rows reloaded ''wallets'' = pre @ wallet # post
      \<and> doc_rows d ''wallets'' = pre @ after # post \<and> recordsEqual wallet before \<and> name_only before after
      \<and> record_id after = record_id wallet \<and> (\<forall>key. key \<noteq> ''wallets'' \<longrightarrow> js_get d key = js_get reloaded key)"
    by (rule exI [of _ pre], rule exI [of _ wallet], rule exI [of _ post], rule exI [of _ b], rule exI [of _ a])
       (use w 3 rest in simp)
  moreover have "js_get d ''settings'' = js_get reloaded ''settings''" using rest by simp
  ultimately show ?thesis using run_rename(1) [OF assms(1) run] by blast
qed

section \<open>Sample runs\<close>

definition sample_world :: "(nat, js) world" where
  "sample_world = chrome_world (ideal_seal, ideal_unseal) (\<lambda>store record. []) (\<lambda>record. [])"

definition first_write :: "nat event list" where
  "first_write = map (Handle 0) [Open_vault False, Mutate Clear_settings 0, Issue, Save_answer No_fault]"

definition second_write :: "nat event list" where
  "second_write = map (Handle 0) [Mutate Clear_settings 7, Issue]"

definition first_blob :: blob where
  "first_blob = encodeDocument ideal_seal 0 0 emptyDocument"

definition second_blob :: blob where
  "second_blob = encodeDocument ideal_seal 0 7 emptyDocument"

text \<open>Clearing the settings of an empty document leaves it as it is, which keeps the sample short.\<close>

lemma cleared_same: "js_put emptyDocument ''settings'' Null = emptyDocument"
  by (simp add: emptyDocument_def DOCUMENT_ARRAY_KEYS_def)

lemma blobs: "first_blob \<noteq> []" "second_blob \<noteq> []" "second_blob \<noteq> first_blob"
  by (simp_all add: first_blob_def second_blob_def encodeDocument_def ideal_seal_def)

lemma sample_parts:
  "w_load sample_world = chrome_load" "w_save sample_world = chrome_save" "w_clear sample_world = chrome_clear"
  "w_seal sample_world = ideal_seal" "w_unseal sample_world = ideal_unseal" "w_validate sample_world = (\<lambda>store record. [])"
  "w_deflate sample_world = (\<lambda>record. [])"
  by (simp_all add: sample_world_def chrome_world_def)

definition after_first :: "(nat, js) vaults" where
  "after_first = foldl (vaults_step sample_world) (fresh_vaults id (\<lambda>i. True)) first_write"

lemma after_first_state:
  "v_store after_first = JStr (bytesToBase64 first_blob)"
  "v_handles after_first 0 = \<lparr> h_key = Some 0, h_doc = Some emptyDocument, h_blob = Some first_blob, h_seen = Some emptyDocument,
     h_opened = True, h_auto = True, h_phase = Idle, h_answer = Done \<rparr>"
  "run_ok event_ok (vaults_step sample_world) (fresh_vaults id (\<lambda>i. True)) first_write"
  by (simp_all add: after_first_def first_write_def fresh_vaults_def new_handle_def vaults_step_def handle_step_def event_ok_def
      open_vault_def mutate_def issue_def save_answer_def finish_def answered_def assert_open_def Let_def sample_parts
      chrome_load_def chrome_save_def js_coalesce_def cleared_same blobs(1) flip: first_blob_def)

text \<open>A second write of the same handle, and its last step.\<close>

lemma second_write_state:
  "run_ok event_ok (vaults_step sample_world) after_first (second_write @ [Handle 0 (Save_answer No_fault)])"
  "v_store (foldl (vaults_step sample_world) after_first second_write) = JStr (bytesToBase64 first_blob)"
  "v_store (vaults_step sample_world (foldl (vaults_step sample_world) after_first second_write) (Handle 0 (Save_answer No_fault)))
     = JStr (bytesToBase64 second_blob)"
  by (simp_all add: second_write_def vaults_step_def handle_step_def event_ok_def after_first_state mutate_def issue_def
      save_answer_def finish_def answered_def assert_open_def Let_def sample_parts chrome_save_def js_coalesce_def
      cleared_same blobs(2) flip: second_blob_def split: prod.split)

lemma chrome_load_blob: "b \<noteq> [] \<Longrightarrow> chrome_load (JStr (bytesToBase64 b)) = Inr (Some b)"
  by (simp add: chrome_load_def)

theorem vault_no_lost_update_witness:
  "\<exists>es1 he es2 seen doc k0 stored k new. first_write @ second_write = es1 @ Handle 0 he # es2 \<and> (\<forall>e \<in> set es2. \<not> starts_write 0 e)
     \<and> h_doc (v_handles (foldl (vaults_step sample_world) (fresh_vaults id (\<lambda>i. True)) es1) 0) = Some doc \<and> seen = doc
     \<and> decodeDocument ideal_unseal k0 first_blob = Inr (json_norm stored)
     \<and> decodeDocument ideal_unseal k second_blob = Inr (json_norm new) \<and> write_of sample_world he seen doc stored new"
proof -
  have run: "run_ok event_ok (vaults_step sample_world) (fresh_vaults id (\<lambda>i. True))
      ((first_write @ second_write) @ [Handle 0 (Save_answer No_fault)])"
    using after_first_state(3) second_write_state(1) by (simp add: run_ok_append flip: after_first_def)
  have "list_all keeps_saving (first_write @ second_write)" by (simp add: first_write_def second_write_def keeps_saving_def)
  then show ?thesis
    using vault_no_lost_update [OF ideal_sound disjI1 [OF sample_world_def] run, of first_blob second_blob]
      second_write_state(2,3) blobs chrome_load_blob
    by (simp add: sample_parts flip: after_first_def) blast
qed

theorem failed_write_leaves_nothing_witness:
  "\<exists>k d. decodeDocument ideal_unseal k first_blob = Inr (json_norm d)"
  using failed_write_leaves_nothing [OF ideal_sound disjI1 [OF sample_world_def] after_first_state(3), of _ 0]
    after_first_state(2) by (auto simp: keeps_saving_def first_write_def after_first_def)

theorem vault_write_ends_witness:
  "h_phase (foldl (serve sample_world) (v_handles (foldl (vaults_step sample_world) after_first second_write) 0)
     (replicate 8 (Undef, Quota, False, 0, True))) = Idle"
  using vault_write_ends [of "replicate 8 (Undef, Quota, False, 0, True)"] by simp

text \<open>Two contexts: one adds a wallet while the other stores a contact.\<close>

definition sample_wallet :: "string \<Rightarrow> js" where
  "sample_wallet i = JObj [(''id'', JStr i), (''name'', JStr ''n'')]"

definition with_rows :: "string \<Rightarrow> js list \<Rightarrow> js" where
  "with_rows key rows = js_put emptyDocument key (JArr rows)"

lemma doc_rows_empty: "key \<in> set DOCUMENT_ARRAY_KEYS \<Longrightarrow> doc_rows emptyDocument key = []"
  by (auto simp: doc_rows_def emptyDocument_def DOCUMENT_ARRAY_KEYS_def)

lemma doc_rows_with: "key \<in> set DOCUMENT_ARRAY_KEYS \<Longrightarrow> doc_rows (with_rows k rows) key = (if key = k then rows else [])"
  using doc_ok_object [OF doc_ok_empty]
  by (simp add: with_rows_def doc_rows_put doc_rows_empty)

theorem replay_keeps_the_rest_witness:
  "\<exists>d. run_replay (makeConflictReplay (Some emptyDocument) (Some (with_rows ''wallets'' [sample_wallet ''w''])))
      (with_rows ''contacts'' [sample_wallet ''c'']) = Some d \<and> js_get d ''settings'' = Null"
proof -
  let ?n = "with_rows ''wallets'' [sample_wallet ''w'']" and ?s = "with_rows ''contacts'' [sample_wallet ''c'']"
  have replay: "makeConflictReplay (Some emptyDocument) (Some ?n) = Add_records (additions emptyDocument ?n)"
    by (simp add: makeConflictReplay_def DOCUMENT_ARRAY_KEYS_def with_rows_def emptyDocument_def doc_rows_def
        added_rows_def other_slots_equal_def Let_def recordsEqual_def)
  have "record_id r \<notin> record_id ` set (doc_rows ?s key)"
    if "key \<in> set DOCUMENT_ARRAY_KEYS" "r \<in> set (added_rows (doc_rows emptyDocument key) (doc_rows ?n key))" for key r
    using that doc_rows_with [OF that(1), of "''wallets''" "[sample_wallet ''w'']"]
      doc_rows_with [OF that(1), of "''contacts''" "[sample_wallet ''c'']"]
    by (auto simp: added_rows_def doc_rows_empty [OF that(1)] split: if_splits)
  hence "\<not> list_ex (\<lambda>(key, rows). list_ex (\<lambda>r. record_id r \<in> record_id ` set (doc_rows ?s key)) rows) (additions emptyDocument ?n)"
    by (auto simp: list_ex_iff additions_def)
  then obtain d where d: "run_replay (makeConflictReplay (Some emptyDocument) (Some ?n)) ?s = Some d"
    unfolding replay by auto
  have "doc_ok ?s" unfolding with_rows_def by (rule doc_ok_put [OF doc_ok_empty]) (simp add: DOCUMENT_ARRAY_KEYS_def)
  from replay_keeps_the_rest [OF this d] have "js_get d ''settings'' = js_get ?s ''settings''" by blast
  also have "\<dots> = Null" by (simp add: with_rows_def emptyDocument_def DOCUMENT_ARRAY_KEYS_def)
  finally show ?thesis using d by blast
qed

section \<open>A write that brings back a wiped vault\<close>

text \<open>
  The blob a save expects is read when the cipher answers. If the handle has been closed by then it expects
  none, which is what a wipe leaves: the write is stored and the wiped vault is back. A desktop reset closes
  the handle and then clears the storage without waiting for the write queue.
\<close>

definition wiped_during_write :: "nat event list" where
  "wiped_during_write = [Handle 0 (Mutate Clear_settings 7), Handle 0 Close, Wipe]"

lemma wiped_vault_returns:
  "chrome_load (v_store (foldl (vaults_step sample_world) after_first wiped_during_write)) = Inr None"
  "chrome_load (v_store (foldl (vaults_step sample_world) after_first
     (wiped_during_write @ [Handle 0 Issue, Handle 0 (Save_answer No_fault)]))) = Inr (Some second_blob)"
  "run_ok event_ok (vaults_step sample_world) after_first (wiped_during_write @ [Handle 0 Issue, Handle 0 (Save_answer No_fault)])"
  by (simp_all add: wiped_during_write_def vaults_step_def handle_step_def event_ok_def after_first_state mutate_def issue_def
      save_answer_def finish_def answered_def assert_open_def close_vault_def Let_def sample_parts chrome_save_def chrome_clear_def
      js_coalesce_def cleared_same blobs(2) chrome_load_blob flip: second_blob_def split: prod.split)
     (simp_all add: chrome_load_def)

end
