(* ===== verification/Autopay_Consent.thy ===== *)
theory Autopay_Consent
  imports Autopay_Policy Vault_Store "HOL-Library.AList"
begin

text \<open>
  The consent records of unattended payments: the schemas \<^verbatim>\<open>core/src/schemas/autopayOrder.js\<close>,
  \<^verbatim>\<open>autopayLease.js\<close> and their checks (\<^verbatim>\<open>validate.js\<close>), the vault collection that
  stores them (\<^verbatim>\<open>makeCollection\<close> of \<^verbatim>\<open>core/src/storage/Vault.js\<close>) and the operations of
  \<^verbatim>\<open>core/src/flows/autopayConsent.js\<close>. A collection is the list of its records. A write has its
  answer as an argument, since a closed vault or a failed save refuses it. The backfill of order
  indexes waits for the network between its read and its writes, so it is also modelled as a machine whose
  steps other operations interleave with.
\<close>

section \<open>validate.js\<close>

definition isIsoTimestamp :: "(string \<Rightarrow> jnum) \<Rightarrow> js \<Rightarrow> bool" where
  "isIsoTimestamp date_parse v = (case v of JStr s \<Rightarrow> s \<noteq> [] \<and> is_finite (JNum (date_parse s)) | _ \<Rightarrow> False)"

definition check_field :: "string \<Rightarrow> bool \<Rightarrow> string \<Rightarrow> string list" where
  "check_field field ok msg = (if ok then [] else [field @ '': '' @ msg])"

definition checkEach :: "string \<Rightarrow> js list \<Rightarrow> (js \<Rightarrow> bool) \<Rightarrow> string \<Rightarrow> string list" where
  "checkEach field items ok msg =
     concat (map (\<lambda>(i, item). check_field (field @ ''['' @ nat_text i @ '']'') (ok item) msg) (enumerate 0 items))"

lemma check_Nil [simp]: "check_field field ok msg = [] \<longleftrightarrow> ok"
  by (simp add: check_field_def)

lemma checkEach_from:
  "concat (map (\<lambda>(i, item). check_field (f i) (ok item) msg) (enumerate n items)) = [] \<longleftrightarrow> list_all ok items"
  by (induction items arbitrary: n) auto

lemma checkEach_Nil [simp]: "checkEach field items ok msg = [] \<longleftrightarrow> list_all ok items"
  unfolding checkEach_def by (rule checkEach_from)

section \<open>autopayOrder.js\<close>

definition CURRENT_VERSION :: js where
  "CURRENT_VERSION = JNum (Fin 1)"

definition isDecimalAmount :: "js \<Rightarrow> bool" where
  "isDecimalAmount v = (case v of JStr s \<Rightarrow> match_decimal s \<noteq> None \<and> list_ex nonzero_digit s | _ \<Rightarrow> False)"

definition isBaseUnitAmount :: "js \<Rightarrow> bool" where
  "isBaseUnitAmount v = (case v of JStr s \<Rightarrow> s \<noteq> [] \<and> list_all is_digit s \<and> list_ex nonzero_digit s | _ \<Rightarrow> False)"

definition autopayOrderId :: "js \<Rightarrow> js \<Rightarrow> string" where
  "autopayOrderId chainId txid = js_text chainId @ ''::'' @ js_lower (js_text txid)"

definition createAutopayOrder :: "string \<Rightarrow> js \<Rightarrow> js" where
  "createAutopayOrder now_iso input = JObj
     [(''schemaVersion'', CURRENT_VERSION),
      (''id'', JStr (autopayOrderId (js_get input ''chainId'') (js_get input ''txid''))),
      (''walletId'', js_get input ''walletId''),
      (''chainId'', js_get input ''chainId''),
      (''sourceAddress'', js_get input ''sourceAddress''),
      (''txid'', JStr (js_lower (js_text (js_get input ''txid'')))),
      (''orderActionIndex'', Null),
      (''giveCoinAmount'', js_get input ''giveCoinAmount''),
      (''getTick'', JStr (js_upper (js_text (js_get input ''getTick'')))),
      (''getAmount'', js_get input ''getAmount''),
      (''autopay'', JBool (js_get input ''autopay'' \<noteq> JBool False)),
      (''payments'', JArr []),
      (''createdAt'', JStr now_iso)]"

definition payment_ok :: "(string \<Rightarrow> jnum) \<Rightarrow> js \<Rightarrow> bool" where
  "payment_ok date_parse p \<longleftrightarrow> is_plain_object p \<and> isNonEmptyString (js_get p ''orderMatchActionIndex'')
     \<and> isBaseUnitAmount (js_get p ''coinAmountBase'') \<and> isNonEmptyString (js_get p ''txid'')
     \<and> isIsoTimestamp date_parse (js_get p ''at'')"

definition is_boolean :: "js \<Rightarrow> bool" where
  "is_boolean v = (case v of JBool b \<Rightarrow> True | _ \<Rightarrow> False)"

definition validateAutopayOrder :: "(string \<Rightarrow> jnum) \<Rightarrow> js \<Rightarrow> string list" where
  "validateAutopayOrder date_parse r =
     (if \<not> is_plain_object r then check_field ''autopayOrder'' False ''must be an object''
      else check_field ''schemaVersion'' (js_get r ''schemaVersion'' = CURRENT_VERSION) ''must be 1''
       @ check_field ''id'' (isNonEmptyString (js_get r ''id'')) ''must be a non-empty string''
       @ check_field ''walletId'' (isNonEmptyString (js_get r ''walletId'')) ''must be a non-empty string''
       @ check_field ''chainId'' (isNonEmptyString (js_get r ''chainId'')) ''must be a non-empty string''
       @ check_field ''sourceAddress'' (isNonEmptyString (js_get r ''sourceAddress'')) ''must be a non-empty string''
       @ check_field ''txid'' (isNonEmptyString (js_get r ''txid'')) ''must be a non-empty string''
       @ check_field ''orderActionIndex'' (js_get r ''orderActionIndex'' = Null \<or> isNonEmptyString (js_get r ''orderActionIndex''))
           ''must be null or a non-empty string''
       @ check_field ''giveCoinAmount'' (isDecimalAmount (js_get r ''giveCoinAmount'')) ''must be a positive decimal amount string''
       @ check_field ''getTick'' (isNonEmptyString (js_get r ''getTick'')) ''must be a non-empty string''
       @ check_field ''getAmount'' (isDecimalAmount (js_get r ''getAmount'')) ''must be a positive decimal amount string''
       @ check_field ''autopay'' (is_boolean (js_get r ''autopay'')) ''must be a boolean''
       @ (case js_get r ''payments'' of
            JArr ps \<Rightarrow> checkEach ''payments'' ps (payment_ok date_parse)
              ''each entry must be {orderMatchActionIndex, coinAmountBase, txid, at}''
          | _ \<Rightarrow> check_field ''payments'' False ''must be an array'')
       @ check_field ''createdAt'' (isIsoTimestamp date_parse (js_get r ''createdAt'')) ''must be an ISO timestamp'')"

section \<open>autopayLease.js\<close>

definition PAYER_LEASE_ID :: string where
  "PAYER_LEASE_ID = ''payer''"

definition AUTOPAY_SHELL_KINDS :: "string list" where
  "AUTOPAY_SHELL_KINDS = [''desktop'', ''extension'', ''web'']"

definition createAutopayLease :: "string \<Rightarrow> string \<Rightarrow> string \<Rightarrow> js" where
  "createAutopayLease now_iso holderId shellKind = JObj
     [(''schemaVersion'', CURRENT_VERSION), (''id'', JStr PAYER_LEASE_ID), (''holderId'', JStr holderId),
      (''shellKind'', JStr shellKind), (''renewedAt'', JStr now_iso)]"

definition validateAutopayLease :: "(string \<Rightarrow> jnum) \<Rightarrow> js \<Rightarrow> string list" where
  "validateAutopayLease date_parse r =
     (if \<not> is_plain_object r then check_field ''autopayLease'' False ''must be an object''
      else check_field ''schemaVersion'' (js_get r ''schemaVersion'' = CURRENT_VERSION) ''must be 1''
       @ check_field ''id'' (js_get r ''id'' = JStr PAYER_LEASE_ID) ''must be \"payer\"''
       @ check_field ''holderId'' (isNonEmptyString (js_get r ''holderId'')) ''must be a non-empty string''
       @ check_field ''shellKind'' (\<exists>k \<in> set AUTOPAY_SHELL_KINDS. js_get r ''shellKind'' = JStr k)
           ''must be one of desktop, extension, web''
       @ check_field ''renewedAt'' (isIsoTimestamp date_parse (js_get r ''renewedAt'')) ''must be an ISO timestamp'')"

section \<open>autopayConsent.js\<close>

datatype consent_error =
    Required string
  | Not_native_give
  | Not_boolean
  | No_consent_record
  | Already_recorded
  | Vault_refused vault_error

definition nonempty_text :: "js \<Rightarrow> bool" where
  "nonempty_text v = (case v of JStr s \<Rightarrow> s \<noteq> [] | _ \<Rightarrow> False)"

definition is_object :: "js \<Rightarrow> bool" where
  "is_object v = (case v of JObj _ \<Rightarrow> True | JArr _ \<Rightarrow> True | _ \<Rightarrow> False)"

definition isNativeGiveOrder :: "js \<Rightarrow> bool" where
  "isNativeGiveOrder params \<longleftrightarrow> is_object params
     \<and> (is_nullish (js_get params ''GIVE_TICK'') \<or> js_text (js_get params ''GIVE_TICK'') = [])
     \<and> nonempty_text (js_get params ''GET_TICK'') \<and> nonempty_text (js_get params ''GIVE_AMOUNT'')
     \<and> nonempty_text (js_get params ''GET_AMOUNT'')"

definition put_order :: "(string \<Rightarrow> jnum) \<Rightarrow> bool \<Rightarrow> js \<Rightarrow> js list \<Rightarrow> consent_error + js list" where
  "put_order date_parse written record orders =
     map_sum Vault_refused id (coll_put (validateAutopayOrder date_parse) written record orders)"

definition recordAutopayConsent :: "(string \<Rightarrow> jnum) \<Rightarrow> string \<Rightarrow> bool \<Rightarrow> js \<Rightarrow> js list \<Rightarrow> consent_error + js list" where
  "recordAutopayConsent date_parse now_iso written opts orders =
     (let params = js_get opts ''params'' in
      if \<not> js_truthy (js_get opts ''walletId'') then Inl (Required ''walletId'')
      else if \<not> js_truthy (js_get opts ''chainId'') then Inl (Required ''chainId'')
      else if \<not> js_truthy (js_get opts ''sourceAddress'') then Inl (Required ''sourceAddress'')
      else if \<not> nonempty_text (js_get opts ''txid'') then Inl (Required ''txid'')
      else if \<not> isNativeGiveOrder params then Inl Not_native_give
      else put_order date_parse written
        (createAutopayOrder now_iso (JObj
          [(''walletId'', js_get opts ''walletId''), (''chainId'', js_get opts ''chainId''),
           (''sourceAddress'', js_get opts ''sourceAddress''), (''txid'', js_get opts ''txid''),
           (''giveCoinAmount'', js_get params ''GIVE_AMOUNT''), (''getTick'', js_get params ''GET_TICK''),
           (''getAmount'', js_get params ''GET_AMOUNT''), (''autopay'', JBool (js_get opts ''enabled'' \<noteq> JBool False))]))
        orders)"

definition listAutopayOrders :: "js \<Rightarrow> js \<Rightarrow> js list \<Rightarrow> js list" where
  "listAutopayOrders walletId chainId orders = List.filter (\<lambda>r.
     (is_nullish walletId \<or> js_get r ''walletId'' = walletId) \<and> (is_nullish chainId \<or> js_get r ''chainId'' = chainId)) orders"

definition setAutopayEnabled :: "(string \<Rightarrow> jnum) \<Rightarrow> bool \<Rightarrow> js \<Rightarrow> js list \<Rightarrow> consent_error + js list" where
  "setAutopayEnabled date_parse written opts orders =
     (let enabled = js_get opts ''enabled'';
          i = js_coalesce (js_get opts ''id'')
            (if js_truthy (js_get opts ''chainId'') \<and> js_truthy (js_get opts ''txid'')
             then JStr (autopayOrderId (js_get opts ''chainId'') (js_get opts ''txid'')) else Null) in
      if \<not> is_boolean enabled then Inl Not_boolean
      else if \<not> js_truthy i then Inl (Required ''id or chainId+txid'')
      else (case List.find (\<lambda>r. record_id r = i) orders of
          None \<Rightarrow> Inl No_consent_record
        | Some record \<Rightarrow> put_order date_parse written (js_put record ''autopay'' enabled) orders))"

text \<open>The records of a swept address are disabled one write at a time; a refused write ends the loop.\<close>

fun disable_each :: "(string \<Rightarrow> jnum) \<Rightarrow> (string \<Rightarrow> bool) \<Rightarrow> js \<Rightarrow> js list \<Rightarrow> js list \<Rightarrow> js list \<times> (consent_error + js list)" where
  "disable_each date_parse written source [] orders = (orders, Inr [])"
| "disable_each date_parse written source (record # records) orders =
     (if js_get record ''sourceAddress'' \<noteq> source \<or> js_get record ''autopay'' \<noteq> JBool True
      then disable_each date_parse written source records orders
      else let upd = js_put record ''autopay'' (JBool False) in
        (case put_order date_parse (written (js_text (record_id record))) upd orders of
           Inl e \<Rightarrow> (orders, Inl e)
         | Inr orders' \<Rightarrow> (case disable_each date_parse written source records orders' of
             (final, Inr disabled) \<Rightarrow> (final, Inr (upd # disabled)) | x \<Rightarrow> x)))"

definition disableAutopayForAddress :: "(string \<Rightarrow> jnum) \<Rightarrow> (string \<Rightarrow> bool) \<Rightarrow> js \<Rightarrow> js \<Rightarrow> js \<Rightarrow> js list
    \<Rightarrow> js list \<times> (consent_error + js list)" where
  "disableAutopayForAddress date_parse written walletId chainId sourceAddress orders =
     (if \<not> js_truthy walletId then (orders, Inl (Required ''walletId''))
      else if \<not> js_truthy chainId then (orders, Inl (Required ''chainId''))
      else if \<not> js_truthy sourceAddress then (orders, Inl (Required ''sourceAddress''))
      else disable_each date_parse written sourceAddress (listAutopayOrders walletId chainId orders) orders)"

definition add_exposure :: "(string \<times> nat) list \<Rightarrow> js \<Rightarrow> (string \<times> nat) list" where
  "add_exposure acc r =
     (if js_get r ''autopay'' \<noteq> JBool True then acc
      else (case remainingGiveBase r of
          None \<Rightarrow> acc
        | Some left \<Rightarrow> if left = 0 then acc
            else let c = js_text (js_get r ''chainId'') in
              AList.update c ((case map_of acc c of None \<Rightarrow> 0 | Some s \<Rightarrow> s) + left) acc))"

definition autopayExposureBase :: "js \<Rightarrow> js list \<Rightarrow> (string \<times> string) list" where
  "autopayExposureBase walletId orders =
     map (\<lambda>(c, v). (c, nat_text v)) (foldl add_exposure [] (listAutopayOrders walletId Undef orders))"

text \<open>Appending to the ledger of a consent.\<close>

definition record_payments :: "js \<Rightarrow> js list" where
  "record_payments r = (case js_get r ''payments'' of JArr ps \<Rightarrow> ps | _ \<Rightarrow> [])"

definition payment_match :: "js \<Rightarrow> string" where
  "payment_match p = js_text (js_get p ''orderMatchActionIndex'')"

definition recordAutopayPayment :: "(string \<Rightarrow> jnum) \<Rightarrow> string \<Rightarrow> bool \<Rightarrow> string \<Rightarrow> string \<Rightarrow> string \<Rightarrow> string \<Rightarrow> js list
    \<Rightarrow> consent_error + js list" where
  "recordAutopayPayment date_parse now_iso written i orderMatchActionIndex coinAmountBase txid orders =
     (case coll_get orders i of
        None \<Rightarrow> Inl No_consent_record
      | Some record \<Rightarrow>
          if orderMatchActionIndex \<in> payment_match ` set (record_payments record) then Inl Already_recorded
          else put_order date_parse written (js_put record ''payments'' (JArr (record_payments record @
            [JObj [(''orderMatchActionIndex'', JStr orderMatchActionIndex), (''coinAmountBase'', JStr coinAmountBase),
              (''txid'', JStr txid), (''at'', JStr now_iso)]]))) orders)"

section \<open>The backfill of order indexes\<close>

text \<open>\<open>tx\<close> is the explorer's answer for the placement transaction, \<open>None\<close> when it cannot be read.\<close>

definition is_order_row :: "js \<Rightarrow> bool" where
  "is_order_row a \<longleftrightarrow> js_upper (js_text (js_get a ''action'')) = ''ORDER'' \<and> \<not> is_nullish (js_get a ''action_index'')
     \<and> \<not> (case js_get a ''status'' of JStr s \<Rightarrow> js_lower (take 7 s) = ''invalid'' | _ \<Rightarrow> False)"

definition order_row :: "js option \<Rightarrow> js option" where
  "order_row tx = (case tx of None \<Rightarrow> None
     | Some t \<Rightarrow> (case js_get t ''actions'' of JArr rows \<Rightarrow> List.find is_order_row rows | _ \<Rightarrow> None))"

definition backfill_record :: "(string \<Rightarrow> jnum) \<Rightarrow> bool \<Rightarrow> js option \<Rightarrow> js \<Rightarrow> js list \<Rightarrow> (consent_error + js list) option" where
  "backfill_record date_parse written tx r orders =
     (if \<not> is_nullish (js_get r ''orderActionIndex'') then None
      else (case order_row tx of
          None \<Rightarrow> None
        | Some row \<Rightarrow> Some (put_order date_parse written
            (js_put r ''orderActionIndex'' (JStr (js_text (js_get row ''action_index'')))) orders)))"

text \<open>The loop with no other operation between its reads and writes; it returns how many it wrote.\<close>

fun resolve_each :: "(string \<Rightarrow> jnum) \<Rightarrow> (js \<Rightarrow> bool) \<Rightarrow> (js \<Rightarrow> js option) \<Rightarrow> js list \<Rightarrow> js list \<Rightarrow> js list \<times> (consent_error + nat)" where
  "resolve_each date_parse written tx [] orders = (orders, Inr 0)"
| "resolve_each date_parse written tx (r # records) orders =
     (case backfill_record date_parse (written r) (tx r) r orders of
        None \<Rightarrow> resolve_each date_parse written tx records orders
      | Some (Inl e) \<Rightarrow> (orders, Inl e)
      | Some (Inr orders') \<Rightarrow> (case resolve_each date_parse written tx records orders' of
          (final, Inr n) \<Rightarrow> (final, Inr (Suc n)) | x \<Rightarrow> x))"

definition resolveOrderActionIndexes :: "(string \<Rightarrow> jnum) \<Rightarrow> (js \<Rightarrow> bool) \<Rightarrow> (js \<Rightarrow> js option) \<Rightarrow> js \<Rightarrow> js list
    \<Rightarrow> js list \<times> (consent_error + nat)" where
  "resolveOrderActionIndexes date_parse written tx walletId orders =
     resolve_each date_parse written tx (listAutopayOrders walletId Undef orders) orders"

section \<open>The store as a machine\<close>

text \<open>
  The operations as they reach the vault one after another, with the backfill split at its waits: it reads
  the records once and then handles one of them per step, while other operations come between.
\<close>

record consent_store =
  cs_orders :: "js list"
  cs_backfill :: "js list"

datatype consent_event =
    Record_consent string bool js
  | Set_enabled bool js
  | Disable_address "string \<Rightarrow> bool" js js js
  | Record_payment string bool string string string string
  | Backfill_begin js
  | Backfill_next bool "js option"

definition kept :: "js list \<Rightarrow> consent_error + js list \<Rightarrow> js list" where
  "kept orders r = (case r of Inl _ \<Rightarrow> orders | Inr orders' \<Rightarrow> orders')"

definition consent_step :: "(string \<Rightarrow> jnum) \<Rightarrow> consent_store \<Rightarrow> consent_event \<Rightarrow> consent_store" where
  "consent_step date_parse s e = (let orders = cs_orders s in
     (case e of
        Record_consent now_iso written opts \<Rightarrow>
          s\<lparr>cs_orders := kept orders (recordAutopayConsent date_parse now_iso written opts orders)\<rparr>
      | Set_enabled written opts \<Rightarrow> s\<lparr>cs_orders := kept orders (setAutopayEnabled date_parse written opts orders)\<rparr>
      | Disable_address written walletId chainId source \<Rightarrow>
          s\<lparr>cs_orders := fst (disableAutopayForAddress date_parse written walletId chainId source orders)\<rparr>
      | Record_payment now_iso written i m amount txid \<Rightarrow>
          s\<lparr>cs_orders := kept orders (recordAutopayPayment date_parse now_iso written i m amount txid orders)\<rparr>
      | Backfill_begin walletId \<Rightarrow> s\<lparr>cs_backfill := listAutopayOrders walletId Undef orders\<rparr>
      | Backfill_next written tx \<Rightarrow>
          (case cs_backfill s of
             [] \<Rightarrow> s
           | r # rest \<Rightarrow>
               (case backfill_record date_parse written tx r orders of
                  None \<Rightarrow> s\<lparr>cs_backfill := rest\<rparr>
                | Some (Inl _) \<Rightarrow> s\<lparr>cs_backfill := []\<rparr>
                | Some (Inr orders') \<Rightarrow> s\<lparr>cs_orders := orders', cs_backfill := rest\<rparr>))))"

lemma replace_first_ids:
  "map record_id (replace_first record rows) =
     (if record_id record \<in> record_id ` set rows then map record_id rows else map record_id rows @ [record_id record])"
  by (induction rows) auto

lemma set_replace_first: "set (replace_first record rows) \<subseteq> insert record (set rows)"
  by (induction rows) auto

lemma replace_first_cases:
  "distinct (map record_id rows) \<Longrightarrow> r \<in> set (replace_first record rows) \<longleftrightarrow>
     r = record \<or> r \<in> set rows \<and> record_id r \<noteq> record_id record"
  by (induction rows) (auto simp: image_iff)

lemma replace_first_fresh: "record_id upd \<notin> record_id ` set rows \<Longrightarrow> replace_first upd rows = rows @ [upd]"
  by (induction rows) auto

lemma coll_put_Inr:
  "coll_put validate written record rows = Inr rows' \<longleftrightarrow>
     js_truthy record \<and> isNonEmptyString (record_id record) \<and> validate record = [] \<and> written
     \<and> rows' = replace_first record rows"
  by (auto simp: coll_put_def check_record_def)

lemma put_order_Inr:
  "put_order date_parse written record orders = Inr orders' \<longleftrightarrow>
     js_truthy record \<and> isNonEmptyString (record_id record) \<and> validateAutopayOrder date_parse record = [] \<and> written
     \<and> orders' = replace_first record orders"
  by (cases "coll_put (validateAutopayOrder date_parse) written record orders")
     (auto simp: put_order_def simp flip: coll_put_Inr)

text \<open>Everything stored passes the schema, ids are distinct, and no ledger holds a match twice.\<close>

definition ledger_ok :: "js \<Rightarrow> bool" where
  "ledger_ok r \<longleftrightarrow> distinct (map payment_match (record_payments r))"

definition orders_ok :: "(string \<Rightarrow> jnum) \<Rightarrow> js list \<Rightarrow> bool" where
  "orders_ok date_parse orders \<longleftrightarrow> distinct (map record_id orders)
     \<and> (\<forall>r \<in> set orders. validateAutopayOrder date_parse r = [] \<and> ledger_ok r)"

lemma kept_put_cases:
  "kept orders (put_order date_parse written record orders) = orders
   \<or> validateAutopayOrder date_parse record = [] \<and> isNonEmptyString (record_id record)
     \<and> kept orders (put_order date_parse written record orders) = replace_first record orders"
proof (cases "put_order date_parse written record orders")
  case (Inr orders')
  thus ?thesis using Inr [unfolded put_order_Inr] by (simp add: kept_def)
qed (simp add: kept_def)

lemma orders_ok_replace:
  "orders_ok date_parse orders \<Longrightarrow> ledger_ok record \<Longrightarrow> validateAutopayOrder date_parse record = [] \<Longrightarrow>
     orders_ok date_parse (replace_first record orders)"
  using set_replace_first [of "record" orders] by (auto simp: orders_ok_def replace_first_ids)

lemma put_order_ok:
  "orders_ok date_parse orders \<Longrightarrow> ledger_ok record \<Longrightarrow>
     orders_ok date_parse (kept orders (put_order date_parse written record orders))"
  using kept_put_cases [of orders date_parse written "record"] orders_ok_replace by metis

lemma valid_object: "validateAutopayOrder date_parse r = [] \<Longrightarrow> is_plain_object r"
  by (auto simp: validateAutopayOrder_def split: if_splits)

lemma find_Some: "List.find P xs = Some x \<Longrightarrow> x \<in> set xs \<and> P x"
  by (auto simp: find_Some_iff)

lemma record_payments_put [simp]:
  "is_plain_object r \<Longrightarrow> k \<noteq> ''payments'' \<Longrightarrow> record_payments (js_put r k v) = record_payments r"
  "is_plain_object r \<Longrightarrow> record_payments (js_put r ''payments'' (JArr ps)) = ps"
  by (simp_all add: record_payments_def js_get_put)

lemma ledger_ok_put [simp]: "is_plain_object r \<Longrightarrow> k \<noteq> ''payments'' \<Longrightarrow> ledger_ok (js_put r k v) = ledger_ok r"
  by (simp add: ledger_ok_def)

lemma ledger_ok_created [simp]: "ledger_ok (createAutopayOrder now_iso input)"
  by (simp add: ledger_ok_def record_payments_def createAutopayOrder_def)

lemma disable_each_ok:
  "orders_ok date_parse orders \<Longrightarrow> (\<forall>r \<in> set records. validateAutopayOrder date_parse r = [] \<and> ledger_ok r) \<Longrightarrow>
     orders_ok date_parse (fst (disable_each date_parse written source records orders))"
proof (induction records arbitrary: orders)
  case (Cons r records)
  let ?u = "js_put r ''autopay'' (JBool False)"
  have "ledger_ok ?u" using Cons.prems(2) valid_object [of date_parse r] by simp
  show ?case
  proof (cases "put_order date_parse (written (js_text (record_id r))) ?u orders")
    case (Inl e)
    thus ?thesis using Cons by (auto simp: Let_def)
  next
    case (Inr orders')
    hence "orders_ok date_parse orders'"
      using put_order_ok [OF Cons.prems(1) \<open>ledger_ok ?u\<close>, of "written (js_text (record_id r))"] by (simp add: kept_def)
    hence "orders_ok date_parse (fst (disable_each date_parse written source records orders'))"
      using Cons.IH Cons.prems(2) by simp
    thus ?thesis using Cons Inr
      by (cases "disable_each date_parse written source records orders'") (auto simp: Let_def split: sum.splits)
  qed
qed simp

text \<open>
  What the caps are measured against: the terms of a consent, its order index and its ledger. \<open>core\<close> drops
  the switch, so setting it leaves the cores of the store alone.
\<close>

definition terms :: "js \<Rightarrow> js list" where
  "terms r = map (js_get r) [''walletId'', ''chainId'', ''sourceAddress'', ''txid'', ''giveCoinAmount'', ''getTick'', ''getAmount'']"

definition core :: "js \<Rightarrow> js \<times> js list \<times> js \<times> js list" where
  "core r = (record_id r, terms r, js_get r ''orderActionIndex'', record_payments r)"

definition descends :: "js \<Rightarrow> js \<Rightarrow> bool" where
  "descends r r' \<longleftrightarrow> record_id r' = record_id r \<and> terms r' = terms r
     \<and> (\<exists>new. record_payments r' = record_payments r @ new)"

definition later :: "js list \<Rightarrow> js list \<Rightarrow> bool" where
  "later orders orders' \<longleftrightarrow> (\<forall>r \<in> set orders. \<exists>r' \<in> set orders'. descends r r')"

text \<open>The copies a backfill holds: an unindexed one still agrees with the store on terms and ledger.\<close>

definition copy_ok :: "js list \<Rightarrow> js \<Rightarrow> bool" where
  "copy_ok orders c \<longleftrightarrow> (\<exists>r \<in> set orders. record_id r = record_id c \<and> terms r = terms c
     \<and> (is_nullish (js_get c ''orderActionIndex'') \<longrightarrow> core r = core c))"

definition store_inv :: "(string \<Rightarrow> jnum) \<Rightarrow> consent_store \<Rightarrow> bool" where
  "store_inv date_parse s \<longleftrightarrow> orders_ok date_parse (cs_orders s) \<and> distinct (map record_id (cs_backfill s))
     \<and> (\<forall>c \<in> set (cs_backfill s). validateAutopayOrder date_parse c = [] \<and> ledger_ok c \<and> copy_ok (cs_orders s) c)"

text \<open>
  The environment: an order is recorded once (its id is its placement transaction), and a payment is
  recorded on a consent whose order index is known, as the engine's policy requires.
\<close>

definition consent_ok :: "consent_store \<Rightarrow> consent_event \<Rightarrow> bool" where
  "consent_ok s e \<longleftrightarrow> (case e of
       Record_consent now_iso written opts \<Rightarrow>
         JStr (autopayOrderId (js_get opts ''chainId'') (js_get opts ''txid'')) \<notin> record_id ` set (cs_orders s)
     | Record_payment now_iso written i m amount txid \<Rightarrow>
         (\<forall>r \<in> set (cs_orders s). record_id r = JStr i \<longrightarrow> \<not> is_nullish (js_get r ''orderActionIndex''))
     | _ \<Rightarrow> True)"

lemma core_parts: "core r = core c \<Longrightarrow> record_id r = record_id c \<and> terms r = terms c \<and> record_payments r = record_payments c"
  by (simp add: core_def)

lemma core_put_autopay [simp]: "is_plain_object r \<Longrightarrow> core (js_put r ''autopay'' v) = core r"
  by (simp add: core_def terms_def record_id_def js_get_put)

lemma descends_refl [simp]: "descends r r"
  by (simp add: descends_def)

lemma descends_trans: "descends a b \<Longrightarrow> descends b c \<Longrightarrow> descends a c"
  by (auto simp: descends_def)

lemma later_refl: "later orders orders"
  unfolding later_def using descends_refl by blast

lemma later_trans: "later a b \<Longrightarrow> later b c \<Longrightarrow> later a c"
  unfolding later_def by (meson descends_trans)

lemma later_cores: "map core orders' = map core orders \<Longrightarrow> later orders orders'"
proof -
  assume eq: "map core orders' = map core orders"
  have "\<exists>r' \<in> set orders'. descends r r'" if "r \<in> set orders" for r
  proof -
    have "core r \<in> core ` set orders'" using that eq by (metis imageI set_map)
    then obtain r' where "r' \<in> set orders'" "core r' = core r" by auto
    thus ?thesis using core_parts [of r' r] by (auto simp: descends_def)
  qed
  thus ?thesis by (simp add: later_def)
qed

lemma later_replace:
  "(\<And>r. r \<in> set orders \<Longrightarrow> record_id r = record_id upd \<Longrightarrow> descends r upd) \<Longrightarrow> later orders (replace_first upd orders)"
  unfolding later_def by (induction orders) fastforce+

lemma copy_ok_cores: "map core orders' = map core orders \<Longrightarrow> copy_ok orders' c = copy_ok orders c"
proof -
  have half: "copy_ok B c" if eq: "map core B = map core A" and ok: "copy_ok A c" for A B :: "js list"
  proof -
    obtain r where r: "r \<in> set A" "record_id r = record_id c" "terms r = terms c"
      "is_nullish (js_get c ''orderActionIndex'') \<longrightarrow> core r = core c" using ok by (auto simp: copy_ok_def)
    have "core r \<in> core ` set B" using r(1) eq by (metis imageI set_map)
    then obtain r' where "r' \<in> set B" "core r' = core r" by auto
    thus ?thesis using r core_parts [of r' r] by (auto simp: copy_ok_def)
  qed
  assume "map core orders' = map core orders"
  thus ?thesis using half by metis
qed

lemma soft_put:
  "distinct (map record_id orders) \<Longrightarrow> core upd \<in> core ` set orders \<Longrightarrow> map core (replace_first upd orders) = map core orders"
proof (induction orders)
  case (Cons r orders)
  show ?case
  proof (cases "record_id r = record_id upd")
    case True
    have "core upd \<notin> core ` set orders"
    proof
      assume "core upd \<in> core ` set orders"
      then obtain q where "q \<in> set orders" "core q = core upd" by auto
      hence "record_id r \<in> record_id ` set orders" using True core_parts [of q upd] by (metis imageI)
      with Cons.prems(1) show False by simp
    qed
    with Cons.prems(2) True show ?thesis by auto
  next
    case False
    hence "core upd \<in> core ` set orders" using Cons.prems(2) core_parts [of r upd] by auto
    with False Cons show ?thesis by simp
  qed
qed simp

lemma disable_each_cores:
  "distinct (map record_id orders) \<Longrightarrow> (\<forall>r \<in> set records. is_plain_object r \<and> core r \<in> core ` set orders) \<Longrightarrow>
     map core (fst (disable_each date_parse written source records orders)) = map core orders"
proof (induction records arbitrary: orders)
  case (Cons r records)
  let ?u = "js_put r ''autopay'' (JBool False)"
  show ?case
  proof (cases "put_order date_parse (written (js_text (record_id r))) ?u orders")
    case (Inl e)
    thus ?thesis using Cons by (auto simp: Let_def)
  next
    case (Inr orders')
    hence o: "orders' = replace_first ?u orders" by (simp add: put_order_Inr)
    have "core ?u \<in> core ` set orders" using Cons.prems(2) by simp
    hence same: "map core orders' = map core orders" unfolding o by (rule soft_put [OF Cons.prems(1)])
    have ids: "map record_id orders' = map record_id orders"
      using arg_cong [OF same, of "map fst"] by (simp add: core_def comp_def)
    have img: "core ` set orders' = core ` set orders" using arg_cong [OF same, of set] by simp
    have "map core (fst (disable_each date_parse written source records orders')) = map core orders'"
      using Cons.prems ids img by (intro Cons.IH) simp_all
    thus ?thesis using Cons Inr same
      by (cases "disable_each date_parse written source records orders'") (auto simp: Let_def split: sum.splits)
  qed
qed simp

text \<open>Every operation keeps the invariant, and what is recorded only grows.\<close>

lemma ids_of_cores: "map core a = map core b \<Longrightarrow> map record_id a = map record_id b"
  by (drule arg_cong [of _ _ "map fst"]) (simp add: core_def comp_def)

lemma store_inv_soft:
  assumes "store_inv date_parse s" "orders_ok date_parse orders'" "map core orders' = map core (cs_orders s)"
  shows "store_inv date_parse (s\<lparr>cs_orders := orders'\<rparr>) \<and> later (cs_orders s) orders'"
  using assms by (simp add: store_inv_def copy_ok_cores [OF assms(3)] later_cores)

lemma kept_soft:
  assumes "distinct (map record_id orders)" "core upd \<in> core ` set orders"
  shows "map core (kept orders (put_order date_parse written upd orders)) = map core orders"
  using kept_put_cases [of orders date_parse written upd] soft_put [OF assms] by metis

lemma set_step:
  assumes "store_inv date_parse s"
  shows "store_inv date_parse (consent_step date_parse s (Set_enabled written opts))
    \<and> later (cs_orders s) (cs_orders (consent_step date_parse s (Set_enabled written opts)))"
proof -
  let ?o = "cs_orders s" and ?r = "setAutopayEnabled date_parse written opts (cs_orders s)"
  have ok: "orders_ok date_parse ?o" and ids: "distinct (map record_id ?o)" using assms by (auto simp: store_inv_def orders_ok_def)
  have "orders_ok date_parse (kept ?o ?r) \<and> map core (kept ?o ?r) = map core ?o"
  proof (cases "\<exists>e. ?r = Inl e")
    case True
    thus ?thesis using ok by (auto simp: kept_def)
  next
    case False
    then obtain r where r: "r \<in> set ?o" "?r = put_order date_parse written (js_put r ''autopay'' (js_get opts ''enabled'')) ?o"
      by (auto simp: setAutopayEnabled_def Let_def split: if_splits option.splits dest: find_Some)
    have obj: "is_plain_object r" "ledger_ok r" using ok r(1) by (auto simp: orders_ok_def dest: valid_object)
    show ?thesis unfolding r(2) using obj r(1) put_order_ok [OF ok] kept_soft [OF ids] by simp
  qed
  from store_inv_soft [OF assms] this show ?thesis by (simp add: consent_step_def Let_def)
qed

lemma disable_step:
  assumes "store_inv date_parse s"
  shows "store_inv date_parse (consent_step date_parse s (Disable_address written walletId chainId source))
    \<and> later (cs_orders s) (cs_orders (consent_step date_parse s (Disable_address written walletId chainId source)))"
proof -
  let ?o = "cs_orders s" and ?l = "listAutopayOrders walletId chainId (cs_orders s)"
  have ok: "orders_ok date_parse ?o" and ids: "distinct (map record_id ?o)" using assms by (auto simp: store_inv_def orders_ok_def)
  have rows: "\<forall>r \<in> set ?l. validateAutopayOrder date_parse r = [] \<and> ledger_ok r"
    "\<forall>r \<in> set ?l. is_plain_object r \<and> core r \<in> core ` set ?o"
    using ok by (auto simp: listAutopayOrders_def orders_ok_def dest: valid_object)
  have "orders_ok date_parse (fst (disableAutopayForAddress date_parse written walletId chainId source ?o))
      \<and> map core (fst (disableAutopayForAddress date_parse written walletId chainId source ?o)) = map core ?o"
    using disable_each_ok [OF ok rows(1)] disable_each_cores [OF ids rows(2)] ok by (simp add: disableAutopayForAddress_def)
  from store_inv_soft [OF assms] this show ?thesis by (simp add: consent_step_def Let_def)
qed

lemma record_step:
  assumes "store_inv date_parse s" "consent_ok s (Record_consent now_iso written opts)"
  shows "store_inv date_parse (consent_step date_parse s (Record_consent now_iso written opts))
    \<and> later (cs_orders s) (cs_orders (consent_step date_parse s (Record_consent now_iso written opts)))"
proof -
  let ?o = "cs_orders s" and ?r = "recordAutopayConsent date_parse now_iso written opts (cs_orders s)"
  have ok: "orders_ok date_parse ?o" using assms(1) by (simp add: store_inv_def)
  have "orders_ok date_parse (kept ?o ?r) \<and> later ?o (kept ?o ?r) \<and> (\<forall>c. copy_ok ?o c \<longrightarrow> copy_ok (kept ?o ?r) c)"
  proof (cases "\<exists>e. ?r = Inl e")
    case True
    thus ?thesis using ok by (auto simp: kept_def later_refl)
  next
    case False
    then obtain input where r: "?r = put_order date_parse written (createAutopayOrder now_iso input) ?o"
      "autopayOrderId (js_get input ''chainId'') (js_get input ''txid'') = autopayOrderId (js_get opts ''chainId'') (js_get opts ''txid'')"
      by (auto simp: recordAutopayConsent_def Let_def split: if_splits)
    have "record_id (createAutopayOrder now_iso input) \<notin> record_id ` set ?o"
      using assms(2) r(2) by (simp add: consent_ok_def createAutopayOrder_def record_id_def)
    hence "replace_first (createAutopayOrder now_iso input) ?o = ?o @ [createAutopayOrder now_iso input]"
      by (rule replace_first_fresh)
    hence "kept ?o ?r = ?o \<or> kept ?o ?r = ?o @ [createAutopayOrder now_iso input]"
      unfolding r(1) using kept_put_cases by metis
    moreover have "orders_ok date_parse (kept ?o ?r)" unfolding r(1) by (rule put_order_ok [OF ok]) simp
    moreover have "later ?o (?o @ [x])" for x unfolding later_def using descends_refl by (metis UnCI set_append)
    moreover have "copy_ok ?o c \<longrightarrow> copy_ok (?o @ [x]) c" for c x by (auto simp: copy_ok_def)
    ultimately show ?thesis using later_refl by metis
  qed
  with assms(1) show ?thesis by (auto simp: consent_step_def Let_def store_inv_def)
qed

lemma same_record: "orders_ok date_parse orders \<Longrightarrow> r \<in> set orders \<Longrightarrow> q \<in> set orders \<Longrightarrow> record_id r = record_id q \<Longrightarrow> r = q"
  by (auto simp: orders_ok_def distinct_map dest: inj_onD)

lemma kept_replace:
  assumes "orders_ok date_parse orders" "ledger_ok upd"
    and "\<And>r. r \<in> set orders \<Longrightarrow> record_id r = record_id upd \<Longrightarrow> descends r upd"
  shows "orders_ok date_parse (kept orders (put_order date_parse written upd orders))
    \<and> later orders (kept orders (put_order date_parse written upd orders))"
  using put_order_ok [OF assms(1,2)] kept_put_cases [of orders date_parse written upd] later_replace [OF assms(3)] later_refl
  by metis

lemma kept_copy:
  assumes "orders_ok date_parse orders" "copy_ok orders c"
    and "\<And>r. r \<in> set orders \<Longrightarrow> record_id r = record_id upd \<Longrightarrow> record_id r = record_id c \<Longrightarrow> copy_ok [upd] c"
  shows "copy_ok (kept orders (put_order date_parse written upd orders)) c"
proof -
  have ids: "distinct (map record_id orders)" using assms(1) by (simp add: orders_ok_def)
  obtain r where r: "r \<in> set orders" "record_id r = record_id c" "terms r = terms c"
    "is_nullish (js_get c ''orderActionIndex'') \<longrightarrow> core r = core c" using assms(2) by (auto simp: copy_ok_def)
  have "copy_ok (replace_first upd orders) c"
  proof (cases "record_id r = record_id upd")
    case True
    from assms(3) [OF r(1) this r(2)] show ?thesis
      by (auto simp: copy_ok_def replace_first_cases [OF ids])
  next
    case False
    hence "r \<in> set (replace_first upd orders)" using r(1) by (simp add: replace_first_cases [OF ids])
    with r show ?thesis by (auto simp: copy_ok_def)
  qed
  thus ?thesis using assms(2) kept_put_cases [of orders date_parse written upd] by metis
qed

lemma payment_step:
  assumes "store_inv date_parse s" "consent_ok s (Record_payment now_iso written i m amount txid)"
  shows "store_inv date_parse (consent_step date_parse s (Record_payment now_iso written i m amount txid))
    \<and> later (cs_orders s) (cs_orders (consent_step date_parse s (Record_payment now_iso written i m amount txid)))"
proof -
  let ?o = "cs_orders s" and ?r = "recordAutopayPayment date_parse now_iso written i m amount txid (cs_orders s)"
  have ok: "orders_ok date_parse ?o" using assms(1) by (simp add: store_inv_def)
  show ?thesis
  proof (cases "\<exists>e. ?r = Inl e")
    case True
    then obtain e where e: "?r = Inl e" by blast
    with assms(1) show ?thesis by (simp add: consent_step_def Let_def kept_def later_refl)
  next
    case False
    let ?p = "JObj [(''orderMatchActionIndex'', JStr m), (''coinAmountBase'', JStr amount), (''txid'', JStr txid), (''at'', JStr now_iso)]"
    obtain r where r: "coll_get ?o i = Some r" "m \<notin> payment_match ` set (record_payments r)"
      "?r = put_order date_parse written (js_put r ''payments'' (JArr (record_payments r @ [?p]))) ?o"
      using False by (auto simp: recordAutopayPayment_def split: option.splits if_splits)
    define u where "u = js_put r ''payments'' (JArr (record_payments r @ [?p]))"
    have mem: "r \<in> set ?o" "record_id r = JStr i" using find_Some [OF r(1) [unfolded coll_get_def]] by auto
    have obj: "is_plain_object r" "ledger_ok r" using ok mem(1) by (auto simp: orders_ok_def dest: valid_object)
    have u: "record_id u = record_id r" "terms u = terms r" "record_payments u = record_payments r @ [?p]"
      using obj(1) by (simp_all add: u_def record_id_def terms_def js_get_put)
    have "payment_match ?p = m" by (simp add: payment_match_def)
    hence led: "ledger_ok u" using obj(2) r(2) u(3) by (auto simp: ledger_ok_def)
    have "orders_ok date_parse (kept ?o ?r) \<and> later ?o (kept ?o ?r)"
      unfolding r(3) u_def [symmetric]
    proof (rule kept_replace [OF ok led])
      fix q assume "q \<in> set ?o" "record_id q = record_id u"
      hence "q = r" using same_record [OF ok _ mem(1)] u(1) by simp
      thus "descends q u" using u by (simp add: descends_def)
    qed
    moreover have "copy_ok (kept ?o ?r) c" if c: "c \<in> set (cs_backfill s)" for c
      unfolding r(3) u_def [symmetric]
    proof (rule kept_copy [OF ok])
      show cok: "copy_ok ?o c" using assms(1) c by (simp add: store_inv_def)
      fix q assume q: "q \<in> set ?o" "record_id q = record_id u" "record_id q = record_id c"
      hence "q = r" using same_record [OF ok _ mem(1)] u(1) by simp
      obtain q' where q': "q' \<in> set ?o" "record_id q' = record_id c" "terms q' = terms c"
        "is_nullish (js_get c ''orderActionIndex'') \<longrightarrow> core q' = core c" using cok by (auto simp: copy_ok_def)
      hence "q' = r" using same_record [OF ok _ mem(1)] q(3) \<open>q = r\<close> by simp
      moreover have "\<not> is_nullish (js_get r ''orderActionIndex'')"
        using assms(2) mem by (simp add: consent_ok_def)
      ultimately have "\<not> is_nullish (js_get c ''orderActionIndex'')" using q'(4) by (auto simp: core_def)
      thus "copy_ok [u] c" using u q' \<open>q' = r\<close> by (simp add: copy_ok_def)
    qed
    ultimately show ?thesis using assms(1) by (simp add: consent_step_def Let_def store_inv_def)
  qed
qed

lemma backfill_begin_step:
  assumes "store_inv date_parse s"
  shows "store_inv date_parse (consent_step date_parse s (Backfill_begin walletId))"
proof -
  have "copy_ok (cs_orders s) c" if "c \<in> set (listAutopayOrders walletId Undef (cs_orders s))" for c
    using that by (auto simp: copy_ok_def listAutopayOrders_def)
  moreover have "distinct (map record_id (listAutopayOrders walletId Undef (cs_orders s)))"
    using assms by (auto simp: store_inv_def orders_ok_def listAutopayOrders_def distinct_map_filter)
  ultimately show ?thesis using assms
    by (auto simp: consent_step_def Let_def store_inv_def orders_ok_def listAutopayOrders_def)
qed

lemma backfill_next_step:
  assumes "store_inv date_parse s"
  shows "store_inv date_parse (consent_step date_parse s (Backfill_next written tx))
    \<and> later (cs_orders s) (cs_orders (consent_step date_parse s (Backfill_next written tx)))"
proof (cases "cs_backfill s")
  case Nil
  thus ?thesis using assms by (simp add: consent_step_def Let_def later_refl)
next
  case (Cons c rest)
  let ?o = "cs_orders s"
  have ok: "orders_ok date_parse ?o" using assms by (simp add: store_inv_def)
  have c: "is_plain_object c" "ledger_ok c" "copy_ok ?o c"
    using assms Cons by (auto simp: store_inv_def dest: valid_object)
  show ?thesis
  proof (cases "backfill_record date_parse written tx c ?o")
    case None
    with assms Cons show ?thesis by (simp add: consent_step_def Let_def store_inv_def later_refl)
  next
    case (Some res)
    then obtain v where v: "is_nullish (js_get c ''orderActionIndex'')"
      "res = put_order date_parse written (js_put c ''orderActionIndex'' v) ?o"
      by (auto simp: backfill_record_def split: if_splits option.splits)
    define u where "u = js_put c ''orderActionIndex'' v"
    have u: "record_id u = record_id c" "terms u = terms c" "record_payments u = record_payments c" "ledger_ok u"
      using c by (simp_all add: u_def record_id_def terms_def js_get_put)
    obtain r where r: "r \<in> set ?o" "core r = core c" using c(3) v(1) by (auto simp: copy_ok_def)
    have rc: "record_id r = record_id c" "terms r = terms c" "record_payments r = record_payments c"
      using core_parts [OF r(2)] by auto
    have kept: "orders_ok date_parse (kept ?o res) \<and> later ?o (kept ?o res)"
      unfolding v(2) u_def [symmetric]
    proof (rule kept_replace [OF ok u(4)])
      fix q assume "q \<in> set ?o" "record_id q = record_id u"
      hence "q = r" using same_record [OF ok _ r(1)] u(1) rc(1) by simp
      thus "descends q u" using u rc by (simp add: descends_def)
    qed
    have copies: "copy_ok (kept ?o res) c'" if c': "c' \<in> set rest" for c'
      unfolding v(2) u_def [symmetric]
    proof (rule kept_copy [OF ok])
      show "copy_ok ?o c'" using assms Cons c' by (simp add: store_inv_def)
      fix q assume "record_id q = record_id u" "record_id q = record_id c'"
      moreover have "record_id c' \<noteq> record_id c" using assms Cons c' by (auto simp: store_inv_def image_iff)
      ultimately show "copy_ok [u] c'" using u(1) by simp
    qed
    show ?thesis
    proof (cases res)
      case (Inl e)
      with assms Cons Some show ?thesis by (simp add: consent_step_def Let_def store_inv_def later_refl)
    next
      case (Inr orders')
      with assms Cons Some kept copies show ?thesis
        by (simp add: consent_step_def Let_def store_inv_def kept_def)
    qed
  qed
qed

lemma consent_steps:
  assumes "store_inv date_parse s" "consent_ok s e"
  shows "store_inv date_parse (consent_step date_parse s e) \<and> later (cs_orders s) (cs_orders (consent_step date_parse s e))"
proof (cases e)
  case (Backfill_begin walletId)
  with assms(1) show ?thesis
    using backfill_begin_step by (simp add: later_refl consent_step_def Let_def)
qed (use assms set_step disable_step record_step payment_step backfill_next_step in \<open>simp_all only:\<close>)

interpretation consents: progress_machine consent_ok "consent_step date_parse" "store_inv date_parse"
    "\<lambda>s t. later (cs_orders s) (cs_orders t)" for date_parse
  by unfold_locales (use consent_steps later_refl later_trans in blast)+

lemma sum_payments_valid: "list_all (payment_ok date_parse) ps \<Longrightarrow> \<exists>n. sum_payments ps = Some n"
proof (induction ps)
  case (Cons p ps)
  from Cons.prems have "payment_ok date_parse p" by simp
  hence "\<exists>n. payment_amount p = Some n"
    by (auto simp: payment_ok_def payment_amount_def isNonEmptyString_def isBaseUnitAmount_def split: js.splits)
  with Cons show ?case by auto
qed simp

lemma valid_ledger_reads:
  assumes "validateAutopayOrder date_parse r = []"
  shows "\<exists>n. paidBase r = Some n"
proof -
  have "case js_get r ''payments'' of JArr ps \<Rightarrow> list_all (payment_ok date_parse) ps | _ \<Rightarrow> False"
    using assms by (auto simp: validateAutopayOrder_def split: if_splits js.splits)
  thus ?thesis by (auto simp: paidBase_def sum_payments_valid split: js.splits)
qed

section \<open>A revocation that the backfill undoes\<close>

text \<open>
  The backfill writes back the copy it read before waiting for the network. A consent the user revokes
  during that wait is armed again by the write: the switch is the one field the copies do not agree on.
\<close>

definition any_date :: "string \<Rightarrow> jnum" where
  "any_date s = Fin 0"

definition unindexed_consent :: js where
  "unindexed_consent = js_put sample_consent ''orderActionIndex'' Null"

definition order_tx :: js where
  "order_tx = JObj [(''actions'', JArr [JObj [(''action'', JStr ''ORDER''), (''action_index'', JStr ''5'')]])]"

definition revoked_during_backfill :: consent_store where
  "revoked_during_backfill = foldl (consent_step any_date) \<lparr> cs_orders = [unindexed_consent], cs_backfill = [] \<rparr>
     [Backfill_begin Undef, Set_enabled True (JObj [(''id'', JStr ''btc::ab''), (''enabled'', JBool False)])]"

lemma sample_valid: "validateAutopayOrder any_date unindexed_consent = []"
  by (simp add: validateAutopayOrder_def unindexed_consent_def sample_consent_def CURRENT_VERSION_def isNonEmptyString_def
      isDecimalAmount_def is_boolean_def isIsoTimestamp_def any_date_def match_decimal_def is_digit_def nonzero_digit_def)

text \<open>The schema never refuses a flip of the switch, nor an index with a text.\<close>

lemma valid_put:
  assumes "validateAutopayOrder date_parse r = []"
  shows "validateAutopayOrder date_parse (js_put r ''autopay'' (JBool b)) = []"
    and "i \<noteq> [] \<Longrightarrow> validateAutopayOrder date_parse (js_put r ''orderActionIndex'' (JStr i)) = []"
  using assms valid_object [OF assms]
  by (auto simp: validateAutopayOrder_def js_get_put is_boolean_def isNonEmptyString_def split: if_splits)

lemma put_order_only:
  assumes "validateAutopayOrder date_parse upd = []" "record_id upd = record_id r"
  shows "put_order date_parse True upd [r] = Inr [upd]"
proof -
  have "is_plain_object upd" using valid_object [OF assms(1)] .
  hence "js_truthy upd" by (cases upd) auto
  moreover have "isNonEmptyString (record_id upd)"
    using assms(1) by (auto simp: validateAutopayOrder_def record_id_def split: if_splits)
  ultimately have "put_order date_parse True upd [r] = Inr (replace_first upd [r])"
    using assms(1) by (simp add: put_order_Inr)
  thus ?thesis using assms(2) by simp
qed

lemma revoked_state:
  "revoked_during_backfill = \<lparr> cs_orders = [js_put unindexed_consent ''autopay'' (JBool False)], cs_backfill = [unindexed_consent] \<rparr>"
proof -
  let ?r = unindexed_consent and ?off = "js_put unindexed_consent ''autopay'' (JBool False)"
  have obj: "is_plain_object ?r" by (rule valid_object [OF sample_valid])
  have fields: "record_id ?r = JStr ''btc::ab''" "js_get ?r ''orderActionIndex'' = Null" "js_get ?r ''autopay'' = JBool True"
    by (simp_all add: record_id_def unindexed_consent_def sample_consent_def)
  have off: "put_order any_date True ?off [?r] = Inr [?off]"
    by (rule put_order_only [OF valid_put(1) [OF sample_valid]]) (use obj in \<open>simp add: record_id_def js_get_put\<close>)
  show ?thesis
    by (simp add: revoked_during_backfill_def consent_step_def Let_def listAutopayOrders_def setAutopayEnabled_def
        is_boolean_def js_coalesce_def fields off kept_def)
qed

lemma revocation_lost_by_backfill:
  "map (\<lambda>r. js_get r ''autopay'') (cs_orders revoked_during_backfill) = [JBool False]"
  "map (\<lambda>r. js_get r ''autopay'') (cs_orders (consent_step any_date revoked_during_backfill (Backfill_next True (Some order_tx))))
     = [JBool True]"
proof -
  let ?r = unindexed_consent and ?off = "js_put unindexed_consent ''autopay'' (JBool False)"
  let ?ind = "js_put unindexed_consent ''orderActionIndex'' (JStr ''5'')"
  have obj: "is_plain_object ?r" by (rule valid_object [OF sample_valid])
  have fields: "record_id ?r = JStr ''btc::ab''" "js_get ?r ''orderActionIndex'' = Null" "js_get ?r ''autopay'' = JBool True"
    by (simp_all add: record_id_def unindexed_consent_def sample_consent_def)
  have ids: "record_id ?off = record_id ?r" "record_id ?ind = record_id ?r"
    using obj by (simp_all add: record_id_def js_get_put)
  have ind: "put_order any_date True ?ind [?off] = Inr [?ind]"
    by (rule put_order_only [OF valid_put(2) [OF sample_valid]]) (simp_all add: ids)
  note state = revoked_state
  show "map (\<lambda>r. js_get r ''autopay'') (cs_orders revoked_during_backfill) = [JBool False]"
    using obj by (simp add: state js_get_put)
  have "order_row (Some order_tx) = Some (JObj [(''action'', JStr ''ORDER''), (''action_index'', JStr ''5'')])"
    by (simp add: order_row_def order_tx_def is_order_row_def js_upper_def up_char_def)
  hence "backfill_record any_date True (Some order_tx) ?r [?off] = Some (Inr [?ind])"
    by (simp add: backfill_record_def fields ind)
  thus "map (\<lambda>r. js_get r ''autopay'') (cs_orders (consent_step any_date revoked_during_backfill (Backfill_next True (Some order_tx))))
     = [JBool True]"
    using obj fields by (simp add: state consent_step_def Let_def js_get_put)
qed

section \<open>What the store guarantees\<close>

lemma sample_store: "store_inv any_date \<lparr> cs_orders = [unindexed_consent], cs_backfill = [] \<rparr>"
  using sample_valid
  by (simp add: store_inv_def orders_ok_def ledger_ok_def record_payments_def unindexed_consent_def sample_consent_def)

lemma sample_run:
  "run_ok consent_ok (consent_step any_date) \<lparr> cs_orders = [unindexed_consent], cs_backfill = [] \<rparr>
     [Backfill_begin Undef, Set_enabled True (JObj [(''id'', JStr ''btc::ab''), (''enabled'', JBool False)])]"
  by (simp add: consent_ok_def)

text \<open>
  Property C40. Whatever operations reach the store, in whatever order and whichever writes fail, with a
  backfill under way or not, every record it holds passes the schema, its ledger names no match twice, and
  the sum of its payments can be read, so a stored consent always has a cap to be measured against.
\<close>

theorem stored_consents_well_formed:
  assumes "store_inv date_parse s" "run_ok consent_ok (consent_step date_parse) s es"
    and "r \<in> set (cs_orders (foldl (consent_step date_parse) s es))"
  shows "validateAutopayOrder date_parse r = [] \<and> distinct (map payment_match (record_payments r))
    \<and> (\<exists>paid. paidBase r = Some paid)"
  using consents.inv_run [OF assms(1,2)] assms(3) valid_ledger_reads [of date_parse r]
  by (auto simp: store_inv_def orders_ok_def ledger_ok_def)

theorem stored_consents_well_formed_witness:
  "validateAutopayOrder any_date (js_put unindexed_consent ''autopay'' (JBool False)) = []"
  using stored_consents_well_formed [OF sample_store sample_run, folded revoked_during_backfill_def]
  by (simp add: revoked_state)

text \<open>
  The terms a consent was given under never change and its ledger only grows: after any
  operations, a record that was stored is still there with the same wallet, chain, address, transaction and
  amounts, and its payments extend those it had. A stale copy written by the backfill loses none of them.
\<close>

lemma consent_ledger_only_grows:
  assumes "store_inv date_parse s" "run_ok consent_ok (consent_step date_parse) s es" "r \<in> set (cs_orders s)"
  shows "\<exists>r' \<in> set (cs_orders (foldl (consent_step date_parse) s es)).
    record_id r' = record_id r \<and> terms r' = terms r \<and> (\<exists>new. record_payments r' = record_payments r @ new)"
  using consents.le_run [OF assms(1,2)] assms(3) by (auto simp: later_def descends_def)

end
