(* ===== verification/Autopay_Watcher.thy ===== *)
theory Autopay_Watcher
  imports Autopay_Consent Coinpay_Pending
begin

text \<open>
  The engine of unattended payments: \<^verbatim>\<open>core/src/notifications/CoinpayAutopayWatcher.js\<close>. One cycle is a function of the
  watcher and of what every call out of it answers: the clock, the vault's reads, the explorer, the lease, the
  signers, the reservation ledger, the payment flow and the notifier. The consent records are part of the
  state, since a payment appends to them; what the cycle does to the outside is its log, in order. The titles
  and bodies of notifications are left out.
\<close>

section \<open>The watcher and its surroundings\<close>

definition NOTIFIED_CAP :: nat where
  "NOTIFIED_CAP = 500"

definition LEASE_CYCLES :: rat where
  "LEASE_CYCLES = 3"

text \<open>
  How the payment flow ends: with a transaction, or with an error after the phases it had reported to
  \<open>onProgress\<close>. \<open>submit_phases\<close> are the phases of \<^verbatim>\<open>core/src/sdk/submitWithSigner.js\<close> in their order, up to
  the last send, for an action in one transaction and for the two encodings of a commit and a reveal. The bytes
  of the first transaction go out after \<^verbatim>\<open>broadcasting\<close> and those of the second after the phase that follows it.
\<close>

datatype lane = One_transaction | Envelope_pair | Chunk_pair

definition submit_phases :: "lane \<Rightarrow> string list" where
  "submit_phases l = [''creating'', ''encoding'', ''signing'', ''broadcasting''] @
     (case l of One_transaction \<Rightarrow> [] | Envelope_pair \<Rightarrow> [''envelope_revealing'', ''envelope_revealed''] | Chunk_pair \<Rightarrow> [''p2sh_spending''])"

datatype pay_outcome = Paid string | Failed "string list" string

datatype delivery = Delivered | Dropped | Undeliverable

record payment =
  py_chain :: js
  py_match :: string
  py_wallet :: js
  py_from :: js
  py_payee :: js
  py_amount :: string

datatype effect =
    Lease_written js
  | Reserve string js string js
  | Release string
  | Pay_sent payment pay_outcome
  | Notified string string
  | Saved_notified "string list"

record watcher =
  wa_orders :: "js list"
  wa_lease :: js
  wa_attempted :: "string list"
  wa_notified :: "string list"
  wa_loaded :: bool
  wa_dirty :: bool
  wa_holds :: "(string \<times> string \<times> js) list"
  wa_terminal :: "string list"
  wa_status :: "(bool \<times> nat \<times> js list) option"
  wa_log :: "effect list"

text \<open>
  What a cycle is answered. Lists are empty where the read failed and the code goes on without it;
  \<open>None\<close> marks the failures it tells apart.
\<close>

record surroundings =
  su_now :: rat
  su_iso :: string
  su_instance :: string
  su_shell :: string
  su_interval :: rat
  su_consents :: bool
  su_backfill :: "(js \<Rightarrow> js option) option"
  su_lease_get :: bool
  su_lease_put :: bool
  su_signer :: "js \<Rightarrow> bool"
  su_pending :: "js list"
  su_tip :: "js \<Rightarrow> js"
  su_obligations :: "js \<Rightarrow> js \<Rightarrow> js list option"
  su_matches :: "js \<Rightarrow> rat \<Rightarrow> js list option"
  su_addresses :: "js list"
  su_chain_id :: "js \<Rightarrow> js \<Rightarrow> js"
  su_fee :: "js \<Rightarrow> rat"
  su_ledger :: bool
  su_held :: "js list"
  su_reserve :: "string \<Rightarrow> bool"
  su_pay :: "string \<Rightarrow> pay_outcome"
  su_record :: bool
  su_settings :: "js option"
  su_notify :: "string \<Rightarrow> delivery"
  su_stored_notified :: "js list"
  su_can_save :: bool
  su_save :: bool

definition log_effect :: "effect \<Rightarrow> watcher \<Rightarrow> watcher" where
  "log_effect e w = w\<lparr>wa_log := wa_log w @ [e]\<rparr>"

section \<open>Notifications\<close>

definition notified_key :: "js \<Rightarrow> string \<Rightarrow> string \<Rightarrow> string" where
  "notified_key chainId m reason = (case chainId of JStr c \<Rightarrow> c | _ \<Rightarrow> []) @ '':'' @ m @ '':'' @ reason"

definition persistNotified :: "surroundings \<Rightarrow> watcher \<Rightarrow> watcher" where
  "persistNotified u w =
     (if \<not> wa_dirty w \<or> \<not> su_can_save u then w
      else let kept = drop (length (wa_notified w) - NOTIFIED_CAP) (wa_notified w) in
        if su_save u then log_effect (Saved_notified kept) (w\<lparr>wa_notified := kept, wa_dirty := False\<rparr>)
        else w\<lparr>wa_notified := kept\<rparr>)"

definition add_once :: "string \<Rightarrow> string list \<Rightarrow> string list" where
  "add_once k ks = (if k \<in> set ks then ks else ks @ [k])"

definition notifyOnce :: "surroundings \<Rightarrow> js \<Rightarrow> string \<Rightarrow> string \<Rightarrow> watcher \<Rightarrow> watcher" where
  "notifyOnce u chainId m reason w =
     (let key = notified_key chainId m reason in
      if key \<in> set (wa_notified w) then w
      else (case su_settings u of
          None \<Rightarrow> w
        | Some settings \<Rightarrow>
            if js_get (js_get settings ''notifications'') ''incomingReceipts'' \<noteq> JBool True then w
            else let w' = w\<lparr>wa_notified := add_once key (wa_notified w)\<rparr> in
              (case su_notify u key of
                 Delivered \<Rightarrow> persistNotified u (log_effect (Notified key reason) (w'\<lparr>wa_dirty := True\<rparr>))
               | _ \<Rightarrow> w')))"

definition restoreNotified :: "surroundings \<Rightarrow> watcher \<Rightarrow> watcher" where
  "restoreNotified u w =
     (if wa_loaded w then w
      else w\<lparr>wa_loaded := True, wa_notified := foldl (\<lambda>ks v. case v of JStr s \<Rightarrow> if s = [] then ks else add_once s ks | _ \<Rightarrow> ks)
         (wa_notified w) (su_stored_notified u)\<rparr>)"

section \<open>Holds in the reservation ledger\<close>

definition hold_prefix :: "string \<Rightarrow> string" where
  "hold_prefix chainId = ''autopay:'' @ chainId @ '':''"

definition restore_hold :: "(string \<times> string \<times> js) list \<Rightarrow> js \<Rightarrow> (string \<times> string \<times> js) list" where
  "restore_hold holds entry = (case (js_get entry ''id'', js_get entry ''chainId'') of
     (JStr i, JStr chainId) \<Rightarrow>
       (let prefix = hold_prefix chainId; m = drop (length prefix) i in
        if starts_with prefix i \<and> m \<noteq> [] then AList.update m (i, JStr chainId) holds else holds)
   | _ \<Rightarrow> holds)"

definition restoreHolds :: "surroundings \<Rightarrow> watcher \<Rightarrow> watcher" where
  "restoreHolds u w =
     (if \<not> su_ledger u then w else w\<lparr>wa_holds := foldl restore_hold (wa_holds w) (su_held u)\<rparr>)"

definition releaseHold :: "surroundings \<Rightarrow> string \<Rightarrow> watcher \<Rightarrow> watcher" where
  "releaseHold u m w = (case map_of (wa_holds w) m of
     None \<Rightarrow> w
   | Some (reservationId, chainId) \<Rightarrow>
       let w' = w\<lparr>wa_holds := List.filter (\<lambda>h. fst h \<noteq> m) (wa_holds w)\<rparr> in
       if su_ledger u then log_effect (Release reservationId) w' else w')"

definition releaseTerminalHolds :: "surroundings \<Rightarrow> watcher \<Rightarrow> watcher" where
  "releaseTerminalHolds u w =
     (let terminal = wa_terminal w in
      foldl (\<lambda>w m. if m \<in> set terminal
            \<or> list_ex (\<lambda>tx. js_get tx ''status'' = JStr ''indexed'' \<and> pendingTxReferencesMatch tx m) (su_pending u)
          then releaseHold u m w else w) (w\<lparr>wa_terminal := []\<rparr>) (map fst (wa_holds w)))"

section \<open>The lease\<close>

definition acquireOrRenewLease :: "(string \<Rightarrow> jnum) \<Rightarrow> surroundings \<Rightarrow> watcher \<Rightarrow> watcher \<times> bool" where
  "acquireOrRenewLease date_parse u w =
     (if \<not> su_lease_get u then (w, False)
      else if leaseState date_parse (wa_lease w) (su_instance u) (su_now u) (LEASE_CYCLES * su_interval u) = Lease_other_live
        then (w, False)
      else let next = createAutopayLease (su_iso u) (su_instance u) (su_shell u) in
        if validateAutopayLease date_parse next \<noteq> [] \<or> \<not> su_lease_put u then (w, False)
        else (log_effect (Lease_written next) (w\<lparr>wa_lease := next\<rparr>), True))"

section \<open>Paying\<close>

text \<open>A failure that happened before the broadcast frees the match for a later cycle.\<close>

definition funds_short :: "string \<Rightarrow> bool" where
  "funds_short message \<longleftrightarrow> (\<exists>word \<in> {''insufficient'', ''fund'', ''utxo''}.
     list_ex (\<lambda>i. starts_with word (drop i (js_lower message))) [0..<length message])"

definition contains_text :: "string \<Rightarrow> string \<Rightarrow> bool" where
  "contains_text part s \<longleftrightarrow> list_ex (\<lambda>i. starts_with part (drop i s)) [0..<Suc (length s)]"

text \<open>The engine's own test, on the last phase it was told.\<close>

definition broadcast_reached :: "string list \<Rightarrow> bool" where
  "broadcast_reached phases \<longleftrightarrow> contains_text ''broadcast'' (last (''composing'' # phases))"

definition pay :: "(string \<Rightarrow> jnum) \<Rightarrow> surroundings \<Rightarrow> js \<Rightarrow> js \<Rightarrow> js \<Rightarrow> string \<Rightarrow> watcher \<Rightarrow> watcher" where
  "pay date_parse u chainId row consent m w =
     (case obligationBaseUnits (field_of row ''coin_amount'' ''coinAmount'') of
        None \<Rightarrow> notifyOnce u chainId m ''unusable-amount'' w
      | Some amount \<Rightarrow>
          if amount = 0 then notifyOnce u chainId m ''unusable-amount'' w
          else (case List.find (\<lambda>a. js_get a ''address'' = js_get consent ''sourceAddress''
                    \<and> su_chain_id u (js_get a ''chain'') (js_get a ''network'') = chainId) (su_addresses u) of
              None \<Rightarrow> notifyOnce u chainId m ''source-missing'' w
            | Some source \<Rightarrow>
                (let holdId = hold_prefix (js_text chainId) @ m;
                     holdBase = amount + nat (max 0 \<lfloor>su_fee u chainId\<rfloor>);
                     held = js_coalesce (case baseUnitsToCoinText (JStr (nat_text holdBase)) of None \<Rightarrow> Null | Some t \<Rightarrow> JStr t)
                       (JStr (nat_text holdBase));
                     w1 = (if su_ledger u \<and> su_reserve u holdId
                           then log_effect (Reserve holdId chainId (js_text held) (js_get consent ''sourceAddress''))
                             (w\<lparr>wa_holds := AList.update m (holdId, chainId) (wa_holds w)\<rparr>)
                           else w);
                     p = \<lparr> py_chain = chainId, py_match = m, py_wallet = js_get consent ''walletId'', py_from = source,
                           py_payee = field_of row ''payee_address'' ''payeeAddress'', py_amount = nat_text amount \<rparr>;
                     w2 = log_effect (Pay_sent p (su_pay u m)) (w1\<lparr>wa_attempted := add_once m (wa_attempted w1)\<rparr>)
                 in (case su_pay u m of
                       Paid txid \<Rightarrow>
                         notifyOnce u chainId m ''autopaid''
                           (w2\<lparr>wa_orders := kept (wa_orders w2)
                              (recordAutopayPayment date_parse (su_iso u) (su_record u) (js_text (record_id consent)) m
                                 (nat_text amount) txid (wa_orders w2))\<rparr>)
                     | Failed phases message \<Rightarrow>
                         notifyOnce u chainId m (if funds_short message then ''balance-short'' else ''pay-failed'')
                           (if broadcast_reached phases then w2
                            else releaseHold u m (w2\<lparr>wa_attempted := removeAll m (wa_attempted w2)\<rparr>))))))"

section \<open>One obligation\<close>

definition find_match :: "surroundings \<Rightarrow> js \<Rightarrow> js \<Rightarrow> string \<Rightarrow> js" where
  "find_match u chainId row m = (case js_Number (field_of row ''block_index'' ''blockIndex'') of
     Fin b \<Rightarrow>
       if b \<le> 0 then Null
       else (case su_matches u chainId b of
           None \<Rightarrow> Null
         | Some rows \<Rightarrow> (case List.find (\<lambda>r. js_text (js_get r ''action_index'') = m) rows of None \<Rightarrow> Null | Some r \<Rightarrow> r))
   | _ \<Rightarrow> Null)"

definition find_consent :: "js list \<Rightarrow> js \<Rightarrow> js option" where
  "find_consent consents matchRow = List.find (\<lambda>c. \<not> is_nullish (js_get c ''orderActionIndex'') \<and> js_truthy matchRow
     \<and> (js_text (js_get matchRow ''give_action_index'') = js_text (js_get c ''orderActionIndex'')
        \<or> js_text (js_get matchRow ''get_action_index'') = js_text (js_get c ''orderActionIndex''))) consents"

definition alreadyAttempted :: "surroundings \<Rightarrow> watcher \<Rightarrow> string \<Rightarrow> bool" where
  "alreadyAttempted u w m \<longleftrightarrow> m \<in> set (wa_attempted w) \<or> hasAttemptedCoinpay (su_pending u) m"

definition handleObligation :: "(string \<Rightarrow> jnum) \<Rightarrow> surroundings \<Rightarrow> bool \<Rightarrow> js \<Rightarrow> js list \<Rightarrow> js \<Rightarrow> watcher \<Rightarrow> watcher" where
  "handleObligation date_parse u isPayer chainId consents row w =
     (let m = obligation_match_index row in
      if m = [] then w
      else if field_of row ''coinpay_status'' ''coinpayStatus'' \<noteq> JStr ''pending_coinpay'' then
        (let cleared = List.filter (\<lambda>k. \<not> contains_text ('':'' @ m @ '':'') k) (wa_notified w) in
         w\<lparr>wa_terminal := add_once m (wa_terminal w), wa_notified := cleared,
           wa_dirty := (wa_dirty w \<or> cleared \<noteq> wa_notified w)\<rparr>)
      else let matchRow = find_match u chainId row m in
        (case find_consent consents matchRow of
           None \<Rightarrow> w
         | Some consent \<Rightarrow>
             let attempted = alreadyAttempted u w m in
             (case evaluateObligation row consent matchRow (su_tip u chainId) (of_int \<lfloor>su_now u / 1000\<rfloor>) attempted of
                Some (Notify_manual reason) \<Rightarrow> if isPayer then notifyOnce u chainId m reason w else w
              | Some (Pay amt) \<Rightarrow>
                  if \<not> isPayer \<or> attempted then w
                  else if \<not> su_signer u (js_get consent ''walletId'') then notifyOnce u chainId m ''locked'' w
                  else pay date_parse u chainId row consent m w
              | _ \<Rightarrow> w)))"

section \<open>A cycle\<close>

text \<open>
  Grouping as a JavaScript map does: keys in the order of their first occurrence. The consents are the
  snapshot read before the first payment of the cycle. A consent the vault holds has no null payment row,
  so the decision never raises on it, and the rows of the explorer are objects.
\<close>

definition group_by :: "(js \<Rightarrow> js) \<Rightarrow> js list \<Rightarrow> (js \<times> js list) list" where
  "group_by key xs = map (\<lambda>k. (k, List.filter (\<lambda>x. key x = k) xs)) (rev (remdups (rev (map key xs))))"

definition cycleAddress :: "(string \<Rightarrow> jnum) \<Rightarrow> surroundings \<Rightarrow> bool \<Rightarrow> js \<Rightarrow> watcher \<Rightarrow> js \<times> js list \<Rightarrow> watcher" where
  "cycleAddress date_parse u isPayer chainId w entry = (case entry of (address, addrConsents) \<Rightarrow>
     (case su_obligations u chainId address of
        None \<Rightarrow> w
      | Some rows \<Rightarrow> foldl (\<lambda>w row. if field_of row ''payer_address'' ''payerAddress'' \<noteq> address then w
          else handleObligation date_parse u isPayer chainId addrConsents row w) w rows))"

definition cycleChain :: "(string \<Rightarrow> jnum) \<Rightarrow> surroundings \<Rightarrow> bool \<Rightarrow> watcher \<Rightarrow> js \<times> js list \<Rightarrow> watcher" where
  "cycleChain date_parse u isPayer w entry = (case entry of (chainId, chainConsents) \<Rightarrow>
     foldl (cycleAddress date_parse u isPayer chainId) w (group_by (\<lambda>c. js_get c ''sourceAddress'') chainConsents))"

definition armed :: "js list \<Rightarrow> js list" where
  "armed orders = List.filter (\<lambda>c. js_get c ''autopay'' = JBool True) (listAutopayOrders Undef Undef orders)"

text \<open>The backfill of order indexes; when it fails, the cycle goes on with the consents it had read.\<close>

definition backfilled :: "(string \<Rightarrow> jnum) \<Rightarrow> surroundings \<Rightarrow> watcher \<Rightarrow> watcher \<times> js list" where
  "backfilled date_parse u w = (case su_backfill u of
     None \<Rightarrow> (w, armed (wa_orders w))
   | Some tx \<Rightarrow>
       (case resolveOrderActionIndexes date_parse (\<lambda>r. su_record u) tx Undef (wa_orders w) of
          (orders, Inl e) \<Rightarrow> (w\<lparr>wa_orders := orders\<rparr>, armed (wa_orders w))
        | (orders, Inr n) \<Rightarrow> (w\<lparr>wa_orders := orders\<rparr>, armed orders)))"

definition cycle :: "(string \<Rightarrow> jnum) \<Rightarrow> surroundings \<Rightarrow> watcher \<Rightarrow> watcher" where
  "cycle date_parse u w =
     (let w1 = restoreHolds u (restoreNotified u w) in
      if \<not> su_consents u then w1
      else if armed (wa_orders w1) = [] then w1\<lparr>wa_status := Some (False, 0, [])\<rparr>
      else (case backfilled date_parse u w1 of (w2, consents) \<Rightarrow>
        (case acquireOrRenewLease date_parse u w2 of (w3, isPayer) \<Rightarrow>
          let unsignable = rev (remdups (rev (map (\<lambda>c. js_get c ''walletId'')
                (List.filter (\<lambda>c. \<not> su_signer u (js_get c ''walletId'')) consents))));
              w4 = w3\<lparr>wa_status := Some (isPayer, length consents, unsignable)\<rparr>;
              w5 = foldl (cycleChain date_parse u isPayer) w4 (group_by (\<lambda>c. js_get c ''chainId'') consents)
          in persistNotified u (releaseTerminalHolds u w5))))"

definition new_watcher :: "js list \<Rightarrow> js \<Rightarrow> watcher" where
  "new_watcher orders lease = \<lparr> wa_orders = orders, wa_lease = lease, wa_attempted = [], wa_notified = [], wa_loaded = False,
     wa_dirty = False, wa_holds = [], wa_terminal = [], wa_status = None, wa_log = [] \<rparr>"

section \<open>Payments in the log\<close>

definition payments :: "watcher \<Rightarrow> (payment \<times> pay_outcome) list" where
  "payments w = List.map_filter (\<lambda>e. case e of Pay_sent p out \<Rightarrow> Some (p, out) | _ \<Rightarrow> None) (wa_log w)"

text \<open>
  The matches whose payment may have reached the network: those paid, and those whose flow failed after it
  had announced that it hands bytes to the network.
\<close>

definition may_be_out :: "pay_outcome \<Rightarrow> bool" where
  "may_be_out out \<longleftrightarrow> (case out of Paid txid \<Rightarrow> True | Failed phases message \<Rightarrow> ''broadcasting'' \<in> set phases)"

text \<open>The payment flow builds one transaction, so a failure reports some first phases of that lane.\<close>

definition one_transaction :: "surroundings \<Rightarrow> bool" where
  "one_transaction u \<longleftrightarrow> (\<forall>m. case su_pay u m of Paid txid \<Rightarrow> True
     | Failed phases message \<Rightarrow> \<exists>n. phases = take n (submit_phases One_transaction))"

lemma announced_is_reached:
  assumes "one_transaction u" "su_pay u m = Failed phases message" "''broadcasting'' \<in> set phases"
  shows "broadcast_reached phases"
proof -
  obtain n where n: "phases = take n (submit_phases One_transaction)"
    using assms(1,2) by (auto simp: one_transaction_def split: pay_outcome.splits dest: spec [of _ m])
  have "4 \<le> n"
  proof (rule ccontr)
    assume "\<not> 4 \<le> n"
    then have "n \<in> {0, 1, 2, 3}" by auto
    then show False using assms(3) n by (auto simp: submit_phases_def numeral_eq_Suc)
  qed
  then have "phases = submit_phases One_transaction" using n by (simp add: submit_phases_def)
  then show ?thesis by (simp add: broadcast_reached_def submit_phases_def) code_simp
qed

definition sent :: "watcher \<Rightarrow> string list" where
  "sent w = map (py_match \<circ> fst) (List.filter (may_be_out \<circ> snd) (payments w))"

named_theorems quiet \<open>steps that pay nothing\<close>

lemma map_filter_append: "List.map_filter f (xs @ ys) = List.map_filter f xs @ List.map_filter f ys"
  by (simp add: List.map_filter_def)

lemma payments_log [quiet]:
  "payments (log_effect e w) = payments w @ (case e of Pay_sent p out \<Rightarrow> [(p, out)] | _ \<Rightarrow> [])"
  by (simp add: payments_def log_effect_def map_filter_append) (simp add: List.map_filter_def split: effect.split)

lemma payments_fields [quiet]:
  "payments (w\<lparr>wa_orders := a\<rparr>) = payments w" "payments (w\<lparr>wa_lease := b\<rparr>) = payments w"
  "payments (w\<lparr>wa_attempted := c\<rparr>) = payments w" "payments (w\<lparr>wa_notified := c\<rparr>) = payments w"
  "payments (w\<lparr>wa_loaded := d\<rparr>) = payments w" "payments (w\<lparr>wa_dirty := d\<rparr>) = payments w"
  "payments (w\<lparr>wa_holds := f\<rparr>) = payments w" "payments (w\<lparr>wa_terminal := c\<rparr>) = payments w"
  "payments (w\<lparr>wa_status := g\<rparr>) = payments w"
  by (simp_all add: payments_def)

lemma log_fields [quiet]:
  "wa_attempted (log_effect e w) = wa_attempted w" "wa_orders (log_effect e w) = wa_orders w"
  by (simp_all add: log_effect_def)

lemma persist_quiet [quiet]:
  "payments (persistNotified u w) = payments w" "wa_attempted (persistNotified u w) = wa_attempted w"
  "wa_orders (persistNotified u w) = wa_orders w"
  by (simp_all add: persistNotified_def Let_def quiet)

lemma notify_quiet [quiet]:
  "payments (notifyOnce u c m r w) = payments w" "wa_attempted (notifyOnce u c m r w) = wa_attempted w"
  "wa_orders (notifyOnce u c m r w) = wa_orders w"
  by (simp_all add: notifyOnce_def Let_def quiet split: option.split delivery.split)

lemma release_quiet [quiet]:
  "payments (releaseHold u m w) = payments w" "wa_attempted (releaseHold u m w) = wa_attempted w"
  by (simp_all add: releaseHold_def Let_def quiet split: option.split)

lemma restore_quiet [quiet]:
  "payments (restoreHolds u w) = payments w" "wa_attempted (restoreHolds u w) = wa_attempted w"
  "payments (restoreNotified u w) = payments w" "wa_attempted (restoreNotified u w) = wa_attempted w"
  by (simp_all add: restoreHolds_def restoreNotified_def quiet)

lemma foldl_keeps: "(\<And>w x. f (g w x) = f w) \<Longrightarrow> f (foldl g w xs) = f w"
  by (induction xs arbitrary: w) simp_all

lemma terminal_quiet [quiet]:
  "payments (releaseTerminalHolds u w) = payments w" "wa_attempted (releaseTerminalHolds u w) = wa_attempted w"
  unfolding releaseTerminalHolds_def Let_def by (subst foldl_keeps; simp add: quiet)+

lemma lease_quiet [quiet]:
  "payments (fst (acquireOrRenewLease dp u w)) = payments w"
  "wa_attempted (fst (acquireOrRenewLease dp u w)) = wa_attempted w"
  by (simp_all add: acquireOrRenewLease_def Let_def quiet)

lemma backfill_quiet [quiet]:
  "payments (fst (backfilled dp u w)) = payments w" "wa_attempted (fst (backfilled dp u w)) = wa_attempted w"
  by (simp_all add: backfilled_def quiet split: option.split prod.split sum.split)

text \<open>Paying adds one payment, of the amount owed, to the payee of the obligation, from the consent's address.\<close>

lemma pay_cases:
  "payments (pay dp u chainId row consent m w) = payments w \<and> wa_attempted (pay dp u chainId row consent m w) = wa_attempted w
   \<or> (\<exists>p amount. payments (pay dp u chainId row consent m w) = payments w @ [(p, su_pay u m)]
        \<and> py_match p = m \<and> py_chain p = chainId \<and> py_wallet p = js_get consent ''walletId''
        \<and> py_payee p = field_of row ''payee_address'' ''payeeAddress''
        \<and> js_get (py_from p) ''address'' = js_get consent ''sourceAddress''
        \<and> obligationBaseUnits (field_of row ''coin_amount'' ''coinAmount'') = Some amount \<and> py_amount p = nat_text amount
        \<and> set (wa_attempted (pay dp u chainId row consent m w)) =
            (case su_pay u m of Paid _ \<Rightarrow> insert m (set (wa_attempted w))
             | Failed phases _ \<Rightarrow> if broadcast_reached phases then insert m (set (wa_attempted w)) else set (wa_attempted w) - {m}))"
proof (cases "\<exists>amount source. obligationBaseUnits (field_of row ''coin_amount'' ''coinAmount'') = Some amount \<and> amount \<noteq> 0
    \<and> List.find (\<lambda>a. js_get a ''address'' = js_get consent ''sourceAddress''
        \<and> su_chain_id u (js_get a ''chain'') (js_get a ''network'') = chainId) (su_addresses u) = Some source")
  case False
  thus ?thesis by (auto simp: pay_def quiet split: option.split)
next
  case True
  then obtain amount source where parts: "obligationBaseUnits (field_of row ''coin_amount'' ''coinAmount'') = Some amount"
    "amount \<noteq> 0" and find: "List.find (\<lambda>a. js_get a ''address'' = js_get consent ''sourceAddress''
        \<and> su_chain_id u (js_get a ''chain'') (js_get a ''network'') = chainId) (su_addresses u) = Some source" by blast
  have source: "js_get source ''address'' = js_get consent ''sourceAddress''" using find_Some [OF find] by blast
  let ?p = "\<lparr> py_chain = chainId, py_match = m, py_wallet = js_get consent ''walletId'', py_from = source,
    py_payee = field_of row ''payee_address'' ''payeeAddress'', py_amount = nat_text amount \<rparr>"
  have "payments (pay dp u chainId row consent m w) = payments w @ [(?p, su_pay u m)]"
    using parts find by (simp add: pay_def Let_def quiet split: pay_outcome.split)
  moreover have "set (wa_attempted (pay dp u chainId row consent m w)) =
      (case su_pay u m of Paid _ \<Rightarrow> insert m (set (wa_attempted w))
             | Failed phases _ \<Rightarrow> if broadcast_reached phases then insert m (set (wa_attempted w)) else set (wa_attempted w) - {m})"
    using parts find by (auto simp: pay_def Let_def quiet add_once_def split: pay_outcome.split)
  ultimately show ?thesis using parts(1) source
    by (intro disjI2 exI [of _ ?p] exI [of _ amount]) simp
qed

section \<open>What the engine pays\<close>

text \<open>A step that adds payments of a kind and, if the flow builds one transaction, no payment for a match already sent.\<close>

definition once :: "watcher \<Rightarrow> bool" where
  "once w \<longleftrightarrow> distinct (sent w) \<and> set (sent w) \<subseteq> set (wa_attempted w)"

definition adds :: "bool \<Rightarrow> (payment \<Rightarrow> bool) \<Rightarrow> watcher \<Rightarrow> watcher \<Rightarrow> bool" where
  "adds one Q w w' \<longleftrightarrow> (\<exists>new. payments w' = payments w @ new \<and> (\<forall>(p, out) \<in> set new. Q p)) \<and> (one \<longrightarrow> once w \<longrightarrow> once w')"

lemma adds_refl: "adds one Q w w"
  by (auto simp: adds_def)

lemma adds_quiet: "payments w' = payments w \<Longrightarrow> wa_attempted w' = wa_attempted w \<Longrightarrow> adds one Q w w'"
  by (auto simp: adds_def once_def sent_def)

lemma adds_trans: "adds one Q w w' \<Longrightarrow> adds one Q w' w'' \<Longrightarrow> adds one Q w w''"
  unfolding adds_def by (auto simp: ball_Un)

lemma adds_foldl: "(\<And>w x. x \<in> set xs \<Longrightarrow> adds one Q w (g w x)) \<Longrightarrow> adds one Q w (foldl g w xs)"
  by (induction xs arbitrary: w) (auto intro: adds_refl adds_trans)

text \<open>The conditions under which an obligation is paid.\<close>

definition paid_row :: "(string \<Rightarrow> jnum) \<Rightarrow> surroundings \<Rightarrow> js list \<Rightarrow> payment \<Rightarrow> bool" where
  "paid_row date_parse u consents p \<longleftrightarrow> (\<exists>row consent amount rows.
     consent \<in> set consents \<and> js_get consent ''autopay'' = JBool True
     \<and> su_obligations u (py_chain p) (js_get consent ''sourceAddress'') = Some rows \<and> row \<in> set rows
     \<and> field_of row ''payer_address'' ''payerAddress'' = js_get consent ''sourceAddress''
     \<and> evaluateObligation row consent (find_match u (py_chain p) row (py_match p)) (su_tip u (py_chain p))
         (of_int \<lfloor>su_now u / 1000\<rfloor>) False = Some (Pay (py_amount p))
     \<and> py_amount p = nat_text amount
     \<and> within_terms row consent (find_match u (py_chain p) row (py_match p)) amount
     \<and> py_match p = obligation_match_index row \<and> \<not> hasAttemptedCoinpay (su_pending u) (py_match p)
     \<and> py_chain p = js_get consent ''chainId'' \<and> py_wallet p = js_get consent ''walletId'' \<and> su_signer u (py_wallet p)
     \<and> py_payee p = field_of row ''payee_address'' ''payeeAddress''
     \<and> js_get (py_from p) ''address'' = js_get consent ''sourceAddress'')"

lemma handle_cases:
  "payments (handleObligation dp u isPayer c consents row w) = payments w
     \<and> wa_attempted (handleObligation dp u isPayer c consents row w) = wa_attempted w
   \<or> (\<exists>consent amt. isPayer \<and> consent \<in> set consents
        \<and> evaluateObligation row consent (find_match u c row (obligation_match_index row)) (su_tip u c)
            (of_int \<lfloor>su_now u / 1000\<rfloor>) False = Some (Pay amt)
        \<and> \<not> alreadyAttempted u w (obligation_match_index row) \<and> su_signer u (js_get consent ''walletId'')
        \<and> handleObligation dp u isPayer c consents row w = pay dp u c row consent (obligation_match_index row) w)"
proof -
  let ?m = "obligation_match_index row" and ?h = "handleObligation dp u isPayer c consents row w"
  let ?row = "find_match u c row ?m" and ?now = "of_int \<lfloor>su_now u / 1000\<rfloor> :: rat"
  show ?thesis
  proof (cases "?m \<noteq> [] \<and> field_of row ''coinpay_status'' ''coinpayStatus'' = JStr ''pending_coinpay''")
    case False
    thus ?thesis by (auto simp: handleObligation_def Let_def quiet)
  next
    case pending: True
    show ?thesis
    proof (cases "find_consent consents ?row")
      case None
      thus ?thesis using pending by (simp add: handleObligation_def Let_def)
    next
      case (Some consent)
      have mem: "consent \<in> set consents" using find_Some [OF Some [unfolded find_consent_def]] by blast
      let ?e = "evaluateObligation row consent ?row (su_tip u c) ?now (alreadyAttempted u w ?m)"
      show ?thesis
      proof (cases "\<exists>amt. ?e = Some (Pay amt) \<and> isPayer \<and> \<not> alreadyAttempted u w ?m \<and> su_signer u (js_get consent ''walletId'')")
        case True
        thus ?thesis using pending Some mem by (auto simp: handleObligation_def Let_def)
      next
        case False
        have eq: "?h = (case ?e of
            Some (Notify_manual reason) \<Rightarrow> if isPayer then notifyOnce u c ?m reason w else w
          | Some (Pay amt) \<Rightarrow>
              if \<not> isPayer \<or> alreadyAttempted u w ?m then w
              else if \<not> su_signer u (js_get consent ''walletId'') then notifyOnce u c ?m ''locked'' w
              else pay dp u c row consent ?m w
          | _ \<Rightarrow> w)"
          using pending Some by (simp add: handleObligation_def Let_def)
        have "?h = w \<or> (\<exists>reason. ?h = notifyOnce u c ?m reason w)"
        proof (cases ?e)
          case (Some d)
          show ?thesis unfolding eq Some
          proof (cases d)
            case (Pay amt)
            thus "(case Some d of
                Some (Notify_manual reason) \<Rightarrow> if isPayer then notifyOnce u c ?m reason w else w
              | Some (Pay amt) \<Rightarrow>
                  if \<not> isPayer \<or> alreadyAttempted u w ?m then w
                  else if \<not> su_signer u (js_get consent ''walletId'') then notifyOnce u c ?m ''locked'' w
                  else pay dp u c row consent ?m w
              | _ \<Rightarrow> w) = w \<or> (\<exists>reason. (case Some d of
                Some (Notify_manual reason) \<Rightarrow> if isPayer then notifyOnce u c ?m reason w else w
              | Some (Pay amt) \<Rightarrow>
                  if \<not> isPayer \<or> alreadyAttempted u w ?m then w
                  else if \<not> su_signer u (js_get consent ''walletId'') then notifyOnce u c ?m ''locked'' w
                  else pay dp u c row consent ?m w
              | _ \<Rightarrow> w) = notifyOnce u c ?m reason w)"
              using False Some by auto
          qed auto
        qed (simp add: eq)
        thus ?thesis by (auto simp: quiet)
      qed
    qed
  qed
qed

lemma handle_adds:
  assumes consents: "\<forall>c \<in> set consents. c \<in> set all \<and> js_get c ''sourceAddress'' = address \<and> js_get c ''chainId'' = chainId"
    and rows: "su_obligations u chainId address = Some rows" "row \<in> set rows"
      "field_of row ''payer_address'' ''payerAddress'' = address"
  shows "adds (one_transaction u) (paid_row dp u all) w (handleObligation dp u isPayer chainId consents row w)"
  using handle_cases [of dp u isPayer chainId consents row w]
proof (elim disjE exE conjE)
  assume "payments (handleObligation dp u isPayer chainId consents row w) = payments w"
    "wa_attempted (handleObligation dp u isPayer chainId consents row w) = wa_attempted w"
  thus ?thesis by (rule adds_quiet)
next
  fix consent amt
  let ?m = "obligation_match_index row"
  assume c: "consent \<in> set consents" and e: "evaluateObligation row consent (find_match u chainId row ?m) (su_tip u chainId)
      (of_int \<lfloor>su_now u / 1000\<rfloor>) False = Some (Pay amt)" and fresh: "\<not> alreadyAttempted u w ?m"
    and signer: "su_signer u (js_get consent ''walletId'')"
    and h: "handleObligation dp u isPayer chainId consents row w = pay dp u chainId row consent ?m w"
  obtain amount where amount: "amt = nat_text amount" "within_terms row consent (find_match u chainId row ?m) amount"
    using price_gate_pay [OF decision_gates(3) [OF e]] by blast
  have armed: "js_get consent ''autopay'' = JBool True"
    using e by (auto simp: evaluateObligation_def Let_def split: if_splits)
  have "adds (one_transaction u) (paid_row dp u all) w (pay dp u chainId row consent ?m w)"
    using pay_cases [of dp u chainId row consent ?m w]
  proof (elim disjE exE conjE)
    assume "payments (pay dp u chainId row consent ?m w) = payments w"
      "wa_attempted (pay dp u chainId row consent ?m w) = wa_attempted w"
    thus ?thesis by (rule adds_quiet)
  next
    fix p a
    assume p: "payments (pay dp u chainId row consent ?m w) = payments w @ [(p, su_pay u ?m)]" "py_match p = ?m"
      "py_chain p = chainId" "py_wallet p = js_get consent ''walletId''" "py_payee p = field_of row ''payee_address'' ''payeeAddress''"
      "js_get (py_from p) ''address'' = js_get consent ''sourceAddress''"
      "obligationBaseUnits (field_of row ''coin_amount'' ''coinAmount'') = Some a" "py_amount p = nat_text a"
      and att: "set (wa_attempted (pay dp u chainId row consent ?m w)) =
        (case su_pay u ?m of Paid _ \<Rightarrow> insert ?m (set (wa_attempted w))
          | Failed phases _ \<Rightarrow> if broadcast_reached phases then insert ?m (set (wa_attempted w)) else set (wa_attempted w) - {?m})"
    have "a = amount" using amount(2) p(7) by (auto simp: within_terms_def)
    hence "paid_row dp u all p"
      unfolding paid_row_def using amount e p armed signer fresh c consents rows
      by (intro exI [of _ row] exI [of _ consent] exI [of _ amount] exI [of _ rows]) (auto simp: alreadyAttempted_def)
    moreover have "once (pay dp u chainId row consent ?m w)" if "once w" "one_transaction u"
    proof -
      have "?m \<notin> set (wa_attempted w)" using fresh by (simp add: alreadyAttempted_def)
      moreover have "sent (pay dp u chainId row consent ?m w) = sent w @ (if may_be_out (su_pay u ?m) then [?m] else [])"
        using p(1,2) by (simp add: sent_def)
      moreover have "set (wa_attempted (pay dp u chainId row consent ?m w)) =
          (if may_be_out (su_pay u ?m) then insert ?m (set (wa_attempted w)) else set (wa_attempted w) - {?m})
        \<or> set (wa_attempted (pay dp u chainId row consent ?m w)) = insert ?m (set (wa_attempted w))"
      proof (cases "su_pay u ?m")
        case (Failed phases message)
        then show ?thesis using att announced_is_reached [OF that(2) Failed] by (auto simp: may_be_out_def)
      qed (use att in \<open>simp add: may_be_out_def\<close>)
      ultimately show ?thesis using that(1) by (auto simp: once_def)
    qed
    ultimately show ?thesis using p(1) by (auto simp: adds_def)
  qed
  thus ?thesis using h by simp
qed

lemma group_by_mem:
  "(k, ys) \<in> set (group_by key xs) \<Longrightarrow> y \<in> set ys \<Longrightarrow> y \<in> set xs \<and> key y = k"
  by (auto simp: group_by_def)

lemma chain_adds:
  assumes "\<forall>c \<in> set chainConsents. c \<in> set all \<and> js_get c ''chainId'' = chainId"
  shows "adds (one_transaction u) (paid_row dp u all) w (cycleChain dp u isPayer w (chainId, chainConsents))"
proof -
  have "adds (one_transaction u) (paid_row dp u all) w (cycleAddress dp u isPayer chainId w g)"
    if g: "g \<in> set (group_by (\<lambda>c. js_get c ''sourceAddress'') chainConsents)" for w g
  proof -
    obtain address cs where ac: "g = (address, cs)" by (cases g)
    hence cs: "\<forall>c \<in> set cs. c \<in> set all \<and> js_get c ''sourceAddress'' = address \<and> js_get c ''chainId'' = chainId"
      using group_by_mem g assms by blast
    show ?thesis
    proof (cases "su_obligations u chainId address")
      case None
      thus ?thesis using ac by (simp add: cycleAddress_def adds_refl)
    next
      case (Some rows)
      have "adds (one_transaction u) (paid_row dp u all) w (if field_of row ''payer_address'' ''payerAddress'' \<noteq> address then w
          else handleObligation dp u isPayer chainId cs row w)" if "row \<in> set rows" for w row
        using handle_adds [OF cs Some that] by (simp add: adds_refl)
      thus ?thesis using ac Some by (simp add: cycleAddress_def adds_foldl)
    qed
  qed
  thus ?thesis by (simp add: cycleChain_def adds_foldl)
qed

lemma backfilled_quiet:
  "snd (backfilled dp u (restoreHolds u (restoreNotified u w))) = snd (backfilled dp u w)"
  "wa_lease (fst (backfilled dp u (restoreHolds u (restoreNotified u w)))) = wa_lease w"
  by (simp_all add: backfilled_def restoreHolds_def restoreNotified_def split: option.split prod.split sum.split)

definition lease_free :: "(string \<Rightarrow> jnum) \<Rightarrow> surroundings \<Rightarrow> watcher \<Rightarrow> bool" where
  "lease_free dp u w \<longleftrightarrow> su_lease_get u \<and> su_lease_put u
     \<and> leaseState dp (wa_lease w) (su_instance u) (su_now u) (LEASE_CYCLES * su_interval u) \<noteq> Lease_other_live"

lemma payer_has_lease: "snd (acquireOrRenewLease dp u w) \<Longrightarrow> lease_free dp u w"
  by (auto simp: acquireOrRenewLease_def lease_free_def Let_def split: if_splits)

lemma not_payer_quiet: "\<not> isPayer \<Longrightarrow> payments (handleObligation dp u isPayer c consents row w) = payments w"
  using handle_cases [of dp u isPayer c consents row w] by auto

lemma not_payer_chain: "payments (cycleChain dp u False w g) = payments w"
proof -
  have "payments (cycleAddress dp u False c w g) = payments w" for c w g
    unfolding cycleAddress_def by (cases g) (simp add: foldl_keeps not_payer_quiet split: option.split)
  thus ?thesis unfolding cycleChain_def by (cases g) (simp add: foldl_keeps)
qed

lemma cycle_adds: "adds (one_transaction u) (\<lambda>p. lease_free dp u w \<and> paid_row dp u (snd (backfilled dp u w)) p) w (cycle dp u w)"
proof -
  define w1 where "w1 = restoreHolds u (restoreNotified u w)"
  have w1: "payments w1 = payments w" "wa_attempted w1 = wa_attempted w" by (simp_all add: w1_def quiet)
  show ?thesis
  proof (cases "\<not> su_consents u \<or> armed (wa_orders w1) = []")
    case True
    hence "cycle dp u w = w1 \<or> cycle dp u w = w1\<lparr>wa_status := Some (False, 0, [])\<rparr>"
      by (auto simp: cycle_def Let_def simp flip: w1_def)
    thus ?thesis by (elim disjE) (simp_all add: adds_quiet w1 quiet)
  next
    case False
    obtain w2 consents where bk: "backfilled dp u w1 = (w2, consents)" by fastforce
    obtain w3 isPayer where lease: "acquireOrRenewLease dp u w2 = (w3, isPayer)" by fastforce
    have consents: "consents = snd (backfilled dp u w)" using bk backfilled_quiet(1) [of dp u w] by (simp flip: w1_def)
    define w4 where "w4 = w3\<lparr>wa_status := Some (isPayer, length consents,
        rev (remdups (rev (map (\<lambda>c. js_get c ''walletId'') (List.filter (\<lambda>c. \<not> su_signer u (js_get c ''walletId'')) consents)))))\<rparr>"
    define w5 where "w5 = foldl (cycleChain dp u isPayer) w4 (group_by (\<lambda>c. js_get c ''chainId'') consents)"
    have w4: "payments w4 = payments w" "wa_attempted w4 = wa_attempted w"
      using backfill_quiet [of dp u w1] lease_quiet [of dp u w2] bk lease w1 by (simp_all add: w4_def quiet)
    have c: "cycle dp u w = persistNotified u (releaseTerminalHolds u w5)"
      using False bk lease by (simp add: cycle_def Let_def w5_def w4_def flip: w1_def)
    have grow: "adds (one_transaction u) (paid_row dp u consents) w4 w5"
      unfolding w5_def
    proof (rule adds_foldl)
      fix x g assume g: "g \<in> set (group_by (\<lambda>c. js_get c ''chainId'') consents)"
      obtain chainId cs where cc: "g = (chainId, cs)" by (cases g)
      show "adds (one_transaction u) (paid_row dp u consents) x (cycleChain dp u isPayer x g)"
        unfolding cc by (rule chain_adds) (use g cc group_by_mem in blast)
    qed
    have "adds (one_transaction u) (\<lambda>p. lease_free dp u w \<and> paid_row dp u consents p) w4 w5"
    proof (cases isPayer)
      case True
      have "lease_free dp u w2" using payer_has_lease [of dp u w2] lease True by simp
      hence "lease_free dp u w" using bk backfilled_quiet(2) [of dp u w] by (simp add: lease_free_def flip: w1_def)
      thus ?thesis using grow by (simp add: adds_def)
    next
      case False
      hence "payments w5 = payments w4" unfolding w5_def by (simp add: foldl_keeps not_payer_chain)
      thus ?thesis using grow by (simp add: adds_def)
    qed
    hence "adds (one_transaction u) (\<lambda>p. lease_free dp u w \<and> paid_row dp u consents p) w w5"
      using adds_trans adds_quiet [OF w4] by blast
    thus ?thesis unfolding c consents by (rule adds_trans) (simp add: adds_quiet quiet)
  qed
qed

lemma cycles_once: "\<forall>u \<in> set us. one_transaction u \<Longrightarrow> once w \<Longrightarrow> once (foldl (\<lambda>w u. cycle dp u w) w us)"
proof (induction us arbitrary: w)
  case (Cons u us)
  have "once (cycle dp u w)" using cycle_adds [of u dp w] Cons.prems by (auto simp: adds_def)
  thus ?case using Cons by simp
qed simp

text \<open>
  Property C37. No match is paid twice by one instance of the engine: over any number of cycles, whatever
  the explorer, the vault, the payment flow, the ledger and the notifier answer in each, the matches whose
  payment may have reached the network are all different, as long as the flow builds a payment in one
  transaction. A payment that failed before its bytes were announced to the network is tried again; one that
  failed at any later moment is not. The engine decides by the last phase it was told; \<open>sent\<close> goes by whether
  the broadcast was announced at all.
\<close>

theorem engine_never_pays_twice:
  assumes "\<forall>u \<in> set us. one_transaction u"
  shows "distinct (sent (foldl (\<lambda>w u. cycle date_parse u w) (new_watcher orders lease) us))"
proof -
  have "once (new_watcher orders lease)" by (simp add: once_def sent_def payments_def new_watcher_def List.map_filter_def)
  from cycles_once [OF assms this] show ?thesis by (auto simp: once_def)
qed

text \<open>
  With a commit and a reveal the test is wrong: the last phase of a failed reveal does not name the broadcast,
  so the match and its hold are freed though the commit is out and the reveal may be.
\<close>

lemma reveal_failure_frees_match:
  assumes "obligationBaseUnits (field_of row ''coin_amount'' ''coinAmount'') = Some amount" "amount \<noteq> 0"
    and "List.find (\<lambda>a. js_get a ''address'' = js_get consent ''sourceAddress''
        \<and> su_chain_id u (js_get a ''chain'') (js_get a ''network'') = chainId) (su_addresses u) = Some source"
    and "su_pay u m = Failed (submit_phases Chunk_pair) message"
  shows "m \<in> set (sent (pay dp u chainId row consent m w)) \<and> m \<notin> set (wa_attempted (pay dp u chainId row consent m w))"
proof -
  have "\<not> broadcast_reached (submit_phases Chunk_pair)" by code_simp
  moreover have "''broadcasting'' \<in> set (submit_phases Chunk_pair)" by (simp add: submit_phases_def)
  ultimately show ?thesis using assms
    by (simp add: pay_def Let_def quiet sent_def may_be_out_def)
qed

text \<open>
  Property C39. Every payment of a cycle is one the user consented to: this instance holds the payer lease, an
  armed consent record names the match's order, the obligation is one that the explorer lists for the
  consent's address as payer, no payment of the match is in flight from this vault, the policy decided to pay,
  so the amount is the one owed and within the consent's terms, the money goes to the obligation's payee and
  comes from the consent's own address.
\<close>

theorem engine_pays_only_consented:
  assumes "(p, out) \<in> set (drop (length (payments w)) (payments (cycle date_parse u w)))"
  shows "lease_free date_parse u w \<and> paid_row date_parse u (snd (backfilled date_parse u w)) p"
  using cycle_adds [of u date_parse w] assms by (auto simp: adds_def)

section \<open>Two payments that exceed the order\<close>

text \<open>
  The consents are read once per cycle, so two obligations of one order that a cycle handles are each
  measured against the ledger as it was before both: an order that gives one coin pays 0.8 twice.
\<close>

definition sample_payer :: surroundings where
  "sample_payer = \<lparr> su_now = 0, su_iso = ''now'', su_instance = ''i'', su_shell = ''desktop'', su_interval = 60000,
     su_consents = True, su_backfill = None, su_lease_get = True, su_lease_put = True, su_signer = (\<lambda>w. True),
     su_pending = [], su_tip = (\<lambda>c. JNum (Fin 12)), su_obligations = (\<lambda>c a. Some [sample_row ''7'', sample_row ''8'']),
     su_matches = (\<lambda>c b. Some [sample_match ''7'', sample_match ''8'']),
     su_addresses = [JObj [(''address'', JStr ''me'')]], su_chain_id = (\<lambda>c n. JStr ''btc''), su_fee = (\<lambda>c. 0), su_ledger = False,
     su_held = [], su_reserve = (\<lambda>i. False), su_pay = (\<lambda>m. Paid m), su_record = True, su_settings = None,
     su_notify = (\<lambda>k. Dropped), su_stored_notified = [], su_can_save = False, su_save = False \<rparr>"

text \<open>A cycle whose payments go through, and one whose payments all fail while their bytes may be out.\<close>

definition sample_timeout :: surroundings where
  "sample_timeout = sample_payer\<lparr>su_pay := (\<lambda>m. Failed (submit_phases One_transaction) ''timeout'')\<rparr>"

theorem engine_never_pays_twice_witness:
  "distinct (sent (foldl (\<lambda>w u. cycle any_date u w) (new_watcher [sample_consent] Null) [sample_timeout, sample_payer, sample_timeout]))"
proof (rule engine_never_pays_twice)
  have "\<exists>n. submit_phases One_transaction = take n (submit_phases One_transaction)"
    by (rule exI [of _ 4]) (simp add: submit_phases_def)
  then have "one_transaction sample_timeout" by (simp add: one_transaction_def sample_timeout_def)
  moreover have "one_transaction sample_payer" by (simp add: one_transaction_def sample_payer_def)
  ultimately show "\<forall>u \<in> set [sample_timeout, sample_payer, sample_timeout]. one_transaction u" by simp
qed

lemma sample_handled:
  assumes "m \<in> {''7'', ''8''}" "m \<notin> set (wa_attempted w)"
  shows "handleObligation any_date sample_payer True (JStr ''btc'') [sample_consent] (sample_row m) w
     = pay any_date sample_payer (JStr ''btc'') (sample_row m) sample_consent m w"
proof -
  have m: "obligation_match_index (sample_row m) = m" "m \<noteq> []"
    using assms(1) by (auto simp: obligation_match_index_def sample_row_def field_of_def js_coalesce_def)
  have status: "field_of (sample_row m) ''coinpay_status'' ''coinpayStatus'' = JStr ''pending_coinpay''"
    by (simp add: field_of_def sample_row_def js_coalesce_def)
  have found: "find_match sample_payer (JStr ''btc'') (sample_row m) m = sample_match m"
    using assms(1) by (auto simp: find_match_def sample_payer_def sample_row_def sample_match_def field_of_def js_coalesce_def js_Number_def)
  have linked: "find_consent [sample_consent] (sample_match m) = Some sample_consent"
    by (simp add: find_consent_def sample_consent_def sample_match_def)
  have fresh: "\<not> alreadyAttempted sample_payer w m"
    using assms(2) by (simp add: alreadyAttempted_def hasAttemptedCoinpay_def sample_payer_def)
  have tip: "su_tip sample_payer (JStr ''btc'') = JNum (Fin 12)" "su_now sample_payer = 0"
    "su_signer sample_payer (js_get sample_consent ''walletId'')" by (simp_all add: sample_payer_def)
  show ?thesis using sample_pays [OF m(2)]
    by (simp add: handleObligation_def Let_def m status found linked fresh tip)
qed

lemma sample_paid:
  assumes "m \<in> {''7'', ''8''}" "m \<notin> set (wa_attempted w)"
  shows "map (\<lambda>(p, out). (py_match p, py_amount p, out)) (payments (pay any_date sample_payer (JStr ''btc'') (sample_row m) sample_consent m w))
      = map (\<lambda>(p, out). (py_match p, py_amount p, out)) (payments w) @ [(m, ''80000000'', Paid m)]"
    and "wa_attempted (pay any_date sample_payer (JStr ''btc'') (sample_row m) sample_consent m w) = wa_attempted w @ [m]"
proof -
  have owed: "obligationBaseUnits (field_of (sample_row m) ''coin_amount'' ''coinAmount'') = Some 80000000"
    by (simp add: field_of_def sample_row_def js_coalesce_def sample_amounts)
  have source: "List.find (\<lambda>a. js_get a ''address'' = js_get sample_consent ''sourceAddress''
      \<and> su_chain_id sample_payer (js_get a ''chain'') (js_get a ''network'') = JStr ''btc'') (su_addresses sample_payer)
      = Some (JObj [(''address'', JStr ''me'')])"
    by (simp add: sample_payer_def sample_consent_def)
  have answers: "su_pay sample_payer m = Paid m" "\<not> su_ledger sample_payer" by (simp_all add: sample_payer_def)
  show "map (\<lambda>(p, out). (py_match p, py_amount p, out)) (payments (pay any_date sample_payer (JStr ''btc'') (sample_row m) sample_consent m w))
      = map (\<lambda>(p, out). (py_match p, py_amount p, out)) (payments w) @ [(m, ''80000000'', Paid m)]"
    "wa_attempted (pay any_date sample_payer (JStr ''btc'') (sample_row m) sample_consent m w) = wa_attempted w @ [m]"
    using assms(2) by (simp_all add: pay_def owed source answers Let_def quiet sample_text add_once_def)
qed

lemma cycle_overspends:
  "map (\<lambda>(p, out). (py_match p, py_amount p, out)) (payments (cycle any_date sample_payer (new_watcher [sample_consent] Null)))
     = [(''7'', ''80000000'', Paid ''7''), (''8'', ''80000000'', Paid ''8'')]"
  "obligationBaseUnits (js_get sample_consent ''giveCoinAmount'') = Some 100000000"
proof -
  let ?w = "restoreHolds sample_payer (restoreNotified sample_payer (new_watcher [sample_consent] Null))"
  have armed: "armed [sample_consent] = [sample_consent]"
    by (simp add: armed_def listAutopayOrders_def sample_consent_def)
  have orders: "wa_orders ?w = [sample_consent]" by (simp add: restoreHolds_def restoreNotified_def new_watcher_def sample_payer_def)
  have lease: "wa_lease ?w = Null" by (simp add: restoreHolds_def restoreNotified_def new_watcher_def sample_payer_def)
  have valid: "validateAutopayLease any_date (createAutopayLease ''now'' ''i'' ''desktop'') = []"
    by (simp add: validateAutopayLease_def createAutopayLease_def isNonEmptyString_def isIsoTimestamp_def any_date_def
        AUTOPAY_SHELL_KINDS_def)
  obtain w3 where got: "acquireOrRenewLease any_date sample_payer ?w = (w3, True)"
    using lease valid by (simp add: acquireOrRenewLease_def leaseState_def sample_payer_def Let_def)
  have w3: "payments w3 = []" "wa_attempted w3 = []"
    using lease_quiet [of any_date sample_payer ?w] got
    by (simp_all add: quiet) (simp_all add: payments_def new_watcher_def List.map_filter_def)
  have groups: "group_by (\<lambda>c. js_get c ''chainId'') [sample_consent] = [(JStr ''btc'', [sample_consent])]"
    "group_by (\<lambda>c. js_get c ''sourceAddress'') [sample_consent] = [(JStr ''me'', [sample_consent])]"
    by (simp_all add: group_by_def sample_consent_def)
  have payer: "field_of (sample_row m) ''payer_address'' ''payerAddress'' = JStr ''me''" for m
    by (simp add: field_of_def sample_row_def js_coalesce_def)
  have rows: "su_obligations sample_payer (JStr ''btc'') (JStr ''me'') = Some [sample_row ''7'', sample_row ''8'']"
    "su_consents sample_payer" "su_backfill sample_payer = None" by (simp_all add: sample_payer_def)
  show "map (\<lambda>(p, out). (py_match p, py_amount p, out)) (payments (cycle any_date sample_payer (new_watcher [sample_consent] Null)))
     = [(''7'', ''80000000'', Paid ''7''), (''8'', ''80000000'', Paid ''8'')]"
    by (simp add: cycle_def Let_def orders armed rows backfilled_def got groups cycleChain_def cycleAddress_def payer quiet
        sample_handled sample_paid w3)
  show "obligationBaseUnits (js_get sample_consent ''giveCoinAmount'') = Some 100000000"
    by (simp add: sample_consent_def sample_amounts)
qed

section \<open>Matches of different chains\<close>

text \<open>
  Holds, attempts and terminal matches are kept by match index alone, and a match index is a number of one
  chain's indexer. A settled obligation of one chain releases the hold of a payment under way on another.
\<close>

lemma other_chain_releases_hold:
  assumes "wa_holds w = [(m, reservationId, JStr ''btc'')]" "su_ledger u"
    and "obligation_match_index row = m" "m \<noteq> []" "field_of row ''coinpay_status'' ''coinpayStatus'' = JStr ''fulfilled''"
  shows "Release reservationId \<in> set (wa_log (releaseTerminalHolds u (handleObligation date_parse u isPayer (JStr ''ltc'') consents row w)))"
  using assms by (simp add: handleObligation_def Let_def releaseTerminalHolds_def releaseHold_def log_effect_def add_once_def)

theorem engine_pays_only_consented_witness:
  "\<exists>p. py_amount p = ''80000000'' \<and> paid_row any_date sample_payer (snd (backfilled any_date sample_payer (new_watcher [sample_consent] Null))) p"
proof -
  let ?w = "new_watcher [sample_consent] Null"
  have "payments ?w = []" by (simp add: payments_def new_watcher_def List.map_filter_def)
  moreover obtain p out where "(p, out) \<in> set (payments (cycle any_date sample_payer ?w))" "py_amount p = ''80000000''"
    using cycle_overspends(1) by (cases "payments (cycle any_date sample_payer ?w)") auto
  ultimately show ?thesis using engine_pays_only_consented [of p out ?w any_date sample_payer] by auto
qed

end
