(* ===== verification/Broadcast_Permanence.thy ===== *)
theory Broadcast_Permanence
  imports Wallet_Prelude
begin

text \<open>
  What a refused broadcast means: \<^verbatim>\<open>core/src/flows/broadcastPermanence.js\<close>. A refusal is permanent when
  the signed bytes can never confirm, transient when the same bytes may still be sent, and it may say that the
  node already holds them. The patterns are regular expressions over the reject text, which is collected from
  the error and from the errors nested in it.
\<close>

section \<open>Patterns\<close>

text \<open>
  The pieces the expressions are made of: a literal, white space, any character but a line break, and the two
  word boundaries. Every expression ignores case, so literals are lower case and the text is lowered first.
\<close>

datatype piece = Lit string | Spaces | Spaces1 | AnyChar | Word_edge

definition word_char :: "char \<Rightarrow> bool" where
  "word_char c \<longleftrightarrow> c \<in> set ''abcdefghijklmnopqrstuvwxyzABCDEFGHIJKLMNOPQRSTUVWXYZ0123456789_''"

definition at_edge :: "char option \<Rightarrow> string \<Rightarrow> bool" where
  "at_edge before s \<longleftrightarrow> (case before of None \<Rightarrow> False | Some c \<Rightarrow> word_char c) \<noteq> (case s of [] \<Rightarrow> False | c # _ \<Rightarrow> word_char c)"

definition last_char :: "char option \<Rightarrow> string \<Rightarrow> char option" where
  "last_char before s = (if s = [] then before else Some (last s))"

text \<open>
  A match of the pieces at the front of a text, knowing the character before it. White space is matched
  greedily: no piece after it in these expressions begins with white space.
\<close>

fun matches_at :: "piece list \<Rightarrow> char option \<Rightarrow> string \<Rightarrow> bool" where
  "matches_at [] before s = True"
| "matches_at (Lit l # ps) before s = (starts_with l s \<and> matches_at ps (last_char before l) (drop (length l) s))"
| "matches_at (Spaces # ps) before s =
     matches_at ps (last_char before (takeWhile js_space s)) (dropWhile js_space s)"
| "matches_at (Spaces1 # ps) before s =
     (s \<noteq> [] \<and> js_space (hd s) \<and> matches_at ps (last_char before (takeWhile js_space s)) (dropWhile js_space s))"
| "matches_at (AnyChar # ps) before s =
     (case s of [] \<Rightarrow> False | c # r \<Rightarrow> of_char c \<notin> {10, 13 :: nat} \<and> matches_at ps (Some c) r)"
| "matches_at (Word_edge # ps) before s = (at_edge before s \<and> matches_at ps before s)"

fun found_in :: "piece list \<Rightarrow> char option \<Rightarrow> string \<Rightarrow> bool" where
  "found_in ps before s = (matches_at ps before s \<or> (case s of [] \<Rightarrow> False | c # r \<Rightarrow> found_in ps (Some c) r))"

declare found_in.simps [simp del]

lemma found_in_Nil [simp]: "found_in ps b [] = matches_at ps b []"
  by (subst found_in.simps) simp

lemma found_in_Cons [simp]: "found_in ps b (c # r) = (matches_at ps b (c # r) \<or> found_in ps (Some c) r)"
  by (subst found_in.simps) simp

definition re_test :: "piece list \<Rightarrow> string \<Rightarrow> bool" where
  "re_test ps reason \<longleftrightarrow> found_in ps None (js_lower reason)"

text \<open>The position after the first occurrence of a needle, as the code finds it with two searches.\<close>

fun index_of :: "string \<Rightarrow> string \<Rightarrow> nat option" where
  "index_of needle s = (if starts_with needle s then Some 0
     else (case s of [] \<Rightarrow> None | _ # r \<Rightarrow> map_option Suc (index_of needle r)))"

fun occurs_after :: "bool \<Rightarrow> string \<Rightarrow> char option \<Rightarrow> string \<Rightarrow> bool" where
  "occurs_after starts_word needle before s =
     ((starts_with needle s \<and> \<not> (starts_word \<and> (case before of None \<Rightarrow> False | Some c \<Rightarrow> c \<in> set ''abcdefghijklmnopqrstuvwxyz'')))
      \<or> (case s of [] \<Rightarrow> False | c # r \<Rightarrow> occurs_after starts_word needle (Some c) r))"

definition orderedSubstringMatcher :: "string \<Rightarrow> string \<Rightarrow> bool \<Rightarrow> string \<Rightarrow> bool" where
  "orderedSubstringMatcher first second secondStartsWord reason =
     (let haystack = js_lower reason in
      case index_of (js_lower first) haystack of
        None \<Rightarrow> False
      | Some i \<Rightarrow> occurs_after secondStartsWord (js_lower second) (last_char None first) (drop (i + length first) haystack))"

definition SPEND_CONFLICT_PATTERNS :: "(string \<Rightarrow> bool) list" where
  "SPEND_CONFLICT_PATTERNS =
    [re_test [Lit ''missing'', Spaces, Lit ''or'', Spaces, Lit ''spent''],
     re_test [Lit ''missingorspent''],
     re_test [Lit ''bad-txns-inputs-missingorspent''],
     re_test [Lit ''bad-txns-inputs-spent''],
     re_test [Lit ''bad-txns-spends-conflicting-tx''],
     re_test [Lit ''missing'', Spaces1, Lit ''inputs''],
     re_test [Lit ''already'', Spaces1, Lit ''spent''],
     re_test [Lit ''txn-mempool-conflict''],
     re_test [Lit ''rejecting'', Spaces1, Lit ''replacement''],
     orderedSubstringMatcher ''insufficient fee'' ''replacement'' False,
     re_test [Lit ''replacement-adds-unconfirmed''],
     re_test [Lit ''too'', Spaces1, Lit ''many'', Spaces1, Lit ''potential'', Spaces1, Lit ''replacements'']]"

text \<open>The expression for a transaction in the block chain has an optional word, so it is two.\<close>

definition in_block_chain :: "(string \<Rightarrow> bool) list" where
  "in_block_chain =
    [re_test [Lit ''already'', Spaces1, Lit ''in'', Spaces1, Lit ''the'', Spaces1, Lit ''block'', Spaces, Lit ''chain''],
     re_test [Lit ''already'', Spaces1, Lit ''in'', Spaces1, Lit ''block'', Spaces, Lit ''chain'']]"

definition PERMANENT_PATTERNS :: "(string \<Rightarrow> bool) list" where
  "PERMANENT_PATTERNS = SPEND_CONFLICT_PATTERNS
    @ [re_test [Lit ''txn-already-known''], re_test [Lit ''txn-already-in-mempool'']]
    @ in_block_chain
    @ [orderedSubstringMatcher ''conflict'' ''confirmed'' True,
       re_test [Word_edge, Lit ''dust'', Word_edge],
       re_test [Lit ''script-verify-flag'']]"

definition TRANSIENT_PATTERNS :: "(string \<Rightarrow> bool) list" where
  "TRANSIENT_PATTERNS =
    [re_test [Lit ''econnrefused''], re_test [Lit ''econnreset''], re_test [Lit ''etimedout''], re_test [Lit ''enotfound''],
     re_test [Lit ''timeout''], re_test [Lit ''timed out''], re_test [Lit ''network''], re_test [Lit ''socket hang up''],
     re_test [Lit ''too-long-mempool-chain''], orderedSubstringMatcher ''mempool'' ''full'' False, re_test [Lit ''mempool min fee''],
     re_test [Lit ''min relay fee''], re_test [Lit ''insufficient priority''],
     re_test [Lit ''ratelimit''], re_test [Lit ''rate'', AnyChar, Lit ''limit''],
     re_test [Lit ''502''], re_test [Lit ''503''], re_test [Lit ''504'']]"

section \<open>The reject text\<close>

text \<open>
  The errors nested in an error, breadth first: its cause and the reply of a node. At most sixteen objects are
  visited; a value that is not an object is text.
\<close>

definition nested_errors :: "js \<Rightarrow> js list" where
  "nested_errors v = List.filter (\<lambda>w. \<not> is_nullish w)
     [js_get v ''cause'', js_get (js_get (js_get v ''response'') ''data'') ''error'']"

definition is_object_value :: "js \<Rightarrow> bool" where
  "is_object_value v \<longleftrightarrow> (case v of JObj _ \<Rightarrow> True | JArr _ \<Rightarrow> True | _ \<Rightarrow> False)"

function error_values :: "nat \<Rightarrow> js list \<Rightarrow> js list" where
  "error_values seen [] = []"
| "error_values seen (v # pending) =
     (if seen \<ge> 16 then []
      else if is_nullish v then error_values seen pending
      else if \<not> is_object_value v then v # error_values seen pending
      else v # error_values (Suc seen) (pending @ nested_errors v))"
  by pat_completeness auto

termination
  by (relation "measures [\<lambda>(seen, pending). 16 - seen, \<lambda>(seen, pending). length pending]") auto

definition error_parts :: "js \<Rightarrow> string list" where
  "error_parts v = (if is_object_value v
     then map js_text (List.filter (\<lambda>w. \<not> is_nullish w) (map (js_get v) [''rejectReason'', ''code'', ''message'']))
     else [js_text v])"

fun joined :: "string list \<Rightarrow> string" where
  "joined [] = []"
| "joined [s] = s"
| "joined (s # t # ss) = s @ '' '' @ joined (t # ss)"

definition extractReason :: "js \<Rightarrow> string" where
  "extractReason err = joined (concat (map error_parts (error_values 0 [err])))"

definition isAlreadyOnNetworkPayload :: "js \<Rightarrow> bool" where
  "isAlreadyOnNetworkPayload payload \<longleftrightarrow> is_object_value payload
     \<and> (js_get payload ''reason'' = JStr ''TX_ALREADY_IN_CHAIN'' \<or> js_get payload ''node_code'' = JNum (Fin (- 27)))"

definition hasAlreadyOnNetworkDetails :: "js \<Rightarrow> bool" where
  "hasAlreadyOnNetworkDetails err \<longleftrightarrow> list_ex (\<lambda>v. is_object_value v
     \<and> (isAlreadyOnNetworkPayload (js_get v ''data'')
        \<or> isAlreadyOnNetworkPayload (js_get (js_get v ''details'') ''context'')
        \<or> isAlreadyOnNetworkPayload (js_get (js_get (js_get v ''details'') ''rpcError'') ''data'')))
     (error_values 0 [err])"

section \<open>The verdict\<close>

datatype permanence = Permanent | Transient

definition classifyBroadcastFailure :: "js \<Rightarrow> permanence" where
  "classifyBroadcastFailure err =
     (let reason = extractReason err in
      if list_ex (\<lambda>re. re reason) PERMANENT_PATTERNS then Permanent
      else if list_ex (\<lambda>re. re reason) TRANSIENT_PATTERNS then Transient
      else Transient)"

definition isSpendConflictRejection :: "js \<Rightarrow> bool" where
  "isSpendConflictRejection err \<longleftrightarrow> list_ex (\<lambda>re. re (extractReason err)) SPEND_CONFLICT_PATTERNS"

definition isAlreadyOnNetworkRejection :: "js \<Rightarrow> bool" where
  "isAlreadyOnNetworkRejection err \<longleftrightarrow> hasAlreadyOnNetworkDetails err
     \<or> re_test [Lit ''txn-already-known''] (extractReason err) \<or> re_test [Lit ''txn-already-in-mempool''] (extractReason err)
     \<or> list_ex (\<lambda>re. re (extractReason err)) in_block_chain"

definition broadcastFailureKindFromError :: "js \<Rightarrow> permanence option" where
  "broadcastFailureKindFromError err =
     (let name = js_get err ''name'' in
      if name = JStr ''BroadcastFailedPermanentError'' then Some Permanent
      else if name = JStr ''BroadcastFailedTransientError'' \<or> name = JStr ''BroadcastFailedTransientUnsavedError'' then Some Transient
      else None)"

section \<open>What the verdict guarantees\<close>

text \<open>A pattern is found in a text when it matches after some prefix of it; a plain literal, when the text contains it.\<close>

definition contains :: "string \<Rightarrow> string \<Rightarrow> bool" where
  "contains l s \<longleftrightarrow> (\<exists>u v. s = u @ l @ v)"

lemma containsI: "contains l (u @ l @ v)"
  by (auto simp: contains_def)

lemma contains_append: "contains l s \<Longrightarrow> contains l (u @ s @ v)"
  by (auto simp: contains_def) (metis append.assoc)

lemma split_Cons_ex: "(\<exists>u v. c # r = u @ v \<and> P u v) \<longleftrightarrow> P [] (c # r) \<or> (\<exists>u v. r = u @ v \<and> P (c # u) v)"
  by (simp only: Cons_eq_append_conv) blast

lemma last_char_simps [simp]: "last_char b [] = b" "last_char b (c # u) = last_char (Some c) u"
  by (simp_all add: last_char_def)

lemma found_in_iff: "found_in ps b s \<longleftrightarrow> (\<exists>u v. s = u @ v \<and> matches_at ps (last_char b u) v)"
proof (induction s arbitrary: b)
  case (Cons c r)
  show ?case by (simp only: split_Cons_ex found_in_Cons last_char_simps Cons.IH)
qed simp

lemma re_test_Lit: "re_test [Lit l] s \<longleftrightarrow> contains l (js_lower s)"
proof -
  have "starts_with l v \<longleftrightarrow> (\<exists>w. v = l @ w)" for v
    by (auto simp: starts_with_def) (metis append_take_drop_id)
  then show ?thesis unfolding re_test_def found_in_iff contains_def by (auto 0 3)
qed

lemma joined_contains: "p \<in> set ps \<Longrightarrow> contains p (joined ps)"
proof (induction ps rule: joined.induct)
  case (3 s t ss)
  show ?case
  proof (cases "p = s")
    case True
    then show ?thesis using containsI [of p "[]"] by simp
  next
    case False
    with 3 have "contains p (joined (t # ss))" by auto
    then show ?thesis using contains_append [of p _ "s @ '' ''" "[]"] by simp
  qed
qed (use containsI [of p "[]" "[]"] in auto)

lemma contains_lower: "contains p s \<Longrightarrow> contains (js_lower p) (js_lower s)"
  unfolding contains_def js_lower_def by (metis map_append)

lemma contains_trans: "contains l p \<Longrightarrow> contains p s \<Longrightarrow> contains l s"
  unfolding contains_def by (metis append.assoc)

text \<open>Every text of every error the walk visits is part of the reject text, whatever its case.\<close>

lemma visited_text:
  assumes "v \<in> set (error_values 0 [err])" and "t \<in> set (error_parts v)" and "contains l (js_lower t)"
  shows "re_test [Lit l] (extractReason err)"
proof -
  have "t \<in> set (concat (map error_parts (error_values 0 [err])))" using assms(1,2) by auto
  then have "contains t (extractReason err)" unfolding extractReason_def by (rule joined_contains)
  then show ?thesis using assms(3) by (auto simp: re_test_Lit intro: contains_lower contains_trans)
qed

text \<open>The walk reaches everything it has queued while fewer than sixteen objects are seen.\<close>

lemma error_values_reach: "w \<in> set pending \<Longrightarrow> \<not> is_nullish w \<Longrightarrow> seen + length pending \<le> 16 \<Longrightarrow> w \<in> set (error_values seen pending)"
proof (induction seen pending rule: error_values.induct)
  case (2 seen v pending)
  show ?case
  proof (cases "w = v")
    case True
    then show ?thesis using 2 by auto
  next
    case False
    have "w \<in> set (error_values (Suc seen) (pending @ nested_errors v))"
      if "is_object_value v" "\<not> is_nullish v"
    proof -
      have "w \<in> set (error_values n (pending @ qs))" if "w \<in> set pending" "n + length pending \<le> 16" for n qs
        using that \<open>\<not> is_nullish w\<close>
      proof (induction n "pending @ qs" arbitrary: pending qs rule: error_values.induct)
        case (2 n x rest)
        then show ?case
          by (cases pending) (auto simp: Suc_le_eq)
      qed simp
      then show ?thesis using False 2 by auto
    qed
    then show ?thesis using 2 False by auto
  qed
qed simp

lemma visited_self: "\<not> is_nullish err \<Longrightarrow> err \<in> set (error_values 0 [err])"
  by (rule error_values_reach) auto

definition permanent_literals :: "string list" where
  "permanent_literals =
    [''missingorspent'', ''bad-txns-inputs-missingorspent'', ''bad-txns-inputs-spent'', ''bad-txns-spends-conflicting-tx'',
     ''txn-mempool-conflict'', ''replacement-adds-unconfirmed'', ''txn-already-known'', ''txn-already-in-mempool'',
     ''script-verify-flag'']"

lemma permanent_literals_listed: "l \<in> set permanent_literals \<Longrightarrow> re_test [Lit l] \<in> set PERMANENT_PATTERNS"
  unfolding permanent_literals_def PERMANENT_PATTERNS_def SPEND_CONFLICT_PATTERNS_def by auto

lemma permanent_pattern: "re \<in> set PERMANENT_PATTERNS \<Longrightarrow> re (extractReason err) \<Longrightarrow> classifyBroadcastFailure err = Permanent"
  by (auto simp: classifyBroadcastFailure_def Let_def list_ex_iff)

text \<open>A refusal that says in words that the node holds the bytes is also permanent: the two are told apart only by asking first.\<close>

lemma known_text_is_permanent:
  "isAlreadyOnNetworkRejection err \<Longrightarrow> \<not> hasAlreadyOnNetworkDetails err \<Longrightarrow> classifyBroadcastFailure err = Permanent"
  unfolding isAlreadyOnNetworkRejection_def list_ex_iff
  by (elim disjE bexE) (auto intro: permanent_pattern simp: PERMANENT_PATTERNS_def)

lemma spend_conflict_is_permanent: "isSpendConflictRejection err \<Longrightarrow> classifyBroadcastFailure err = Permanent"
  by (auto simp: isSpendConflictRejection_def list_ex_iff PERMANENT_PATTERNS_def intro!: permanent_pattern)

end
