(* ===== verification/Queued_Broadcast.thy ===== *)
theory Queued_Broadcast
  imports Broadcast_Permanence Native_Payment
begin

text \<open>
  Signed transactions that wait to be sent: \<^verbatim>\<open>core/src/flows/queuedBroadcast.js\<close>, with the reveal a
  record still owes from \<^verbatim>\<open>core/src/schemas/pendingTx.js\<close>. A record is a map from its fields; the
  order of its keys is not observed. What the vault, the freeze, the registry and the network answer are
  arguments, the answers to calls of one kind numbered in their order; the writes and sends a drain makes are its log.
\<close>

section \<open>Records\<close>

type_synonym fields = "string \<rightharpoonup> js"

definition fld :: "fields \<Rightarrow> string \<Rightarrow> js" where
  "fld r k = (case r k of None \<Rightarrow> Undef | Some v \<Rightarrow> v)"

lemma fld_upd [simp]: "fld (r(k \<mapsto> v)) j = (if j = k then v else fld r j)"
  by (simp add: fld_def)

definition filled_text :: "js \<Rightarrow> string option" where
  "filled_text v = (case v of JStr s \<Rightarrow> if s = [] then None else Some s | _ \<Rightarrow> None)"

record queued_reveal =
  qr_hex :: string
  qr_txid :: "string option"

definition queuedRevealOf :: "fields \<Rightarrow> queued_reveal option" where
  "queuedRevealOf r =
     (if fld r ''commitLanded'' = JBool True then None
      else map_option (\<lambda>hex. \<lparr> qr_hex = hex, qr_txid = filled_text (fld r ''revealTxid'') \<rparr>)
             (filled_text (fld r ''revealTxHex'')))"

definition still_queued :: "fields \<Rightarrow> bool" where
  "still_queued r \<longleftrightarrow> fld r ''status'' \<in> {JStr ''queued'', JStr ''broadcasting''}"

text \<open>The record of a commit that is on the network, retired under the commit's id.\<close>

definition commitLandedRecord :: "string \<Rightarrow> fields \<Rightarrow> string \<Rightarrow> fields" where
  "commitLandedRecord stamp existing err = existing(
     ''status'' \<mapsto> JStr ''broadcast'',
     ''broadcastAt'' \<mapsto> js_coalesce (fld existing ''broadcastAt'') (JStr stamp),
     ''txid'' \<mapsto> js_coalesce (fld existing ''commitTxid'') (fld existing ''txid''),
     ''error'' \<mapsto> JStr err)"

section \<open>Queueing and listing\<close>

datatype enqueue_error = Hex_required | Id_missing | No_record | Vault_failed js

text \<open>
  The flow is given the record the schema creates for a new transaction, and the vault's answers to the read and
  the write; it returns the record it wrote.
\<close>

definition enqueueSignedTx ::
  "fields \<Rightarrow> js \<Rightarrow> js \<Rightarrow> string \<Rightarrow> (js + fields option) \<Rightarrow> js option \<Rightarrow> enqueue_error + fields" where
  "enqueueSignedTx created txHex psbtHex existingId read put =
     (case filled_text txHex of None \<Rightarrow> Inl Hex_required
      | Some hex \<Rightarrow>
          (let record = (if existingId = [] then Inr (created(''status'' \<mapsto> JStr ''queued'', ''txHex'' \<mapsto> JStr hex))
             else (case read of Inl e \<Rightarrow> Inl (Vault_failed e) | Inr None \<Rightarrow> Inl No_record
               | Inr (Some existing) \<Rightarrow> Inr (existing(''status'' \<mapsto> JStr ''queued'', ''txHex'' \<mapsto> JStr hex,
                   ''psbtHex'' \<mapsto> js_or (fld existing ''psbtHex'') psbtHex, ''error'' \<mapsto> Null))))
           in case record of Inl e \<Rightarrow> Inl e
              | Inr r \<Rightarrow> (case put of Some e \<Rightarrow> Inl (Vault_failed e) | None \<Rightarrow> Inr r)))"

definition listQueuedBroadcasts :: "fields list \<Rightarrow> string \<Rightarrow> js option \<Rightarrow> fields list" where
  "listQueuedBroadcasts rows chainId descriptor =
     (let queued = List.filter (\<lambda>r. fld r ''status'' = JStr ''queued'') rows in
      if chainId = [] then queued
      else (case descriptor of
          None \<Rightarrow> List.filter (\<lambda>r. fld r ''chain'' = JStr chainId) queued
        | Some d \<Rightarrow> List.filter (\<lambda>r. fld r ''chain'' = js_get d ''coin'' \<and> fld r ''network'' = js_get d ''networkKind'') queued))"

section \<open>Draining one record\<close>

record drain_answers =
  qa_claimed :: bool
  qa_read :: "js + fields option"
  qa_frozen :: "nat \<Rightarrow> js option"
  qa_chain :: "js \<Rightarrow> js \<Rightarrow> string option"
  qa_descriptor :: "string \<Rightarrow> js"
  qa_sdk :: "string \<Rightarrow> js option"
  qa_now :: rat
  qa_stamp :: string
  qa_put :: "nat \<Rightarrow> js option"
  qa_send :: "nat \<Rightarrow> js option"
  qa_reread :: "js + fields option"

datatype drain_effect = Put fields "js option" | Send js "js option"

datatype drain_error =
  Id_required | In_flight | No_queued_tx | Not_queued js | No_tx_hex | Frozen js | No_chain | Prelaunch string
  | No_sdk js | Vault_error js

record drained =
  dn_record :: "fields option"
  dn_broadcast :: bool
  dn_error :: "string option"
  dn_permanence :: "permanence option"
  dn_already :: bool

type_synonym drain_end = "drain_effect list \<times> (drain_error + drained)"

definition error_message :: "js \<Rightarrow> string" where
  "error_message err = js_text (if js_truthy err \<and> js_truthy (js_get err ''message'') then js_get err ''message'' else err)"

definition after :: "drain_effect list \<Rightarrow> drain_end \<Rightarrow> drain_end" where
  "after es r = (es @ fst r, snd r)"

definition drain_failure_record :: "string \<Rightarrow> fields \<Rightarrow> js \<Rightarrow> fields" where
  "drain_failure_record stamp r err =
     (if classifyBroadcastFailure err = Permanent \<and> fld r ''commitLanded'' = JBool True
      then commitLandedRecord stamp r (error_message err)
      else r(''status'' \<mapsto> JStr (if classifyBroadcastFailure err = Permanent then ''failed'' else ''queued''),
             ''error'' \<mapsto> JStr (error_message err)))"

text \<open>The argument counts the writes made so far.\<close>

definition settleDrainFailure :: "drain_answers \<Rightarrow> nat \<Rightarrow> fields \<Rightarrow> js \<Rightarrow> drain_end" where
  "settleDrainFailure a writes r err =
     (let settled = drain_failure_record (qa_stamp a) r err; put = qa_put a writes in
      ([Put settled put],
       case put of Some e \<Rightarrow> Inl (Vault_error e)
       | None \<Rightarrow> (case qa_reread a of Inl e \<Rightarrow> Inl (Vault_error e)
           | Inr refreshed \<Rightarrow> Inr \<lparr> dn_record = refreshed, dn_broadcast = False, dn_error = Some (error_message err),
               dn_permanence = Some (classifyBroadcastFailure err), dn_already = False \<rparr>)))"

definition delivered_record :: "string \<Rightarrow> fields \<Rightarrow> fields" where
  "delivered_record stamp r = r(''status'' \<mapsto> JStr ''broadcast'', ''broadcastAt'' \<mapsto> JStr stamp, ''error'' \<mapsto> Null)"

definition settle_delivered :: "drain_answers \<Rightarrow> nat \<Rightarrow> fields \<Rightarrow> bool \<Rightarrow> drain_end" where
  "settle_delivered a writes r already =
     (let d = delivered_record (qa_stamp a) r; put = qa_put a writes in
      ([Put d put],
       case put of Some e \<Rightarrow> Inl (Vault_error e)
       | None \<Rightarrow> Inr \<lparr> dn_record = Some d, dn_broadcast = True, dn_error = None, dn_permanence = None, dn_already = already \<rparr>))"

definition drain_last :: "drain_answers \<Rightarrow> nat \<Rightarrow> nat \<Rightarrow> fields \<Rightarrow> drain_end" where
  "drain_last a writes sends r =
     after [Send (fld r ''txHex'') (qa_send a sends)]
       (case qa_send a sends of
          None \<Rightarrow> settle_delivered a writes r False
        | Some err \<Rightarrow> if isAlreadyOnNetworkRejection err then settle_delivered a writes r True
                      else settleDrainFailure a writes r err)"

definition reveal_record :: "fields \<Rightarrow> queued_reveal \<Rightarrow> fields" where
  "reveal_record existing rv = existing(
     ''status'' \<mapsto> JStr ''broadcasting'', ''error'' \<mapsto> Null,
     ''txid'' \<mapsto> (case qr_txid rv of Some t \<Rightarrow> JStr t | None \<Rightarrow> fld existing ''txid''),
     ''txHex'' \<mapsto> JStr (qr_hex rv), ''commitLanded'' \<mapsto> JBool True,
     ''commitTxid'' \<mapsto> js_coalesce (fld existing ''txid'') Null)"

text \<open>The commit first, then the reveal; a refused write of the reveal record does not stop the reveal.\<close>

definition drain_send :: "drain_answers \<Rightarrow> fields \<Rightarrow> drain_end" where
  "drain_send a existing =
     (case queuedRevealOf existing of
        None \<Rightarrow> drain_last a 1 0 existing
      | Some rv \<Rightarrow>
          (case qa_send a 0 of
             Some err \<Rightarrow>
               if \<not> isAlreadyOnNetworkRejection err
               then after [Send (fld existing ''txHex'') (Some err)] (settleDrainFailure a 1 existing err)
               else after [Send (fld existing ''txHex'') (Some err), Put (reveal_record existing rv) (qa_put a 1)]
                      (drain_last a 2 1 (reveal_record existing rv))
           | None \<Rightarrow> after [Send (fld existing ''txHex'') None, Put (reveal_record existing rv) (qa_put a 1)]
                      (drain_last a 2 1 (reveal_record existing rv))))"

definition claimed_record :: "fields \<Rightarrow> fields" where
  "claimed_record existing = existing(''status'' \<mapsto> JStr ''broadcasting'', ''error'' \<mapsto> Null)"

definition drain_claimed :: "drain_answers \<Rightarrow> fields \<Rightarrow> drain_end" where
  "drain_claimed a existing =
     after [Put (claimed_record existing) (qa_put a 0)]
       (case qa_put a 0 of
          Some e \<Rightarrow> ([], Inl (Vault_error e))
        | None \<Rightarrow> (case qa_frozen a 1 of
            Some e \<Rightarrow> ([Put existing (qa_put a 1)], Inl (case qa_put a 1 of Some e' \<Rightarrow> Vault_error e' | None \<Rightarrow> Frozen e))
          | None \<Rightarrow> drain_send a existing))"

definition drainQueuedBroadcast :: "drain_answers \<Rightarrow> string \<Rightarrow> drain_end" where
  "drainQueuedBroadcast a pendingTxId =
     (if pendingTxId = [] then ([], Inl Id_required)
      else if qa_claimed a then ([], Inl In_flight)
      else (case qa_read a of
          Inl e \<Rightarrow> ([], Inl (Vault_error e))
        | Inr None \<Rightarrow> ([], Inl No_queued_tx)
        | Inr (Some existing) \<Rightarrow>
            if \<not> still_queued existing then ([], Inl (Not_queued (fld existing ''status'')))
            else if \<not> js_truthy (fld existing ''txHex'') then ([], Inl No_tx_hex)
            else (case qa_frozen a 0 of Some e \<Rightarrow> ([], Inl (Frozen e)) | None \<Rightarrow>
             (case qa_chain a (fld existing ''chain'') (fld existing ''network'') of None \<Rightarrow> ([], Inl No_chain) | Some chainId \<Rightarrow>
               if chainId = [] then ([], Inl No_chain)
               else (case assertMainnetActionAllowed chainId
                   (JObj [(''action'', fld existing ''action''), (''params'', fld existing ''params'')])
                   (qa_descriptor a chainId) (qa_now a) of
                 Some c \<Rightarrow> ([], Inl (Prelaunch c))
               | None \<Rightarrow> (case qa_sdk a chainId of Some e \<Rightarrow> ([], Inl (No_sdk e))
                   | None \<Rightarrow> drain_claimed a existing))))))"

section \<open>Discarding\<close>

datatype discarded = Kept | Retired fields | Deleted

text \<open>What a discard decides for a record it read; the vault's answer to the write or the delete follows.\<close>

definition discard_decision :: "string \<Rightarrow> bool \<Rightarrow> fields option \<Rightarrow> discarded" where
  "discard_decision stamp inFlight read = (case read of
     None \<Rightarrow> Kept
   | Some existing \<Rightarrow>
       if \<not> still_queued existing then Kept
       else if inFlight then Kept
       else if fld existing ''commitLanded'' = JBool True
         then Retired (commitLandedRecord stamp existing ''reveal discarded; its commit is already on the network'')
       else Deleted)"

definition discardQueuedBroadcast :: "string \<Rightarrow> bool \<Rightarrow> string \<Rightarrow> (js + fields option) \<Rightarrow> js option \<Rightarrow> enqueue_error + discarded" where
  "discardQueuedBroadcast stamp inFlight pendingTxId read write_answer =
     (if pendingTxId = [] then Inl Id_missing
      else (case read of Inl e \<Rightarrow> Inl (Vault_failed e)
        | Inr r \<Rightarrow> (let d = discard_decision stamp inFlight r in
            if d = Kept then Inr Kept
            else (case write_answer of Some e \<Rightarrow> Inl (Vault_failed e) | None \<Rightarrow> Inr d))))"

section \<open>What a drain leaves behind\<close>

text \<open>
  The record the vault holds after a log, the bytes a record owes to the network (the transaction it names, and
  its reveal while that is due), and whether a reply means that the network has the bytes.
\<close>

definition apply_effect :: "fields \<Rightarrow> drain_effect \<Rightarrow> fields" where
  "apply_effect r e = (case e of Put r' None \<Rightarrow> r' | _ \<Rightarrow> r)"

definition stored :: "fields \<Rightarrow> drain_effect list \<Rightarrow> fields" where
  "stored r es = foldl apply_effect r es"

definition owes :: "fields \<Rightarrow> js \<Rightarrow> bool" where
  "owes r h \<longleftrightarrow> h = fld r ''txHex'' \<or> (case queuedRevealOf r of None \<Rightarrow> False | Some rv \<Rightarrow> h = JStr (qr_hex rv))"

definition delivered :: "js option \<Rightarrow> bool" where
  "delivered reply = (case reply of None \<Rightarrow> True | Some err \<Rightarrow> isAlreadyOnNetworkRejection err)"

definition is_send :: "drain_effect \<Rightarrow> bool" where
  "is_send e = (case e of Send _ _ \<Rightarrow> True | _ \<Rightarrow> False)"

definition landed :: "drain_effect \<Rightarrow> bool" where
  "landed e = (case e of Send _ reply \<Rightarrow> delivered reply | _ \<Rightarrow> False)"

lemma effect_simps [simp]:
  "apply_effect r (Put r' None) = r'" "apply_effect r (Put r' (Some e)) = r" "apply_effect r (Send h x) = r"
  "is_send (Send h x)" "\<not> is_send (Put r' y)" "landed (Send h x) = delivered x" "\<not> landed (Put r' y)"
  "delivered None" "delivered (Some err) = isAlreadyOnNetworkRejection err"
  by (simp_all add: apply_effect_def is_send_def landed_def delivered_def)

lemma stored_simps [simp]: "stored r [] = r" "stored r (e # es) = stored (apply_effect r e) es"
  by (simp_all add: stored_def)

lemma stored_append [simp]: "stored r (es @ fs) = stored (stored r es) fs"
  by (simp add: stored_def)

lemma after_simps [simp]: "fst (after es r) = es @ fst r" "snd (after es r) = snd r"
  by (simp_all add: after_def)

text \<open>A log whose every send finds a claimed record that owes the bytes, and no send after one that did not land.\<close>

fun log_ok :: "fields \<Rightarrow> drain_effect list \<Rightarrow> bool" where
  "log_ok r [] = True"
| "log_ok r (e # es) = ((case e of
      Send h reply \<Rightarrow> fld r ''status'' = JStr ''broadcasting'' \<and> owes r h \<and> (delivered reply \<or> \<not> list_ex is_send es)
    | Put _ _ \<Rightarrow> True) \<and> log_ok (apply_effect r e) es)"

lemma log_ok_split:
  "log_ok r (pre @ Send h reply # post) \<Longrightarrow>
   fld (stored r pre) ''status'' = JStr ''broadcasting'' \<and> owes (stored r pre) h \<and> (\<forall>e \<in> set pre. is_send e \<longrightarrow> landed e)"
  by (induction r pre rule: log_ok.induct) (auto split: drain_effect.splits)

lemma no_more_sends [simp]:
  "\<not> list_ex is_send (fst (settleDrainFailure a k r err))" "\<not> list_ex is_send (fst (settle_delivered a k r b))"
  by (simp_all add: settleDrainFailure_def settle_delivered_def Let_def)

lemma puts_log_ok: "\<not> list_ex is_send es \<Longrightarrow> log_ok r es"
  by (induction es arbitrary: r) (auto split: drain_effect.splits)

lemma drain_last_log:
  "fld s ''status'' = JStr ''broadcasting'' \<Longrightarrow> owes s (fld r ''txHex'') \<Longrightarrow> log_ok s (fst (drain_last a k n r))"
  by (auto simp: drain_last_def puts_log_ok split: option.splits)

lemma queuedRevealOf_cong:
  "fld r ''commitLanded'' = fld s ''commitLanded'' \<Longrightarrow> fld r ''revealTxid'' = fld s ''revealTxid''
   \<Longrightarrow> fld r ''revealTxHex'' = fld s ''revealTxHex'' \<Longrightarrow> queuedRevealOf r = queuedRevealOf s"
  by (simp add: queuedRevealOf_def)

lemma claimed_owes [simp]: "owes (claimed_record r) h = owes r h" "fld (claimed_record r) ''status'' = JStr ''broadcasting''"
  using queuedRevealOf_cong [of "claimed_record r" r] by (simp_all add: owes_def claimed_record_def)

lemma reveal_record_fields [simp]:
  "fld (reveal_record r rv) ''status'' = JStr ''broadcasting''" "fld (reveal_record r rv) ''txHex'' = JStr (qr_hex rv)"
  "fld (reveal_record r rv) ''commitLanded'' = JBool True"
  by (simp_all add: reveal_record_def)

lemma owes_txHex [simp]: "owes r (fld r ''txHex'')"
  by (simp add: owes_def)

lemma reveal_owes [simp]: "owes (reveal_record r rv) (JStr (qr_hex rv))"
  using owes_txHex [of "reveal_record r rv"] by simp

lemma drain_send_log: "log_ok (claimed_record r) (fst (drain_send a r))"
proof (cases "queuedRevealOf r")
  case None
  then show ?thesis by (simp add: drain_send_def drain_last_log)
next
  case (Some rv)
  have o: "owes r (JStr (qr_hex rv))" by (simp add: owes_def Some)
  have reveal: "log_ok (apply_effect (claimed_record r) (Put (reveal_record r rv) p)) (fst (drain_last a 2 1 (reveal_record r rv)))" for p
    by (cases p) (auto intro!: drain_last_log simp: o)
  then show ?thesis
    by (auto simp: drain_send_def Some puts_log_ok split: option.splits)
qed

lemma drain_log:
  assumes "qa_read a = Inr (Some r)"
  shows "log_ok r (fst (drainQueuedBroadcast a i))"
  using assms drain_send_log [of r a]
  by (simp add: drainQueuedBroadcast_def drain_claimed_def split: option.splits)

fun sent_bytes :: "drain_effect list \<Rightarrow> js list" where
  "sent_bytes [] = []"
| "sent_bytes (Send h reply # es) = h # sent_bytes es"
| "sent_bytes (Put r p # es) = sent_bytes es"

text \<open>What a record sends when nothing is refused: its transaction, then its reveal.\<close>

definition bytes_due :: "fields \<Rightarrow> js list" where
  "bytes_due r = fld r ''txHex'' # (case queuedRevealOf r of None \<Rightarrow> [] | Some rv \<Rightarrow> [JStr (qr_hex rv)])"

lemma sent_bytes_settled [simp]:
  "sent_bytes (fst (settleDrainFailure a k r err)) = []" "sent_bytes (fst (settle_delivered a k r b)) = []"
  by (simp_all add: settleDrainFailure_def settle_delivered_def Let_def)

lemma sent_bytes_last [simp]: "sent_bytes (fst (drain_last a k n r)) = [fld r ''txHex'']"
  by (auto simp: drain_last_def split: option.splits)

lemma drain_send_bytes: "\<exists>n. sent_bytes (fst (drain_send a r)) = take n (bytes_due r)"
proof (cases "queuedRevealOf r")
  case None
  then show ?thesis by (intro exI [of _ 1]) (simp add: drain_send_def bytes_due_def)
next
  case (Some rv)
  have "sent_bytes (fst (drain_send a r)) \<in> {take 1 (bytes_due r), take 2 (bytes_due r)}"
    by (auto simp: drain_send_def bytes_due_def Some split: option.splits)
  then show ?thesis by blast
qed

lemma drain_bytes:
  assumes "qa_read a = Inr (Some r)"
  shows "\<exists>n. sent_bytes (fst (drainQueuedBroadcast a i)) = take n (bytes_due r)"
proof -
  have "sent_bytes (fst (drainQueuedBroadcast a i)) \<in> {[], sent_bytes (fst (drain_send a r))}"
    using assms by (simp add: drainQueuedBroadcast_def drain_claimed_def split: option.splits)
  then show ?thesis using drain_send_bytes [of a r] by (metis empty_iff insert_iff take0)
qed

text \<open>A record with its reveal, drained on a network that takes both.\<close>

definition sample_record :: fields where
  "sample_record = [''status'' \<mapsto> JStr ''queued'', ''txHex'' \<mapsto> JStr ''c0'', ''revealTxHex'' \<mapsto> JStr ''ee'',
     ''txid'' \<mapsto> JStr ''commit'', ''revealTxid'' \<mapsto> JStr ''reveal'']"

definition sample_drain :: drain_answers where
  "sample_drain = \<lparr> qa_claimed = False, qa_read = Inr (Some sample_record), qa_frozen = (\<lambda>_. None),
     qa_chain = (\<lambda>_ _. Some ''bitcoin-regtest''), qa_descriptor = (\<lambda>_. Undef), qa_sdk = (\<lambda>_. None), qa_now = 0,
     qa_stamp = ''2026-01-01'', qa_put = (\<lambda>_. None), qa_send = (\<lambda>_. None), qa_reread = Inr None \<rparr>"

abbreviation sample_reveal :: queued_reveal where
  "sample_reveal \<equiv> \<lparr> qr_hex = ''ee'', qr_txid = Some ''reveal'' \<rparr>"

lemma sample_owes: "queuedRevealOf sample_record = Some sample_reveal"
  by (simp add: queuedRevealOf_def sample_record_def fld_def filled_text_def)

lemma sample_drain_run:
  "drainQueuedBroadcast sample_drain ''p'' =
    ([Put (claimed_record sample_record) None, Send (JStr ''c0'') None, Put (reveal_record sample_record sample_reveal) None,
      Send (JStr ''ee'') None, Put (delivered_record ''2026-01-01'' (reveal_record sample_record sample_reveal)) None],
     Inr \<lparr> dn_record = Some (delivered_record ''2026-01-01'' (reveal_record sample_record sample_reveal)), dn_broadcast = True,
       dn_error = None, dn_permanence = None, dn_already = False \<rparr>)"
proof -
  have "\<not> isMainnetChainId ''bitcoin-regtest''" by code_simp
  moreover have "still_queued sample_record" "fld sample_record ''txHex'' = JStr ''c0''"
    by (simp_all add: still_queued_def sample_record_def fld_def)
  ultimately show ?thesis
    by (simp add: drainQueuedBroadcast_def sample_drain_def assertMainnetActionAllowed_def drain_claimed_def
        drain_send_def sample_owes drain_last_def settle_delivered_def after_def Let_def)
qed

text \<open>
  Property C20. A drain can be interrupted anywhere and resumed. Whenever it hands bytes to the network, the record
  the vault holds at that moment is claimed as broadcasting and owes exactly these bytes, and every send before it
  reached the network; the bytes go out in the order the record owes them, its commit before its reveal.
\<close>

theorem drain_can_be_resumed:
  assumes "qa_read a = Inr (Some r)"
    and "fst (drainQueuedBroadcast a i) = pre @ Send h reply # post"
  shows "fld (stored r pre) ''status'' = JStr ''broadcasting'' \<and> owes (stored r pre) h
    \<and> (\<forall>e \<in> set pre. is_send e \<longrightarrow> landed e)
    \<and> (\<exists>n. sent_bytes (pre @ Send h reply # post) = take n (bytes_due r))"
  using log_ok_split [of r pre h reply post] drain_log [OF assms(1), of i] drain_bytes [OF assms(1), of i] assms(2)
  by simp

theorem drain_can_be_resumed_witness:
  "\<exists>pre post. fst (drainQueuedBroadcast sample_drain ''p'') = pre @ Send (JStr ''ee'') None # post
    \<and> fld (stored sample_record pre) ''status'' = JStr ''broadcasting'' \<and> owes (stored sample_record pre) (JStr ''ee'')
    \<and> Send (JStr ''c0'') None \<in> set pre"
proof -
  let ?pre = "[Put (claimed_record sample_record) None, Send (JStr ''c0'') None, Put (reveal_record sample_record sample_reveal) None]"
  have "qa_read sample_drain = Inr (Some sample_record)" by (simp add: sample_drain_def)
  moreover have "fst (drainQueuedBroadcast sample_drain ''p'') = ?pre @ Send (JStr ''ee'') None
      # [Put (delivered_record ''2026-01-01'' (reveal_record sample_record sample_reveal)) None]"
    by (simp add: sample_drain_run)
  ultimately show ?thesis using drain_can_be_resumed [of sample_drain sample_record "''p''" ?pre "JStr ''ee''" None]
    by (intro exI [of _ ?pre] exI) auto
qed

text \<open>
  The end of a drain: what was sent, what the vault holds, and what the caller is told. After a permanent refusal
  the record is failed unless a transaction of it is on the network.
\<close>

definition refused_status :: "js \<Rightarrow> bool \<Rightarrow> string" where
  "refused_status err some_landed =
     (if classifyBroadcastFailure err = Transient then ''queued'' else if some_landed then ''broadcast'' else ''failed'')"

definition drain_end_ok :: "fields \<Rightarrow> drain_end \<Rightarrow> bool" where
  "drain_end_ok r x \<longleftrightarrow> (case snd x of
     Inl _ \<Rightarrow> True
   | Inr d \<Rightarrow>
       if dn_broadcast d
       then sent_bytes (fst x) = bytes_due r \<and> list_all (\<lambda>e. is_send e \<longrightarrow> landed e) (fst x)
         \<and> dn_record d = Some (stored r (fst x)) \<and> fld (stored r (fst x)) ''status'' = JStr ''broadcast''
       else (\<exists>pre h err post. fst x = pre @ Send h (Some err) # post \<and> \<not> isAlreadyOnNetworkRejection err
         \<and> \<not> list_ex is_send post \<and> dn_permanence d = Some (classifyBroadcastFailure err)
         \<and> dn_error d = Some (error_message err)
         \<and> fld (stored r (fst x)) ''status'' =
             JStr (refused_status err (fld r ''commitLanded'' = JBool True \<or> list_ex landed pre))))"

lemma settle_delivered_ok:
  assumes "snd (settle_delivered a k s b) = Inr d"
  shows "dn_broadcast d" "fst (settle_delivered a k s b) = [Put (delivered_record (qa_stamp a) s) None]"
    "dn_record d = Some (delivered_record (qa_stamp a) s)"
  using assms by (auto simp: settle_delivered_def Let_def split: option.splits)

lemma settle_failure_ok:
  assumes "snd (settleDrainFailure a k s err) = Inr d"
  shows "\<not> dn_broadcast d" "fst (settleDrainFailure a k s err) = [Put (drain_failure_record (qa_stamp a) s err) None]"
    "dn_permanence d = Some (classifyBroadcastFailure err)" "dn_error d = Some (error_message err)"
  using assms by (auto simp: settleDrainFailure_def Let_def split: option.splits sum.splits)

lemma delivered_record_status [simp]: "fld (delivered_record stamp s) ''status'' = JStr ''broadcast''"
  by (simp add: delivered_record_def)

lemma failure_record_status:
  "fld (drain_failure_record stamp s err) ''status'' = JStr (refused_status err (fld s ''commitLanded'' = JBool True))"
  by (cases "classifyBroadcastFailure err")
    (simp_all add: drain_failure_record_def refused_status_def commitLandedRecord_def)

lemma drain_last_end:
  assumes "snd (drain_last a k n s) = Inr d"
  shows "(dn_broadcast d \<and> delivered (qa_send a n) \<and> dn_record d = Some (delivered_record (qa_stamp a) s)
      \<and> fst (drain_last a k n s) = [Send (fld s ''txHex'') (qa_send a n), Put (delivered_record (qa_stamp a) s) None])
    \<or> (\<exists>err. \<not> dn_broadcast d \<and> qa_send a n = Some err \<and> \<not> isAlreadyOnNetworkRejection err
      \<and> dn_permanence d = Some (classifyBroadcastFailure err) \<and> dn_error d = Some (error_message err)
      \<and> fst (drain_last a k n s) = [Send (fld s ''txHex'') (Some err), Put (drain_failure_record (qa_stamp a) s err) None])"
  using assms settle_delivered_ok [of a k s] settle_failure_ok [of a k s]
  by (cases "qa_send a n") (auto simp: drain_last_def)

lemma drain_end_okI:
  assumes "snd x = Inr d" "\<not> dn_broadcast d" "fst x = pre @ [Send h (Some err), Put s None]"
    "\<not> isAlreadyOnNetworkRejection err" "dn_permanence d = Some (classifyBroadcastFailure err)"
    "dn_error d = Some (error_message err)"
    "fld s ''status'' = JStr (refused_status err (fld r ''commitLanded'' = JBool True \<or> list_ex landed pre))"
  shows "drain_end_ok r x"
  unfolding drain_end_ok_def assms(1) sum.case if_not_P [OF assms(2)]
  by (rule exI [of _ pre], rule exI [of _ h], rule exI [of _ err], rule exI [of _ "[Put s None]"]) (use assms in simp)

lemma drain_end_ok_Inl [simp]: "drain_end_ok r (es, Inl e)"
  by (simp add: drain_end_ok_def)

lemma claimed_last_ok:
  assumes "queuedRevealOf r = None"
  shows "drain_end_ok r (after [Put (claimed_record r) None] (drain_last a k n r))"
proof (cases "snd (drain_last a k n r)")
  case (Inr d)
  from drain_last_end [OF Inr] show ?thesis
  proof (elim disjE exE conjE, goal_cases)
    case 1
    then show ?case using Inr assms by (simp add: drain_end_ok_def bytes_due_def)
  next
    case (2 err)
    then show ?case using Inr
      by - (rule drain_end_okI [where pre = "[Put (claimed_record r) None]"], auto simp: failure_record_status)
  qed
qed (simp add: drain_end_ok_def)

lemma reveal_last_ok:
  assumes "queuedRevealOf r = Some rv" and "delivered reply"
  shows "drain_end_ok r (after [Put (claimed_record r) None, Send (fld r ''txHex'') reply, Put (reveal_record r rv) p]
    (drain_last a k n (reveal_record r rv)))"
proof (cases "snd (drain_last a k n (reveal_record r rv))")
  case (Inr d)
  from drain_last_end [OF Inr] show ?thesis
  proof (elim disjE exE conjE, goal_cases)
    case 1
    then show ?case using Inr assms by (simp add: drain_end_ok_def bytes_due_def)
  next
    case (2 err)
    then show ?case using Inr assms
      by - (rule drain_end_okI [where pre = "[Put (claimed_record r) None, Send (fld r ''txHex'') reply, Put (reveal_record r rv) p]"],
        auto simp: failure_record_status)
  qed
qed (simp add: drain_end_ok_def)

lemma commit_refused_ok:
  assumes "queuedRevealOf r = Some rv" and "\<not> isAlreadyOnNetworkRejection err"
  shows "drain_end_ok r (after [Put (claimed_record r) None, Send (fld r ''txHex'') (Some err)] (settleDrainFailure a k r err))"
proof (cases "snd (settleDrainFailure a k r err)")
  case (Inr d)
  then show ?thesis using settle_failure_ok [OF Inr] assms
    by - (rule drain_end_okI [where pre = "[Put (claimed_record r) None]"], auto simp: failure_record_status)
qed (simp add: drain_end_ok_def)

lemma after_after [simp]: "after es (after fs x) = after (es @ fs) x"
  by (simp add: after_def)

lemma claimed_send_ok: "drain_end_ok r (after [Put (claimed_record r) None] (drain_send a r))"
proof (cases "queuedRevealOf r")
  case None
  then show ?thesis by (simp add: drain_send_def claimed_last_ok)
next
  case (Some rv)
  then show ?thesis
    by (cases "qa_send a 0") (auto simp: drain_send_def intro: commit_refused_ok reveal_last_ok)
qed

text \<open>
  Property C28. A drain tells the truth about the transaction. When it reports a broadcast, everything the record
  owed was sent and reached the network, and the vault holds the record it returns, marked broadcast. When it
  reports a refusal, the last bytes sent were refused by a reply that does not say the network has them, and the
  record is queued again after a transient refusal; after a permanent one it is failed, unless its commit is on
  the network, now or from an earlier drain, in which case it stays broadcast.
\<close>

theorem drain_tells_the_truth:
  assumes "qa_read a = Inr (Some r)"
  shows "drain_end_ok r (drainQueuedBroadcast a i)"
  using assms claimed_send_ok [of r a]
  by (auto simp: drainQueuedBroadcast_def drain_claimed_def after_def split: option.splits)

theorem drain_tells_the_truth_witness:
  "drain_end_ok sample_record (drainQueuedBroadcast sample_drain ''p'')
    \<and> sent_bytes (fst (drainQueuedBroadcast sample_drain ''p'')) = [JStr ''c0'', JStr ''ee'']"
  using drain_tells_the_truth [of sample_drain sample_record "''p''"] by (simp add: sample_drain_def sample_drain_run [unfolded sample_drain_def])

text \<open>A discard deletes only a record no transaction of which is known to be on the network, and never while it is being sent.\<close>

lemma discard_keeps_landed:
  "discardQueuedBroadcast stamp inFlight i (Inr (Some r)) answer = Inr Deleted \<Longrightarrow>
   still_queued r \<and> \<not> inFlight \<and> fld r ''commitLanded'' \<noteq> JBool True"
  by (auto simp: discardQueuedBroadcast_def discard_decision_def split: if_splits option.splits)

text \<open>The freeze is asked twice, before the claim and before the first send: one armed while the commit goes out does not stop the reveal.\<close>

lemma reveal_ignores_freeze:
  assumes "f 0 = qa_frozen a 0" and "f 1 = qa_frozen a 1"
  shows "drainQueuedBroadcast (a\<lparr>qa_frozen := f\<rparr>) i = drainQueuedBroadcast a i"
proof -
  define b where "b = a\<lparr>qa_frozen := f\<rparr>"
  have e: "qa_claimed b = qa_claimed a" "qa_read b = qa_read a" "qa_chain b = qa_chain a" "qa_descriptor b = qa_descriptor a"
    "qa_sdk b = qa_sdk a" "qa_now b = qa_now a" "qa_stamp b = qa_stamp a" "qa_put b = qa_put a" "qa_send b = qa_send a"
    "qa_reread b = qa_reread a" "qa_frozen b 0 = qa_frozen a 0" "qa_frozen b 1 = qa_frozen a 1"
    using assms by (simp_all add: b_def)
  have d: "settle_delivered b = settle_delivered a" "settleDrainFailure b = settleDrainFailure a"
    unfolding settle_delivered_def settleDrainFailure_def e by (rule refl)+
  have l: "drain_last b = drain_last a" unfolding drain_last_def d e by (rule refl)
  have c: "drain_claimed b = drain_claimed a" unfolding drain_claimed_def drain_send_def l d e by (rule refl)
  show ?thesis unfolding b_def [symmetric] drainQueuedBroadcast_def e c by (rule refl)
qed

end
