(* ===== verification/Settlement_Journal.thy ===== *)
theory Settlement_Journal
  imports Queued_Broadcast
begin

text \<open>
  The settlement journal of the broadcast queue: writes to pending transactions that a closed or refusing vault
  could not take yet. The record and its folding are in
  \<^verbatim>\<open>extension/src/background/broadcastQueueStore.js\<close>, recording, replay, flush and merge in
  \<^verbatim>\<open>broadcastQueueEngine.js\<close>. Every vault call is numbered and \<open>up n\<close> says whether
  call \<open>n\<close> is answered; a refused write leaves the vault as it was.
\<close>

section \<open>Journal records\<close>

datatype owed_op = Op_patch | Op_discard | Op_reveal

text \<open>A journal object's identity is its id, which is drawn at random when it is recorded.\<close>

record owed =
  ow_id :: string
  ow_wallet :: "string option"
  ow_tx :: string
  ow_op :: owed_op
  ow_patch :: "fields option"
  ow_reveal :: "fields option"
  ow_discard :: bool
  ow_at :: rat

definition OWED_SETTLEMENT_LIMIT :: nat where
  "OWED_SETTLEMENT_LIMIT = 50"

definition owedRecordKey :: "owed \<Rightarrow> string" where
  "owedRecordKey r = (if ow_id r \<noteq> [] then ow_id r else ''pending:'' @ ow_tx r)"

definition WRITABLE_OWED_STATUSES :: "string list" where
  "WRITABLE_OWED_STATUSES = [''queued'', ''broadcasting'']"

definition patch_fields :: "owed \<Rightarrow> fields" where
  "patch_fields r = (case ow_patch r of None \<Rightarrow> Map.empty | Some p \<Rightarrow> p)"

definition new_owed :: "string \<Rightarrow> rat \<Rightarrow> string option \<Rightarrow> string \<Rightarrow> owed_op \<Rightarrow> fields option \<Rightarrow> owed" where
  "new_owed key now wallet i op payload =
     \<lparr> ow_id = key, ow_wallet = wallet, ow_tx = i, ow_op = op,
       ow_patch = (if op = Op_reveal then None else payload), ow_reveal = (if op = Op_reveal then payload else None),
       ow_discard = False, ow_at = now \<rparr>"

text \<open>An earlier record closes its transaction when it discards it or moves it to a status nothing writes over.\<close>

definition closes :: "owed \<Rightarrow> bool" where
  "closes r \<longleftrightarrow> ow_op r = Op_discard \<or> ow_discard r
     \<or> (case fld (patch_fields r) ''status'' of JStr s \<Rightarrow> s \<notin> set WRITABLE_OWED_STATUSES | _ \<Rightarrow> False)"

definition foldOwedSettlement :: "owed option \<Rightarrow> owed \<Rightarrow> owed" where
  "foldOwedSettlement prior later = (case prior of
     None \<Rightarrow> later
   | Some p \<Rightarrow>
       if ow_tx p \<noteq> ow_tx later then later
       else if closes p then p
       else if ow_op p = Op_reveal then
         (if ow_op later = Op_reveal then p
          else later\<lparr>ow_op := Op_reveal, ow_reveal := ow_reveal p, ow_patch := Some (patch_fields p ++ patch_fields later),
                 ow_discard := (ow_discard later \<or> ow_op later = Op_discard)\<rparr>)
       else if ow_patch p = None then later
       else later\<lparr>ow_patch := Some (patch_fields p ++ patch_fields later)\<rparr>)"

section \<open>The vault\<close>

text \<open>
  The pending transactions in memory and on disk. With \<open>vt_auto\<close> every write is saved at once, and a write
  whose save is refused changes nothing.
\<close>

record txvault =
  vt_mem :: "string \<rightharpoonup> fields"
  vt_disk :: "string \<rightharpoonup> fields"
  vt_auto :: bool
  vt_calls :: nat

definition vt_commit :: "(string \<rightharpoonup> fields) \<Rightarrow> txvault \<Rightarrow> txvault" where
  "vt_commit m v = v\<lparr>vt_mem := m, vt_disk := (if vt_auto v then m else vt_disk v)\<rparr>"

text \<open>A call spends a number; the continuation of an answered one is given the vault.\<close>

definition vt_call :: "(nat \<Rightarrow> bool) \<Rightarrow> txvault \<Rightarrow> txvault \<times> bool" where
  "vt_call up v = (v\<lparr>vt_calls := Suc (vt_calls v)\<rparr>, up (vt_calls v))"

definition vt_store :: "(nat \<Rightarrow> bool) \<Rightarrow> txvault \<Rightarrow> string \<Rightarrow> fields option \<Rightarrow> txvault \<times> bool" where
  "vt_store up v i r = (let (v', ok) = vt_call up v in (if ok then vt_commit ((vt_mem v)(i := r)) v' else v', ok))"

definition vt_save :: "(nat \<Rightarrow> bool) \<Rightarrow> txvault \<Rightarrow> txvault \<times> bool" where
  "vt_save up v = (let (v', ok) = vt_call up v in (if ok then v'\<lparr>vt_disk := vt_mem v'\<rparr> else v', ok))"

section \<open>Replaying one write\<close>

datatype settle_verdict = Settled | Unowned | Closed | Unreachable

definition applyPendingTxPatch :: "(nat \<Rightarrow> bool) \<Rightarrow> txvault \<Rightarrow> string \<Rightarrow> fields \<Rightarrow> txvault \<times> settle_verdict" where
  "applyPendingTxPatch up v i patch =
     (let (v1, ok) = vt_call up v in
      if \<not> ok then (v1, Unreachable)
      else (case vt_mem v1 i of
          None \<Rightarrow> (v1, Closed)
        | Some existing \<Rightarrow>
            if \<not> still_queued existing then (v1, Closed)
            else (let (v2, put) = vt_store up v1 i (Some (existing ++ patch)) in (v2, if put then Settled else Unreachable))))"

definition promoted :: "fields \<Rightarrow> fields \<Rightarrow> fields" where
  "promoted existing reveal = existing(
     ''status'' \<mapsto> JStr ''broadcasting'',
     ''txHex'' \<mapsto> fld existing ''revealTxHex'',
     ''txid'' \<mapsto> (case filled_text (fld reveal ''txid'') of Some t \<Rightarrow> JStr t
        | None \<Rightarrow> (case filled_text (fld existing ''revealTxid'') of Some t \<Rightarrow> JStr t | None \<Rightarrow> Null)),
     ''commitLanded'' \<mapsto> JBool True,
     ''commitTxid'' \<mapsto> js_coalesce (fld reveal ''commitTxid'') (js_coalesce (fld existing ''commitTxid'') Null),
     ''error'' \<mapsto> Null)"

text \<open>A record that has lost its reveal, or carries another one, is not promoted.\<close>

definition promotable :: "fields \<Rightarrow> fields \<Rightarrow> bool" where
  "promotable reveal existing \<longleftrightarrow> filled_text (fld existing ''revealTxHex'') \<noteq> None
     \<and> (case (filled_text (fld reveal ''txid''), filled_text (fld existing ''revealTxid'')) of
          (Some t, Some u) \<Rightarrow> t = u | _ \<Rightarrow> True)"

definition applyRevealPromotion :: "(nat \<Rightarrow> bool) \<Rightarrow> txvault \<Rightarrow> string \<Rightarrow> fields \<Rightarrow> txvault \<times> settle_verdict" where
  "applyRevealPromotion up v i reveal =
     (let (v1, ok) = vt_call up v in
      if \<not> ok then (v1, Unreachable)
      else (case vt_mem v1 i of
          None \<Rightarrow> (v1, Closed)
        | Some existing \<Rightarrow>
            if \<not> still_queued existing then (v1, Closed)
            else if fld existing ''commitLanded'' = JBool True then (v1, Settled)
            else if \<not> promotable reveal existing then (v1, Closed)
            else (let (v2, put) = vt_store up v1 i (Some (promoted existing reveal)) in (v2, if put then Settled else Unreachable))))"

text \<open>The discard of \<^verbatim>\<open>queuedBroadcast.js\<close> on this vault; a refused call reads as unreachable.\<close>

definition discard_call :: "(nat \<Rightarrow> bool) \<Rightarrow> string \<Rightarrow> bool \<Rightarrow> txvault \<Rightarrow> string \<Rightarrow> txvault \<times> settle_verdict" where
  "discard_call up stamp inFlight v i =
     (let (v1, ok) = vt_call up v in
      if \<not> ok then (v1, Unreachable)
      else (case discard_decision stamp inFlight (vt_mem v1 i) of
          Kept \<Rightarrow> (v1, Settled)
        | Retired r \<Rightarrow> (let (v2, put) = vt_store up v1 i (Some r) in (v2, if put then Settled else Unreachable))
        | Deleted \<Rightarrow> (let (v2, put) = vt_store up v1 i None in (v2, if put then Settled else Unreachable))))"

definition and_then :: "txvault \<times> settle_verdict \<Rightarrow> bool \<Rightarrow> (txvault \<Rightarrow> txvault \<times> settle_verdict) \<Rightarrow> txvault \<times> settle_verdict" where
  "and_then r wanted f = (if wanted then f (fst r) else r)"

definition replay_owed :: "(nat \<Rightarrow> bool) \<Rightarrow> string \<Rightarrow> (string \<Rightarrow> bool) \<Rightarrow> txvault \<Rightarrow> owed \<Rightarrow> txvault \<times> settle_verdict" where
  "replay_owed up stamp busy v r = (case ow_op r of
     Op_reveal \<Rightarrow>
       (let p = applyRevealPromotion up v (ow_tx r) (case ow_reveal r of None \<Rightarrow> Map.empty | Some x \<Rightarrow> x);
            q = and_then p (snd p = Settled \<and> ow_patch r \<noteq> None) (\<lambda>w. applyPendingTxPatch up w (ow_tx r) (patch_fields r));
            d = and_then q (snd q = Settled \<and> ow_discard r) (\<lambda>w. discard_call up stamp (busy (ow_tx r)) w (ow_tx r))
        in d)
   | Op_discard \<Rightarrow>
       (let q = (if ow_patch r = None then (v, Settled) else applyPendingTxPatch up v (ow_tx r) (patch_fields r))
        in and_then q (snd q \<noteq> Unreachable) (\<lambda>w. discard_call up stamp (busy (ow_tx r)) w (ow_tx r)))
   | Op_patch \<Rightarrow> applyPendingTxPatch up v (ow_tx r) (patch_fields r))"

section \<open>What a replay amounts to\<close>

text \<open>The effect of each write on the one record it names, when every call is answered.\<close>

definition open_record :: "fields option \<Rightarrow> bool" where
  "open_record r \<longleftrightarrow> (case r of None \<Rightarrow> False | Some e \<Rightarrow> still_queued e)"

definition patch_rec :: "fields \<Rightarrow> fields option \<Rightarrow> fields option" where
  "patch_rec p r = (if open_record r then map_option (\<lambda>e. e ++ p) r else r)"

definition has_landed :: "fields option \<Rightarrow> bool" where
  "has_landed r \<longleftrightarrow> (case r of None \<Rightarrow> False | Some e \<Rightarrow> fld e ''commitLanded'' = JBool True)"

definition promotes :: "fields \<Rightarrow> fields option \<Rightarrow> bool" where
  "promotes rv r \<longleftrightarrow> open_record r \<and> (has_landed r \<or> (case r of None \<Rightarrow> False | Some e \<Rightarrow> promotable rv e))"

definition promote_rec :: "fields \<Rightarrow> fields option \<Rightarrow> fields option" where
  "promote_rec rv r = (if promotes rv r \<and> \<not> has_landed r then map_option (\<lambda>e. promoted e rv) r else r)"

definition discard_rec :: "string \<Rightarrow> bool \<Rightarrow> fields option \<Rightarrow> fields option" where
  "discard_rec stamp inFlight r = (case discard_decision stamp inFlight r of
     Kept \<Rightarrow> r | Retired x \<Rightarrow> Some x | Deleted \<Rightarrow> None)"

definition reveal_fields :: "owed \<Rightarrow> fields" where
  "reveal_fields o' = (case ow_reveal o' of None \<Rightarrow> Map.empty | Some x \<Rightarrow> x)"

definition discards :: "owed \<Rightarrow> bool" where
  "discards o' \<longleftrightarrow> ow_op o' = Op_discard \<or> ow_op o' = Op_reveal \<and> ow_discard o'"

definition replay_rec :: "string \<Rightarrow> bool \<Rightarrow> owed \<Rightarrow> fields option \<Rightarrow> fields option" where
  "replay_rec stamp inFlight o' r =
     (if ow_op o' = Op_reveal \<and> \<not> promotes (reveal_fields o') r then r
      else (let r1 = (if ow_op o' = Op_reveal then promote_rec (reveal_fields o') r else r);
                r2 = patch_rec (patch_fields o') r1
            in if discards o' then discard_rec stamp inFlight r2 else r2))"

text \<open>A patch never takes the landed mark back, and names a status by a string; only a reveal carries the discard mark.\<close>

definition wf_patch :: "fields \<Rightarrow> bool" where
  "wf_patch p \<longleftrightarrow> (case p ''commitLanded'' of None \<Rightarrow> True | Some v \<Rightarrow> v = JBool True)
     \<and> (case p ''status'' of Some (JStr _) \<Rightarrow> True | None \<Rightarrow> True | _ \<Rightarrow> False)"

definition wf_owed :: "owed \<Rightarrow> bool" where
  "wf_owed o' \<longleftrightarrow> wf_patch (patch_fields o') \<and> (ow_discard o' \<longrightarrow> ow_op o' = Op_reveal)"

lemma fld_add: "fld (e ++ p) k = (case p k of None \<Rightarrow> fld e k | Some v \<Rightarrow> v)"
  by (simp add: fld_def map_add_def split: option.splits)

lemma open_simps [simp]: "\<not> open_record None" "open_record (Some e) = still_queued e"
  "\<not> has_landed None" "has_landed (Some e) = (fld e ''commitLanded'' = JBool True)"
  by (simp_all add: open_record_def has_landed_def)

lemma patch_rec_closed [simp]: "\<not> open_record r \<Longrightarrow> patch_rec p r = r"
  by (simp add: patch_rec_def)

lemma patch_rec_open [simp]: "still_queued e \<Longrightarrow> patch_rec p (Some e) = Some (e ++ p)"
  by (simp add: patch_rec_def)

lemma patch_rec_empty [simp]: "patch_rec Map.empty r = r"
  by (cases r) (simp_all add: patch_rec_def)

lemma discard_rec_closed [simp]: "\<not> open_record r \<Longrightarrow> discard_rec stamp b r = r"
  by (auto simp: discard_rec_def discard_decision_def split: option.splits)

lemma discard_rec_closes: "\<not> open_record (discard_rec stamp False r)"
  by (auto simp: discard_rec_def discard_decision_def commitLandedRecord_def still_queued_def split: option.splits)

lemma discard_rec_busy [simp]: "discard_rec stamp True r = r"
  by (auto simp: discard_rec_def discard_decision_def split: option.splits)

lemma promoted_fields [simp]:
  "still_queued (promoted e rv)" "fld (promoted e rv) ''commitLanded'' = JBool True"
  by (simp_all add: still_queued_def promoted_def)

lemma promote_rec_open: "promotes rv r \<Longrightarrow> open_record (promote_rec rv r) \<and> has_landed (promote_rec rv r)"
  by (cases r) (auto simp: promotes_def promote_rec_def)

lemma promote_rec_closed [simp]: "\<not> promotes rv r \<Longrightarrow> promote_rec rv r = r"
  by (simp add: promote_rec_def)

lemma promotes_landed [simp]: "has_landed r \<Longrightarrow> promotes rv r \<longleftrightarrow> open_record r"
  by (auto simp: promotes_def)

lemma promote_landed [simp]: "has_landed r \<Longrightarrow> promote_rec rv r = r"
  by (simp add: promote_rec_def)

lemma replay_closed [simp]: "\<not> open_record r \<Longrightarrow> replay_rec stamp b o' r = r"
  by (auto simp: replay_rec_def promotes_def promote_rec_def Let_def)

lemma map_add_twice [simp]: "e ++ p ++ p = (e ++ p :: fields)"
  by (auto simp: map_add_def fun_eq_iff split: option.splits)

lemma patch_rec_twice [simp]: "patch_rec p (patch_rec p r) = patch_rec p r"
  by (cases r) (auto simp: patch_rec_def)

lemma patch_rec_landed: "wf_patch p \<Longrightarrow> has_landed r \<Longrightarrow> has_landed (patch_rec p r)"
  by (cases r) (auto simp: patch_rec_def fld_add wf_patch_def split: option.splits)

text \<open>A replay that was cut short at any point can be replayed again: the result is the one it would have had.\<close>

lemma replay_after_promotion:
  "ow_op o' = Op_reveal \<Longrightarrow> replay_rec stamp b o' (promote_rec (reveal_fields o') r) = replay_rec stamp b o' r"
  using promote_rec_open [of "reveal_fields o'" r]
  by (cases "promotes (reveal_fields o') r") (simp_all add: replay_rec_def)

lemma replay_after_patch:
  assumes "wf_owed o'" and "ow_op o' = Op_reveal" and "promotes (reveal_fields o') r"
  shows "replay_rec stamp b o' (patch_rec (patch_fields o') (promote_rec (reveal_fields o') r)) = replay_rec stamp b o' r"
proof -
  let ?x = "patch_rec (patch_fields o') (promote_rec (reveal_fields o') r)"
  have "has_landed ?x"
    using promote_rec_open [OF assms(3)] assms(1) by (simp add: wf_owed_def patch_rec_landed)
  then show ?thesis using assms(2,3)
    by (cases "open_record ?x") (simp_all add: replay_rec_def Let_def)
qed

lemma replay_after_plain_patch:
  "ow_op o' \<noteq> Op_reveal \<Longrightarrow> replay_rec stamp b o' (patch_rec (patch_fields o') r) = replay_rec stamp b o' r"
  by (simp add: replay_rec_def)

lemma discard_settles: "\<not> open_record (discard_rec stamp b r) \<or> discard_rec stamp b r = r"
  using discard_rec_closes [of stamp r] by (cases b) auto

lemma replay_twice:
  assumes "wf_owed o'"
  shows "replay_rec stamp b o' (replay_rec stamp b o' r) = replay_rec stamp b o' r"
proof (cases "ow_op o' = Op_reveal \<and> \<not> promotes (reveal_fields o') r")
  case True
  then show ?thesis by (simp add: replay_rec_def)
next
  case False
  define r2 where "r2 = patch_rec (patch_fields o') (if ow_op o' = Op_reveal then promote_rec (reveal_fields o') r else r)"
  have x: "replay_rec stamp b o' r = (if discards o' then discard_rec stamp b r2 else r2)"
    using False by (auto simp: replay_rec_def r2_def Let_def)
  have r2: "replay_rec stamp b o' r2 = replay_rec stamp b o' r"
    using False replay_after_patch [OF assms, of r stamp b] replay_after_plain_patch [of o' stamp b r] by (auto simp: r2_def)
  show ?thesis
  proof (cases "discards o' \<and> discard_rec stamp b r2 \<noteq> r2")
    case True
    then have "\<not> open_record (discard_rec stamp b r2)" using discard_settles [of stamp b r2] by simp
    then show ?thesis using True by (simp add: x)
  next
    case False
    then have "replay_rec stamp b o' r = r2" by (auto simp: x)
    with r2 show ?thesis by simp
  qed
qed

section \<open>Folding two writes\<close>

text \<open>
  Two writes fold into one that has their effect, unless a patch is folded under a reveal (the replay promotes
  first), a reveal that is not promoted drops what is folded onto it, or a second reveal brings a patch or a
  discard with it.
\<close>

definition foldable :: "owed \<Rightarrow> owed \<Rightarrow> fields option \<Rightarrow> bool" where
  "foldable p n r \<longleftrightarrow>
     (ow_op p = Op_patch \<and> ow_patch p \<noteq> None \<longrightarrow> closes p \<or> ow_op n \<noteq> Op_reveal)
     \<and> (ow_op p = Op_reveal \<longrightarrow> promotes (reveal_fields p) r \<or> \<not> open_record r)
     \<and> (ow_op p = Op_reveal \<and> ow_op n = Op_reveal \<longrightarrow> closes p \<or> ow_patch n = None \<and> \<not> ow_discard n)"

lemma still_queued_add: "still_queued (e ++ p) \<longleftrightarrow> (case p ''status'' of None \<Rightarrow> still_queued e
   | Some v \<Rightarrow> v \<in> {JStr ''queued'', JStr ''broadcasting''})"
  by (auto simp: still_queued_def fld_add split: option.splits)

lemma patch_status:
  assumes "wf_patch p"
  shows "open_record (patch_rec p r) \<longleftrightarrow> open_record r \<and>
    (case fld p ''status'' of JStr s \<Rightarrow> s \<in> set WRITABLE_OWED_STATUSES | _ \<Rightarrow> True)"
proof (cases r)
  case (Some e)
  then show ?thesis using assms
    by (cases "p ''status''")
      (auto simp: patch_rec_def still_queued_add fld_def wf_patch_def WRITABLE_OWED_STATUSES_def split: js.splits)
qed simp

lemma patch_rec_both:
  assumes "open_record (patch_rec p r)"
  shows "patch_rec q (patch_rec p r) = patch_rec (p ++ q) r"
proof (cases "open_record r")
  case True
  with assms show ?thesis by (cases r) (simp_all add: patch_rec_def)
next
  case False
  with assms show ?thesis by simp
qed

lemma closes_closed:
  assumes "wf_owed p" "closes p" "ow_op p = Op_reveal \<longrightarrow> promotes (reveal_fields p) r"
  shows "\<not> open_record (replay_rec stamp False p r)"
proof -
  define r2 where "r2 = patch_rec (patch_fields p) (if ow_op p = Op_reveal then promote_rec (reveal_fields p) r else r)"
  have x: "replay_rec stamp False p r = (if discards p then discard_rec stamp False r2 else r2)"
    using assms(3) by (auto simp: replay_rec_def r2_def Let_def)
  show ?thesis
  proof (cases "discards p")
    case True
    then show ?thesis by (simp add: x discard_rec_closes)
  next
    case False
    then have "\<not> (case fld (patch_fields p) ''status'' of JStr s \<Rightarrow> s \<in> set WRITABLE_OWED_STATUSES | _ \<Rightarrow> True)"
      using assms(1,2) by (auto simp: closes_def discards_def wf_owed_def split: js.splits)
    then show ?thesis using False assms(1) by (simp add: x r2_def patch_status wf_owed_def)
  qed
qed

lemma not_closes_open:
  assumes "wf_owed p" "\<not> closes p" "open_record r"
  shows "open_record (patch_rec (patch_fields p) r)"
  using assms by (auto simp: patch_status wf_owed_def closes_def split: js.splits)

lemma fold_closed: "ow_tx p = ow_tx n \<Longrightarrow> closes p \<Longrightarrow> foldOwedSettlement (Some p) n = p"
  by (simp add: foldOwedSettlement_def)

lemma patch_fields_Some [simp]: "patch_fields (n\<lparr>ow_op := x, ow_reveal := y, ow_patch := Some q, ow_discard := d\<rparr>) = q"
  "patch_fields (n\<lparr>ow_patch := Some q\<rparr>) = q"
  by (simp_all add: patch_fields_def)

lemma patch_fields_None [simp]: "ow_patch n = None \<Longrightarrow> patch_fields n = Map.empty"
  by (simp add: patch_fields_def)

lemma fold_reveal:
  assumes "wf_owed p" "wf_owed n" "ow_tx p = ow_tx n" "\<not> closes p" "ow_op p = Op_reveal" "promotes (reveal_fields p) r"
    and "ow_op n = Op_reveal \<longrightarrow> ow_patch n = None \<and> \<not> ow_discard n"
  shows "replay_rec stamp b (foldOwedSettlement (Some p) n) r = replay_rec stamp b n (replay_rec stamp b p r)"
proof -
  define x where "x = patch_rec (patch_fields p) (promote_rec (reveal_fields p) r)"
  note pr = promote_rec_open [OF assms(6)]
  have nd: "\<not> discards p" using assms(4) by (simp add: discards_def closes_def assms(5))
  have px: "replay_rec stamp b p r = x" using assms(5,6) nd by (simp add: replay_rec_def x_def Let_def)
  have ox: "open_record x" "has_landed x"
    using not_closes_open [OF assms(1,4)] pr assms(1) by (simp_all add: x_def wf_owed_def patch_rec_landed)
  show ?thesis
  proof (cases "ow_op n = Op_reveal")
    case True
    then have "foldOwedSettlement (Some p) n = p" using assms(3-5) by (simp add: foldOwedSettlement_def)
    moreover have "replay_rec stamp b n x = x"
      using True assms(7) ox by (simp add: replay_rec_def discards_def)
    ultimately show ?thesis by (simp add: px)
  next
    case False
    define q where "q = n\<lparr>ow_op := Op_reveal, ow_reveal := ow_reveal p, ow_patch := Some (patch_fields p ++ patch_fields n),
                 ow_discard := (ow_discard n \<or> ow_op n = Op_discard)\<rparr>"
    have "foldOwedSettlement (Some p) n = q"
      using False assms(3-5) by (simp add: foldOwedSettlement_def q_def)
    moreover have "reveal_fields q = reveal_fields p" "patch_fields q = patch_fields p ++ patch_fields n"
      "ow_op q = Op_reveal" "discards q \<longleftrightarrow> discards n"
      using False assms(2) by (auto simp: reveal_fields_def q_def discards_def wf_owed_def)
    moreover have "patch_rec (patch_fields p ++ patch_fields n) (promote_rec (reveal_fields p) r) = patch_rec (patch_fields n) x"
      using ox(1) by (simp add: x_def patch_rec_both)
    ultimately show ?thesis using False assms(6)
      by (simp add: px) (simp add: replay_rec_def Let_def)
  qed
qed

lemma fold_patch:
  assumes "wf_owed p" "wf_owed n" "ow_tx p = ow_tx n" "\<not> closes p" "ow_op p = Op_patch"
    and "ow_patch p \<noteq> None \<longrightarrow> ow_op n \<noteq> Op_reveal" and "open_record r"
  shows "replay_rec stamp b (foldOwedSettlement (Some p) n) r = replay_rec stamp b n (replay_rec stamp b p r)"
proof (cases "ow_patch p")
  case None
  then have "replay_rec stamp b p r = r" using assms(5) by (simp add: replay_rec_def discards_def)
  then show ?thesis using None assms(3-5) by (simp add: foldOwedSettlement_def)
next
  case (Some pp)
  define q where "q = n\<lparr>ow_patch := Some (patch_fields p ++ patch_fields n)\<rparr>"
  have "foldOwedSettlement (Some p) n = q"
    using Some assms(3-5) by (simp add: foldOwedSettlement_def q_def)
  moreover have "replay_rec stamp b p r = patch_rec (patch_fields p) r"
    using assms(5) by (simp add: replay_rec_def discards_def)
  moreover have "ow_op q = ow_op n" "discards q = discards n" "patch_fields q = patch_fields p ++ patch_fields n"
    by (auto simp: q_def discards_def)
  moreover have "patch_rec (patch_fields p ++ patch_fields n) r = patch_rec (patch_fields n) (patch_rec (patch_fields p) r)"
    using not_closes_open [OF assms(1,4,7)] by (simp add: patch_rec_both)
  ultimately show ?thesis using assms(6) Some by (simp add: replay_rec_def)
qed

text \<open>
  Property C?. Folding a later write of a transaction onto the one already owed keeps what replaying both in order
  does to its record: an earlier discard or final status closes it, patches stack, a discard comes last, and what
  follows a reveal stays behind it. This holds for the pairs that \<open>foldable\<close> names.
\<close>

theorem fold_replays_both:
  assumes "wf_owed p" "wf_owed n" "ow_tx p = ow_tx n" "foldable p n r"
  shows "replay_rec stamp False (foldOwedSettlement (Some p) n) r = replay_rec stamp False n (replay_rec stamp False p r)"
proof (cases "open_record r")
  case True
  with assms(4) have promo: "ow_op p = Op_reveal \<longrightarrow> promotes (reveal_fields p) r" by (simp add: foldable_def)
  show ?thesis
  proof (cases "closes p")
    case closed: True
    with closes_closed [OF assms(1) closed promo, of stamp] show ?thesis by (simp add: fold_closed assms(3))
  next
    case False
    then have "ow_op p \<noteq> Op_discard" by (auto simp: closes_def)
    then consider "ow_op p = Op_reveal" | "ow_op p = Op_patch" by (cases "ow_op p") auto
    then show ?thesis
    proof cases
      case 1
      with fold_reveal [OF assms(1-3) False 1] promo assms(4) False show ?thesis by (auto simp: foldable_def)
    next
      case 2
      with fold_patch [OF assms(1-3) False 2] assms(4) False True show ?thesis by (auto simp: foldable_def)
    qed
  qed
qed simp

text \<open>Two samples for one transaction.\<close>

definition sample_owed :: "owed_op \<Rightarrow> fields option \<Rightarrow> owed" where
  "sample_owed op payload = new_owed (if op = Op_reveal then ''s1'' else ''s2'') 0 None ''t1'' op payload"

lemmas sample_owed_eval = sample_owed_def new_owed_def

theorem fold_replays_both_witness:
  "replay_rec ''now'' False (foldOwedSettlement (Some (sample_owed Op_reveal None)) (sample_owed Op_patch (Some [''status'' \<mapsto> JStr ''broadcast''])))
      (Some [''status'' \<mapsto> JStr ''queued'', ''txHex'' \<mapsto> JStr ''c0'', ''revealTxHex'' \<mapsto> JStr ''ee''])
    = replay_rec ''now'' False (sample_owed Op_patch (Some [''status'' \<mapsto> JStr ''broadcast'']))
        (Some (promoted [''status'' \<mapsto> JStr ''queued'', ''txHex'' \<mapsto> JStr ''c0'', ''revealTxHex'' \<mapsto> JStr ''ee''] Map.empty))"
proof -
  let ?r = "[''status'' \<mapsto> JStr ''queued'', ''txHex'' \<mapsto> JStr ''c0'', ''revealTxHex'' \<mapsto> JStr ''ee''] :: fields"
  let ?p = "sample_owed Op_reveal None" and ?n = "sample_owed Op_patch (Some [''status'' \<mapsto> JStr ''broadcast''])"
  have q: "still_queued ?r" "promotable Map.empty ?r" "fld ?r ''commitLanded'' = Undef"
    by (simp_all add: still_queued_def promotable_def fld_def filled_text_def)
  then have "promotes (reveal_fields ?p) (Some ?r)" by (simp add: promotes_def reveal_fields_def sample_owed_eval)
  then have f: "foldable ?p ?n (Some ?r)" by (simp add: foldable_def sample_owed_eval)
  have "replay_rec ''now'' False ?p (Some ?r) = Some (promoted ?r Map.empty)"
    using q by (simp add: replay_rec_def sample_owed_eval promotes_def reveal_fields_def promote_rec_def discards_def patch_fields_def)
  with fold_replays_both [OF _ _ _ f, of "''now''"] show ?thesis
    by (simp add: wf_owed_def sample_owed_eval wf_patch_def patch_fields_def)
qed

text \<open>The three pairs it does not name lose or reorder a write.\<close>

lemma patch_under_reveal_wins:
  fixes r :: fields
  defines "r \<equiv> [''status'' \<mapsto> JStr ''queued'', ''revealTxHex'' \<mapsto> JStr ''ee'']"
  assumes "p = sample_owed Op_patch (Some [''status'' \<mapsto> JStr ''queued'', ''error'' \<mapsto> JStr ''timeout''])" "n = sample_owed Op_reveal None"
  shows "map_option (\<lambda>e. fld e ''status'') (replay_rec ''now'' False (foldOwedSettlement (Some p) n) (Some r)) = Some (JStr ''queued'')"
    and "map_option (\<lambda>e. fld e ''status'') (replay_rec ''now'' False n (replay_rec ''now'' False p (Some r))) = Some (JStr ''broadcasting'')"
  unfolding assms
  by (simp_all add: sample_owed_eval foldOwedSettlement_def closes_def patch_fields_def fld_def WRITABLE_OWED_STATUSES_def
      replay_rec_def reveal_fields_def promotes_def promotable_def filled_text_def still_queued_def promote_rec_def
      promoted_def discards_def patch_rec_def map_add_def)

lemma refused_reveal_drops_patch:
  fixes r :: fields
  defines "r \<equiv> [''status'' \<mapsto> JStr ''broadcasting'', ''txHex'' \<mapsto> JStr ''ee'']"
  assumes "p = sample_owed Op_reveal None" "n = sample_owed Op_patch (Some [''status'' \<mapsto> JStr ''broadcast''])"
  shows "replay_rec ''now'' False (foldOwedSettlement (Some p) n) (Some r) = Some r"
    and "map_option (\<lambda>e. fld e ''status'') (replay_rec ''now'' False n (replay_rec ''now'' False p (Some r))) = Some (JStr ''broadcast'')"
  unfolding assms
  by (simp_all add: sample_owed_eval foldOwedSettlement_def closes_def patch_fields_def fld_def WRITABLE_OWED_STATUSES_def
      replay_rec_def reveal_fields_def promotes_def promotable_def filled_text_def still_queued_def
      discards_def patch_rec_def map_add_def)

lemma second_reveal_drops_patch:
  fixes r :: fields
  defines "r \<equiv> [''status'' \<mapsto> JStr ''queued'', ''revealTxHex'' \<mapsto> JStr ''ee'']"
  assumes "p = sample_owed Op_reveal None"
    "n = foldOwedSettlement (Some (sample_owed Op_reveal None)) (sample_owed Op_patch (Some [''status'' \<mapsto> JStr ''broadcast'']))"
  shows "map_option (\<lambda>e. fld e ''status'') (replay_rec ''now'' False (foldOwedSettlement (Some p) n) (Some r)) = Some (JStr ''broadcasting'')"
    and "map_option (\<lambda>e. fld e ''status'') (replay_rec ''now'' False n (replay_rec ''now'' False p (Some r))) = Some (JStr ''broadcast'')"
  unfolding assms
  by (simp_all add: sample_owed_eval foldOwedSettlement_def closes_def patch_fields_def fld_def WRITABLE_OWED_STATUSES_def
      replay_rec_def reveal_fields_def promotes_def promotable_def filled_text_def still_queued_def promote_rec_def
      promoted_def discards_def patch_rec_def map_add_def)

section \<open>Recording, flushing and reading back\<close>

definition capOwedSettlements :: "owed list \<Rightarrow> owed list" where
  "capOwedSettlements j = drop (length j - OWED_SETTLEMENT_LIMIT) j"

definition recordOneOwedSettlement ::
  "string \<Rightarrow> rat \<Rightarrow> string option \<Rightarrow> string \<Rightarrow> owed_op \<Rightarrow> fields option \<Rightarrow> owed list \<Rightarrow> owed list" where
  "recordOneOwedSettlement key now wallet i op payload j =
     (if i = [] then j
      else (let prior = List.find (\<lambda>s. ow_tx s = i) j;
                folded = foldOwedSettlement prior (new_owed key now wallet i op payload)
            in if prior = Some folded then j
               else capOwedSettlements (List.filter (\<lambda>s. ow_tx s \<noteq> i) j @ [folded])))"

text \<open>One record for each pending transaction of a queue entry, each with a fresh id.\<close>

definition recordOwedSettlement ::
  "rat \<Rightarrow> string option \<Rightarrow> (string \<times> string) list \<Rightarrow> owed_op \<Rightarrow> fields option \<Rightarrow> owed list \<Rightarrow> owed list" where
  "recordOwedSettlement now wallet ids op payload j =
     foldl (\<lambda>l (i, key). recordOneOwedSettlement key now wallet i op payload l) j ids"

text \<open>
  A flush replays a copy of the journal; the journal it retires from is the one it finds when the replay is over,
  to which other hosts may have recorded in between.
\<close>

fun replay_pass :: "(nat \<Rightarrow> bool) \<Rightarrow> string \<Rightarrow> (string \<Rightarrow> bool) \<Rightarrow> txvault \<Rightarrow> owed list \<Rightarrow> txvault \<times> owed list" where
  "replay_pass up stamp busy v [] = (v, [])"
| "replay_pass up stamp busy v (r # rs) =
     (let (v1, verdict) = replay_owed up stamp busy v r; (v2, settled) = replay_pass up stamp busy v1 rs
      in (v2, if verdict \<noteq> Unreachable then r # settled else settled))"

definition flushOwedSettlements ::
  "(nat \<Rightarrow> bool) \<Rightarrow> string \<Rightarrow> (string \<Rightarrow> bool) \<Rightarrow> bool \<Rightarrow> txvault \<Rightarrow> owed list \<Rightarrow> owed list \<Rightarrow> txvault \<times> owed list" where
  "flushOwedSettlements up stamp busy has_save v journal current =
     (if journal = [] then (v, current)
      else (let (v1, settled) = replay_pass up stamp busy v journal in
        if settled = [] then (v1, current)
        else (let (v2, saved) = (if has_save then vt_save up v1 else (v1, True)) in
          if \<not> saved then (v2, current)
          else (v2, List.filter (\<lambda>s. s \<notin> set settled) current))))"

record owed_merge =
  om_held :: "string list"
  om_replaced :: "(owed \<times> owed) list"
  om_restored :: "owed list"

definition pruned_wallet :: "string list \<Rightarrow> owed \<Rightarrow> bool" where
  "pruned_wallet pruned r \<longleftrightarrow> (case ow_wallet r of None \<Rightarrow> False | Some w \<Rightarrow> w \<in> set pruned)"

definition merge_step :: "string list \<Rightarrow> owed list \<Rightarrow> owed_merge \<Rightarrow> owed \<Rightarrow> owed_merge" where
  "merge_step pruned live m r =
     (if ow_tx r = [] \<or> pruned_wallet pruned r then m
      else (let twin = map_of (rev (map (\<lambda>s. (ow_tx s, s)) live)) (ow_tx r) in
        case twin of
          Some l \<Rightarrow>
            if l \<notin> fst ` set (om_replaced m) \<and> owedRecordKey l \<noteq> owedRecordKey r
            then (let folded = foldOwedSettlement (Some r) l in
                  if folded = l then m else m\<lparr>om_replaced := (l, folded) # om_replaced m\<rparr>)
            else m
        | None \<Rightarrow>
            if ow_tx r \<in> set (om_held m) then m
            else m\<lparr>om_held := ow_tx r # om_held m, om_restored := om_restored m @ [r]\<rparr>))"

definition mergeOwedSettlements :: "string list \<Rightarrow> owed list \<Rightarrow> string list \<Rightarrow> owed list \<Rightarrow> owed list" where
  "mergeOwedSettlements pruned persisted known j =
     (let live = (if known = [] then j
            else List.filter (\<lambda>s. owedRecordKey s \<notin> set known \<or> owedRecordKey s \<in> set (map owedRecordKey persisted)) j)
      in if persisted = [] then live
         else (let m = foldl (merge_step pruned live) \<lparr> om_held = map ow_tx live, om_replaced = [], om_restored = [] \<rparr> persisted
               in capOwedSettlements (om_restored m
                    @ map (\<lambda>s. case map_of (om_replaced m) s of None \<Rightarrow> s | Some f \<Rightarrow> f) live)))"

text \<open>The journal half of a reload under a fresh lease: the stored copy wins, what never reached it is carried over.\<close>

definition carried_owed :: "string list \<Rightarrow> owed list \<Rightarrow> string list \<Rightarrow> owed list \<Rightarrow> owed list" where
  "carried_owed pruned st known j = List.filter (\<lambda>s. owedRecordKey s \<notin> set known
     \<and> owedRecordKey s \<notin> set (map owedRecordKey st) \<and> \<not> pruned_wallet pruned s) j"

text \<open>The live object of a stored record, and the carried write for its transaction.\<close>

definition adopted_owed :: "owed list \<Rightarrow> owed \<Rightarrow> owed" where
  "adopted_owed j s = (case map_of (rev (map (\<lambda>l. (owedRecordKey l, l)) j)) (owedRecordKey s) of None \<Rightarrow> s | Some l \<Rightarrow> l)"

definition later_owed :: "owed list \<Rightarrow> owed \<Rightarrow> owed option" where
  "later_owed carried s = map_of (rev (map (\<lambda>l. (ow_tx l, l)) carried)) (ow_tx s)"

definition keeps_stored :: "owed list \<Rightarrow> owed list \<Rightarrow> owed \<Rightarrow> bool" where
  "keeps_stored j carried s = (case later_owed carried s of
     None \<Rightarrow> True | Some l \<Rightarrow> foldOwedSettlement (Some (adopted_owed j s)) l = adopted_owed j s)"

definition carry :: "owed list \<Rightarrow> owed list \<Rightarrow> owed list \<Rightarrow> owed \<Rightarrow> owed option" where
  "carry j carried st l = (case List.find (\<lambda>s. later_owed carried s = Some l) (rev st) of
     None \<Rightarrow> Some l
   | Some s \<Rightarrow> (let folded = foldOwedSettlement (Some (adopted_owed j s)) l in
       if folded = adopted_owed j s then None else Some folded))"

definition adopt_settlements :: "string list \<Rightarrow> owed list \<Rightarrow> string list \<Rightarrow> owed list \<Rightarrow> owed list" where
  "adopt_settlements pruned settlements known j =
     (let st = List.filter (\<lambda>s. \<not> pruned_wallet pruned s) settlements;
          carried = carried_owed pruned st known j
      in capOwedSettlements (map (adopted_owed j) (List.filter (keeps_stored j carried) st)
           @ List.map_filter (carry j carried st) carried))"

section \<open>A flush loses nothing\<close>

text \<open>Each vault operation either took effect or left the record as it was; with saving on, disk follows memory.\<close>

definition synced :: "txvault \<Rightarrow> bool" where
  "synced v \<longleftrightarrow> (vt_auto v \<longrightarrow> vt_disk v = vt_mem v)"

definition only_at :: "string \<Rightarrow> txvault \<Rightarrow> txvault \<Rightarrow> bool" where
  "only_at i v w \<longleftrightarrow> (\<forall>j. j \<noteq> i \<longrightarrow> vt_mem w j = vt_mem v j) \<and> vt_auto w = vt_auto v \<and> (synced v \<longrightarrow> synced w)"

lemma only_at_refl [simp]: "only_at i v v"
  by (simp add: only_at_def)

lemma only_at_trans: "only_at i u v \<Longrightarrow> only_at i v w \<Longrightarrow> only_at i u w"
  by (simp add: only_at_def)

lemma vt_call_simps [simp]:
  "vt_mem (fst (vt_call up v)) = vt_mem v" "vt_disk (fst (vt_call up v)) = vt_disk v" "vt_auto (fst (vt_call up v)) = vt_auto v"
  by (simp_all add: vt_call_def)

lemma vt_call_only [simp]: "only_at i v (fst (vt_call up v))"
  by (simp add: only_at_def synced_def)

lemma vt_store_mem: "vt_mem (fst (vt_store up v i r)) = (if snd (vt_store up v i r) then (vt_mem v)(i := r) else vt_mem v)"
  by (simp add: vt_store_def vt_commit_def vt_call_def)

lemma vt_store_only [simp]: "only_at i v (fst (vt_store up v i r))"
  by (simp add: only_at_def synced_def vt_store_def vt_commit_def vt_call_def)

text \<open>A step on the record at \<open>i\<close> that has the effect \<open>f\<close> unless it reports the vault unreachable.\<close>

definition acts :: "string \<Rightarrow> (fields option \<Rightarrow> fields option) \<Rightarrow> txvault \<Rightarrow> txvault \<times> settle_verdict \<Rightarrow> bool" where
  "acts i f v x \<longleftrightarrow> only_at i v (fst x)
     \<and> vt_mem (fst x) i = (if snd x = Unreachable then vt_mem v i else f (vt_mem v i))"

lemma acts_call:
  assumes "\<And>w. vt_mem w = vt_mem v \<Longrightarrow> only_at i v w \<Longrightarrow> acts i f v (g w)" and "acts i f v (fst (vt_call up v), Unreachable)"
  shows "acts i f v (let (v1, ok) = vt_call up v in if \<not> ok then (v1, Unreachable) else g v1)"
  using assms(1) [of "fst (vt_call up v)"] assms(2) by (auto simp: split_beta Let_def)

lemma acts_unreachable [simp]: "only_at i v w \<Longrightarrow> vt_mem w i = vt_mem v i \<Longrightarrow> acts i f v (w, Unreachable)"
  by (simp add: acts_def)

lemma acts_done: "only_at i v w \<Longrightarrow> vt_mem w i = f (vt_mem v i) \<Longrightarrow> x \<noteq> Unreachable \<Longrightarrow> acts i f v (w, x)"
  by (simp add: acts_def)

lemma acts_store:
  assumes "vt_mem w = vt_mem v" "only_at i v w" "f (vt_mem v i) = r"
  shows "acts i f v (case vt_store up w i r of (v2, put) \<Rightarrow> (v2, if put then Settled else Unreachable))"
  using assms only_at_trans [OF assms(2) vt_store_only] by (auto simp: acts_def split_beta Let_def vt_store_mem)

lemma patch_acts:
  "acts i (patch_rec p) v (applyPendingTxPatch up v i p)"
  unfolding applyPendingTxPatch_def
  by (rule acts_call) (auto split: option.splits intro!: acts_done acts_store)

lemma promotion_acts:
  "acts i (promote_rec rv) v (applyRevealPromotion up v i rv)"
  unfolding applyRevealPromotion_def
  by (rule acts_call) (auto split: option.splits intro!: acts_done acts_store simp: promote_rec_def promotes_def)

lemma discard_acts:
  "acts i (discard_rec stamp b) v (discard_call up stamp b v i)"
  unfolding discard_call_def
  by (rule acts_call) (auto split: discarded.splits intro!: acts_done acts_store simp: discard_rec_def)

lemma patch_settles:
  "snd (applyPendingTxPatch up v i p) = Settled \<Longrightarrow> open_record (vt_mem v i)"
  "snd (applyPendingTxPatch up v i p) = Closed \<Longrightarrow> \<not> open_record (vt_mem v i)"
  "snd (applyPendingTxPatch up v i p) \<noteq> Unowned"
  by (auto simp: applyPendingTxPatch_def split_beta Let_def split: if_splits option.splits)

lemma promotion_settles:
  "snd (applyRevealPromotion up v i rv) = Settled \<Longrightarrow> promotes rv (vt_mem v i)"
  "snd (applyRevealPromotion up v i rv) = Closed \<Longrightarrow> \<not> promotes rv (vt_mem v i)"
  "snd (applyRevealPromotion up v i rv) \<noteq> Unowned"
  by (auto simp: applyRevealPromotion_def split_beta Let_def promotes_def split: if_splits option.splits)

lemma discard_verdict:
  "snd (discard_call up stamp b v i) \<in> {Settled, Unreachable}"
  by (auto simp: discard_call_def split_beta Let_def split: discarded.splits)

text \<open>Replaying one write: it has its whole effect, or can be replayed again for the same result.\<close>

definition replays :: "string \<Rightarrow> bool \<Rightarrow> owed \<Rightarrow> txvault \<Rightarrow> txvault \<times> settle_verdict \<Rightarrow> bool" where
  "replays stamp b o' v x \<longleftrightarrow> only_at (ow_tx o') v (fst x)
     \<and> replay_rec stamp b o' (vt_mem (fst x) (ow_tx o')) = replay_rec stamp b o' (vt_mem v (ow_tx o'))
     \<and> (snd x \<noteq> Unreachable \<longrightarrow> vt_mem (fst x) (ow_tx o') = replay_rec stamp b o' (vt_mem v (ow_tx o')))"

lemma replays_discard:
  assumes "wf_owed o'" "discards o'" and "only_at (ow_tx o') v w"
    and "replay_rec stamp b o' (vt_mem w (ow_tx o')) = replay_rec stamp b o' (vt_mem v (ow_tx o'))"
    and "discard_rec stamp b (vt_mem w (ow_tx o')) = replay_rec stamp b o' (vt_mem v (ow_tx o'))"
  shows "replays stamp b o' v (discard_call up stamp b w (ow_tx o'))"
  using discard_acts [of "ow_tx o'" stamp b w up] assms(3-5) replay_twice [OF assms(1), of stamp b]
  by (cases "snd (discard_call up stamp b w (ow_tx o')) = Unreachable")
    (auto simp: replays_def acts_def intro: only_at_trans)

lemma reveal_replays:
  assumes "wf_owed o'" "ow_op o' = Op_reveal"
  shows "replays stamp (busy (ow_tx o')) o' v (replay_owed up stamp busy v o')"
proof -
  let ?i = "ow_tx o'" and ?r = "vt_mem v (ow_tx o')" and ?b = "busy (ow_tx o')" and ?rv = "reveal_fields o'"
  define p where "p = applyRevealPromotion up v ?i ?rv"
  define q where "q = and_then p (snd p = Settled \<and> ow_patch o' \<noteq> None) (\<lambda>w. applyPendingTxPatch up w ?i (patch_fields o'))"
  have run: "replay_owed up stamp busy v o' =
      and_then q (snd q = Settled \<and> ow_discard o') (\<lambda>w. discard_call up stamp ?b w ?i)"
    using assms(2) by (simp add: replay_owed_def p_def q_def reveal_fields_def Let_def)
  have pa: "acts ?i (promote_rec ?rv) v p" unfolding p_def by (rule promotion_acts)
  have d: "discards o' = ow_discard o'" using assms(2) by (simp add: discards_def)
  show ?thesis
  proof (cases "snd p = Settled")
    case False
    then have x: "replay_owed up stamp busy v o' = p" by (simp add: run q_def and_then_def)
    have "snd p \<noteq> Unreachable \<longrightarrow> \<not> promotes ?rv ?r"
      using False promotion_settles [of up v ?i ?rv] by (cases "snd p") (auto simp: p_def)
    then show ?thesis using pa assms(2)
      by (cases "snd p = Unreachable") (auto simp: replays_def x acts_def replay_rec_def)
  next
    case True
    have pr: "promotes ?rv ?r" using True promotion_settles(1) by (simp add: p_def)
    have pm: "vt_mem (fst p) ?i = promote_rec ?rv ?r" "only_at ?i v (fst p)" using pa True by (simp_all add: acts_def)
    have rep: "replay_rec stamp ?b o' ?r = (let r2 = patch_rec (patch_fields o') (promote_rec ?rv ?r)
        in if ow_discard o' then discard_rec stamp ?b r2 else r2)"
      using pr assms(2) by (simp add: replay_rec_def d)
    have qa: "acts ?i (patch_rec (patch_fields o')) (fst p) q" "snd q \<noteq> Unreachable \<Longrightarrow> snd q = Settled"
      using patch_acts [of ?i "patch_fields o'" "fst p" up] patch_settles [of up "fst p" ?i "patch_fields o'"]
        promote_rec_open [OF pr] pm True
      by (cases "ow_patch o'"; cases "snd (applyPendingTxPatch up (fst p) ?i (patch_fields o'))";
        auto simp: q_def and_then_def acts_def)+
    have qo: "only_at ?i v (fst q)" using qa(1) pm(2) by (auto simp: acts_def intro: only_at_trans)
    show ?thesis
    proof (cases "snd q = Settled")
      case False
      then have "snd q = Unreachable" using qa(2) by blast
      then show ?thesis using qa(1) pm qo replay_after_promotion [OF assms(2), of stamp ?b ?r]
        by (simp add: replays_def run and_then_def acts_def)
    next
      case settled: True
      then have qm: "vt_mem (fst q) ?i = patch_rec (patch_fields o') (promote_rec ?rv ?r)"
        using qa(1) pm by (simp add: acts_def)
      note again = replay_after_patch [OF assms pr, of stamp ?b]
      show ?thesis
      proof (cases "ow_discard o'")
        case True
        have "replays stamp ?b o' v (discard_call up stamp ?b (fst q) ?i)"
          by (rule replays_discard [OF assms(1) _ qo]) (simp_all add: d True qm again rep)
        then show ?thesis using settled True by (simp add: run and_then_def)
      next
        case False
        then show ?thesis using settled qm qo again rep by (simp add: replays_def run and_then_def)
      qed
    qed
  qed
qed

lemma discard_replays:
  assumes "wf_owed o'" "ow_op o' = Op_discard"
  shows "replays stamp (busy (ow_tx o')) o' v (replay_owed up stamp busy v o')"
proof -
  let ?i = "ow_tx o'" and ?r = "vt_mem v (ow_tx o')" and ?b = "busy (ow_tx o')"
  define q where "q = (if ow_patch o' = None then (v, Settled) else applyPendingTxPatch up v ?i (patch_fields o'))"
  have run: "replay_owed up stamp busy v o' = and_then q (snd q \<noteq> Unreachable) (\<lambda>w. discard_call up stamp ?b w ?i)"
    using assms(2) by (simp add: replay_owed_def q_def Let_def)
  have d: "discards o'" using assms(2) by (simp add: discards_def)
  have rep: "replay_rec stamp ?b o' ?r = discard_rec stamp ?b (patch_rec (patch_fields o') ?r)"
    using assms(2) d by (simp add: replay_rec_def)
  have qa: "acts ?i (patch_rec (patch_fields o')) v q"
    using patch_acts [of ?i "patch_fields o'" v up] by (auto simp: q_def acts_def)
  show ?thesis
  proof (cases "snd q = Unreachable")
    case True
    then show ?thesis using qa by (simp add: replays_def run and_then_def acts_def)
  next
    case False
    have "replays stamp ?b o' v (discard_call up stamp ?b (fst q) ?i)"
      using qa False replay_after_plain_patch [of o' stamp ?b ?r] assms(2)
      by (intro replays_discard [OF assms(1) d]) (simp_all add: acts_def rep)
    then show ?thesis using False by (simp add: run and_then_def)
  qed
qed

lemma patch_replays:
  assumes "wf_owed o'" "ow_op o' = Op_patch"
  shows "replays stamp (busy (ow_tx o')) o' v (replay_owed up stamp busy v o')"
  using patch_acts [of "ow_tx o'" "patch_fields o'" v up] assms(2)
  by (cases "snd (applyPendingTxPatch up v (ow_tx o') (patch_fields o')) = Unreachable")
    (auto simp: replays_def replay_owed_def replay_rec_def discards_def acts_def)

lemma replay_owed_replays: "wf_owed o' \<Longrightarrow> replays stamp (busy (ow_tx o')) o' v (replay_owed up stamp busy v o')"
  by (cases "ow_op o'") (simp_all add: reveal_replays discard_replays patch_replays)

definition same_elsewhere :: "owed list \<Rightarrow> txvault \<Rightarrow> txvault \<Rightarrow> bool" where
  "same_elsewhere rs v w \<longleftrightarrow> (\<forall>i. i \<notin> ow_tx ` set rs \<longrightarrow> vt_mem w i = vt_mem v i)
     \<and> vt_auto w = vt_auto v \<and> (synced v \<longrightarrow> synced w)"

lemma replay_pass_replays:
  assumes "list_all wf_owed rs" and "distinct (map ow_tx rs)" and "replay_pass up stamp busy v rs = (w, settled)"
  shows "same_elsewhere rs v w \<and> set settled \<subseteq> set rs
    \<and> (\<forall>r \<in> set rs. replay_rec stamp (busy (ow_tx r)) r (vt_mem w (ow_tx r)) = replay_rec stamp (busy (ow_tx r)) r (vt_mem v (ow_tx r)))
    \<and> (\<forall>r \<in> set settled. vt_mem w (ow_tx r) = replay_rec stamp (busy (ow_tx r)) r (vt_mem v (ow_tx r)))"
  using assms
proof (induction rs arbitrary: v w settled)
  case (Cons r rs)
  obtain v1 x where one: "replay_owed up stamp busy v r = (v1, x)" by fastforce
  obtain s where rest: "replay_pass up stamp busy v1 rs = (w, s)" and s: "settled = (if x \<noteq> Unreachable then r # s else s)"
    using Cons.prems(3) by (auto simp: one split: prod.splits)
  note ih = Cons.IH [OF _ _ rest]
  have r1: "replays stamp (busy (ow_tx r)) r v (v1, x)"
    using replay_owed_replays [of r stamp busy v up] Cons.prems(1) by (simp add: one)
  have same: "vt_mem v1 i = vt_mem v i" if "i \<noteq> ow_tx r" for i
    using r1 that by (simp add: replays_def only_at_def)
  have other: "ow_tx q \<noteq> ow_tx r" if "q \<in> set rs" for q using that Cons.prems(2) by (auto simp: image_iff)
  have head: "vt_mem w (ow_tx r) = vt_mem v1 (ow_tx r)"
    using ih Cons.prems(1,2) by (auto simp: same_elsewhere_def)
  show ?case using ih Cons.prems(1,2) r1 s
    by (auto simp: same_elsewhere_def replays_def only_at_def head same other)
qed (simp add: same_elsewhere_def)

lemma flush_cases:
  assumes "flushOwedSettlements up stamp busy has_save v j current = (w, j')"
  obtains (kept) v1 settled where "replay_pass up stamp busy v j = (v1, settled)" "vt_mem w = vt_mem v1" "j' = current"
  | (retired) v1 settled where "replay_pass up stamp busy v j = (v1, settled)" "vt_mem w = vt_mem v1"
      "vt_disk w = (if has_save then vt_mem v1 else vt_disk v1)" "j' = List.filter (\<lambda>s. s \<notin> set settled) current"
proof (cases "j = []")
  case True
  then show thesis using assms kept by (auto simp: flushOwedSettlements_def)
next
  case False
  obtain v1 settled where pass: "replay_pass up stamp busy v j = (v1, settled)" by fastforce
  have "\<not> snd (vt_save up v1) \<longrightarrow> vt_mem (fst (vt_save up v1)) = vt_mem v1"
    "snd (vt_save up v1) \<longrightarrow> vt_mem (fst (vt_save up v1)) = vt_mem v1 \<and> vt_disk (fst (vt_save up v1)) = vt_mem v1"
    by (simp_all add: vt_save_def vt_call_def)
  then show thesis
    using assms False pass kept [of v1 settled] retired [of v1 settled]
    by (auto simp: flushOwedSettlements_def split_beta Let_def split: if_splits)
qed

text \<open>
  Property C16. A flush of the journal loses nothing, whatever calls the vault refuses on the way. Records made
  while it ran stay; a record it leaves in the journal would still bring its transaction where it would have brought
  it before; a record it retires has had its whole effect, and that effect is on disk; and no other pending
  transaction changes.
\<close>

theorem flush_loses_nothing:
  assumes "list_all wf_owed j" and "distinct (map ow_tx j)" and "has_save \<or> vt_auto v \<and> synced v"
    and "flushOwedSettlements up stamp busy has_save v j current = (w, j')"
  shows "(\<forall>r \<in> set current. r \<notin> set j \<longrightarrow> r \<in> set j')
    \<and> (\<forall>r \<in> set j. replay_rec stamp (busy (ow_tx r)) r (vt_mem w (ow_tx r)) = replay_rec stamp (busy (ow_tx r)) r (vt_mem v (ow_tx r)))
    \<and> (\<forall>r \<in> set current. r \<notin> set j' \<longrightarrow> vt_mem w (ow_tx r) = replay_rec stamp (busy (ow_tx r)) r (vt_mem v (ow_tx r))
        \<and> vt_disk w (ow_tx r) = vt_mem w (ow_tx r))
    \<and> (\<forall>i. i \<notin> ow_tx ` set j \<longrightarrow> vt_mem w i = vt_mem v i)"
  using assms(4)
proof (cases rule: flush_cases)
  case (kept v1 settled)
  with replay_pass_replays [OF assms(1,2) kept(1)] show ?thesis by (auto simp: same_elsewhere_def)
next
  case (retired v1 settled)
  note p = replay_pass_replays [OF assms(1,2) retired(1)]
  have "vt_disk w = vt_mem w"
    using p retired(2,3) assms(3) by (auto simp: same_elsewhere_def synced_def)
  with p retired show ?thesis by (auto simp: same_elsewhere_def)
qed

text \<open>A journal with a patch and a discard, flushed into a vault that refuses the third call.\<close>

definition sample_journal :: "owed list" where
  "sample_journal =
    [new_owed ''s1'' 0 None ''t1'' Op_patch (Some [''status'' \<mapsto> JStr ''broadcast'']),
     new_owed ''s2'' 1 None ''t2'' Op_discard None]"

definition sample_vault :: txvault where
  "sample_vault = \<lparr> vt_mem = [''t1'' \<mapsto> [''status'' \<mapsto> JStr ''broadcasting''], ''t2'' \<mapsto> [''status'' \<mapsto> JStr ''queued'']],
     vt_disk = Map.empty, vt_auto = False, vt_calls = 0 \<rparr>"

theorem flush_loses_nothing_witness:
  "\<exists>w. flushOwedSettlements (\<lambda>n. n \<noteq> 2) ''now'' (\<lambda>_. False) True sample_vault sample_journal sample_journal
      = (w, [new_owed ''s2'' 1 None ''t2'' Op_discard None])
    \<and> vt_disk w ''t1'' = Some [''status'' \<mapsto> JStr ''broadcast'']"
proof -
  let ?f = "flushOwedSettlements (\<lambda>n. n \<noteq> 2) ''now'' (\<lambda>_. False) True sample_vault sample_journal sample_journal"
  have j: "list_all wf_owed sample_journal" "distinct (map ow_tx sample_journal)"
    by (simp_all add: sample_journal_def new_owed_def wf_owed_def wf_patch_def patch_fields_def)
  have f: "snd ?f = [new_owed ''s2'' 1 None ''t2'' Op_discard None]"
    by (simp add: flushOwedSettlements_def sample_journal_def sample_vault_def new_owed_def replay_owed_def
        applyPendingTxPatch_def vt_call_def vt_store_def vt_commit_def vt_save_def discard_call_def and_then_def
        patch_fields_def still_queued_def fld_def)
  have "vt_disk (fst ?f) ''t1'' = replay_rec ''now'' False (new_owed ''s1'' 0 None ''t1'' Op_patch (Some [''status'' \<mapsto> JStr ''broadcast''])) (vt_mem sample_vault ''t1'')"
    using flush_loses_nothing [OF j, of True sample_vault "\<lambda>n. n \<noteq> 2" "''now''" "\<lambda>_. False" sample_journal "fst ?f" "snd ?f"] f
    by (simp add: sample_journal_def new_owed_def)
  also have "\<dots> = Some [''status'' \<mapsto> JStr ''broadcast'']"
    by (simp add: replay_rec_def new_owed_def discards_def patch_rec_def sample_vault_def still_queued_def fld_def patch_fields_def)
  finally show ?thesis using f by (metis prod.collapse)
qed

section \<open>The journal stays small\<close>

text \<open>
  The live journal of a process and the copy in storage, over everything that happens to them: a write is recorded
  under a fresh id, a flush retires from the journal, a wallet's records are dropped, the journal is saved, a new
  process starts empty, and a load or a reload folds the stored copy in, with any set of pruned wallets and of
  keys known to have been stored.
\<close>

inductive journal_run :: "owed list \<Rightarrow> owed list \<Rightarrow> bool" where
  jr_start: "journal_run [] []"
| jr_record: "journal_run j s \<Longrightarrow> key \<noteq> [] \<Longrightarrow> key \<notin> ow_id ` (set j \<union> set s)
    \<Longrightarrow> wf_patch (case payload of None \<Rightarrow> Map.empty | Some p \<Rightarrow> p)
    \<Longrightarrow> journal_run (recordOneOwedSettlement key now wallet i op payload j) s"
| jr_flush: "journal_run j s \<Longrightarrow> journal_run (snd (flushOwedSettlements up stamp busy has_save v snapshot j)) s"
| jr_prune: "journal_run j s \<Longrightarrow> journal_run (List.filter (\<lambda>r. ow_wallet r \<noteq> Some w) j) s"
| jr_save: "journal_run j s \<Longrightarrow> journal_run j j"
| jr_boot: "journal_run j s \<Longrightarrow> journal_run [] s"
| jr_merge: "journal_run j s \<Longrightarrow> journal_run (mergeOwedSettlements pruned s known j) s"
| jr_adopt: "journal_run j s \<Longrightarrow> journal_run (adopt_settlements pruned s known j) s"

definition one_each :: "owed list \<Rightarrow> bool" where
  "one_each j \<longleftrightarrow> distinct (map ow_tx j) \<and> length j \<le> OWED_SETTLEMENT_LIMIT"

definition ids_of :: "owed list \<Rightarrow> (string \<times> string) set" where
  "ids_of j = (\<lambda>r. (ow_id r, ow_tx r)) ` set j"

text \<open>An id names one transaction wherever it is found, and no id is empty.\<close>

definition ids_ok :: "owed list \<Rightarrow> owed list \<Rightarrow> bool" where
  "ids_ok j s \<longleftrightarrow> single_valued (ids_of j \<union> ids_of s) \<and> [] \<notin> fst ` (ids_of j \<union> ids_of s)"

lemma one_each_cap: "distinct (map ow_tx j) \<Longrightarrow> one_each (capOwedSettlements j)"
  by (auto simp: one_each_def capOwedSettlements_def drop_map [symmetric] distinct_drop)

lemma one_each_filter: "one_each j \<Longrightarrow> one_each (List.filter P j)"
  by (auto simp: one_each_def distinct_map_filter intro: le_trans [OF length_filter_le])

lemma ids_ok_mono: "ids_ok j s \<Longrightarrow> ids_of j' \<subseteq> ids_of j \<union> ids_of s \<Longrightarrow> ids_of s' \<subseteq> ids_of j \<union> ids_of s \<Longrightarrow> ids_ok j' s'"
  unfolding ids_ok_def by (rule conjI, erule single_valued_subset [rotated, OF conjunct1]) auto

lemma ids_of_filter: "ids_of (List.filter P j) \<subseteq> ids_of j"
  by (auto simp: ids_of_def)

lemma ids_of_cap: "ids_of (capOwedSettlements j) \<subseteq> ids_of j"
  by (auto simp: ids_of_def capOwedSettlements_def dest: in_set_dropD)

lemma fold_tx: "ow_tx (foldOwedSettlement p n) = ow_tx n"
  by (simp add: foldOwedSettlement_def split: option.splits)

lemma fold_id_cases: "foldOwedSettlement (Some p) n = p \<or> ow_id (foldOwedSettlement (Some p) n) = ow_id n"
  by (simp add: foldOwedSettlement_def)

lemma ids_of_append [simp]: "ids_of (xs @ ys) = ids_of xs \<union> ids_of ys"
  by (auto simp: ids_of_def)

lemma ids_of_sub: "set xs \<subseteq> set ys \<Longrightarrow> ids_of xs \<subseteq> ids_of ys"
  unfolding ids_of_def by (rule image_mono)

lemma ids_of_each: "(\<And>r. r \<in> set xs \<Longrightarrow> ids_of [f r] \<subseteq> A) \<Longrightarrow> ids_of (map f xs) \<subseteq> A"
  by (auto simp: ids_of_def)

lemma ids_of_all: "(\<And>r. r \<in> set xs \<Longrightarrow> ids_of [r] \<subseteq> A) \<Longrightarrow> ids_of xs \<subseteq> A"
  by (auto simp: ids_of_def)

lemma fold_ids: "ids_of [foldOwedSettlement (Some p) n] \<subseteq> ids_of [p] \<union> ids_of [n]"
proof (cases "foldOwedSettlement (Some p) n = p")
  case False
  then have "ids_of [foldOwedSettlement (Some p) n] = ids_of [n]"
    using fold_id_cases [of p n] fold_tx [of "Some p" n] by (simp add: ids_of_def)
  then show ?thesis by simp
qed simp

lemma wf_patch_add: "wf_patch p \<Longrightarrow> wf_patch q \<Longrightarrow> wf_patch (p ++ q)"
  by (auto simp: wf_patch_def map_add_def split: option.splits)

lemma fold_wf: "wf_owed p \<Longrightarrow> wf_owed n \<Longrightarrow> wf_owed (foldOwedSettlement (Some p) n)"
  by (auto simp: foldOwedSettlement_def wf_owed_def intro: wf_patch_add)

lemma new_owed_simps [simp]:
  "ow_id (new_owed key now wallet i op payload) = key" "ow_tx (new_owed key now wallet i op payload) = i"
  by (simp_all add: new_owed_def)

lemma new_owed_wf: "wf_patch (case payload of None \<Rightarrow> Map.empty | Some p \<Rightarrow> p) \<Longrightarrow> wf_owed (new_owed key now wallet i op payload)"
  by (auto simp: new_owed_def wf_owed_def patch_fields_def wf_patch_def split: option.splits)

text \<open>A journal in shape, and what recording keeps of it.\<close>

definition shaped :: "owed list \<Rightarrow> bool" where
  "shaped j \<longleftrightarrow> one_each j \<and> list_all wf_owed j"

lemma shaped_filter: "shaped j \<Longrightarrow> shaped (List.filter P j)"
  by (auto simp: shaped_def list_all_iff intro: one_each_filter)

lemma shaped_cap: "distinct (map ow_tx j) \<Longrightarrow> list_all wf_owed j \<Longrightarrow> shaped (capOwedSettlements j)"
  unfolding shaped_def using one_each_cap [of j] by (auto simp: list_all_iff capOwedSettlements_def dest: in_set_dropD)

lemma find_tx: "List.find (\<lambda>s. ow_tx s = i) j = Some p \<Longrightarrow> p \<in> set j \<and> ow_tx p = i"
  by (auto simp: find_Some_iff)

lemma record_folded:
  assumes "list_all wf_owed j" and "wf_patch (case payload of None \<Rightarrow> Map.empty | Some p \<Rightarrow> p)"
    and n_def: "n = new_owed key now wallet i op payload"
  shows "wf_owed (foldOwedSettlement (List.find (\<lambda>s. ow_tx s = i) j) n)"
    and "ids_of [foldOwedSettlement (List.find (\<lambda>s. ow_tx s = i) j) n] \<subseteq> insert (key, i) (ids_of j)"
proof -
  have n: "wf_owed n" "ow_id n = key" "ow_tx n = i" using assms(2) by (simp_all add: n_def new_owed_wf)
  show "wf_owed (foldOwedSettlement (List.find (\<lambda>s. ow_tx s = i) j) n)"
    using n(1) assms(1) find_tx [of i j]
    by (cases "List.find (\<lambda>s. ow_tx s = i) j") (auto simp: foldOwedSettlement_def [of None] list_all_iff intro!: fold_wf)
  show "ids_of [foldOwedSettlement (List.find (\<lambda>s. ow_tx s = i) j) n] \<subseteq> insert (key, i) (ids_of j)"
  proof (cases "List.find (\<lambda>s. ow_tx s = i) j")
    case None
    then show ?thesis using n by (simp add: ids_of_def foldOwedSettlement_def)
  next
    case (Some p)
    have "foldOwedSettlement (Some p) n = p \<or> ids_of [foldOwedSettlement (Some p) n] = {(key, i)}"
      using fold_id_cases [of p n] fold_tx [of "Some p" n] n(2,3) by (simp add: ids_of_def)
    moreover have "ids_of [p] \<subseteq> ids_of j" using find_tx [OF Some] by (auto simp: ids_of_def intro!: image_eqI [of _ _ p])
    ultimately show ?thesis unfolding Some by fastforce
  qed
qed

lemma record_shaped:
  assumes "shaped j" and "wf_patch (case payload of None \<Rightarrow> Map.empty | Some p \<Rightarrow> p)"
  shows "shaped (recordOneOwedSettlement key now wallet i op payload j)"
proof -
  let ?f = "foldOwedSettlement (List.find (\<lambda>s. ow_tx s = i) j) (new_owed key now wallet i op payload)"
  have "distinct (map ow_tx (List.filter (\<lambda>s. ow_tx s \<noteq> i) j @ [?f]))"
    using assms(1) fold_tx by (auto simp: shaped_def one_each_def distinct_map_filter)
  moreover have "list_all wf_owed (List.filter (\<lambda>s. ow_tx s \<noteq> i) j @ [?f])"
    using assms record_folded(1) [OF _ assms(2) refl] by (auto simp: shaped_def list_all_iff)
  ultimately show ?thesis using assms(1) by (auto simp: recordOneOwedSettlement_def Let_def intro: shaped_cap)
qed

lemma record_ids:
  assumes "list_all wf_owed j" "wf_patch (case payload of None \<Rightarrow> Map.empty | Some p \<Rightarrow> p)"
  shows "ids_of (recordOneOwedSettlement key now wallet i op payload j) \<subseteq> insert (key, i) (ids_of j)"
proof -
  let ?f = "foldOwedSettlement (List.find (\<lambda>s. ow_tx s = i) j) (new_owed key now wallet i op payload)"
  have "ids_of (List.filter (\<lambda>s. ow_tx s \<noteq> i) j @ [?f]) \<subseteq> insert (key, i) (ids_of j)"
    using record_folded(2) [OF assms refl, of i key now wallet op] by (auto simp: ids_of_def)
  then have "ids_of (capOwedSettlements (List.filter (\<lambda>s. ow_tx s \<noteq> i) j @ [?f])) \<subseteq> insert (key, i) (ids_of j)"
    using ids_of_cap by (rule subset_trans [rotated])
  then show ?thesis by (auto simp: recordOneOwedSettlement_def Let_def simp del: ids_of_append)
qed

text \<open>The load: what the loop over the stored records has built.\<close>

lemma map_of_keyed:
  "map_of (rev (map (\<lambda>s. (f s, s)) xs)) t = Some l \<Longrightarrow> l \<in> set xs \<and> f l = t"
  "map_of (rev (map (\<lambda>s. (f s, s)) xs)) t = None \<longleftrightarrow> t \<notin> f ` set xs"
  by (auto dest!: map_of_SomeD simp: map_of_eq_None_iff image_iff)

definition merge_inv :: "owed list \<Rightarrow> owed list \<Rightarrow> owed_merge \<Rightarrow> bool" where
  "merge_inv live persisted m \<longleftrightarrow>
     distinct (map ow_tx (om_restored m)) \<and> set (om_held m) = ow_tx ` (set live \<union> set (om_restored m))
     \<and> ow_tx ` set live \<inter> ow_tx ` set (om_restored m) = {} \<and> set (om_restored m) \<subseteq> set persisted
     \<and> (\<forall>(l, f) \<in> set (om_replaced m). ow_tx f = ow_tx l \<and> wf_owed f \<and> ids_of [f] \<subseteq> ids_of live \<union> ids_of persisted)"

lemma merge_step_inv:
  assumes "merge_inv live persisted m" "r \<in> set persisted" "list_all wf_owed live" "wf_owed r"
  shows "merge_inv live persisted (merge_step pruned live m r)"
proof (cases "map_of (rev (map (\<lambda>s. (ow_tx s, s)) live)) (ow_tx r)")
  case None
  then have "ow_tx r \<notin> ow_tx ` set live" by (simp add: map_of_keyed(2))
  with assms(1,2) show ?thesis by (auto simp: merge_step_def None merge_inv_def Let_def)
next
  case (Some l)
  note l = map_of_keyed(1) [OF Some]
  let ?f = "foldOwedSettlement (Some r) l"
  have "wf_owed ?f" using assms(3,4) l by (auto simp: list_all_iff intro: fold_wf)
  moreover have "ids_of [?f] \<subseteq> ids_of live \<union> ids_of persisted"
    using fold_ids [of r l] ids_of_sub [of "[r]" persisted] ids_of_sub [of "[l]" live] assms(2) l by auto
  ultimately show ?thesis using assms(1) fold_tx [of "Some r" l]
    by (auto simp: merge_step_def Some merge_inv_def Let_def)
qed

lemma merge_loop_inv:
  assumes "list_all wf_owed live" "list_all wf_owed rs" "set rs \<subseteq> set persisted" "merge_inv live persisted m"
  shows "merge_inv live persisted (foldl (merge_step pruned live) m rs)"
  using assms(2-4) by (induction rs arbitrary: m) (simp_all add: merge_step_inv assms(1))

lemma merge_shaped:
  assumes "shaped j" "shaped s"
  shows "shaped (mergeOwedSettlements pruned s known j) \<and> ids_of (mergeOwedSettlements pruned s known j) \<subseteq> ids_of j \<union> ids_of s"
proof -
  define live where "live = (if known = [] then j
    else List.filter (\<lambda>r. owedRecordKey r \<notin> set known \<or> owedRecordKey r \<in> set (map owedRecordKey s)) j)"
  define m where "m = foldl (merge_step pruned live) \<lparr> om_held = map ow_tx live, om_replaced = [], om_restored = [] \<rparr> s"
  define out where "out = om_restored m @ map (\<lambda>r. case map_of (om_replaced m) r of None \<Rightarrow> r | Some f \<Rightarrow> f) live"
  have live: "shaped live" "ids_of live \<subseteq> ids_of j" using assms(1) ids_of_filter by (auto simp: live_def intro: shaped_filter)
  have inv: "merge_inv live s m" unfolding m_def
    using live(1) assms(2) by (intro merge_loop_inv) (auto simp: shaped_def merge_inv_def)
  have rep: "ow_tx f = ow_tx l \<and> wf_owed f \<and> ids_of [f] \<subseteq> ids_of live \<union> ids_of s" if "map_of (om_replaced m) l = Some f" for l f
    using inv map_of_SomeD [OF that] by (auto simp: merge_inv_def)
  have same: "ow_tx (case map_of (om_replaced m) r of None \<Rightarrow> r | Some f \<Rightarrow> f) = ow_tx r" for r
    by (auto split: option.splits dest: rep)
  have "map ow_tx out = map ow_tx (om_restored m) @ map ow_tx live" by (simp add: out_def same)
  moreover have "distinct (map ow_tx (om_restored m) @ map ow_tx live)"
    using inv live(1) by (auto simp: merge_inv_def shaped_def one_each_def)
  moreover have "list_all wf_owed out"
    using inv live(1) assms(2) by (auto simp: out_def list_all_iff shaped_def merge_inv_def split: option.splits dest: rep)
  ultimately have "shaped (capOwedSettlements out)" by (intro shaped_cap) simp_all
  moreover have "ids_of out \<subseteq> ids_of j \<union> ids_of s"
  proof -
    have "ids_of (om_restored m) \<subseteq> ids_of s" using inv by (intro ids_of_sub) (simp add: merge_inv_def)
    moreover have "ids_of [case map_of (om_replaced m) r of None \<Rightarrow> r | Some f \<Rightarrow> f] \<subseteq> ids_of j \<union> ids_of s" if "r \<in> set live" for r
    proof (cases "map_of (om_replaced m) r")
      case None
      then show ?thesis using that live(2) ids_of_sub [of "[r]" live] by auto
    next
      case (Some f)
      then show ?thesis using rep [OF Some] live(2) by auto
    qed
    ultimately show ?thesis unfolding out_def ids_of_append by (intro Un_least ids_of_each) auto
  qed
  ultimately show ?thesis
    using live ids_of_cap [of out]
    by (auto simp: mergeOwedSettlements_def Let_def live_def [symmetric] m_def [symmetric] out_def [symmetric])
qed

text \<open>The reload: a kept stored record and a carried one never name the same transaction.\<close>

lemma set_map_filter: "y \<in> set (List.map_filter g xs) \<longleftrightarrow> (\<exists>x \<in> set xs. g x = Some y)"
  by (force simp: List.map_filter_def)

lemma distinct_map_filter_key:
  assumes "distinct (map k xs)" and "\<And>x y. x \<in> set xs \<Longrightarrow> g x = Some y \<Longrightarrow> k y = k x"
  shows "distinct (map k (List.map_filter g xs))"
  using assms
proof (induction xs)
  case (Cons x xs)
  have d: "distinct (map k (List.map_filter g xs))" using Cons by simp
  show ?case
  proof (cases "g x")
    case (Some z)
    have "k z \<notin> k ` set (List.map_filter g xs)"
    proof
      assume "k z \<in> k ` set (List.map_filter g xs)"
      then obtain x' y where "x' \<in> set xs" "g x' = Some y" "k z = k y" by (auto simp: set_map_filter)
      then have "k x \<in> k ` set xs" using Cons.prems(2) [of x z] Cons.prems(2) [of x' y] Some by auto
      then show False using Cons.prems(1) by auto
    qed
    then show ?thesis using d Some by (simp add: map_filter_simps)
  qed (use d in \<open>simp add: map_filter_simps\<close>)
qed (simp add: map_filter_simps)

lemma distinct_key: "distinct (map f xs) \<Longrightarrow> x \<in> set xs \<Longrightarrow> y \<in> set xs \<Longrightarrow> f x = f y \<Longrightarrow> x = y"
  by (auto simp: distinct_map inj_on_def)

lemma ids_ok_tx:
  assumes "ids_ok j s" "a \<in> set j" "b \<in> set s" "owedRecordKey a = owedRecordKey b"
  shows "ow_tx a = ow_tx b"
proof -
  have i: "(ow_id a, ow_tx a) \<in> ids_of j \<union> ids_of s" "(ow_id b, ow_tx b) \<in> ids_of j \<union> ids_of s"
    using assms(2,3) by (auto simp: ids_of_def)
  have "[] \<notin> fst ` (ids_of j \<union> ids_of s)" using assms(1) by (simp add: ids_ok_def)
  with i have "ow_id a \<noteq> []" "ow_id b \<noteq> []" by (metis fst_conv image_eqI)+
  then show ?thesis using i assms(1,4) by (auto simp: ids_ok_def single_valued_def owedRecordKey_def)
qed

lemma adopted_props:
  assumes "list_all wf_owed j" "list_all wf_owed s" "ids_ok j s" "r \<in> set s"
  shows "ow_tx (adopted_owed j r) = ow_tx r \<and> wf_owed (adopted_owed j r) \<and> ids_of [adopted_owed j r] \<subseteq> ids_of j \<union> ids_of s"
proof (cases "map_of (rev (map (\<lambda>l. (owedRecordKey l, l)) j)) (owedRecordKey r)")
  case None
  then show ?thesis using assms(2,4) ids_of_sub [of "[r]" s] by (auto simp: adopted_owed_def list_all_iff)
next
  case (Some l)
  note l = map_of_keyed(1) [OF Some]
  have "ow_tx l = ow_tx r" using ids_ok_tx [OF assms(3), of l r] l assms(4) by auto
  then show ?thesis using Some l assms(1) ids_of_sub [of "[l]" j] by (auto simp: adopted_owed_def list_all_iff)
qed

lemma later_tx: "later_owed ca r = Some l \<Longrightarrow> l \<in> set ca \<and> ow_tx l = ow_tx r"
  unfolding later_owed_def by (rule map_of_keyed(1))

lemma carry_found: "List.find (\<lambda>r. later_owed ca r = Some l) (rev st) = Some r \<Longrightarrow> r \<in> set st \<and> later_owed ca r = Some l"
  by (auto simp: find_Some_iff) (metis nth_mem set_rev length_rev)

lemma carry_props:
  assumes "list_all wf_owed j" "list_all wf_owed s" "ids_ok j s" "set st \<subseteq> set s" "set ca \<subseteq> set j"
    and "l \<in> set ca" "carry j ca st l = Some y"
  shows "ow_tx y = ow_tx l \<and> wf_owed y \<and> ids_of [y] \<subseteq> ids_of j \<union> ids_of s"
proof -
  have l: "wf_owed l" "ids_of [l] \<subseteq> ids_of j" using assms(1,5,6) ids_of_sub [of "[l]" j] by (auto simp: list_all_iff)
  show ?thesis
  proof (cases "List.find (\<lambda>r. later_owed ca r = Some l) (rev st)")
    case None
    then show ?thesis using assms(7) l by (auto simp: carry_def)
  next
    case (Some r)
    with assms(7) have y: "y = foldOwedSettlement (Some (adopted_owed j r)) l" by (auto simp: carry_def Let_def split: if_splits)
    note a = adopted_props [OF assms(1-3), of r]
    show ?thesis using a carry_found [OF Some] assms(4) l fold_tx [of "Some (adopted_owed j r)" l]
        fold_ids [of "adopted_owed j r" l] fold_wf [of "adopted_owed j r" l] unfolding y by blast
  qed
qed

lemma no_clash:
  assumes "distinct (map ow_tx st)" "distinct (map ow_tx ca)" and "k \<in> set st" "keeps_stored j ca k" "l \<in> set ca" "ow_tx k = ow_tx l"
  shows "carry j ca st l = None"
proof -
  obtain l' where l': "later_owed ca k = Some l'"
    using assms(5,6) map_of_keyed(2) [of ow_tx ca "ow_tx k"] by (cases "later_owed ca k") (auto simp: later_owed_def)
  have "l' = l" using later_tx [OF l'] assms(5,6) by (intro distinct_key [OF assms(2)]) auto
  with l' assms(4) have closed: "later_owed ca k = Some l" "foldOwedSettlement (Some (adopted_owed j k)) l = adopted_owed j k"
    by (auto simp: keeps_stored_def)
  show ?thesis
  proof (cases "List.find (\<lambda>r. later_owed ca r = Some l) (rev st)")
    case None
    then show ?thesis using assms(3) closed(1) by (auto simp: find_None_iff)
  next
    case (Some r)
    have "r = k" using carry_found [OF Some] later_tx [of ca r l] assms(3,6) by (intro distinct_key [OF assms(1)]) auto
    then show ?thesis using Some closed by (simp add: carry_def)
  qed
qed

lemma adopt_shaped:
  assumes "shaped j" "shaped s" "ids_ok j s"
  shows "shaped (adopt_settlements pruned s known j) \<and> ids_of (adopt_settlements pruned s known j) \<subseteq> ids_of j \<union> ids_of s"
proof -
  define st where "st = List.filter (\<lambda>r. \<not> pruned_wallet pruned r) s"
  define ca where "ca = carried_owed pruned st known j"
  define ke where "ke = List.filter (keeps_stored j ca) st"
  define out where "out = map (adopted_owed j) ke @ List.map_filter (carry j ca st) ca"
  have w: "list_all wf_owed j" "list_all wf_owed s" using assms(1,2) by (simp_all add: shaped_def)
  have dst: "distinct (map ow_tx st)" "set st \<subseteq> set s" and dca: "distinct (map ow_tx ca)" "set ca \<subseteq> set j"
    using assms(1,2) by (auto simp: shaped_def one_each_def st_def ca_def carried_owed_def distinct_map_filter)
  note ad = adopted_props [OF w assms(3)]
  note cy = carry_props [OF w assms(3) dst(2) dca(2)]
  have ke: "set ke \<subseteq> set s" using dst(2) by (auto simp: ke_def)
  have mk: "map ow_tx (map (adopted_owed j) ke) = map ow_tx ke" using ad ke by auto
  have "distinct (map ow_tx ke)" using dst(1) by (simp add: ke_def distinct_map_filter)
  moreover have "distinct (map ow_tx (List.map_filter (carry j ca st) ca))" using cy by (intro distinct_map_filter_key [OF dca(1)]) auto
  moreover have "ow_tx k \<noteq> ow_tx y" if ky: "k \<in> set ke" "y \<in> set (List.map_filter (carry j ca st) ca)" for k y
  proof -
    obtain l where l: "l \<in> set ca" "carry j ca st l = Some y" using ky(2) by (auto simp: set_map_filter)
    have "k \<in> set st" "keeps_stored j ca k" using ky(1) by (simp_all add: ke_def)
    with no_clash [OF dst(1) dca(1) _ _ l(1)] l cy [OF l] show ?thesis by fastforce
  qed
  ultimately have "distinct (map ow_tx out)" unfolding out_def map_append mk distinct_append by auto
  moreover have "list_all wf_owed out" using ad cy ke by (auto simp: out_def list_all_iff set_map_filter)
  ultimately have sh: "shaped (capOwedSettlements out)" by (rule shaped_cap)
  have "ids_of (map (adopted_owed j) ke) \<subseteq> ids_of j \<union> ids_of s" using ad ke by (intro ids_of_each) auto
  moreover have "ids_of (List.map_filter (carry j ca st) ca) \<subseteq> ids_of j \<union> ids_of s"
  proof (rule ids_of_all)
    fix y
    assume "y \<in> set (List.map_filter (carry j ca st) ca)"
    then obtain l where "l \<in> set ca" "carry j ca st l = Some y" by (auto simp: set_map_filter)
    from cy [OF this] show "ids_of [y] \<subseteq> ids_of j \<union> ids_of s" by simp
  qed
  ultimately have "ids_of out \<subseteq> ids_of j \<union> ids_of s" unfolding out_def ids_of_append by (rule Un_least)
  then have "shaped (capOwedSettlements out) \<and> ids_of (capOwedSettlements out) \<subseteq> ids_of j \<union> ids_of s"
    using sh subset_trans [OF ids_of_cap [of out]] by blast
  then show ?thesis by (simp only: adopt_settlements_def Let_def st_def ca_def ke_def out_def)
qed

lemma flush_journal:
  "snd (flushOwedSettlements up stamp busy has_save v snapshot j) = j
   \<or> (\<exists>P. snd (flushOwedSettlements up stamp busy has_save v snapshot j) = List.filter P j)"
  by (auto simp: flushOwedSettlements_def split_beta Let_def)

lemma ids_of_fst: "fst ` ids_of j = ow_id ` set j"
  by (simp add: ids_of_def image_image)

lemma single_valued_insert: "single_valued R \<Longrightarrow> x \<notin> fst ` R \<Longrightarrow> single_valued (insert (x, y) R)"
  unfolding single_valued_def by (metis fst_conv image_eqI insert_iff prod.inject)

lemma record_ids_ok:
  assumes "ids_ok j s" "key \<noteq> []" "key \<notin> ow_id ` (set j \<union> set s)" "ids_of j' \<subseteq> insert (key, i) (ids_of j)"
  shows "ids_ok j' s"
proof -
  let ?R = "insert (key, i) (ids_of j \<union> ids_of s)"
  have "key \<notin> fst ` (ids_of j \<union> ids_of s)" using assms(3) by (simp add: image_Un ids_of_fst)
  then have R: "single_valued ?R" "[] \<notin> fst ` ?R"
    using assms(1,2) single_valued_insert [of "ids_of j \<union> ids_of s" key i] by (auto simp: ids_ok_def)
  have sub: "ids_of j' \<union> ids_of s \<subseteq> ?R" using assms(4) by auto
  show ?thesis unfolding ids_ok_def
  proof
    show "single_valued (ids_of j' \<union> ids_of s)" using sub R(1) by (rule single_valued_subset)
    show "[] \<notin> fst ` (ids_of j' \<union> ids_of s)" using R(2) image_mono [OF sub, of fst] by (rule contra_subsetD [rotated])
  qed
qed

lemma journal_run_shaped:
  "journal_run j s \<Longrightarrow> shaped j \<and> shaped s \<and> ids_ok j s"
proof (induction rule: journal_run.induct)
  case jr_start
  show ?case by (simp add: shaped_def one_each_def ids_ok_def ids_of_def single_valued_def)
next
  case (jr_record j s key payload now wallet i op)
  have r: "ids_of (recordOneOwedSettlement key now wallet i op payload j) \<subseteq> insert (key, i) (ids_of j)"
    using jr_record.IH jr_record.hyps(4) by (intro record_ids) (auto simp: shaped_def)
  then have "ids_ok (recordOneOwedSettlement key now wallet i op payload j) s"
    using jr_record.IH jr_record.hyps(2,3) record_ids_ok by blast
  then show ?case using jr_record.IH jr_record.hyps(4) by (simp add: record_shaped)
next
  case (jr_flush j s up stamp busy has_save v snapshot)
  from flush_journal [of up stamp busy has_save v snapshot j] show ?case
  proof (elim disjE exE)
    fix P
    assume "snd (flushOwedSettlements up stamp busy has_save v snapshot j) = List.filter P j"
    then show ?case using jr_flush.IH ids_of_filter [of P j]
      by (simp add: shaped_filter) (rule ids_ok_mono [of j s], auto)
  qed (simp add: jr_flush.IH)
next
  case (jr_prune j s w)
  then show ?case using ids_of_filter [of "\<lambda>r. ow_wallet r \<noteq> Some w" j]
    by (simp add: shaped_filter) (rule ids_ok_mono [of j s], auto)
next
  case (jr_save j s)
  then show ?case using ids_ok_mono [of j s j j] by simp
next
  case (jr_boot j s)
  have "ids_of [] = {}" by (simp add: ids_of_def)
  then show ?case using jr_boot.IH ids_ok_mono [of j s "[]" s] by (simp add: shaped_def one_each_def)
next
  case (jr_merge j s pruned known)
  then show ?case using merge_shaped [of j s pruned known] ids_ok_mono [of j s _ s] by simp
next
  case (jr_adopt j s pruned known)
  then show ?case using adopt_shaped [of j s pruned known] ids_ok_mono [of j s _ s] by simp
qed

text \<open>
  Property C34. Whatever is recorded, flushed, pruned, saved, loaded or reloaded, in any order and over any number
  of processes, the journal holds one record for a pending transaction and at most fifty, every one of them well
  formed, in memory and in storage: the flush and the fold are only ever given what they can handle.
\<close>

theorem journal_stays_in_shape:
  assumes "journal_run live stored_copy"
  shows "distinct (map ow_tx live) \<and> length live \<le> 50 \<and> list_all wf_owed live
    \<and> distinct (map ow_tx stored_copy) \<and> length stored_copy \<le> 50"
  using journal_run_shaped [OF assms] by (simp add: shaped_def one_each_def OWED_SETTLEMENT_LIMIT_def)

theorem journal_stays_in_shape_witness:
  "\<exists>live. journal_run live (recordOneOwedSettlement ''s1'' 0 None ''t1'' Op_discard None [])
    \<and> live = [new_owed ''s1'' 0 None ''t1'' Op_discard None] \<and> distinct (map ow_tx live)"
proof -
  let ?j = "recordOneOwedSettlement ''s1'' 0 None ''t1'' Op_discard None []"
  have j: "?j = [new_owed ''s1'' 0 None ''t1'' Op_discard None]"
    by (simp add: recordOneOwedSettlement_def foldOwedSettlement_def capOwedSettlements_def OWED_SETTLEMENT_LIMIT_def)
  have "journal_run ?j []" by (rule jr_record [OF jr_start]) (simp_all add: wf_patch_def)
  then have "journal_run (mergeOwedSettlements [] ?j [] []) ?j" using jr_merge [OF jr_boot [OF jr_save]] by blast
  moreover have "mergeOwedSettlements [] ?j [] [] = [new_owed ''s1'' 0 None ''t1'' Op_discard None]"
    by (simp add: j mergeOwedSettlements_def merge_step_def pruned_wallet_def new_owed_def capOwedSettlements_def OWED_SETTLEMENT_LIMIT_def)
  ultimately show ?thesis using journal_stays_in_shape by metis
qed

end
