(* ===== verification/Queue_Route.thy ===== *)
theory Queue_Route
  imports Settlement_Journal
begin

text \<open>
  The broadcast queue of the host: its entries (\<^verbatim>\<open>extension/src/background/broadcastQueueEngine.js\<close>) and the
  two routes that empty it, \<^verbatim>\<open>broadcast.queue.broadcast\<close> and \<^verbatim>\<open>broadcast.queue.discard\<close> of
  \<^verbatim>\<open>createBackgroundHost.js\<close>. An entry is a map from its fields; the queue is the live array of one
  wallet. The best-effort save of the array, the hold on spent coins and the booking of donations are left out.
\<close>

section \<open>Entries\<close>

definition pendingTxIdsOf :: "fields \<Rightarrow> string list" where
  "pendingTxIdsOf entry =
     (let ids = (case filled_text (fld entry ''pendingTxId'') of None \<Rightarrow> [] | Some i \<Rightarrow> [i]);
          siblings = (case fld entry ''siblingPendingTxIds'' of JArr vs \<Rightarrow> List.map_filter filled_text vs | _ \<Rightarrow> [])
      in foldl (\<lambda>l i. if i \<in> set l then l else l @ [i]) ids siblings)"

definition mergePendingTxIds :: "fields \<Rightarrow> fields \<Rightarrow> fields" where
  "mergePendingTxIds target source =
     (let primary = fld target ''pendingTxId'';
          own = (case fld target ''siblingPendingTxIds'' of
            JArr vs \<Rightarrow> List.filter (\<lambda>v. filled_text v \<noteq> None \<and> v \<noteq> primary) vs | _ \<Rightarrow> []);
          sourceId = fld source ''pendingTxId'';
          siblings = foldl (\<lambda>l v. if v \<in> set l then l else l @ [v]) []
            (own @ (if filled_text sourceId \<noteq> None \<and> sourceId \<noteq> primary then [sourceId] else []))
      in if siblings = [] then target else target(''siblingPendingTxIds'' \<mapsto> JArr siblings))"

definition verdict_of :: "js \<Rightarrow> js option" where
  "verdict_of v = (case (is_object_value v, js_get v ''chainId'', js_get v ''donationIncluded'') of
     (True, JStr c, JBool b) \<Rightarrow> Some (JObj [(''chainId'', JStr c), (''donationIncluded'', JBool b)])
   | _ \<Rightarrow> None)"

text \<open>The entry that stays takes the verdict, the fee-bump link and the record id of its twin of the same bytes.\<close>

definition adoptSnapshotVerdict :: "fields \<Rightarrow> fields \<Rightarrow> fields" where
  "adoptSnapshotVerdict live persisted =
     (if fld live ''signedTxHex'' \<noteq> fld persisted ''signedTxHex'' then live
      else (let merged = mergePendingTxIds live persisted;
                link = fld persisted ''rbfReplacesPendingTxId'';
                linked = (if \<not> js_truthy (fld merged ''rbfReplacesPendingTxId'') \<and> filled_text link \<noteq> None
                  then merged(''rbfReplacesPendingTxId'' \<mapsto> link) else merged)
            in if js_truthy (fld linked ''adsCommit'') then linked
               else (case verdict_of (fld persisted ''adsCommit'') of
                   None \<Rightarrow> linked | Some v \<Rightarrow> linked(''adsCommit'' \<mapsto> v))))"

definition commitLandedFields :: "fields \<Rightarrow> fields" where
  "commitLandedFields source =
     (if fld source ''commitLanded'' \<noteq> JBool True then Map.empty
      else [''commitLanded'' \<mapsto> JBool True] ++
        (case filled_text (fld source ''commitTxid'') of None \<Rightarrow> Map.empty | Some t \<Rightarrow> [''commitTxid'' \<mapsto> JStr t]))"

definition queuedRevealFields :: "fields \<Rightarrow> fields" where
  "queuedRevealFields source =
     (if fld source ''commitLanded'' = JBool True then Map.empty
      else (case filled_text (fld source ''revealTxHex'') of None \<Rightarrow> Map.empty
        | Some h \<Rightarrow> [''revealTxHex'' \<mapsto> JStr h] ++
            (case filled_text (fld source ''revealTxid'') of None \<Rightarrow> Map.empty | Some t \<Rightarrow> [''revealTxid'' \<mapsto> JStr t])))"

definition plain_text :: "js \<Rightarrow> string" where
  "plain_text v = (case v of JStr s \<Rightarrow> s | _ \<Rightarrow> [])"

text \<open>The live entry that already holds a transaction: same chain, and the same id or the same bytes.\<close>

definition same_tx :: "fields \<Rightarrow> fields \<Rightarrow> bool" where
  "same_tx entry e \<longleftrightarrow> fld e ''chainId'' = fld entry ''chainId''
     \<and> (plain_text (fld entry ''txid'') \<noteq> [] \<and> fld e ''txid'' = fld entry ''txid''
        \<or> plain_text (fld entry ''signedTxHex'') \<noteq> [] \<and> fld e ''signedTxHex'' = fld entry ''signedTxHex'')"

definition liveEntryForTx :: "fields list \<Rightarrow> fields \<Rightarrow> fields option" where
  "liveEntryForTx q entry = List.find (same_tx entry) q"

definition liveTwinOf :: "fields list \<Rightarrow> fields \<Rightarrow> fields option" where
  "liveTwinOf q entry = (case filled_text (fld entry ''pendingTxId'') of None \<Rightarrow> None
     | Some i \<Rightarrow> List.find (\<lambda>e. fld e ''pendingTxId'' = JStr i \<and> fld e ''signedTxHex'' = fld entry ''signedTxHex'') q)"

definition when_text :: "fields \<Rightarrow> string \<Rightarrow> fields" where
  "when_text entry k = (case filled_text (fld entry k) of None \<Rightarrow> Map.empty | Some t \<Rightarrow> [k \<mapsto> JStr t])"

definition queue_entry :: "string \<Rightarrow> rat \<Rightarrow> fields \<Rightarrow> fields" where
  "queue_entry key now entry =
     [''id'' \<mapsto> JStr key, ''chainId'' \<mapsto> fld entry ''chainId'', ''signedTxHex'' \<mapsto> fld entry ''signedTxHex'',
      ''summary'' \<mapsto> (case filled_text (fld entry ''summary'') of Some s \<Rightarrow> JStr s
         | None \<Rightarrow> JStr (''Broadcast pending on '' @ js_text (fld entry ''chainId''))),
      ''signedAt'' \<mapsto> (case fld entry ''signedAt'' of JNum n \<Rightarrow> JNum n | _ \<Rightarrow> JNum (Fin now))]
     ++ (if js_truthy (fld entry ''txid'') then [''txid'' \<mapsto> fld entry ''txid''] else Map.empty)
     ++ when_text entry ''pendingTxId''
     ++ (if fld entry ''resumedClaim'' = JBool True then [''resumedClaim'' \<mapsto> JBool True] else Map.empty)
     ++ when_text entry ''rbfReplacesPendingTxId''
     ++ commitLandedFields entry ++ queuedRevealFields entry
     ++ (case verdict_of (fld entry ''adsCommit'') of None \<Rightarrow> Map.empty | Some v \<Rightarrow> [''adsCommit'' \<mapsto> v])"

fun update_first :: "('a \<Rightarrow> bool) \<Rightarrow> ('a \<Rightarrow> 'a) \<Rightarrow> 'a list \<Rightarrow> 'a list" where
  "update_first P f [] = []"
| "update_first P f (x # xs) = (if P x then f x # xs else x # update_first P f xs)"

text \<open>One transaction is one row: the first entry keeps the slot and takes what the later one knows.\<close>

definition pushQueueEntry :: "string \<Rightarrow> rat \<Rightarrow> fields \<Rightarrow> fields list \<Rightarrow> fields list" where
  "pushQueueEntry key now entry q =
     (if liveEntryForTx q entry = None then q @ [queue_entry key now entry]
      else update_first (same_tx entry) (\<lambda>e. mergePendingTxIds (adoptSnapshotVerdict e entry) entry) q)"

definition enqueueSignedBroadcast :: "string \<Rightarrow> rat \<Rightarrow> bool \<Rightarrow> fields \<Rightarrow> fields list \<Rightarrow> fields list" where
  "enqueueSignedBroadcast key now removed entry q =
     (if removed then q
      else if liveTwinOf q entry \<noteq> None
        then update_first (\<lambda>e. Some e = liveTwinOf q entry) (\<lambda>e. adoptSnapshotVerdict e entry) q
      else pushQueueEntry key now entry q)"

section \<open>Settling the records of an entry\<close>

text \<open>An unreachable record outranks a settled one, a settled one a closed one.\<close>

fun settle_all :: "(nat \<Rightarrow> bool) \<Rightarrow> txvault \<Rightarrow> string list \<Rightarrow> fields \<Rightarrow> txvault \<times> settle_verdict list" where
  "settle_all up v [] patch = (v, [])"
| "settle_all up v (i # ids) patch =
     (let (v1, x) = applyPendingTxPatch up v i patch; (v2, xs) = settle_all up v1 ids patch in (v2, x # xs))"

definition settle_verdict_of :: "settle_verdict list \<Rightarrow> settle_verdict" where
  "settle_verdict_of xs = (if xs = [] then Unowned else if Unreachable \<in> set xs then Unreachable
     else if Settled \<in> set xs then Settled else Closed)"

definition settleQueuedPendingTx :: "(nat \<Rightarrow> bool) \<Rightarrow> txvault \<Rightarrow> fields \<Rightarrow> fields \<Rightarrow> txvault \<times> settle_verdict" where
  "settleQueuedPendingTx up v entry patch =
     (let (v1, xs) = settle_all up v (pendingTxIdsOf entry) patch in (v1, settle_verdict_of xs))"

record route_state =
  rs_queue :: "fields list"
  rs_journal :: "owed list"
  rs_vault :: txvault
  rs_sent :: "(js \<times> js option) list"

text \<open>
  What a route is answered: the vault's calls, the checks of the freeze in their order, the signature check, the
  sends in their order, and the ids of the journal records it makes (by write and transaction).
\<close>

record route_answers =
  ra_wallet :: "string option"
  ra_now :: rat
  ra_stamp :: string
  ra_up :: "nat \<Rightarrow> bool"
  ra_has_save :: bool
  ra_draining :: "string \<Rightarrow> bool"
  ra_key :: "nat \<Rightarrow> string \<Rightarrow> string"
  ra_sdk :: bool
  ra_frozen :: "nat \<Rightarrow> js option"
  ra_verified :: "js option"
  ra_send :: "nat \<Rightarrow> js + js"

definition owe_all :: "route_answers \<Rightarrow> nat \<Rightarrow> fields \<Rightarrow> owed_op \<Rightarrow> fields \<Rightarrow> owed list \<Rightarrow> owed list" where
  "owe_all a n entry op payload j =
     recordOwedSettlement (ra_now a) (ra_wallet a) (map (\<lambda>i. (i, ra_key a n i)) (pendingTxIdsOf entry)) op (Some payload) j"

text \<open>Write a patch to the entry's records, or owe it.\<close>

definition settle_or_owe :: "route_answers \<Rightarrow> nat \<Rightarrow> fields \<Rightarrow> fields \<Rightarrow> owed_op \<Rightarrow> fields \<Rightarrow> route_state \<Rightarrow> route_state" where
  "settle_or_owe a n entry patch op payload st =
     (let (v, x) = settleQueuedPendingTx (ra_up a) (rs_vault st) entry patch in
      st\<lparr>rs_vault := v, rs_journal := (if x = Unreachable then owe_all a n entry op payload (rs_journal st) else rs_journal st)\<rparr>)"

text \<open>Retire the original a fee bump replaced; a refused call leaves it live.\<close>

definition replaced_original_id :: "(nat \<Rightarrow> bool) \<Rightarrow> txvault \<Rightarrow> fields \<Rightarrow> txvault \<times> string option" where
  "replaced_original_id up v entry =
     (case filled_text (fld entry ''rbfReplacesPendingTxId'') of
        Some i \<Rightarrow> (v, Some i)
      | None \<Rightarrow> (case filled_text (fld entry ''pendingTxId'') of
          None \<Rightarrow> (v, None)
        | Some i \<Rightarrow> (let (v1, ok) = vt_call up v in
            (v1, if \<not> ok then None
                 else (case vt_mem v1 i of None \<Rightarrow> None | Some r \<Rightarrow> filled_text (fld r ''rbfReplacesPendingTxId''))))))"

definition settleReplacedOriginal :: "(nat \<Rightarrow> bool) \<Rightarrow> txvault \<Rightarrow> fields \<Rightarrow> js \<Rightarrow> txvault" where
  "settleReplacedOriginal up v entry replacement =
     (case filled_text replacement of None \<Rightarrow> v
      | Some hash \<Rightarrow>
          (case replaced_original_id up v entry of
             (v1, None) \<Rightarrow> v1
           | (v1, Some i) \<Rightarrow>
               (let (v2, ok) = vt_call up v1 in
                if \<not> ok then v2
                else (case vt_mem v2 i of None \<Rightarrow> v2
                  | Some original \<Rightarrow>
                      if fld original ''chainConfirmed'' = JBool True
                         \<or> fld original ''status'' \<notin> {JStr ''broadcast'', JStr ''broadcasting''} then v2
                      else fst (vt_store up v2 i (Some (original(''status'' \<mapsto> JStr ''rbf-replaced'', ''rbfReplacement'' \<mapsto> JStr hash))))))))"

section \<open>The broadcast route\<close>

definition has_id :: "string \<Rightarrow> fields \<Rightarrow> bool" where
  "has_id i e \<longleftrightarrow> fld e ''id'' = JStr i"

fun remove_first :: "('a \<Rightarrow> bool) \<Rightarrow> 'a list \<Rightarrow> 'a list" where
  "remove_first P [] = []"
| "remove_first P (x # xs) = (if P x then xs else x # remove_first P xs)"

definition drop_entry :: "string \<Rightarrow> route_state \<Rightarrow> route_state" where
  "drop_entry i st = st\<lparr>rs_queue := remove_first (has_id i) (rs_queue st)\<rparr>"

definition queuedBroadcastRetryDelay :: "int \<Rightarrow> nat" where
  "queuedBroadcastRetryDelay attempt = min 60000 (1000 * 2 ^ nat (max 0 (min 16 (attempt - 1))))"

definition retry_attempt :: "fields \<Rightarrow> int" where
  "retry_attempt entry = (case fld entry ''retryAttempt'' of
     JNum (Fin r) \<Rightarrow> if js_is_int r \<and> 0 < r \<and> r \<le> 2 ^ 53 - 1 then \<lfloor>r\<rfloor> + 1 else 1 | _ \<Rightarrow> 1)"

definition retry_after :: "rat \<Rightarrow> fields \<Rightarrow> int" where
  "retry_after now entry = (case fld entry ''nextRetryAt'' of JNum (Fin t) \<Rightarrow> \<lceil>t - now\<rceil> | _ \<Rightarrow> 0)"

definition permanentReleasePatch :: "string \<Rightarrow> fields \<Rightarrow> string \<Rightarrow> fields" where
  "permanentReleasePatch stamp entry failure =
     (if fld entry ''commitLanded'' \<noteq> JBool True then [''status'' \<mapsto> JStr ''failed'', ''error'' \<mapsto> JStr failure]
      else [''status'' \<mapsto> JStr ''broadcast'', ''broadcastAt'' \<mapsto> JStr stamp,
        ''txid'' \<mapsto> js_coalesce (fld entry ''commitTxid'') (js_coalesce (fld entry ''txid'') Null), ''error'' \<mapsto> JStr failure])"

definition landedPatch :: "string \<Rightarrow> js \<Rightarrow> fields" where
  "landedPatch stamp txid = [''status'' \<mapsto> JStr ''broadcast'', ''broadcastAt'' \<mapsto> JStr stamp, ''txid'' \<mapsto> txid, ''error'' \<mapsto> Null]"

definition queued_patch :: "js \<Rightarrow> fields" where
  "queued_patch err = [''status'' \<mapsto> JStr ''queued'', ''error'' \<mapsto> err]"

definition result_txid :: "js \<Rightarrow> js" where
  "result_txid result = (case result of JStr s \<Rightarrow> JStr s
     | _ \<Rightarrow> js_coalesce (js_get result ''txid'') (js_coalesce (js_get result ''tx_hash'') Null))"

datatype route_error =
  Already_sending | No_entry | Paused int | No_encoder | Route_frozen js | Bad_signatures js | No_longer_queued
  | Refused permanence js

definition route_flush :: "route_answers \<Rightarrow> route_state \<Rightarrow> route_state" where
  "route_flush a st =
     (let (v, j) = flushOwedSettlements (ra_up a) (ra_stamp a) (ra_draining a) (ra_has_save a) (rs_vault st) (rs_journal st) (rs_journal st)
      in st\<lparr>rs_vault := v, rs_journal := j\<rparr>)"

definition route_landed :: "route_answers \<Rightarrow> nat \<Rightarrow> string \<Rightarrow> fields \<Rightarrow> js \<Rightarrow> route_state \<Rightarrow> route_state" where
  "route_landed a n i entry txid st =
     (let st1 = settle_or_owe a n entry (landedPatch (ra_stamp a) txid) Op_patch (landedPatch (ra_stamp a) txid) st;
          st2 = st1\<lparr>rs_vault := settleReplacedOriginal (ra_up a) (rs_vault st1) entry txid\<rparr>
      in route_flush a (drop_entry i st2))"

definition route_refused :: "route_answers \<Rightarrow> nat \<Rightarrow> string \<Rightarrow> fields \<Rightarrow> js \<Rightarrow> route_state \<Rightarrow> route_state \<times> (route_error + js)" where
  "route_refused a n i entry err st =
     (let kind = classifyBroadcastFailure err; failure = error_message err;
          patch = (if kind = Permanent then permanentReleasePatch (ra_stamp a) entry failure else queued_patch (JStr failure));
          st1 = settle_or_owe a n entry patch Op_patch patch st;
          attempt = retry_attempt entry
      in (if kind = Permanent then drop_entry i st1
          else st1\<lparr>rs_queue := update_first (has_id i) (\<lambda>e. e(''retryAttempt'' \<mapsto> JNum (Fin (of_int attempt)),
                 ''nextRetryAt'' \<mapsto> JNum (Fin (ra_now a + of_nat (queuedBroadcastRetryDelay attempt))))) (rs_queue st1)\<rparr>,
          Inl (Refused kind err)))"

definition sends :: "js \<Rightarrow> js option \<Rightarrow> route_state \<Rightarrow> route_state" where
  "sends h reply st = st\<lparr>rs_sent := rs_sent st @ [(h, reply)]\<rparr>"

text \<open>The last send of an entry, the \<open>n\<close>th of the route.\<close>

definition route_last :: "route_answers \<Rightarrow> nat \<Rightarrow> string \<Rightarrow> fields \<Rightarrow> route_state \<Rightarrow> route_state \<times> (route_error + js)" where
  "route_last a n i entry st =
     (case ra_send a n of
        Inr result \<Rightarrow> (route_landed a 2 i entry (js_coalesce (result_txid result) (js_coalesce (fld entry ''txid'') Null))
            (sends (fld entry ''signedTxHex'') None st), Inr (result_txid result))
      | Inl err \<Rightarrow>
          if isAlreadyOnNetworkRejection err
          then (route_landed a 2 i entry (js_coalesce (fld entry ''txid'') Null) (sends (fld entry ''signedTxHex'') (Some err) st),
                Inr (js_coalesce (fld entry ''txid'') Null))
          else route_refused a 2 i entry err (sends (fld entry ''signedTxHex'') (Some err) st))"

definition reveal_entry :: "fields \<Rightarrow> queued_reveal \<Rightarrow> fields" where
  "reveal_entry entry rv =
     entry(''revealTxHex'' := None, ''revealTxid'' := None)
       ++ [''signedTxHex'' \<mapsto> JStr (qr_hex rv)]
       ++ (case qr_txid rv of None \<Rightarrow> Map.empty | Some t \<Rightarrow> [''txid'' \<mapsto> JStr t])
       ++ [''commitLanded'' \<mapsto> JBool True]
       ++ (if js_truthy (fld entry ''txid'') then [''commitTxid'' \<mapsto> fld entry ''txid''] else Map.empty)"

definition advanceToReveal :: "route_answers \<Rightarrow> string \<Rightarrow> fields \<Rightarrow> queued_reveal \<Rightarrow> route_state \<Rightarrow> route_state" where
  "advanceToReveal a i entry rv st =
     (let advanced = reveal_entry entry rv; txid = js_coalesce (fld advanced ''txid'') Null;
          commitTxid = js_coalesce (fld entry ''txid'') Null
      in settle_or_owe a 1 advanced
           [''status'' \<mapsto> JStr ''broadcasting'', ''txHex'' \<mapsto> JStr (qr_hex rv), ''txid'' \<mapsto> txid,
            ''commitLanded'' \<mapsto> JBool True, ''commitTxid'' \<mapsto> commitTxid, ''error'' \<mapsto> Null]
           Op_reveal [''txid'' \<mapsto> txid, ''commitTxid'' \<mapsto> commitTxid]
           (st\<lparr>rs_queue := update_first (has_id i) (\<lambda>_. advanced) (rs_queue st)\<rparr>))"

definition route_reveal :: "route_answers \<Rightarrow> string \<Rightarrow> fields \<Rightarrow> queued_reveal \<Rightarrow> route_state \<Rightarrow> route_state \<times> (route_error + js)" where
  "route_reveal a i entry rv st =
     (let st1 = advanceToReveal a i entry rv st in
      case ra_frozen a 2 of
        Some e \<Rightarrow> (st1, Inl (Route_frozen e))
      | None \<Rightarrow> route_last a 1 i (reveal_entry entry rv) st1)"

definition route_send :: "route_answers \<Rightarrow> string \<Rightarrow> fields \<Rightarrow> route_state \<Rightarrow> route_state \<times> (route_error + js)" where
  "route_send a i entry st =
     (case queuedRevealOf entry of
        None \<Rightarrow> route_last a 0 i entry st
      | Some rv \<Rightarrow>
          (case ra_send a 0 of
             Inr _ \<Rightarrow> route_reveal a i entry rv (sends (fld entry ''signedTxHex'') None st)
           | Inl err \<Rightarrow>
               if isAlreadyOnNetworkRejection err then route_reveal a i entry rv (sends (fld entry ''signedTxHex'') (Some err) st)
               else route_refused a 2 i entry err (sends (fld entry ''signedTxHex'') (Some err) st)))"

text \<open>The claim is the last read of the records before the bytes go out.\<close>

definition route_claim :: "route_answers \<Rightarrow> string \<Rightarrow> fields \<Rightarrow> route_state \<Rightarrow> route_state \<times> (route_error + js)" where
  "route_claim a i entry st =
     (let (v, x) = settleQueuedPendingTx (ra_up a) (rs_vault st) entry [''status'' \<mapsto> JStr ''broadcasting'', ''error'' \<mapsto> Null];
          st1 = st\<lparr>rs_vault := v\<rparr>
      in if x = Closed then (drop_entry i st1, Inl No_longer_queued)
         else (case ra_frozen a 1 of
             Some e \<Rightarrow> (settle_or_owe a 0 entry (queued_patch Null) Op_patch (queued_patch Null) st1, Inl (Route_frozen e))
           | None \<Rightarrow> route_send a i entry st1))"

definition queue_broadcast :: "route_answers \<Rightarrow> bool \<Rightarrow> string \<Rightarrow> route_state \<Rightarrow> route_state \<times> (route_error + js)" where
  "queue_broadcast a claimed i st =
     (if claimed then (st, Inl Already_sending)
      else (case List.find (has_id i) (rs_queue st) of
          None \<Rightarrow> (st, Inl No_entry)
        | Some entry \<Rightarrow>
            if retry_after (ra_now a) entry > 0 then (st, Inl (Paused (retry_after (ra_now a) entry)))
            else if \<not> ra_sdk a then (st, Inl No_encoder)
            else (case ra_frozen a 0 of Some e \<Rightarrow> (st, Inl (Route_frozen e))
              | None \<Rightarrow> (case ra_verified a of Some e \<Rightarrow> (st, Inl (Bad_signatures e))
                  | None \<Rightarrow> route_claim a i entry st))))"

section \<open>The discard route\<close>

fun discard_all :: "route_answers \<Rightarrow> string list \<Rightarrow> route_state \<Rightarrow> route_state" where
  "discard_all a [] st = st"
| "discard_all a (i # ids) st =
     (let (v, x) = discard_call (ra_up a) (ra_stamp a) (ra_draining a i) (rs_vault st) i in
      discard_all a ids (st\<lparr>rs_vault := v,
        rs_journal := (if x = Unreachable
          then recordOwedSettlement (ra_now a) (ra_wallet a) [(i, ra_key a 0 i)] Op_discard None (rs_journal st) else rs_journal st)\<rparr>))"

definition queue_discard :: "route_answers \<Rightarrow> bool \<Rightarrow> string \<Rightarrow> route_state \<Rightarrow> route_state \<times> (route_error + bool)" where
  "queue_discard a claimed i st =
     (if claimed then (st, Inl Already_sending)
      else (let entry = List.find (has_id i) (rs_queue st);
                ids = (case entry of None \<Rightarrow> [] | Some e \<Rightarrow> pendingTxIdsOf e);
                st1 = (if ids = [] then st else discard_all a ids (route_flush a st))
            in (route_flush a (drop_entry i st1), Inr (entry \<noteq> None))))"

section \<open>Facts about the journal of a route\<close>

definition owed_for :: "owed list \<Rightarrow> string \<Rightarrow> owed option" where
  "owed_for j i = List.find (\<lambda>s. ow_tx s = i) j"

lemma owed_for_Some: "owed_for j i = Some r \<Longrightarrow> r \<in> set j \<and> ow_tx r = i"
  by (auto simp: owed_for_def find_Some_iff)

lemma owed_for_None: "owed_for j i = None \<longleftrightarrow> i \<notin> ow_tx ` set j"
  by (auto simp: owed_for_def find_None_iff)

lemma owed_for_member: "distinct (map ow_tx j) \<Longrightarrow> r \<in> set j \<Longrightarrow> owed_for j (ow_tx r) = Some r"
  by (cases "owed_for j (ow_tx r)") (auto simp: owed_for_None dest!: owed_for_Some intro: distinct_key)

lemma find_append: "List.find P (xs @ ys) = (case List.find P xs of None \<Rightarrow> List.find P ys | Some x \<Rightarrow> Some x)"
  by (induction xs) auto

lemma find_filter_other: "(\<And>x. P x \<Longrightarrow> Q x) \<Longrightarrow> List.find P (List.filter Q xs) = List.find P xs"
  by (induction xs) auto

lemma record_owed_for:
  assumes "i \<noteq> []" "length j < OWED_SETTLEMENT_LIMIT"
  shows "owed_for (recordOneOwedSettlement key now wallet i op payload j) k =
      (if k = i then Some (foldOwedSettlement (owed_for j i) (new_owed key now wallet i op payload)) else owed_for j k)"
    and "length (recordOneOwedSettlement key now wallet i op payload j) \<le> Suc (length j)"
proof -
  let ?f = "foldOwedSettlement (owed_for j i) (new_owed key now wallet i op payload)"
  have le: "length (List.filter (\<lambda>s. ow_tx s \<noteq> i) j) \<le> length j" by simp
  then have "Suc (length (List.filter (\<lambda>s. ow_tx s \<noteq> i) j)) \<le> OWED_SETTLEMENT_LIMIT" using assms(2) by linarith
  then have cap: "capOwedSettlements (List.filter (\<lambda>s. ow_tx s \<noteq> i) j @ [?f]) = List.filter (\<lambda>s. ow_tx s \<noteq> i) j @ [?f]"
    unfolding capOwedSettlements_def by simp
  have rec: "recordOneOwedSettlement key now wallet i op payload j =
      (if owed_for j i = Some ?f then j else List.filter (\<lambda>s. ow_tx s \<noteq> i) j @ [?f])"
    using assms(1) cap by (simp add: recordOneOwedSettlement_def owed_for_def Let_def)
  have "owed_for (List.filter (\<lambda>s. ow_tx s \<noteq> i) j @ [?f]) k = (if k = i then Some ?f else owed_for j k)"
  proof (cases "k = i")
    case True
    have "List.find (\<lambda>s. ow_tx s = i) (List.filter (\<lambda>s. ow_tx s \<noteq> i) j) = None" by (simp add: find_None_iff)
    then show ?thesis using True by (simp add: owed_for_def find_append fold_tx)
  next
    case False
    have "List.find (\<lambda>s. ow_tx s = k) (List.filter (\<lambda>s. ow_tx s \<noteq> i) j) = owed_for j k"
      unfolding owed_for_def using False by (intro find_filter_other) auto
    then show ?thesis using False by (simp add: owed_for_def find_append fold_tx split: option.splits)
  qed
  then show "owed_for (recordOneOwedSettlement key now wallet i op payload j) k = (if k = i then Some ?f else owed_for j k)"
    by (cases "k = i") (simp_all add: rec)
  show "length (recordOneOwedSettlement key now wallet i op payload j) \<le> Suc (length j)" using le by (simp add: rec)
qed

lemma record_all_owed_for:
  assumes "[] \<notin> set (map fst ids)" "distinct (map fst ids)" "length j + length ids \<le> OWED_SETTLEMENT_LIMIT"
  shows "owed_for (recordOwedSettlement now wallet ids op payload j) k = (case map_of ids k of
      None \<Rightarrow> owed_for j k | Some key \<Rightarrow> Some (foldOwedSettlement (owed_for j k) (new_owed key now wallet k op payload)))"
    and "length (recordOwedSettlement now wallet ids op payload j) \<le> length j + length ids"
proof -
  have "owed_for (recordOwedSettlement now wallet ids op payload j) k = (case map_of ids k of
      None \<Rightarrow> owed_for j k | Some key \<Rightarrow> Some (foldOwedSettlement (owed_for j k) (new_owed key now wallet k op payload)))
    \<and> length (recordOwedSettlement now wallet ids op payload j) \<le> length j + length ids"
    using assms
  proof (induction ids arbitrary: j)
    case (Cons x ids)
    obtain i key where x: "x = (i, key)" by fastforce
    let ?j = "recordOneOwedSettlement key now wallet i op payload j"
    have i: "i \<noteq> []" "length j < OWED_SETTLEMENT_LIMIT" "i \<notin> fst ` set ids" using Cons.prems by (auto simp: x)
    note r = record_owed_for [OF i(1,2), of key now wallet op payload]
    have "length ?j + length ids \<le> OWED_SETTLEMENT_LIMIT" using r(2) Cons.prems(3) by simp
    then have ih: "owed_for (recordOwedSettlement now wallet ids op payload ?j) k = (case map_of ids k of
        None \<Rightarrow> owed_for ?j k | Some key \<Rightarrow> Some (foldOwedSettlement (owed_for ?j k) (new_owed key now wallet k op payload)))
      \<and> length (recordOwedSettlement now wallet ids op payload ?j) \<le> length ?j + length ids"
      using Cons.IH Cons.prems by simp
    have "recordOwedSettlement now wallet (x # ids) op payload j = recordOwedSettlement now wallet ids op payload ?j"
      by (simp add: recordOwedSettlement_def x)
    moreover have "map_of ids i = None" using i(3) by (simp add: map_of_eq_None_iff)
    ultimately show ?case using ih r by (auto simp: x split: option.splits)
  qed (simp add: recordOwedSettlement_def)
  then show "owed_for (recordOwedSettlement now wallet ids op payload j) k = (case map_of ids k of
      None \<Rightarrow> owed_for j k | Some key \<Rightarrow> Some (foldOwedSettlement (owed_for j k) (new_owed key now wallet k op payload)))"
    and "length (recordOwedSettlement now wallet ids op payload j) \<le> length j + length ids" by auto
qed

lemma record_all_shaped:
  assumes "shaped j" "wf_patch (case payload of None \<Rightarrow> Map.empty | Some p \<Rightarrow> p)"
  shows "shaped (recordOwedSettlement now wallet ids op payload j)"
  using assms(1) unfolding recordOwedSettlement_def
  by (induction ids arbitrary: j) (auto intro: record_shaped assms(2))

lemma pendingTxIdsOf_ok: "distinct (pendingTxIdsOf entry)" "[] \<notin> set (pendingTxIdsOf entry)"
proof -
  have loop: "distinct (foldl (\<lambda>l i. if i \<in> set l then l else l @ [i]) l xs)
      \<and> [] \<notin> set (foldl (\<lambda>l i. if i \<in> set l then l else l @ [i]) l xs)"
    if "distinct l" "[] \<notin> set l" "[] \<notin> set xs" for l xs :: "string list"
    using that by (induction xs arbitrary: l) auto
  have f: "filled_text v \<noteq> Some []" for v by (auto simp: filled_text_def split: js.splits)
  have "[] \<notin> set (List.map_filter filled_text vs)" for vs using f by (auto simp: set_map_filter)
  then show "distinct (pendingTxIdsOf entry)" "[] \<notin> set (pendingTxIdsOf entry)"
    unfolding pendingTxIdsOf_def Let_def using f by (auto intro!: loop [THEN conjunct1] dest: loop [THEN conjunct2, THEN notE, rotated -1] split: option.splits js.splits)
qed

text \<open>What settling leaves in each record.\<close>

lemma settle_all_mem:
  assumes "distinct ids" "settle_all up v ids p = (w, xs)"
  shows "(\<forall>k. k \<notin> set ids \<longrightarrow> vt_mem w k = vt_mem v k)
    \<and> (\<forall>k \<in> set ids. vt_mem w k = vt_mem v k \<or> vt_mem w k = patch_rec p (vt_mem v k))
    \<and> (Unreachable \<notin> set xs \<longrightarrow> (\<forall>k \<in> set ids. vt_mem w k = patch_rec p (vt_mem v k)))
    \<and> (Unreachable \<notin> set xs \<and> Settled \<notin> set xs \<longrightarrow> (\<forall>k \<in> set ids. \<not> open_record (vt_mem v k)))
    \<and> (xs = [] \<longleftrightarrow> ids = []) \<and> Unowned \<notin> set xs"
  using assms
proof (induction ids arbitrary: v w xs)
  case (Cons i ids)
  obtain v1 x where one: "applyPendingTxPatch up v i p = (v1, x)" by fastforce
  obtain ys where rest: "settle_all up v1 ids p = (w, ys)" "xs = x # ys"
    using Cons.prems(2) by (auto simp: one split: prod.splits)
  note ih = Cons.IH [OF _ rest(1)]
  have a: "acts i (patch_rec p) v (v1, x)" using patch_acts [of i p v up] by (simp add: one)
  then have o: "\<forall>k. k \<noteq> i \<longrightarrow> vt_mem v1 k = vt_mem v k" by (simp add: acts_def only_at_def)
  have n: "x \<noteq> Unowned" "x = Closed \<Longrightarrow> \<not> open_record (vt_mem v i)"
    using patch_settles(2,3) [of up v i p] by (simp_all add: one)
  have ni: "i \<notin> set ids" "distinct ids" using Cons.prems(1) by auto
  have wi: "vt_mem w i = vt_mem v1 i" using ih ni by simp
  have rest_same: "vt_mem v1 k = vt_mem v k" if "k \<in> set ids" for k using o that ni by metis
  show ?case using ih ni a n o wi rest_same rest(2) by (cases x) (auto simp: acts_def)
qed simp

lemma settle_mem:
  assumes "settleQueuedPendingTx up v entry p = (w, x)"
  shows "\<forall>k. k \<notin> set (pendingTxIdsOf entry) \<longrightarrow> vt_mem w k = vt_mem v k"
    and "k \<in> set (pendingTxIdsOf entry) \<Longrightarrow> vt_mem w k = vt_mem v k \<or> vt_mem w k = patch_rec p (vt_mem v k)"
    and "x \<noteq> Unreachable \<Longrightarrow> k \<in> set (pendingTxIdsOf entry) \<Longrightarrow> vt_mem w k = patch_rec p (vt_mem v k)"
    and "x = Closed \<Longrightarrow> k \<in> set (pendingTxIdsOf entry) \<Longrightarrow> \<not> open_record (vt_mem v k)"
    and "x = Unowned \<longleftrightarrow> pendingTxIdsOf entry = []"
proof -
  obtain xs where s: "settle_all up v (pendingTxIdsOf entry) p = (w, xs)" "x = settle_verdict_of xs"
    using assms by (auto simp: settleQueuedPendingTx_def split: prod.splits)
  note m = settle_all_mem [OF pendingTxIdsOf_ok(1) s(1)]
  show "\<forall>k. k \<notin> set (pendingTxIdsOf entry) \<longrightarrow> vt_mem w k = vt_mem v k" using m by blast
  show "k \<in> set (pendingTxIdsOf entry) \<Longrightarrow> vt_mem w k = vt_mem v k \<or> vt_mem w k = patch_rec p (vt_mem v k)" using m by blast
  show "x \<noteq> Unreachable \<Longrightarrow> k \<in> set (pendingTxIdsOf entry) \<Longrightarrow> vt_mem w k = patch_rec p (vt_mem v k)"
    using m s(2) by (auto simp: settle_verdict_of_def split: if_splits)
  show "x = Closed \<Longrightarrow> k \<in> set (pendingTxIdsOf entry) \<Longrightarrow> \<not> open_record (vt_mem v k)"
    using m s(2) by (auto simp: settle_verdict_of_def split: if_splits)
  show "x = Unowned \<longleftrightarrow> pendingTxIdsOf entry = []" using m s(2) by (auto simp: settle_verdict_of_def split: if_splits)
qed

section \<open>Settled or owed\<close>

text \<open>
  A record is covered when it is final or gone, or the journal owes a write that makes it so. The core's own drain
  is not at work on it.
\<close>

definition covered :: "route_answers \<Rightarrow> route_state \<Rightarrow> string \<Rightarrow> bool" where
  "covered a st i \<longleftrightarrow> \<not> open_record (vt_mem (rs_vault st) i)
     \<or> (\<exists>r. owed_for (rs_journal st) i = Some r \<and> \<not> open_record (replay_rec (ra_stamp a) False r (vt_mem (rs_vault st) i)))"

definition final_patch :: "fields \<Rightarrow> bool" where
  "final_patch p \<longleftrightarrow> wf_patch p \<and> (case fld p ''status'' of JStr s \<Rightarrow> s \<notin> set WRITABLE_OWED_STATUSES | _ \<Rightarrow> False)"

text \<open>What a route needs of the journal for an entry's records: room, and no reveal that would be refused.\<close>

definition journal_ready :: "string list \<Rightarrow> route_state \<Rightarrow> bool" where
  "journal_ready ids st \<longleftrightarrow> shaped (rs_journal st) \<and> length (rs_journal st) + length ids \<le> OWED_SETTLEMENT_LIMIT
     \<and> (\<forall>i \<in> set ids. \<forall>r. owed_for (rs_journal st) i = Some r \<longrightarrow> ow_op r = Op_reveal
          \<longrightarrow> open_record (vt_mem (rs_vault st) i) \<longrightarrow> promotes (reveal_fields r) (vt_mem (rs_vault st) i))"

lemma final_patch_closes: "final_patch p \<Longrightarrow> \<not> open_record (patch_rec p r)"
  by (simp add: final_patch_def patch_status split: js.splits)

lemma shaped_wf: "shaped j \<Longrightarrow> owed_for j i = Some r \<Longrightarrow> wf_owed r"
  using owed_for_Some [of j i r] by (auto simp: shaped_def list_all_iff)

lemma final_write_closes:
  assumes "final_patch p" "case prior of None \<Rightarrow> True | Some r \<Rightarrow> wf_owed r \<and> ow_tx r = i"
    and "\<And>r. prior = Some r \<Longrightarrow> ow_op r = Op_reveal \<Longrightarrow> open_record m \<Longrightarrow> promotes (reveal_fields r) m"
    and "f = foldOwedSettlement prior (new_owed key now wallet i Op_patch (Some p))"
  shows "\<not> open_record (replay_rec stamp False f m)"
proof (cases "open_record m")
  case True
  let ?n = "new_owed key now wallet i Op_patch (Some p)"
  have n: "wf_owed ?n" "closes ?n" "ow_op ?n = Op_patch" "ow_tx ?n = i" "patch_fields ?n = p"
    using assms(1) by (auto simp: new_owed_def wf_owed_def patch_fields_def final_patch_def closes_def split: js.splits)
  show ?thesis
  proof (cases prior)
    case None
    then show ?thesis using closes_closed [OF n(1,2)] n(3) assms(4) by (simp add: foldOwedSettlement_def)
  next
    case (Some r)
    have r: "wf_owed r" "ow_tx r = i" using assms(2) Some by simp_all
    have pr: "ow_op r = Op_reveal \<longrightarrow> promotes (reveal_fields r) m" using assms(3) Some True by blast
    have st: "fld (q ++ p) ''status'' = fld p ''status''" for q
      using assms(1) by (auto simp: fld_add fld_def final_patch_def split: option.splits)
    have "closes f \<and> wf_owed f \<and> (ow_op f = Op_reveal \<longrightarrow> promotes (reveal_fields f) m)"
    proof (cases "closes r")
      case True
      then show ?thesis using fold_closed [of r ?n] r n(4) pr by (simp add: assms(4) Some)
    next
      case False
      then show ?thesis using r n pr st fold_wf [OF r(1) n(1)]
        by (auto simp: assms(4) Some foldOwedSettlement_def closes_def reveal_fields_def split: js.splits)
    qed
    then show ?thesis using closes_closed by blast
  qed
qed simp

lemma settle_or_owe_covers:
  assumes "final_patch p" "journal_ready (pendingTxIdsOf entry) st" "k \<in> set (pendingTxIdsOf entry)"
  shows "covered a (settle_or_owe a n entry p Op_patch p st) k"
proof -
  obtain w x where s: "settleQueuedPendingTx (ra_up a) (rs_vault st) entry p = (w, x)" by fastforce
  note m = settle_mem [OF s]
  let ?m = "vt_mem (rs_vault st) k" and ?j = "rs_journal st" and ?ids = "map (\<lambda>i. (i, ra_key a n i)) (pendingTxIdsOf entry)"
  show ?thesis
  proof (cases "x = Unreachable \<and> vt_mem w k = ?m")
    case False
    then have "vt_mem w k = patch_rec p ?m" using m(2,3) assms(3) by blast
    then show ?thesis using final_patch_closes [OF assms(1)] by (simp add: covered_def settle_or_owe_def s)
  next
    case True
    have key: "map_of ?ids k = Some (ra_key a n k)" using assms(3) by (simp add: map_of_map_restrict)
    have o: "owed_for (owe_all a n entry Op_patch p ?j) k
        = Some (foldOwedSettlement (owed_for ?j k) (new_owed (ra_key a n k) (ra_now a) (ra_wallet a) k Op_patch (Some p)))"
      using record_all_owed_for(1) [of ?ids ?j "ra_now a" "ra_wallet a" Op_patch "Some p" k] assms(2) pendingTxIdsOf_ok [of entry] key
      by (simp add: owe_all_def journal_ready_def comp_def)
    have "\<not> open_record (replay_rec (ra_stamp a) False
        (foldOwedSettlement (owed_for ?j k) (new_owed (ra_key a n k) (ra_now a) (ra_wallet a) k Op_patch (Some p))) ?m)"
      using assms(2,3) shaped_wf owed_for_Some
      by (intro final_write_closes [where prior = "owed_for ?j k", OF assms(1) _ _ refl])
        (auto simp: journal_ready_def split: option.splits)
    then show ?thesis using o True by (simp add: covered_def settle_or_owe_def s)
  qed
qed

lemma replaced_original_mem: "vt_mem (fst (replaced_original_id up v entry)) = vt_mem v"
  by (simp add: replaced_original_id_def split_beta Let_def split: option.splits)

lemma settle_replaced_mem:
  "vt_mem (settleReplacedOriginal up v entry h) i = vt_mem v i \<or> \<not> open_record (vt_mem (settleReplacedOriginal up v entry h) i)"
proof -
  obtain v1 x where x: "replaced_original_id up v entry = (v1, x)" by fastforce
  have v1: "vt_mem v1 = vt_mem v" using replaced_original_mem [of up v entry] by (simp add: x)
  have closed: "\<not> still_queued (r(''status'' \<mapsto> JStr ''rbf-replaced'', ''rbfReplacement'' \<mapsto> JStr t))" for r t
    by (simp add: still_queued_def)
  show ?thesis
    by (auto simp: settleReplacedOriginal_def x v1 split_beta Let_def vt_store_mem closed split: option.splits)
qed

lemma covered_other:
  assumes "covered a st i" "rs_journal st' = rs_journal st"
    and "vt_mem (rs_vault st') i = vt_mem (rs_vault st) i \<or> \<not> open_record (vt_mem (rs_vault st') i)"
  shows "covered a st' i"
  using assms by (auto simp: covered_def)

lemma route_flush_covers:
  assumes "covered a st i" "shaped (rs_journal st)" "ra_draining a = (\<lambda>_. False)"
  shows "covered a (route_flush a st) i"
proof -
  let ?j = "rs_journal st" and ?v = "rs_vault st"
  obtain w j' where f: "flushOwedSettlements (ra_up a) (ra_stamp a) (ra_draining a) (ra_has_save a) ?v ?j ?j = (w, j')" by fastforce
  have st': "rs_vault (route_flush a st) = w" "rs_journal (route_flush a st) = j'" by (simp_all add: route_flush_def f)
  have j: "list_all wf_owed ?j" "distinct (map ow_tx ?j)" using assms(2) by (simp_all add: shaped_def one_each_def)
  obtain v1 settled where p: "replay_pass (ra_up a) (ra_stamp a) (ra_draining a) ?v ?j = (v1, settled)"
    and w: "vt_mem w = vt_mem v1" and j': "j' = ?j \<or> j' = List.filter (\<lambda>s. s \<notin> set settled) ?j"
    using f by (cases rule: flush_cases) auto
  note q = replay_pass_replays [OF j p, unfolded assms(3)]
  show ?thesis
  proof (cases "owed_for ?j i")
    case None
    then have "\<not> open_record (vt_mem ?v i)" using assms(1) by (simp add: covered_def)
    moreover have "vt_mem w i = vt_mem ?v i" using q None by (simp add: w same_elsewhere_def owed_for_None)
    ultimately show ?thesis by (simp add: covered_def st')
  next
    case (Some r)
    note r = owed_for_Some [OF Some]
    have c: "\<not> open_record (replay_rec (ra_stamp a) False r (vt_mem ?v i))"
      using assms(1) Some by (auto simp: covered_def)
    have same: "replay_rec (ra_stamp a) False r (vt_mem w i) = replay_rec (ra_stamp a) False r (vt_mem ?v i)"
      using q r by (auto simp: w)
    show ?thesis
    proof (cases "r \<in> set j'")
      case True
      have "distinct (map ow_tx j')" using j' j(2) by (auto simp: distinct_map_filter)
      then have "owed_for j' i = Some r" using owed_for_member [OF _ True] r by simp
      then show ?thesis using c same by (simp add: covered_def st')
    next
      case False
      then have "r \<in> set settled" using j' r by auto
      then have "vt_mem w i = replay_rec (ra_stamp a) False r (vt_mem ?v i)" using q r by (auto simp: w)
      then show ?thesis using c by (simp add: covered_def st')
    qed
  qed
qed

lemma final_patches: "final_patch (landedPatch stamp txid)" "final_patch (permanentReleasePatch stamp entry failure)"
  by (auto simp: final_patch_def wf_patch_def landedPatch_def permanentReleasePatch_def fld_def WRITABLE_OWED_STATUSES_def)

lemma settle_or_owe_shaped:
  assumes "shaped (rs_journal st)" "wf_patch payload"
  shows "shaped (rs_journal (settle_or_owe a n entry p op payload st))"
  using assms record_all_shaped [of "rs_journal st" "Some payload"]
  by (auto simp: settle_or_owe_def owe_all_def split: prod.splits)

lemma route_landed_covers:
  assumes "journal_ready (pendingTxIdsOf entry) st" "k \<in> set (pendingTxIdsOf entry)" "ra_draining a = (\<lambda>_. False)"
  shows "covered a (route_landed a n i entry txid st) k"
proof -
  let ?p = "landedPatch (ra_stamp a) txid"
  let ?st1 = "settle_or_owe a n entry ?p Op_patch ?p st"
  let ?st2 = "?st1\<lparr>rs_vault := settleReplacedOriginal (ra_up a) (rs_vault ?st1) entry txid\<rparr>"
  have "covered a ?st1 k" by (rule settle_or_owe_covers [OF final_patches(1) assms(1,2)])
  then have "covered a (drop_entry i ?st2) k"
    by (rule covered_other) (simp_all add: drop_entry_def settle_replaced_mem)
  moreover have "shaped (rs_journal (drop_entry i ?st2))"
    using assms(1) settle_or_owe_shaped [of st ?p] final_patches(1)
    by (simp add: drop_entry_def journal_ready_def final_patch_def)
  ultimately show ?thesis using assms(3) by (simp add: route_landed_def Let_def route_flush_covers)
qed

text \<open>The payload of an owed promotion, and the records of an entry that can take it.\<close>

definition reveal_payload :: "fields \<Rightarrow> queued_reveal \<Rightarrow> fields" where
  "reveal_payload entry rv =
     [''txid'' \<mapsto> js_coalesce (fld (reveal_entry entry rv) ''txid'') Null, ''commitTxid'' \<mapsto> js_coalesce (fld entry ''txid'') Null]"

definition takes_reveal :: "fields \<Rightarrow> (string \<rightharpoonup> fields) \<Rightarrow> bool" where
  "takes_reveal entry m \<longleftrightarrow> (case queuedRevealOf entry of None \<Rightarrow> True
     | Some rv \<Rightarrow> \<forall>i \<in> set (pendingTxIdsOf entry). open_record (m i) \<longrightarrow> promotes (reveal_payload entry rv) (m i))"

lemma reveal_entry_ids [simp]: "pendingTxIdsOf (reveal_entry entry rv) = pendingTxIdsOf entry"
  by (simp add: pendingTxIdsOf_def reveal_entry_def fld_def map_add_def split: option.splits)

lemma reveal_entry_hex [simp]: "fld (reveal_entry entry rv) ''signedTxHex'' = JStr (qr_hex rv)"
  by (simp add: reveal_entry_def fld_def map_add_def split: option.splits)

text \<open>A patch that leaves the reveal of a record alone leaves it as promotable as it was.\<close>

lemma patch_promotes:
  assumes "p ''revealTxHex'' = None" "p ''revealTxid'' = None" "wf_patch p"
    and "open_record m \<longrightarrow> promotes rv m"
  shows "open_record (patch_rec p m) \<longrightarrow> promotes rv (patch_rec p m)"
proof (cases m)
  case (Some e)
  have "fld (e ++ p) ''revealTxHex'' = fld e ''revealTxHex''" "fld (e ++ p) ''revealTxid'' = fld e ''revealTxid''"
    using assms(1,2) by (simp_all add: fld_add)
  moreover have "fld (e ++ p) ''commitLanded'' = JBool True \<or> fld (e ++ p) ''commitLanded'' = fld e ''commitLanded''"
    using assms(3) by (auto simp: fld_add wf_patch_def split: option.splits)
  ultimately show ?thesis using assms(4) Some
    by (auto simp: promotes_def patch_rec_def promotable_def)
qed simp

lemma settled_promotes:
  assumes "settleQueuedPendingTx up v entry p = (w, x)" "p ''revealTxHex'' = None" "p ''revealTxid'' = None" "wf_patch p"
    and "k \<in> set (pendingTxIdsOf entry)" "open_record (vt_mem v k) \<longrightarrow> promotes rv (vt_mem v k)"
  shows "open_record (vt_mem w k) \<longrightarrow> promotes rv (vt_mem w k)"
  using settle_mem(2) [OF assms(1,5)] patch_promotes [OF assms(2-4,6)] assms(6) by metis

lemma takes_reveal_settled:
  assumes "takes_reveal entry (vt_mem v)" "settleQueuedPendingTx up v entry p = (w, x)"
    and "p ''revealTxHex'' = None" "p ''revealTxid'' = None" "wf_patch p"
  shows "takes_reveal entry (vt_mem w)"
  using assms(1) settled_promotes [OF assms(2-5)] by (auto simp: takes_reveal_def split: option.splits)

definition advance_patch :: "fields \<Rightarrow> queued_reveal \<Rightarrow> fields" where
  "advance_patch entry rv =
     [''status'' \<mapsto> JStr ''broadcasting'', ''txHex'' \<mapsto> JStr (qr_hex rv),
      ''txid'' \<mapsto> js_coalesce (fld (reveal_entry entry rv) ''txid'') Null,
      ''commitLanded'' \<mapsto> JBool True, ''commitTxid'' \<mapsto> js_coalesce (fld entry ''txid'') Null, ''error'' \<mapsto> Null]"

lemma advance_eq:
  "advanceToReveal a i entry rv st = settle_or_owe a 1 (reveal_entry entry rv) (advance_patch entry rv) Op_reveal (reveal_payload entry rv)
     (st\<lparr>rs_queue := update_first (has_id i) (\<lambda>_. reveal_entry entry rv) (rs_queue st)\<rparr>)"
  by (simp add: advanceToReveal_def advance_patch_def reveal_payload_def Let_def)

text \<open>The journal names none of an entry's records, and has room for two writes of each.\<close>

definition unowed :: "fields \<Rightarrow> owed list \<Rightarrow> bool" where
  "unowed entry j \<longleftrightarrow> shaped j \<and> length j + 2 * length (pendingTxIdsOf entry) \<le> OWED_SETTLEMENT_LIMIT
     \<and> (\<forall>i \<in> set (pendingTxIdsOf entry). owed_for j i = None)"

lemma unowed_ready: "unowed entry (rs_journal st) \<Longrightarrow> journal_ready (pendingTxIdsOf entry) st"
  by (auto simp: unowed_def journal_ready_def)

lemma advance_ready:
  assumes "unowed entry (rs_journal st)" "takes_reveal entry (vt_mem (rs_vault st))" "queuedRevealOf entry = Some rv"
  shows "journal_ready (pendingTxIdsOf entry) (advanceToReveal a i entry rv st)"
proof -
  let ?e = "reveal_entry entry rv" and ?pay = "reveal_payload entry rv" and ?j = "rs_journal st" and ?ids = "pendingTxIdsOf entry"
  obtain w x where s: "settleQueuedPendingTx (ra_up a) (rs_vault st) ?e (advance_patch entry rv) = (w, x)" by fastforce
  let ?owe = "owe_all a 1 ?e Op_reveal ?pay ?j" and ?kids = "map (\<lambda>i. (i, ra_key a 1 i)) ?ids"
  have vault: "rs_vault (advanceToReveal a i entry rv st) = w"
    and journal: "rs_journal (advanceToReveal a i entry rv st) = (if x = Unreachable then ?owe else ?j)"
    by (simp_all add: advance_eq settle_or_owe_def s)
  have wf: "wf_patch ?pay" "wf_patch (advance_patch entry rv)"
    by (simp_all add: wf_patch_def reveal_payload_def advance_patch_def)
  have u: "shaped ?j" "length ?j + length ?ids + length ?ids \<le> OWED_SETTLEMENT_LIMIT" "\<And>k. k \<in> set ?ids \<Longrightarrow> owed_for ?j k = None"
    using assms(1) by (auto simp: unowed_def)
  have room: "length ?j + length ?kids \<le> OWED_SETTLEMENT_LIMIT" using u(2) by simp
  note rec = record_all_owed_for [of ?kids ?j "ra_now a" "ra_wallet a" Op_reveal "Some ?pay", OF _ _ room]
  have o: "length ?owe \<le> length ?j + length ?ids" using rec(2) pendingTxIdsOf_ok [of entry] by (simp add: owe_all_def comp_def)
  have named: "owed_for ?owe k = Some (new_owed (ra_key a 1 k) (ra_now a) (ra_wallet a) k Op_reveal (Some ?pay))" if "k \<in> set ?ids" for k
    using rec(1) [of k] pendingTxIdsOf_ok [of entry] that u(3) [OF that]
    by (simp add: owe_all_def comp_def map_of_map_restrict foldOwedSettlement_def)
  have promo: "open_record (vt_mem w k) \<longrightarrow> promotes ?pay (vt_mem w k)" if "k \<in> set ?ids" for k
    using assms(2,3) that by (intro settled_promotes [OF s _ _ wf(2)]) (auto simp: takes_reveal_def advance_patch_def)
  have sh: "shaped ?owe" using record_all_shaped [OF u(1), of "Some ?pay"] wf(1) by (simp add: owe_all_def)
  show ?thesis unfolding journal_ready_def vault journal
    using u o sh named promo by (auto simp: new_owed_def reveal_fields_def)
qed

section \<open>What the broadcast route does\<close>

lemma route_sent [simp]:
  "rs_sent (settle_or_owe a n entry p op payload st) = rs_sent st" "rs_sent (drop_entry i st) = rs_sent st"
  "rs_sent (route_flush a st) = rs_sent st" "rs_sent (route_landed a n i entry txid st) = rs_sent st"
  "rs_sent (fst (route_refused a n i entry err st)) = rs_sent st" "rs_sent (sends h reply st) = rs_sent st @ [(h, reply)]"
  "rs_sent (advanceToReveal a i entry rv st) = rs_sent st"
  by (simp_all add: settle_or_owe_def drop_entry_def route_flush_def route_landed_def route_refused_def sends_def
      advanceToReveal_def Let_def split_beta)

lemma length_update_first [simp]: "length (update_first P f xs) = length xs"
  by (induction xs) auto

lemma route_queue [simp]:
  "rs_queue (settle_or_owe a n entry p op payload st) = rs_queue st" "rs_queue (sends h reply st) = rs_queue st"
  "length (rs_queue (advanceToReveal a i entry rv st)) = length (rs_queue st)"
  by (simp_all add: settle_or_owe_def sends_def advance_eq split_beta Let_def)

lemma sends_other [simp]: "rs_journal (sends h reply st) = rs_journal st" "rs_vault (sends h reply st) = rs_vault st"
  by (simp_all add: sends_def)

lemma ready_sends [simp]: "journal_ready ids (sends h reply st) = journal_ready ids st"
  by (simp add: journal_ready_def)

text \<open>Delivered, or refused for good.\<close>

definition decided :: "js option \<Rightarrow> bool" where
  "decided reply \<longleftrightarrow> delivered reply \<or> (case reply of None \<Rightarrow> False | Some err \<Rightarrow> classifyBroadcastFailure err = Permanent)"

definition covers_all :: "route_answers \<Rightarrow> fields \<Rightarrow> route_state \<Rightarrow> bool" where
  "covers_all a entry st \<longleftrightarrow> (\<forall>k \<in> set (pendingTxIdsOf entry). covered a st k)"

definition settles :: "route_answers \<Rightarrow> fields \<Rightarrow> nat \<Rightarrow> js option \<Rightarrow> route_state \<times> (route_error + js) \<Rightarrow> bool" where
  "settles a entry len reply x \<longleftrightarrow>
     (\<forall>r. snd x = Inr r \<longrightarrow> delivered reply \<and> covers_all a entry (fst x))
     \<and> (length (rs_queue (fst x)) < len \<longrightarrow> decided reply \<and> covers_all a entry (fst x))"

lemma covered_drop [simp]: "covered a (drop_entry i st) k = covered a st k"
  by (simp add: covered_def drop_entry_def)

lemma route_refused_settles:
  assumes "journal_ready (pendingTxIdsOf entry) st" "length (rs_queue st) = len"
  shows "settles a entry len (Some err) (route_refused a n i entry err st)"
proof (cases "classifyBroadcastFailure err")
  case Permanent
  have "covered a (drop_entry i (settle_or_owe a n entry (permanentReleasePatch (ra_stamp a) entry (error_message err)) Op_patch
      (permanentReleasePatch (ra_stamp a) entry (error_message err)) st)) k" if "k \<in> set (pendingTxIdsOf entry)" for k
    using settle_or_owe_covers [OF final_patches(2) assms(1) that] by simp
  then show ?thesis by (simp add: settles_def route_refused_def Permanent decided_def covers_all_def Let_def)
next
  case Transient
  then show ?thesis using assms(2) by (simp add: settles_def route_refused_def Let_def)
qed

definition reply_of :: "js + js \<Rightarrow> js option" where
  "reply_of x = (case x of Inl err \<Rightarrow> Some err | Inr _ \<Rightarrow> None)"

lemma route_last_settles:
  assumes "journal_ready (pendingTxIdsOf entry) st" "length (rs_queue st) = len" "ra_draining a = (\<lambda>_. False)"
  shows "settles a entry len (reply_of (ra_send a n)) (route_last a n i entry st)"
    and "rs_sent (fst (route_last a n i entry st)) = rs_sent st @ [(fld entry ''signedTxHex'', reply_of (ra_send a n))]"
proof -
  have ready: "journal_ready (pendingTxIdsOf entry) (sends h r st)" for h r using assms(1) by simp
  have landed: "covers_all a entry (route_landed a m i entry txid (sends h r st))" for m txid h r
    using route_landed_covers [OF ready _ assms(3)] by (simp add: covers_all_def)
  show "settles a entry len (reply_of (ra_send a n)) (route_last a n i entry st)"
  proof (cases "ra_send a n")
    case (Inr result)
    then show ?thesis using landed by (simp add: route_last_def reply_of_def settles_def decided_def)
  next
    case (Inl err)
    show ?thesis
    proof (cases "isAlreadyOnNetworkRejection err")
      case True
      then show ?thesis using Inl landed by (simp add: route_last_def reply_of_def settles_def decided_def)
    next
      case False
      then show ?thesis
        using Inl route_refused_settles [of entry "sends (fld entry ''signedTxHex'') (Some err) st" len a err 2 i] assms(2) ready
        by (simp add: route_last_def reply_of_def)
    qed
  qed
  show "rs_sent (fst (route_last a n i entry st)) = rs_sent st @ [(fld entry ''signedTxHex'', reply_of (ra_send a n))]"
    by (simp add: route_last_def reply_of_def split: sum.splits)
qed

text \<open>The bytes an entry sends in order, and a run that sends a prefix of them, each send after one that landed.\<close>

definition entry_bytes :: "fields \<Rightarrow> js list" where
  "entry_bytes entry = fld entry ''signedTxHex'' # (case queuedRevealOf entry of None \<Rightarrow> [] | Some rv \<Rightarrow> [JStr (qr_hex rv)])"

definition route_ok :: "route_answers \<Rightarrow> fields \<Rightarrow> route_state \<Rightarrow> route_state \<times> (route_error + js) \<Rightarrow> bool" where
  "route_ok a entry st x \<longleftrightarrow> (\<exists>new. rs_sent (fst x) = rs_sent st @ new
     \<and> (\<exists>n. map fst new = take n (entry_bytes entry)) \<and> (\<forall>r \<in> set (butlast new). delivered (snd r))
     \<and> (\<forall>r. snd x = Inr r \<longrightarrow> map fst new = entry_bytes entry \<and> delivered (snd (last new)) \<and> covers_all a entry (fst x))
     \<and> (length (rs_queue (fst x)) < length (rs_queue st) \<longrightarrow> covers_all a entry (fst x) \<and>
          (if new = [] then pendingTxIdsOf entry \<noteq> [] \<and> (\<forall>k \<in> set (pendingTxIdsOf entry). \<not> open_record (vt_mem (rs_vault st) k))
           else decided (snd (last new)))))"
lemma route_ok_last:
  assumes "settles a entry (length (rs_queue st)) reply x" "rs_sent (fst x) = rs_sent st @ earlier @ [(h, reply)]"
    and "\<forall>r \<in> set earlier. delivered (snd r)" "\<exists>n. map fst earlier @ [h] = take n (entry_bytes entry)"
    and "\<And>r. snd x = Inr r \<Longrightarrow> map fst earlier @ [h] = entry_bytes entry"
  shows "route_ok a entry st x"
  unfolding route_ok_def using assms by (intro exI [of _ "earlier @ [(h, reply)]"]) (auto simp: settles_def)

text \<open>Nothing sent, and the entry still in the queue.\<close>

lemma route_ok_idle:
  "rs_sent (fst x) = rs_sent st \<Longrightarrow> length (rs_queue (fst x)) = length (rs_queue st) \<Longrightarrow> snd x = Inl e \<Longrightarrow> route_ok a entry st x"
  unfolding route_ok_def by (intro exI [of _ "[]"]) (auto intro: exI [of _ 0])

lemma route_reveal_ok:
  assumes "unowed entry (rs_journal st)" "takes_reveal entry (vt_mem (rs_vault st))" "queuedRevealOf entry = Some rv"
    and "ra_draining a = (\<lambda>_. False)" "delivered reply" "st1 = sends (fld entry ''signedTxHex'') reply st"
  shows "route_ok a entry st (route_reveal a i entry rv st1)"
proof -
  let ?st2 = "advanceToReveal a i entry rv st1" and ?h = "fld entry ''signedTxHex''"
  have bytes: "entry_bytes entry = [?h, JStr (qr_hex rv)]" using assms(3) by (simp add: entry_bytes_def)
  have ready: "journal_ready (pendingTxIdsOf (reveal_entry entry rv)) ?st2"
    using advance_ready [of entry st1 rv a i] assms(1-3,6) by simp
  show ?thesis
  proof (cases "ra_frozen a 2")
    case (Some e)
    then have x: "route_reveal a i entry rv st1 = (?st2, Inl (Route_frozen e))" by (simp add: route_reveal_def Let_def)
    have "take 1 (entry_bytes entry) = [?h]" by (simp add: bytes)
    then have "\<exists>n. [?h] = take n (entry_bytes entry)" by metis
    then show ?thesis unfolding route_ok_def x using assms(6)
      by (intro exI [of _ "[(?h, reply)]"]) (simp add: sends_def)
  next
    case None
    then have x: "route_reveal a i entry rv st1 = route_last a 1 i (reveal_entry entry rv) ?st2"
      by (simp add: route_reveal_def Let_def)
    have len: "length (rs_queue ?st2) = length (rs_queue st)" using assms(6) by simp
    note s = route_last_settles [OF ready len assms(4), of 1 i]
    have "settles a entry (length (rs_queue st)) (reply_of (ra_send a 1)) (route_last a 1 i (reveal_entry entry rv) ?st2)"
      using s(1) by (simp add: settles_def covers_all_def)
    moreover have "take 2 (entry_bytes entry) = [?h, JStr (qr_hex rv)]" by (simp add: bytes)
    then have "\<exists>n. [?h, JStr (qr_hex rv)] = take n (entry_bytes entry)" by metis
    ultimately show ?thesis unfolding x using s(2) assms(5,6)
      by (intro route_ok_last [where earlier = "[(?h, reply)]" and h = "JStr (qr_hex rv)"]) (simp_all add: bytes)
  qed
qed

lemma route_send_ok:
  assumes "unowed entry (rs_journal st)" "takes_reveal entry (vt_mem (rs_vault st))" "ra_draining a = (\<lambda>_. False)"
  shows "route_ok a entry st (route_send a i entry st)"
proof (cases "queuedRevealOf entry")
  case None
  note s = route_last_settles [OF unowed_ready [OF assms(1)] refl assms(3), of 0 i]
  have "take 1 (entry_bytes entry) = [fld entry ''signedTxHex'']" using None by (simp add: entry_bytes_def)
  then have "\<exists>n. [fld entry ''signedTxHex''] = take n (entry_bytes entry)" by metis
  then have "route_ok a entry st (route_last a 0 i entry st)"
    using s None by (intro route_ok_last [where earlier = "[]"]) (simp_all add: entry_bytes_def)
  then show ?thesis using None by (simp add: route_send_def)
next
  case (Some rv)
  let ?h = "fld entry ''signedTxHex''"
  note reveal = route_reveal_ok [OF assms(1,2) Some assms(3) _ refl, of _ i]
  show ?thesis
  proof (cases "ra_send a 0")
    case (Inr r)
    then show ?thesis using reveal [of None] Some by (simp add: route_send_def)
  next
    case (Inl err)
    show ?thesis
    proof (cases "isAlreadyOnNetworkRejection err")
      case True
      then show ?thesis using reveal [of "Some err"] Some Inl by (simp add: route_send_def)
    next
      case False
      let ?st1 = "sends ?h (Some err) st"
      have "settles a entry (length (rs_queue st)) (Some err) (route_refused a 2 i entry err ?st1)"
        using unowed_ready [OF assms(1)] by (intro route_refused_settles) simp_all
      moreover have "take 1 (entry_bytes entry) = [?h]" by (simp add: entry_bytes_def)
      then have "\<exists>n. [?h] = take n (entry_bytes entry)" by metis
      moreover have "\<exists>e. snd (route_refused a 2 i entry err ?st1) = Inl e" by (simp add: route_refused_def Let_def)
      ultimately have "route_ok a entry st (route_refused a 2 i entry err ?st1)"
        by (intro route_ok_last [where earlier = "[]" and h = ?h]) auto
      then show ?thesis using Some Inl False by (simp add: route_send_def)
    qed
  qed
qed
definition claim_patch :: fields where
  "claim_patch = [''status'' \<mapsto> JStr ''broadcasting'', ''error'' \<mapsto> Null]"

lemma claim_keeps_open: "open_record m \<Longrightarrow> open_record (patch_rec claim_patch m)"
  using patch_status [of claim_patch m] by (simp add: claim_patch_def wf_patch_def fld_def WRITABLE_OWED_STATUSES_def)

lemma route_ok_cong:
  assumes "route_ok a entry st1 x" "rs_sent st1 = rs_sent st" "rs_queue st1 = rs_queue st"
    and "\<And>k. k \<in> set (pendingTxIdsOf entry) \<Longrightarrow> \<not> open_record (vt_mem (rs_vault st1) k) \<Longrightarrow> \<not> open_record (vt_mem (rs_vault st) k)"
  shows "route_ok a entry st x"
  using assms unfolding route_ok_def by (elim exE, rename_tac new, intro exI) (auto split: if_splits)

lemma route_claim_ok:
  assumes "unowed entry (rs_journal st)" "takes_reveal entry (vt_mem (rs_vault st))" "ra_draining a = (\<lambda>_. False)"
  shows "route_ok a entry st (route_claim a i entry st)"
proof -
  obtain v x where s: "settleQueuedPendingTx (ra_up a) (rs_vault st) entry claim_patch = (v, x)" by fastforce
  let ?st1 = "st\<lparr>rs_vault := v\<rparr>"
  note m = settle_mem [OF s]
  have c: "route_claim a i entry st = (if x = Closed then (drop_entry i ?st1, Inl No_longer_queued)
      else (case ra_frozen a 1 of
          Some e \<Rightarrow> (settle_or_owe a 0 entry (queued_patch Null) Op_patch (queued_patch Null) ?st1, Inl (Route_frozen e))
        | None \<Rightarrow> route_send a i entry ?st1))"
    using s by (simp add: route_claim_def claim_patch_def Let_def)
  show ?thesis
  proof (cases "x = Closed")
    case True
    then have closed: "\<forall>k \<in> set (pendingTxIdsOf entry). \<not> open_record (vt_mem (rs_vault st) k)"
      and ids: "pendingTxIdsOf entry \<noteq> []" using m(4,5) by auto
    have "\<not> open_record (vt_mem v k)" if "k \<in> set (pendingTxIdsOf entry)" for k
      using m(3) [of k] closed that True by (auto simp: patch_rec_def split: option.splits)
    then have "covers_all a entry (drop_entry i ?st1)" by (simp add: covers_all_def covered_def drop_entry_def)
    then show ?thesis unfolding route_ok_def c using True closed ids
      by (intro exI [of _ "[]"]) (auto intro: exI [of _ 0])
  next
    case sent: False
    show ?thesis
    proof (cases "ra_frozen a 1")
      case (Some e)
      then show ?thesis unfolding c using sent by (intro route_ok_idle [where e = "Route_frozen e"]) simp_all
    next
      case None
      have "takes_reveal entry (vt_mem v)"
        by (rule takes_reveal_settled [OF assms(2) s]) (simp_all add: claim_patch_def wf_patch_def)
      then have ok: "route_ok a entry ?st1 (route_send a i entry ?st1)" using assms(1,3) by (intro route_send_ok) simp_all
      have "\<not> open_record (vt_mem (rs_vault st) k)" if "k \<in> set (pendingTxIdsOf entry)" "\<not> open_record (vt_mem v k)" for k
        using m(2) [OF that(1)] that(2) claim_keeps_open by metis
      then have "route_ok a entry st (route_send a i entry ?st1)" by (intro route_ok_cong [OF ok]) simp_all
      then show ?thesis using sent None by (simp add: c)
    qed
  qed
qed

lemma queue_broadcast_ok:
  assumes "List.find (has_id i) (rs_queue st) = Some entry" "unowed entry (rs_journal st)"
    "takes_reveal entry (vt_mem (rs_vault st))" "ra_draining a = (\<lambda>_. False)"
  shows "route_ok a entry st (queue_broadcast a claimed i st)"
proof -
  have idle: "route_ok a entry st (st, Inl e)" for e by (rule route_ok_idle) simp_all
  show ?thesis using assms route_claim_ok idle by (simp add: queue_broadcast_def split: option.split)
qed
text \<open>
  What "Broadcast now" does to an entry. The bytes go out in the order of the entry, commit before reveal, each
  after one that the network has; success is reported only when all of them were delivered. The entry leaves the
  queue only when its last bytes were delivered or refused for good, or when every record it names was closed
  before anything was sent; and then every record is final or the journal owes it a write that makes it so.
\<close>

lemma route_leaves_only_settled:
  assumes "List.find (has_id i) (rs_queue st) = Some entry" "unowed entry (rs_journal st)"
    "takes_reveal entry (vt_mem (rs_vault st))" "ra_draining a = (\<lambda>_. False)"
    "queue_broadcast a claimed i st = (st', answer)"
  shows "\<exists>new. rs_sent st' = rs_sent st @ new
    \<and> (\<exists>n. map fst new = take n (entry_bytes entry)) \<and> (\<forall>r \<in> set (butlast new). delivered (snd r))
    \<and> (\<forall>r. answer = Inr r \<longrightarrow> map fst new = entry_bytes entry \<and> delivered (snd (last new)) \<and> covers_all a entry st')
    \<and> (length (rs_queue st') < length (rs_queue st) \<longrightarrow> covers_all a entry st'
        \<and> (if new = [] then pendingTxIdsOf entry \<noteq> [] \<and> (\<forall>k \<in> set (pendingTxIdsOf entry). \<not> open_record (vt_mem (rs_vault st) k))
           else decided (snd (last new))))"
  using queue_broadcast_ok [OF assms(1-4), of claimed] by (simp add: assms(5) route_ok_def)

section \<open>What the discard route does\<close>

text \<open>The records a discard has still to reach: no write is owed for them and the journal has room for one each.\<close>

definition discardable :: "string list \<Rightarrow> owed list \<Rightarrow> bool" where
  "discardable ids j \<longleftrightarrow> shaped j \<and> length j + length ids \<le> OWED_SETTLEMENT_LIMIT \<and> (\<forall>i \<in> set ids. owed_for j i = None)"

definition discard_one :: "route_answers \<Rightarrow> string \<Rightarrow> route_state \<Rightarrow> route_state" where
  "discard_one a i st = discard_all a [i] st"

lemma discard_all_Cons: "discard_all a (i # ids) st = discard_all a ids (discard_one a i st)"
  by (simp add: discard_one_def split_beta)

lemma discard_one_fields [simp]: "rs_sent (discard_one a i st) = rs_sent st" "rs_queue (discard_one a i st) = rs_queue st"
  by (simp_all add: discard_one_def split_beta)

lemma discard_one_covers:
  assumes "discardable (i # ids) (rs_journal st)" "i \<noteq> []" "i \<notin> set ids" "ra_draining a = (\<lambda>_. False)"
  shows "covered a (discard_one a i st) i" "discardable ids (rs_journal (discard_one a i st))"
    and "\<And>k. k \<noteq> i \<Longrightarrow> covered a (discard_one a i st) k = covered a st k"
proof -
  obtain v x where c: "discard_call (ra_up a) (ra_stamp a) False (rs_vault st) i = (v, x)" by fastforce
  let ?j = "rs_journal st" and ?n = "new_owed (ra_key a 0 i) (ra_now a) (ra_wallet a) i Op_discard None"
  let ?rec = "recordOneOwedSettlement (ra_key a 0 i) (ra_now a) (ra_wallet a) i Op_discard None ?j"
  have st': "discard_one a i st = st\<lparr>rs_vault := v, rs_journal := (if x = Unreachable then ?rec else ?j)\<rparr>"
    using c assms(4) by (simp add: discard_one_def recordOwedSettlement_def)
  have acts: "acts i (discard_rec (ra_stamp a) False) (rs_vault st) (v, x)"
    using discard_acts [of i "ra_stamp a" False "rs_vault st" "ra_up a"] c by simp
  have d: "shaped ?j" "length ?j < OWED_SETTLEMENT_LIMIT" "owed_for ?j i = None"
    using assms(1) by (auto simp: discardable_def)
  note rec = record_owed_for [OF assms(2) d(2), of "ra_key a 0 i" "ra_now a" "ra_wallet a" Op_discard None]
  have closes: "\<not> open_record (replay_rec (ra_stamp a) False ?n r)" for r
    by (simp add: replay_rec_def discards_def new_owed_def Let_def discard_rec_closes)
  show "covered a (discard_one a i st) i"
    using acts discard_rec_closes rec(1) [of i] d(3) closes
    by (cases "x = Unreachable") (simp_all add: st' covered_def acts_def foldOwedSettlement_def)
  show "covered a (discard_one a i st) k = covered a st k" if "k \<noteq> i" for k
    using acts that rec(1) [of k] by (simp add: st' covered_def acts_def only_at_def)
  have "shaped ?rec" using record_all_shaped [OF d(1), of None "ra_now a" "ra_wallet a" "[(i, ra_key a 0 i)]" Op_discard]
    by (simp add: recordOwedSettlement_def wf_patch_def)
  moreover have "owed_for ?rec k = None" if "k \<in> set ids" for k
    using rec(1) [of k] that assms(1,3) by (auto simp: discardable_def)
  moreover have "length ?rec + length ids \<le> OWED_SETTLEMENT_LIMIT"
    using rec(2) assms(1) by (simp add: discardable_def)
  ultimately show "discardable ids (rs_journal (discard_one a i st))"
    using assms(1) by (auto simp: st' discardable_def)
qed
lemma discard_all_covers:
  assumes "discardable ids (rs_journal st)" "[] \<notin> set ids" "distinct ids" "ra_draining a = (\<lambda>_. False)" "k \<in> set ids"
  shows "covered a (discard_all a ids st) k \<and> shaped (rs_journal (discard_all a ids st))"
proof -
  have "(\<forall>k \<in> set ids. covered a (discard_all a ids st) k) \<and> (\<forall>k. k \<notin> set ids \<longrightarrow> covered a (discard_all a ids st) k = covered a st k)
    \<and> shaped (rs_journal (discard_all a ids st))"
    using assms(1-3)
  proof (induction ids arbitrary: st)
    case (Cons i ids)
    have i: "i \<noteq> []" "i \<notin> set ids" "[] \<notin> set ids" "distinct ids" using Cons.prems by auto
    note one = discard_one_covers [OF Cons.prems(1) i(1,2) assms(4)]
    show ?case unfolding discard_all_Cons using Cons.IH [OF one(2) i(3,4)] one(1,3) i(2) by auto
  qed (simp add: discardable_def)
  then show ?thesis using assms(5) by blast
qed

lemma discard_all_fields: "rs_sent (discard_all a ids st) = rs_sent st \<and> rs_queue (discard_all a ids st) = rs_queue st"
proof (induction ids arbitrary: st)
  case (Cons i ids)
  then show ?case unfolding discard_all_Cons by simp
qed simp

lemma flush_unowed:
  assumes "unowed entry (rs_journal st)"
  shows "discardable (pendingTxIdsOf entry) (rs_journal (route_flush a st))"
proof -
  obtain w j' where f: "flushOwedSettlements (ra_up a) (ra_stamp a) (ra_draining a) (ra_has_save a) (rs_vault st) (rs_journal st) (rs_journal st) = (w, j')"
    by fastforce
  obtain P where j': "j' = List.filter P (rs_journal st)"
    using f by (cases rule: flush_cases) (auto intro: that [of "\<lambda>_. True"])
  have "length (List.filter P (rs_journal st)) \<le> length (rs_journal st)" by simp
  moreover have "length (rs_journal st) + 2 * length (pendingTxIdsOf entry) \<le> OWED_SETTLEMENT_LIMIT" using assms by (simp add: unowed_def)
  ultimately have "length (List.filter P (rs_journal st)) + length (pendingTxIdsOf entry) \<le> OWED_SETTLEMENT_LIMIT" by linarith
  moreover have "owed_for (List.filter P (rs_journal st)) i = None" if "owed_for (rs_journal st) i = None" for i
    using that by (auto simp: owed_for_None)
  ultimately show ?thesis using assms shaped_filter [of "rs_journal st" P]
    by (auto simp: route_flush_def f j' unowed_def discardable_def)
qed

text \<open>
  Discarding an entry takes it out of the queue, sends nothing, and leaves each of its records gone, final, or
  with a write owed to it that closes it.
\<close>

lemma discard_covers_all:
  assumes "List.find (has_id i) (rs_queue st) = Some entry" "unowed entry (rs_journal st)" "ra_draining a = (\<lambda>_. False)"
  shows "snd (queue_discard a False i st) = Inr True \<and> covers_all a entry (fst (queue_discard a False i st))
    \<and> rs_sent (fst (queue_discard a False i st)) = rs_sent st
    \<and> rs_queue (fst (queue_discard a False i st)) = remove_first (has_id i) (rs_queue st)"
proof -
  let ?ids = "pendingTxIdsOf entry"
  let ?st1 = "if ?ids = [] then st else discard_all a ?ids (route_flush a st)"
  have q: "queue_discard a False i st = (route_flush a (drop_entry i ?st1), Inr True)"
    using assms(1) by (simp add: queue_discard_def Let_def)
  have "rs_queue (route_flush a s) = rs_queue s" for s by (simp add: route_flush_def split_beta)
  moreover have "covers_all a entry (route_flush a (drop_entry i ?st1))"
    unfolding covers_all_def
  proof
    fix k assume k: "k \<in> set ?ids"
    then have "covered a ?st1 k \<and> shaped (rs_journal ?st1)"
      using discard_all_covers [OF flush_unowed [OF assms(2)] pendingTxIdsOf_ok(2,1) assms(3)] by auto
    then show "covered a (route_flush a (drop_entry i ?st1)) k"
      using route_flush_covers [OF _ _ assms(3)] by (simp add: drop_entry_def covered_def)
  qed
  ultimately show ?thesis by (simp add: q discard_all_fields drop_entry_def)
qed

end
