(* ===== verification/Window_Store.thy ===== *)
theory Window_Store
  imports Decimal_Strings "HOL-Library.Multiset"
begin

text \<open>
  The passive co-signer's spending-window store, \<^verbatim>\<open>VaultWindowStore\<close> of
  \<^verbatim>\<open>core/src/cosigner/vaultWindowStore.js\<close>: the in-memory copy of the window, its
  fail-closed loading, pruning, the usage snapshot, recording an authorised action, and the
  asynchronous flush. An entry is the JavaScript object the code keeps. Every operation takes the
  values its clock reads (\<^verbatim>\<open>this._now()\<close>) and the value the persistence port reads as
  arguments; an operation that can throw returns \<open>Inl\<close> the error beside the state it leaves.
  The second half proves that the snapshot's totals are exact, that loading never loosens the
  budget, that no recorded action leaves the window early, and that a clean store is durable.
\<close>

section \<open>State\<close>

datatype window_error =
    PersistenceRequired
  | HoursInvalid
  | ReadFailed
  | EntriesMissing
  | UnsupportedVersion
  | LastSeenInvalid
  | EntryTimestamp
  | EntryAction
  | EntryTick
  | EntryTxid
  | EntryAmount
  | EntryNegative
  | ClockInvalid
  | NotLoaded
  | AmountUnreadable

datatype clock_warning = WrittenInFuture | TimestampsClamped nat

record window_data =
  w_entries :: "js list"
  w_lastSeen :: js

record window_store =
  w_hours :: rat
  w_state :: "window_data option"
  w_dirty :: bool
  w_revision :: nat
  w_clockWarnings :: "clock_warning list"
  w_in_flight :: "(nat \<times> window_data) option"

definition WINDOW_STATE_VERSION :: js where
  "WINDOW_STATE_VERSION = JNum (Fin 1)"

definition UNRESOLVED_TICK_BUCKET :: string where
  "UNRESOLVED_TICK_BUCKET = ''|unresolved|''"

definition CLOCK_SKEW_TOLERANCE_MS :: rat where
  "CLOCK_SKEW_TOLERANCE_MS = 60 * 1000"

definition new_window_store :: "bool \<Rightarrow> js \<Rightarrow> window_error + window_store" where
  "new_window_store hasPort h =
    (if \<not> hasPort then Inl PersistenceRequired
     else if \<not> is_finite h \<or> fin_val h \<le> 0 then Inl HoursInvalid
     else Inr \<lparr>w_hours = fin_val h, w_state = None, w_dirty = False, w_revision = 0, w_clockWarnings = [],
               w_in_flight = None\<rparr>)"

section \<open>Operations\<close>

definition readNow :: "js \<Rightarrow> window_error + rat" where
  "readNow now = (if \<not> is_finite now \<or> fin_val now < 0 then Inl ClockInvalid else Inr (fin_val now))"

fun optional_string :: "js \<Rightarrow> bool" where
  "optional_string (JStr s) = True"
| "optional_string v = is_nullish v"

fun string_or_number :: "js \<Rightarrow> bool" where
  "string_or_number (JStr s) = True"
| "string_or_number (JNum x) = True"
| "string_or_number v = False"

definition validateEntry :: "js \<Rightarrow> window_error option" where
  "validateEntry e =
    (let amount = js_get e ''amount''
     in if \<not> optional_string (js_get e ''action'') then Some EntryAction
        else if \<not> optional_string (js_get e ''tick'') then Some EntryTick
        else if \<not> optional_string (js_get e ''txid'') then Some EntryTxid
        else if is_nullish amount then None
        else if \<not> string_or_number amount then Some EntryAmount
        else (case toScaled amount of
            None \<Rightarrow> Some EntryAmount
          | Some (value, k) \<Rightarrow> if value < 0 then Some EntryNegative else None))"

definition timestamp_ok :: "js \<Rightarrow> bool" where
  "timestamp_ok e \<longleftrightarrow> is_plain_object e \<and> is_finite (js_get e ''t'') \<and> 0 \<le> fin_val (js_get e ''t'')"

fun check_entries :: "js list \<Rightarrow> window_error option" where
  "check_entries [] = None"
| "check_entries (e # es) =
    (if \<not> timestamp_ok e then Some EntryTimestamp
     else (case validateEntry e of Some err \<Rightarrow> Some err | None \<Rightarrow> check_entries es))"

fun array_items :: "js \<Rightarrow> js list option" where
  "array_items (JArr vs) = Some vs"
| "array_items _ = None"

definition entry_time :: "js \<Rightarrow> rat" where
  "entry_time e = fin_val (js_get e ''t'')"

definition clamp_entry :: "rat \<Rightarrow> js \<Rightarrow> js" where
  "clamp_entry now e =
    (if entry_time e > now + CLOCK_SKEW_TOLERANCE_MS then js_put e ''t'' (JNum (Fin now)) else e)"

definition seen_in_future :: "rat \<Rightarrow> js \<Rightarrow> bool" where
  "seen_in_future now v \<longleftrightarrow> is_finite v \<and> fin_val v > now + CLOCK_SKEW_TOLERANCE_MS"

definition markDirty :: "window_store \<Rightarrow> window_store" where
  "markDirty w = w\<lparr>w_dirty := True, w_revision := w_revision w + 1\<rparr>"

text \<open>What the structural checks of \<^verbatim>\<open>_loadState\<close> make of the value read.\<close>

definition check_raw :: "js \<Rightarrow> window_error + js list" where
  "check_raw raw =
    (case (is_plain_object raw, array_items (js_get raw ''entries'')) of
       (True, Some es) \<Rightarrow>
         (if js_get raw ''version'' \<noteq> WINDOW_STATE_VERSION then Inl UnsupportedVersion
          else if js_get raw ''lastSeen'' \<noteq> Undef
               \<and> (\<not> is_finite (js_get raw ''lastSeen'') \<or> fin_val (js_get raw ''lastSeen'') < 0)
          then Inl LastSeenInvalid
          else (case check_entries es of Some err \<Rightarrow> Inl err | None \<Rightarrow> Inr es))
     | _ \<Rightarrow> Inl EntriesMissing)"

text \<open>
  \<^verbatim>\<open>load\<close>: nothing to do when the state is there; a read that rejects (\<open>None\<close>) and every
  malformed value is an error that leaves the store unloaded.
\<close>

definition load :: "js option \<Rightarrow> js \<Rightarrow> window_store \<Rightarrow> (window_error + unit) \<times> window_store" where
  "load readResult clock w =
    (if w_state w \<noteq> None then (Inr (), w)
     else (case readResult of
         None \<Rightarrow> (Inl ReadFailed, w)
       | Some raw \<Rightarrow>
          (if raw = Null then (Inr (), w\<lparr>w_state := Some \<lparr>w_entries = [], w_lastSeen = Undef\<rparr>\<rparr>)
           else (case check_raw raw of
               Inl err \<Rightarrow> (Inl err, w)
             | Inr es \<Rightarrow>
                (case readNow clock of
                   Inl err \<Rightarrow> (Inl err, w)
                 | Inr now \<Rightarrow>
                    (let seen = js_get raw ''lastSeen'';
                         future = seen_in_future now seen;
                         clamped = length (List.filter (\<lambda>e. entry_time e > now + CLOCK_SKEW_TOLERANCE_MS) es);
                         ls = (if future then JNum (Fin now) else seen);
                         w1 = w\<lparr>w_state := Some \<lparr>w_entries = map (clamp_entry now) es, w_lastSeen = ls\<rparr>,
                                w_clockWarnings := (if future then [WrittenInFuture] else [])
                                               @ (if clamped \<noteq> 0 then [TimestampsClamped clamped] else [])\<rparr>
                     in (Inr (), if clamped \<noteq> 0 \<or> ls \<noteq> seen then markDirty w1 else w1)))))))"

definition window_cutoff :: "window_store \<Rightarrow> rat \<Rightarrow> rat" where
  "window_cutoff w now = now - w_hours w * 3600 * 1000"

definition prune :: "rat \<Rightarrow> window_store \<Rightarrow> window_store" where
  "prune now w =
    (case w_state w of
       None \<Rightarrow> w
     | Some d \<Rightarrow>
        (let kept = List.filter (\<lambda>e. entry_time e \<ge> window_cutoff w now) (w_entries d)
         in if length kept \<noteq> length (w_entries d) then markDirty (w\<lparr>w_state := Some (d\<lparr>w_entries := kept\<rparr>)\<rparr>) else w))"

definition tick_key :: "js \<Rightarrow> string" where
  "tick_key e =
    (let tick = js_get e ''tick''
     in if is_nullish tick then UNRESOLVED_TICK_BUCKET else js_upper (js_text tick))"

text \<open>One entry's contribution to the per-tick totals.\<close>

definition tally :: "(string \<rightharpoonup> string) option \<Rightarrow> js \<Rightarrow> (string \<rightharpoonup> string) option" where
  "tally acc e =
    (case acc of
       None \<Rightarrow> None
     | Some totals \<Rightarrow>
        (if is_nullish (js_get e ''amount'') then Some totals
         else (case addDecimalStrings (JStr (case totals (tick_key e) of None \<Rightarrow> ''0'' | Some t \<Rightarrow> t))
                      (js_get e ''amount'') of
             None \<Rightarrow> None
           | Some t \<Rightarrow> Some (totals(tick_key e \<mapsto> t)))))"

record window_usage =
  usage_count :: nat
  perTick :: "string \<rightharpoonup> string"

definition snapshot :: "js \<Rightarrow> window_store \<Rightarrow> (window_error + window_usage) \<times> window_store" where
  "snapshot clock w =
    (if w_state w = None then (Inl NotLoaded, w)
     else (case readNow clock of
         Inl err \<Rightarrow> (Inl err, w)
       | Inr now \<Rightarrow>
          (let w1 = prune now w; es = w_entries (the (w_state w1))
           in case foldl tally (Some Map.empty) es of
                None \<Rightarrow> (Inl AmountUnreadable, w1)
              | Some totals \<Rightarrow> (Inr \<lparr>usage_count = length es, perTick = totals\<rparr>, w1))))"

definition action_object :: "js \<Rightarrow> js \<Rightarrow> js \<Rightarrow> js \<Rightarrow> js" where
  "action_object action tick amount txid =
    JObj [(''action'', action), (''tick'', tick), (''amount'', amount), (''txid'', txid)]"

definition stamped_entry :: "rat \<Rightarrow> js \<Rightarrow> js \<Rightarrow> js \<Rightarrow> js \<Rightarrow> js" where
  "stamped_entry now action tick amount txid =
    JObj [(''t'', JNum (Fin now)), (''action'', action), (''tick'', tick), (''amount'', amount),
          (''txid'', js_coalesce txid Null)]"

text \<open>\<^verbatim>\<open>record\<close> reads the clock twice: once to prune, once to stamp the entry.\<close>

definition record_action ::
    "js \<Rightarrow> js \<Rightarrow> js \<Rightarrow> js \<Rightarrow> js \<Rightarrow> js \<Rightarrow> window_store \<Rightarrow> (window_error + unit) \<times> window_store" where
  "record_action clock1 clock2 action tick amount txid w =
    (if w_state w = None then (Inl NotLoaded, w)
     else (case validateEntry (action_object action tick amount txid) of
         Some err \<Rightarrow> (Inl err, w)
       | None \<Rightarrow>
          (case readNow clock1 of
             Inl err \<Rightarrow> (Inl err, w)
           | Inr now1 \<Rightarrow>
              (let w1 = prune now1 w
               in case readNow clock2 of
                    Inl err \<Rightarrow> (Inl err, w1)
                  | Inr now \<Rightarrow>
                     (let d = the (w_state w1);
                          seen = (if is_finite (w_lastSeen d) then max now (fin_val (w_lastSeen d)) else now)
                      in (Inr (), markDirty (w1\<lparr>w_state := Some
                           \<lparr>w_entries = w_entries d @ [stamped_entry now action tick amount txid],
                            w_lastSeen = JNum (Fin seen)\<rparr>\<rparr>)))))))"

text \<open>
  \<^verbatim>\<open>flush\<close> in its two halves: taking the snapshot and handing it to the port, and the
  port's answer. While a write is in flight the loop waits for it instead of starting another.
\<close>

definition flush_begin :: "js \<Rightarrow> window_store \<Rightarrow> (window_error + unit) \<times> window_store" where
  "flush_begin clock w =
    (case w_state w of
       Some d \<Rightarrow>
        (if \<not> w_dirty w \<or> w_in_flight w \<noteq> None then (Inr (), w)
         else (case (if is_nullish (w_lastSeen d) then map_sum id (\<lambda>n. JNum (Fin n)) (readNow clock) else Inr (w_lastSeen d)) of
             Inl err \<Rightarrow> (Inl err, w)
           | Inr seen \<Rightarrow> (Inr (), w\<lparr>w_in_flight := Some (w_revision w, d\<lparr>w_lastSeen := seen\<rparr>)\<rparr>)))
     | None \<Rightarrow> (Inr (), w))"

definition flush_end :: "bool \<Rightarrow> window_store \<Rightarrow> window_store" where
  "flush_end written w =
    (case w_in_flight w of
       None \<Rightarrow> w
     | Some (r, d) \<Rightarrow>
        w\<lparr>w_in_flight := None, w_dirty := (if written \<and> w_revision w = r then False else w_dirty w)\<rparr>)"

text \<open>The object the port is handed.\<close>

definition persisted_object :: "window_data \<Rightarrow> js" where
  "persisted_object d =
    JObj [(''version'', WINDOW_STATE_VERSION), (''entries'', JArr (w_entries d)), (''lastSeen'', w_lastSeen d)]"

section \<open>Entries\<close>

text \<open>What the load and record checks establish of every entry kept.\<close>

definition entry_ok :: "js \<Rightarrow> bool" where
  "entry_ok e \<longleftrightarrow> timestamp_ok e \<and> validateEntry e = None"

definition seen_ok :: "js \<Rightarrow> bool" where
  "seen_ok v \<longleftrightarrow> v = Undef \<or> (is_finite v \<and> 0 \<le> fin_val v)"

lemma check_entries_None: "check_entries es = None \<longleftrightarrow> list_all entry_ok es"
  by (induction es) (auto simp: entry_ok_def split: option.splits)

lemma check_raw_Inr:
  "check_raw raw = Inr es \<longleftrightarrow>
     is_plain_object raw \<and> js_get raw ''entries'' = JArr es \<and> js_get raw ''version'' = WINDOW_STATE_VERSION
     \<and> seen_ok (js_get raw ''lastSeen'') \<and> list_all entry_ok es"
  by (cases "js_get raw ''entries''")
    (auto simp: check_raw_def seen_ok_def check_entries_None [symmetric]
      split: option.splits bool.splits if_splits)

lemma validate_fields:
  assumes "\<And>f. f \<in> {''action'', ''tick'', ''amount'', ''txid''} \<Longrightarrow> js_get e f = js_get e' f"
  shows "validateEntry e = validateEntry e'"
proof -
  have "js_get e ''action'' = js_get e' ''action''" "js_get e ''tick'' = js_get e' ''tick''"
    "js_get e ''amount'' = js_get e' ''amount''" "js_get e ''txid'' = js_get e' ''txid''"
    by (rule assms, blast)+
  then show ?thesis by (simp only: validateEntry_def)
qed

lemma entry_ok_clamp:
  assumes "entry_ok e" "0 \<le> now"
  shows "entry_ok (clamp_entry now e)"
proof -
  have "validateEntry (js_put e ''t'' (JNum (Fin now))) = validateEntry e"
    by (rule validate_fields) (use assms in \<open>auto simp: js_get_put entry_ok_def timestamp_ok_def\<close>)
  with assms show ?thesis by (simp add: entry_ok_def timestamp_ok_def clamp_entry_def js_get_put)
qed

lemma entry_ok_stamped:
  assumes "validateEntry (action_object action tick amount txid) = None" "0 \<le> now"
  shows "entry_ok (stamped_entry now action tick amount txid)"
proof -
  have "optional_string (js_coalesce txid Null)" if "optional_string txid"
    using that by (auto simp: js_coalesce_def)
  with assms show ?thesis
    by (auto simp: entry_ok_def timestamp_ok_def stamped_entry_def validateEntry_def action_object_def
        Let_def split: if_splits option.splits)
qed

lemma entry_time_stamped [simp]: "entry_time (stamped_entry now action tick amount txid) = now"
  by (simp add: entry_time_def stamped_entry_def)

lemma prune_entries:
  assumes "w_state w = Some d"
  shows "\<exists>d'. w_state (prune now w) = Some d' \<and> w_lastSeen d' = w_lastSeen d
     \<and> w_entries d' = List.filter (\<lambda>e. entry_time e \<ge> window_cutoff w now) (w_entries d)"
proof -
  let ?P = "\<lambda>e. entry_time e \<ge> window_cutoff w now"
  have "List.filter ?P (w_entries d) = w_entries d"
    if "length (List.filter ?P (w_entries d)) = length (w_entries d)"
    using that by (metis filter_True length_filter_less less_irrefl)
  with assms show ?thesis by (auto simp: prune_def Let_def markDirty_def)
qed

lemma prune_hours [simp]: "w_hours (prune now w) = w_hours w"
  by (simp add: prune_def markDirty_def Let_def split: option.splits)

lemma prune_None [simp]: "w_state w = None \<Longrightarrow> prune now w = w"
  by (simp add: prune_def)

section \<open>The snapshot's totals\<close>

text \<open>The number an amount spells, and what a list of entries spends under a key.\<close>

definition amount_of :: "js \<Rightarrow> rat" where
  "amount_of v = (case toScaled v of None \<Rightarrow> 0 | Some p \<Rightarrow> pair_val p)"

definition spent :: "string \<Rightarrow> js list \<Rightarrow> rat" where
  "spent k es = sum_list (map (\<lambda>e. amount_of (js_get e ''amount''))
     (List.filter (\<lambda>e. \<not> is_nullish (js_get e ''amount'') \<and> tick_key e = k) es))"

definition total_of :: "(string \<rightharpoonup> string) \<Rightarrow> string \<Rightarrow> rat" where
  "total_of m k = (case m k of None \<Rightarrow> 0 | Some t \<Rightarrow> amount_of (JStr t))"

definition totals_ok :: "(string \<rightharpoonup> string) \<Rightarrow> bool" where
  "totals_ok m \<longleftrightarrow> (\<forall>k t. m k = Some t \<longrightarrow> toScaled (JStr t) \<noteq> None)"

lemma entry_amount_ok:
  "entry_ok e \<Longrightarrow> \<not> is_nullish (js_get e ''amount'') \<Longrightarrow> \<exists>u k. toScaled (js_get e ''amount'') = Some (u, k) \<and> 0 \<le> u"
  by (auto simp: entry_ok_def validateEntry_def Let_def split: if_splits option.splits)

lemma toScaled_zero: "toScaled (JStr ''0'') = Some (0, 0)"
  by (simp add: toScaled_def js_trim_def js_space_def split_sign_def drop_leading_zeros_def
      dec_nat_def Let_def)

lemma tally_step:
  assumes "totals_ok m" "entry_ok e"
  shows "\<exists>m'. tally (Some m) e = Some m' \<and> totals_ok m' \<and> (\<forall>k. total_of m' k = total_of m k + spent k [e])"
proof (cases "is_nullish (js_get e ''amount'')")
  case True
  with assms show ?thesis by (simp add: tally_def spent_def)
next
  case False
  define k where "k = tick_key e"
  define c where "c = (case m k of None \<Rightarrow> ''0'' | Some t \<Rightarrow> t)"
  obtain v j where c: "toScaled (JStr c) = Some (v, j)" and tc: "total_of m k = dec_val v j"
    using assms(1)
    by (cases "m k") (fastforce simp: c_def total_of_def amount_of_def totals_ok_def toScaled_zero dec_val_def)+
  obtain u i where u: "toScaled (js_get e ''amount'') = Some (u, i)"
    using entry_amount_ok [OF assms(2) False] by blast
  from addDecimalStrings_value [OF c u] obtain t where
    t: "addDecimalStrings (JStr c) (js_get e ''amount'') = Some t"
      "map_option pair_val (toScaled (JStr t)) = Some (dec_val v j + dec_val u i)" by blast
  have "tally (Some m) e = Some (m(k \<mapsto> t))"
    using False t(1) by (simp add: tally_def k_def c_def)
  moreover have "totals_ok (m(k \<mapsto> t))"
    using assms(1) t(2) by (auto simp: totals_ok_def)
  moreover have "total_of (m(k \<mapsto> t)) i' = total_of m i' + spent i' [e]" for i'
    using t(2) tc u False
    by (auto simp: total_of_def spent_def amount_of_def k_def split: option.splits)
  ultimately show ?thesis by blast
qed

lemma spent_Cons: "spent k (e # es) = spent k [e] + spent k es"
  by (simp add: spent_def)

lemma tally_all:
  "totals_ok m \<Longrightarrow> list_all entry_ok es \<Longrightarrow>
   \<exists>m'. foldl tally (Some m) es = Some m' \<and> totals_ok m' \<and> (\<forall>k. total_of m' k = total_of m k + spent k es)"
proof (induction es arbitrary: m)
  case Nil
  then show ?case by (simp add: spent_def)
next
  case (Cons e es)
  then have "totals_ok m" "entry_ok e" "list_all entry_ok es" by auto
  from tally_step [OF this(1,2)] obtain m1 where
    m1: "tally (Some m) e = Some m1" "totals_ok m1" "\<forall>k. total_of m1 k = total_of m k + spent k [e]" by blast
  from Cons.IH [OF m1(2) \<open>list_all entry_ok es\<close>] m1 show ?case
    by (auto simp: spent_Cons [of _ e es])
qed
text \<open>
  Property C4. The usage the policy sees is exact: on a loaded store whose entries pass the load
  checks, a snapshot at a valid clock reading succeeds, counts exactly the entries inside the
  window, and its total for every tick is the exact sum of what those entries spend under it,
  entries with an unresolved tick included under the reserved key.
\<close>

theorem snapshot_exact:
  assumes "w_state w = Some d" "list_all entry_ok (w_entries d)" "readNow clock = Inr now"
  shows "\<exists>u w'. snapshot clock w = (Inr u, w')
    \<and> (let inside = List.filter (\<lambda>e. window_cutoff w now \<le> entry_time e) (w_entries d)
       in usage_count u = length inside \<and> (\<forall>k. total_of (perTick u) k = spent k inside))"
proof -
  let ?in = "List.filter (\<lambda>e. window_cutoff w now \<le> entry_time e) (w_entries d)"
  obtain d' where d': "w_state (prune now w) = Some d'" "w_entries d' = ?in"
    using prune_entries [OF assms(1)] by blast
  have "totals_ok Map.empty" by (simp add: totals_ok_def)
  moreover have "list_all entry_ok ?in" using assms(2) by (auto simp: list_all_iff)
  ultimately obtain m where "foldl tally (Some Map.empty) ?in = Some m"
    "\<forall>k. total_of m k = total_of Map.empty k + spent k ?in" using tally_all by blast
  with assms d' show ?thesis by (simp add: snapshot_def total_of_def Let_def)
qed

definition demo_entry :: "rat \<Rightarrow> string \<Rightarrow> js" where
  "demo_entry t amount = JObj [(''t'', JNum (Fin t)), (''tick'', JStr ''xcp''), (''amount'', JStr amount)]"

definition demo_window :: window_store where
  "demo_window = \<lparr>w_hours = 1,
     w_state = Some \<lparr>w_entries = [demo_entry 5 ''0.5'', demo_entry 4000000 ''0.25''], w_lastSeen = Undef\<rparr>,
     w_dirty = False, w_revision = 0, w_clockWarnings = [], w_in_flight = None\<rparr>"

lemma demo_amounts:
  "toScaled (JStr ''0.5'') = Some (5, 1)" "toScaled (JStr ''0.25'') = Some (25, 2)"
  by (simp_all add: toScaled_def js_trim_def js_space_def split_sign_def is_digit_def
      drop_leading_zeros_def dec_nat_def digit_val_def Let_def)

theorem snapshot_exact_witness:
  "\<exists>u w'. snapshot (JNum (Fin 4100000)) demo_window = (Inr u, w')
     \<and> usage_count u = 1 \<and> total_of (perTick u) ''XCP'' = 1 / 4"
proof -
  define d :: window_data
    where "d = \<lparr>w_entries = [demo_entry 5 ''0.5'', demo_entry 4000000 ''0.25''], w_lastSeen = Undef\<rparr>"
  have "w_state demo_window = Some d" by (simp add: demo_window_def d_def)
  moreover have "list_all entry_ok (w_entries d)"
    by (simp add: d_def demo_entry_def entry_ok_def timestamp_ok_def validateEntry_def demo_amounts)
  moreover have "readNow (JNum (Fin 4100000)) = Inr 4100000" by (simp add: readNow_def)
  ultimately have "\<exists>u w'. snapshot (JNum (Fin 4100000)) demo_window = (Inr u, w')
    \<and> (let inside = List.filter (\<lambda>e. window_cutoff demo_window 4100000 \<le> entry_time e) (w_entries d)
       in usage_count u = length inside \<and> (\<forall>k. total_of (perTick u) k = spent k inside))"
    by (rule snapshot_exact)
  moreover have "List.filter (\<lambda>e. window_cutoff demo_window 4100000 \<le> entry_time e) (w_entries d)
      = [demo_entry 4000000 ''0.25'']"
    by (simp add: d_def demo_entry_def entry_time_def window_cutoff_def demo_window_def)
  moreover have "spent ''XCP'' [demo_entry 4000000 ''0.25''] = 1 / 4"
  proof -
    have "js_upper ''xcp'' = ''XCP''" by code_simp
    then show ?thesis
      by (simp add: spent_def demo_entry_def amount_of_def demo_amounts tick_key_def dec_val_def Let_def)
  qed
  ultimately show ?thesis by (metis (no_types, lifting) One_nat_def length_Cons list.size(3))
qed

section \<open>Loading never loosens the budget\<close>

text \<open>An entry as loaded spends what the persisted one did, and is never older unless clamped to now.\<close>

definition same_spend :: "rat \<Rightarrow> js \<Rightarrow> js \<Rightarrow> bool" where
  "same_spend now e e' \<longleftrightarrow> js_get e' ''amount'' = js_get e ''amount'' \<and> tick_key e' = tick_key e
     \<and> entry_time e' = (if entry_time e > now + CLOCK_SKEW_TOLERANCE_MS then now else entry_time e)"

lemma same_spend_clamp: "is_plain_object e \<Longrightarrow> same_spend now e (clamp_entry now e)"
  by (simp add: same_spend_def clamp_entry_def js_get_put tick_key_def entry_time_def)

text \<open>
  Loading fails closed: an unloaded store either stays exactly as it was and reports an
  error (a rejected read, a value that is not a well-formed window of this version, a bad clock), or
  the value read was null and the window is empty, or every persisted entry is kept with its tick
  and amount, its timestamp changed only by clamping one from the future to now.
\<close>

lemma load_fail_closed:
  "case load readResult clock w of (r, w') \<Rightarrow>
     (w_state w \<noteq> None \<and> r = Inr () \<and> w' = w)
   \<or> (w_state w = None \<and> (\<exists>err. r = Inl err) \<and> w' = w)
   \<or> (w_state w = None \<and> r = Inr () \<and> readResult = Some Null
        \<and> w_state w' = Some \<lparr>w_entries = [], w_lastSeen = Undef\<rparr>)
   \<or> (w_state w = None \<and> r = Inr () \<and> (\<exists>raw es now d. readResult = Some raw \<and> check_raw raw = Inr es
        \<and> readNow clock = Inr now \<and> w_state w' = Some d \<and> list_all2 (same_spend now) es (w_entries d)))"
proof -
  have "list_all2 (same_spend now) es (map (clamp_entry now) es)" if "check_raw raw = Inr es" for now raw es
    using that by (auto simp: check_raw_Inr list_all2_conv_all_nth list_all_length entry_ok_def
        timestamp_ok_def intro!: same_spend_clamp)
  then show ?thesis
    by (cases "w_state w"; cases readResult; cases "readResult = Some Null"; cases "check_raw (the readResult)";
        cases "readNow clock"; simp add: load_def Let_def markDirty_def; blast)
qed

section \<open>The store, its port and the clock\<close>

text \<open>
  The world the store lives in: the value the port holds, and (a ghost) the latest clock reading.
  An event is one call with the clock readings it makes; \<open>FlushEnd stored acked\<close> is the
  port's answer to the write in flight.
\<close>

record window_world =
  ww_store :: window_store
  ww_disk :: js
  ww_clock :: rat

datatype window_event =
    LoadEv js
  | LoadRejected js
  | RecordEv js js js js js js
  | SnapshotEv js
  | FlushBegin js
  | FlushEnd bool bool

fun event_clocks :: "window_event \<Rightarrow> js list" where
  "event_clocks (LoadEv c) = [c]"
| "event_clocks (LoadRejected c) = [c]"
| "event_clocks (RecordEv c1 c2 action tick amount txid) = [c1, c2]"
| "event_clocks (SnapshotEv c) = [c]"
| "event_clocks (FlushBegin c) = [c]"
| "event_clocks (FlushEnd stored acked) = []"

fun window_step :: "window_world \<Rightarrow> window_event \<Rightarrow> window_world" where
  "window_step x ev = (let w = ww_store x; y = x\<lparr>ww_clock := foldl (\<lambda>a c. fin_val c) (ww_clock x) (event_clocks ev)\<rparr>
    in case ev of
         LoadEv c \<Rightarrow> y\<lparr>ww_store := snd (load (Some (ww_disk x)) c w)\<rparr>
       | LoadRejected c \<Rightarrow> y\<lparr>ww_store := snd (load None c w)\<rparr>
       | RecordEv c1 c2 action tick amount txid \<Rightarrow>
           y\<lparr>ww_store := snd (record_action c1 c2 action tick amount txid w)\<rparr>
       | SnapshotEv c \<Rightarrow> y\<lparr>ww_store := snd (snapshot c w)\<rparr>
       | FlushBegin c \<Rightarrow> y\<lparr>ww_store := snd (flush_begin c w)\<rparr>
       | FlushEnd stored acked \<Rightarrow>
           (case w_in_flight w of
              None \<Rightarrow> y
            | Some (r, d) \<Rightarrow> y\<lparr>ww_store := flush_end acked w,
                ww_disk := (if stored then persisted_object d else ww_disk x)\<rparr>))"

text \<open>The environment: clocks are valid and do not run backward, an acknowledged write was stored.\<close>

fun clocks_from :: "rat \<Rightarrow> js list \<Rightarrow> bool" where
  "clocks_from t [] = True"
| "clocks_from t (c # cs) = (is_finite c \<and> t \<le> fin_val c \<and> clocks_from (fin_val c) cs)"

definition window_event_ok :: "window_world \<Rightarrow> window_event \<Rightarrow> bool" where
  "window_event_ok x ev \<longleftrightarrow> clocks_from (ww_clock x) (event_clocks ev)
     \<and> (case ev of FlushEnd stored acked \<Rightarrow> acked \<longrightarrow> stored | _ \<Rightarrow> True)"

definition durable :: "window_data \<Rightarrow> js \<Rightarrow> bool" where
  "durable d disk \<longleftrightarrow> check_raw disk = Inr (w_entries d) \<or> (disk = Null \<and> w_entries d = [])"

definition data_ok :: "window_data \<Rightarrow> bool" where
  "data_ok d \<longleftrightarrow> list_all entry_ok (w_entries d) \<and> seen_ok (w_lastSeen d)"

definition window_inv :: "window_world \<Rightarrow> bool" where
  "window_inv x \<longleftrightarrow> 0 \<le> ww_clock x
     \<and> (\<forall>d. w_state (ww_store x) = Some d \<longrightarrow> data_ok d \<and> (w_dirty (ww_store x) \<or> durable d (ww_disk x)))
     \<and> (\<forall>r d. w_in_flight (ww_store x) = Some (r, d) \<longrightarrow>
          data_ok d \<and> w_lastSeen d \<noteq> Undef \<and> w_dirty (ww_store x) \<and> r \<le> w_revision (ww_store x)
          \<and> (\<exists>e. w_state (ww_store x) = Some e \<and> (r = w_revision (ww_store x) \<longrightarrow> w_entries e = w_entries d)))"

lemma window_inv_new:
  "new_window_store True h = Inr w \<Longrightarrow> 0 \<le> t \<Longrightarrow>
   window_inv \<lparr>ww_store = w, ww_disk = disk, ww_clock = t\<rparr>"
  by (auto simp: new_window_store_def window_inv_def split: if_splits)

lemma persisted_check:
  "data_ok d \<Longrightarrow> check_raw (persisted_object d) = Inr (w_entries d)"
  by (simp add: check_raw_Inr persisted_object_def data_ok_def)
lemma window_inv_clock: "window_inv x \<Longrightarrow> 0 \<le> t \<Longrightarrow> window_inv (x\<lparr>ww_clock := t\<rparr>)"
  by (simp add: window_inv_def)

lemma window_invD:
  assumes "window_inv x" "w_state (ww_store x) = Some d"
  shows "data_ok d"
  using assms by (simp add: window_inv_def)

text \<open>Replacing the data by other valid data and marking the store dirty keeps the invariant.\<close>

lemma window_inv_mark:
  assumes "window_inv x" "data_ok d" "w_state (ww_store x) \<noteq> None"
  shows "window_inv (x\<lparr>ww_store := markDirty ((ww_store x)\<lparr>w_state := Some d\<rparr>)\<rparr>)"
  using assms by (fastforce simp: window_inv_def markDirty_def)

lemma window_inv_prune:
  assumes "window_inv x"
  shows "window_inv (x\<lparr>ww_store := prune now (ww_store x)\<rparr>)"
proof (cases "w_state (ww_store x)")
  case None
  with assms show ?thesis by simp
next
  case (Some d)
  let ?d = "d\<lparr>w_entries := List.filter (\<lambda>e. entry_time e \<ge> window_cutoff (ww_store x) now) (w_entries d)\<rparr>"
  have "data_ok ?d" using window_invD [OF assms Some] by (auto simp: data_ok_def list_all_iff)
  with window_inv_mark [OF assms this] assms Some show ?thesis by (simp add: prune_def Let_def)
qed

lemma window_inv_load:
  assumes "window_inv x"
  shows "window_inv (x\<lparr>ww_store := snd (load (Some (ww_disk x)) c (ww_store x))\<rparr>)"
proof (cases "w_state (ww_store x) = None \<and> ww_disk x \<noteq> Null")
  case False
  with assms show ?thesis
    by (auto simp: load_def window_inv_def data_ok_def seen_ok_def durable_def)
next
  case True
  show ?thesis
  proof (cases "check_raw (ww_disk x)")
    case (Inl err)
    with True assms show ?thesis by (simp add: load_def)
  next
    case es: (Inr es)
    show ?thesis
    proof (cases "readNow c")
      case (Inl err)
      with True es assms show ?thesis by (simp add: load_def)
    next
      case now: (Inr now)
      then have "0 \<le> now" by (auto simp: readNow_def split: if_splits)
      with es have ok: "list_all entry_ok (map (clamp_entry now) es)"
        by (auto simp: check_raw_Inr list_all_iff intro: entry_ok_clamp)
      have seen: "seen_ok (js_get (ww_disk x) ''lastSeen'')" using es by (simp add: check_raw_Inr)
      have same: "map (clamp_entry now) es = es"
        if "\<forall>e \<in> set es. \<not> entry_time e > now + CLOCK_SKEW_TOLERANCE_MS"
        using that by (simp add: clamp_entry_def map_idI)
      from True es now assms \<open>0 \<le> now\<close> ok seen same show ?thesis
        by (auto simp: load_def Let_def window_inv_def markDirty_def data_ok_def durable_def seen_ok_def
            filter_empty_conv)
    qed
  qed
qed

lemma window_inv_record:
  assumes inv: "window_inv x"
  shows "window_inv (x\<lparr>ww_store := snd (record_action c1 c2 action tick amount txid (ww_store x))\<rparr>)"
proof (cases "w_state (ww_store x) = None \<or> validateEntry (action_object action tick amount txid) \<noteq> None
    \<or> (\<exists>err. readNow c1 = Inl err)")
  case True
  with inv show ?thesis by (auto simp: record_action_def split: option.splits sum.splits)
next
  case False
  then obtain d n1 where d: "w_state (ww_store x) = Some d" and n1: "readNow c1 = Inr n1"
    and v: "validateEntry (action_object action tick amount txid) = None"
    by (cases "readNow c1") auto
  note inv1 = window_inv_prune [OF inv, of n1]
  show ?thesis
  proof (cases "readNow c2")
    case (Inl err)
    with d n1 v inv1 show ?thesis by (simp add: record_action_def)
  next
    case (Inr now)
    then have "0 \<le> now" by (auto simp: readNow_def split: if_splits)
    from prune_entries [OF d, of n1] obtain d' where d': "w_state (prune n1 (ww_store x)) = Some d'" by blast
    let ?seen = "if is_finite (w_lastSeen d') then max now (fin_val (w_lastSeen d')) else now"
    let ?new = "\<lparr>w_entries = w_entries d' @ [stamped_entry now action tick amount txid], w_lastSeen = JNum (Fin ?seen)\<rparr>"
    have "data_ok d'" using window_invD [OF inv1] d' by simp
    with \<open>0 \<le> now\<close> v have "data_ok ?new" by (auto simp: data_ok_def seen_ok_def entry_ok_stamped)
    from window_inv_mark [OF inv1 this] d' d n1 v Inr show ?thesis
      by (cases "is_finite (w_lastSeen d')"; simp add: record_action_def Let_def)
  qed
qed

lemma window_inv_flush_begin:
  assumes "window_inv x"
  shows "window_inv (x\<lparr>ww_store := snd (flush_begin c (ww_store x))\<rparr>)"
  using assms
  by (auto simp: window_inv_def flush_begin_def data_ok_def seen_ok_def readNow_def split: option.splits sum.splits if_splits)

lemma window_inv_flush_end:
  assumes "window_inv x" "w_in_flight (ww_store x) = Some (r, d)" "acked \<longrightarrow> stored"
  shows "window_inv (x\<lparr>ww_store := flush_end acked (ww_store x),
           ww_disk := (if stored then persisted_object d else ww_disk x)\<rparr>)"
  using assms persisted_check [of d]
  by (auto simp: window_inv_def flush_end_def durable_def)

lemma window_inv_snapshot:
  assumes "window_inv x"
  shows "window_inv (x\<lparr>ww_store := snd (snapshot c (ww_store x))\<rparr>)"
  using assms window_inv_prune [OF assms]
  by (auto simp: snapshot_def Let_def split: sum.splits option.splits)

lemma load_rejected [simp]: "snd (load None c w) = w"
  by (simp add: load_def)

lemma clocks_from_last: "clocks_from t cs \<Longrightarrow> t \<le> foldl (\<lambda>a c. fin_val c) t cs"
  by (induction cs arbitrary: t) (auto intro: order_trans)

lemma window_inv_step:
  assumes "window_inv x" "window_event_ok x ev"
  shows "window_inv (window_step x ev)"
proof -
  define t where "t = foldl (\<lambda>a c. fin_val c) (ww_clock x) (event_clocks ev)"
  have "ww_clock x \<le> t" using assms(2) clocks_from_last by (auto simp: window_event_ok_def t_def)
  moreover have "0 \<le> ww_clock x" using assms(1) by (simp add: window_inv_def)
  ultimately have "0 \<le> t" by simp
  note inv = window_inv_clock [OF assms(1) this]
  show ?thesis
  proof (cases ev)
    case (LoadEv c)
    with window_inv_load [OF inv, of c] show ?thesis by (simp add: t_def)
  next
    case (LoadRejected c)
    with inv show ?thesis by (simp add: t_def)
  next
    case (RecordEv c1 c2 action tick amount txid)
    with window_inv_record [OF inv] show ?thesis by (simp add: t_def)
  next
    case (SnapshotEv c)
    with window_inv_snapshot [OF inv, of c] show ?thesis by (simp add: t_def)
  next
    case (FlushBegin c)
    with window_inv_flush_begin [OF inv, of c] show ?thesis by (simp add: t_def)
  next
    case (FlushEnd stored acked)
    with assms(2) have "acked \<longrightarrow> stored" by (simp add: window_event_ok_def)
    with FlushEnd inv window_inv_flush_end [OF inv, of _ _ acked stored] show ?thesis
      by (cases "w_in_flight (ww_store x)") (auto simp: t_def)
  qed
qed

section \<open>Nothing leaves the window early\<close>

text \<open>
  The order the store follows: its hours never change, the clock only advances, and every entry
  still inside the window at the later clock is still held, as often as it was.
\<close>

definition window_le :: "window_world \<Rightarrow> window_world \<Rightarrow> bool" where
  "window_le x y \<longleftrightarrow> w_hours (ww_store y) = w_hours (ww_store x) \<and> ww_clock x \<le> ww_clock y
     \<and> (\<forall>d. w_state (ww_store x) = Some d \<longrightarrow>
          (\<exists>e. w_state (ww_store y) = Some e
             \<and> filter_mset (\<lambda>a. window_cutoff (ww_store y) (ww_clock y) \<le> entry_time a) (mset (w_entries d))
                \<subseteq># mset (w_entries e)))"

lemma window_le_refl: "window_le x x"
  by (simp add: window_le_def)

lemma window_le_trans:
  assumes xy: "window_le x y" and yz: "window_le y z"
  shows "window_le x z"
proof -
  have "\<exists>e. w_state (ww_store z) = Some e
     \<and> filter_mset (\<lambda>a. window_cutoff (ww_store z) (ww_clock z) \<le> entry_time a) (mset (w_entries d)) \<subseteq># mset (w_entries e)"
    if d: "w_state (ww_store x) = Some d" for d
  proof -
    let ?P = "\<lambda>w a. window_cutoff (ww_store w) (ww_clock w) \<le> entry_time a"
    from xy d obtain e where e: "w_state (ww_store y) = Some e"
      "filter_mset (?P y) (mset (w_entries d)) \<subseteq># mset (w_entries e)"
      by (auto simp: window_le_def)
    from yz e(1) obtain f where f: "w_state (ww_store z) = Some f"
      "filter_mset (?P z) (mset (w_entries e)) \<subseteq># mset (w_entries f)" by (auto simp: window_le_def)
    have weaker: "?P z a \<Longrightarrow> ?P y a" for a using yz by (auto simp: window_le_def window_cutoff_def)
    then have "filter_mset (?P z) (filter_mset (?P y) (mset (w_entries d))) = filter_mset (?P z) (mset (w_entries d))"
      unfolding filter_filter_mset by (intro filter_mset_cong) auto
    with multiset_filter_mono [OF e(2), of "?P z"] f show ?thesis
      by (metis subset_mset.order_trans)
  qed
  with xy yz show ?thesis by (auto simp: window_le_def)
qed

lemma window_le_same:
  assumes "w_hours w = w_hours (ww_store x)" "w_state w = w_state (ww_store x)" "ww_clock x \<le> t"
  shows "window_le x (x\<lparr>ww_store := w, ww_clock := t\<rparr>)"
  using assms by (simp add: window_le_def)

lemma window_le_prune:
  assumes "ww_clock x \<le> now"
  shows "window_le x (x\<lparr>ww_clock := now, ww_store := prune now (ww_store x)\<rparr>)"
proof (cases "w_state (ww_store x)")
  case None
  with assms show ?thesis by (simp add: window_le_def)
next
  case (Some d)
  from prune_entries [OF this, of now] assms Some show ?thesis
    by (auto simp: window_le_def window_cutoff_def)
qed

lemma window_le_record:
  assumes c: "readNow c1 = Inr n1" "readNow c2 = Inr n2" "ww_clock x \<le> n1" "n1 \<le> n2"
  shows "window_le x (x\<lparr>ww_clock := n2, ww_store := snd (record_action c1 c2 action tick amount txid (ww_store x))\<rparr>)"
proof (cases "w_state (ww_store x) = None \<or> validateEntry (action_object action tick amount txid) \<noteq> None")
  case True
  with assms show ?thesis
    by (auto simp: window_le_def record_action_def split: option.splits)
next
  case False
  then obtain d where d: "w_state (ww_store x) = Some d" by auto
  from prune_entries [OF d, of n1] obtain d' where d': "w_state (prune n1 (ww_store x)) = Some d'" by blast
  let ?y = "x\<lparr>ww_clock := n1, ww_store := prune n1 (ww_store x)\<rparr>"
  have "window_le x ?y" by (rule window_le_prune [OF c(3)])
  moreover have "window_le ?y (x\<lparr>ww_clock := n2, ww_store := snd (record_action c1 c2 action tick amount txid (ww_store x))\<rparr>)"
    using c False d d' by (auto simp: window_le_def record_action_def Let_def markDirty_def
        intro: subset_mset.order_trans [OF multiset_filter_subset])
  ultimately show ?thesis by (rule window_le_trans)
qed

lemma readNow_valid: "is_finite c \<Longrightarrow> 0 \<le> t \<Longrightarrow> t \<le> fin_val c \<Longrightarrow> readNow c = Inr (fin_val c)"
  by (simp add: readNow_def)

lemma load_keeps: "w_hours (snd (load r c w)) = w_hours w
    \<and> (w_state w \<noteq> None \<longrightarrow> w_state (snd (load r c w)) = w_state w)"
  by (simp add: load_def Let_def markDirty_def split: option.splits sum.splits)

lemma flush_begin_keeps: "w_hours (snd (flush_begin c w)) = w_hours w \<and> w_state (snd (flush_begin c w)) = w_state w"
  by (simp add: flush_begin_def split: option.splits sum.splits)

lemma snapshot_store: "readNow c = Inr now \<Longrightarrow> snd (snapshot c w) = prune now w"
  by (simp add: snapshot_def Let_def split: option.splits)


lemma window_le_step:
  assumes "window_inv x" "window_event_ok x ev"
  shows "window_le x (window_step x ev)"
proof -
  have clk: "clocks_from (ww_clock x) (event_clocks ev)" "0 \<le> ww_clock x"
    using assms by (auto simp: window_event_ok_def window_inv_def)
  show ?thesis
  proof (cases ev)
    case (LoadEv c)
    with clk load_keeps [of "Some (ww_disk x)" c "ww_store x"] show ?thesis
      by (auto simp: window_le_def Let_def)
  next
    case (LoadRejected c)
    with clk show ?thesis by (auto simp: window_le_def Let_def)
  next
    case (RecordEv c1 c2 action tick amount txid)
    with clk have "readNow c1 = Inr (fin_val c1)" "readNow c2 = Inr (fin_val c2)"
      "ww_clock x \<le> fin_val c1" "fin_val c1 \<le> fin_val c2"
      by (auto intro!: readNow_valid)
    from window_le_record [OF this, of action tick amount txid] RecordEv show ?thesis by (simp add: Let_def)
  next
    case (SnapshotEv c)
    with clk have "readNow c = Inr (fin_val c)" "ww_clock x \<le> fin_val c" by (auto intro!: readNow_valid)
    with SnapshotEv window_le_prune [of x "fin_val c"] show ?thesis by (simp add: snapshot_store Let_def)
  next
    case (FlushBegin c)
    with clk flush_begin_keeps [of c "ww_store x"] show ?thesis by (simp add: window_le_def Let_def)
  next
    case (FlushEnd stored acked)
    then show ?thesis by (auto simp: window_le_def flush_end_def Let_def split: option.splits)
  qed
qed

interpretation window_machine: progress_machine window_event_ok window_step window_inv window_le
  by unfold_locales (fact window_inv_step window_le_refl | (erule window_le_trans, assumption) | (erule window_le_step, assumption))+

text \<open>
  Property C1. No authorised action leaves the budget early: over any sequence of loads, records,
  snapshots and flushes under a clock that does not run backward, every entry that is still inside
  the rolling window at the end is still held by the store, as many times as it was recorded.
\<close>

theorem window_budget_kept:
  assumes "window_inv x" "run_ok window_event_ok window_step x es" "w_state (ww_store x) = Some d"
  shows "\<exists>d'. w_state (ww_store (foldl window_step x es)) = Some d'
    \<and> filter_mset (\<lambda>e. ww_clock (foldl window_step x es) - w_hours (ww_store x) * 3600 * 1000 \<le> entry_time e)
        (mset (w_entries d)) \<subseteq># mset (w_entries d')"
  using window_machine.le_run [OF assms(1,2)] assms(3) by (auto simp: window_le_def window_cutoff_def)

definition demo_world :: window_world where
  "demo_world = \<lparr>ww_store = demo_window\<lparr>w_dirty := True\<rparr>, ww_disk = Null, ww_clock = 4000000\<rparr>"

lemma demo_world_inv: "window_inv demo_world"
  by (simp add: window_inv_def demo_world_def demo_window_def data_ok_def seen_ok_def demo_entry_def
      entry_ok_def timestamp_ok_def validateEntry_def demo_amounts)

theorem window_budget_kept_witness:
  "\<exists>d'. w_state (ww_store (foldl window_step demo_world [SnapshotEv (JNum (Fin 4100000))])) = Some d'
    \<and> demo_entry 4000000 ''0.25'' \<in> set (w_entries d')"
proof -
  let ?es = "[SnapshotEv (JNum (Fin 4100000))]"
  define d :: window_data
    where "d = \<lparr>w_entries = [demo_entry 5 ''0.5'', demo_entry 4000000 ''0.25''], w_lastSeen = Undef\<rparr>"
  have "run_ok window_event_ok window_step demo_world ?es"
    by (simp add: window_event_ok_def demo_world_def)
  moreover have "w_state (ww_store demo_world) = Some d" by (simp add: demo_world_def demo_window_def d_def)
  ultimately have "\<exists>d'. w_state (ww_store (foldl window_step demo_world ?es)) = Some d'
    \<and> filter_mset (\<lambda>e. ww_clock (foldl window_step demo_world ?es) - w_hours (ww_store demo_world) * 3600 * 1000 \<le> entry_time e)
        (mset (w_entries d)) \<subseteq># mset (w_entries d')"
    by (rule window_budget_kept [OF demo_world_inv])
  moreover have "demo_entry 4000000 ''0.25'' \<in>#
      filter_mset (\<lambda>e. ww_clock (foldl window_step demo_world ?es) - w_hours (ww_store demo_world) * 3600 * 1000 \<le> entry_time e)
        (mset (w_entries d))"
    by (simp add: d_def demo_world_def demo_window_def entry_time_def demo_entry_def Let_def)
  ultimately show ?thesis by (elim exE conjE) (drule (1) mset_subset_eqD, auto)
qed

section \<open>A clean store is durable\<close>

text \<open>
  Property C6. What a clean store holds survives a restart: after any sequence of events, with
  writes that overlap records and writes that fail, if the store is loaded and not dirty then a
  fresh store loading the port's value gets the same entries, up to clamping timestamps that lie
  in the future of its clock.
\<close>

theorem window_clean_durable:
  assumes "window_inv x" "run_ok window_event_ok window_step x es"
    and "y = foldl window_step x es" "w_state (ww_store y) = Some d" "\<not> w_dirty (ww_store y)"
    and "new_window_store True h = Inr w0" "readNow c = Inr now"
  shows "\<exists>w d'. load (Some (ww_disk y)) c w0 = (Inr (), w) \<and> w_state w = Some d'
           \<and> w_entries d' = map (clamp_entry now) (w_entries d)"
proof -
  have w0: "w_state w0 = None" using assms(6) by (auto simp: new_window_store_def split: if_splits)
  have "window_inv y" using window_machine.inv_run [OF assms(1,2)] assms(3) by simp
  with assms(4,5) have "durable d (ww_disk y)" by (simp add: window_inv_def)
  then consider "ww_disk y = Null" "w_entries d = []"
    | "check_raw (ww_disk y) = Inr (w_entries d)" "ww_disk y \<noteq> Null"
    by (cases "ww_disk y = Null") (auto simp: durable_def check_raw_def)
  then show ?thesis
    by cases (use w0 assms(7) in \<open>auto simp: load_def Let_def markDirty_def\<close>)
qed

theorem window_clean_durable_witness:
  "\<exists>w d'. load (Some (persisted_object \<lparr>w_entries = [demo_entry 4000000 ''0.25''], w_lastSeen = JNum (Fin 4100000)\<rparr>))
            (JNum (Fin 4200000)) (demo_window\<lparr>w_state := None\<rparr>) = (Inr (), w)
     \<and> w_state w = Some d' \<and> w_entries d' = [demo_entry 4000000 ''0.25'']"
proof -
  let ?es = "[SnapshotEv (JNum (Fin 4100000)), FlushBegin (JNum (Fin 4100000)), FlushEnd True True]"
  define y where "y = foldl window_step demo_world ?es"
  have y: "ww_disk y = persisted_object \<lparr>w_entries = [demo_entry 4000000 ''0.25''], w_lastSeen = JNum (Fin 4100000)\<rparr>"
    "w_state (ww_store y) = Some \<lparr>w_entries = [demo_entry 4000000 ''0.25''], w_lastSeen = Undef\<rparr>"
    "\<not> w_dirty (ww_store y)"
    by (simp_all add: y_def demo_world_def demo_window_def snapshot_store readNow_def prune_def
        window_cutoff_def entry_time_def demo_entry_def markDirty_def flush_begin_def flush_end_def Let_def)
  have ok: "run_ok window_event_ok window_step demo_world ?es"
    by (simp add: window_event_ok_def demo_world_def Let_def)
  have new: "new_window_store True (JNum (Fin 1)) = Inr (demo_window\<lparr>w_state := None\<rparr>)"
    by (simp add: new_window_store_def demo_window_def)
  have now: "readNow (JNum (Fin 4200000)) = Inr 4200000" by (simp add: readNow_def)
  have "clamp_entry 4200000 (demo_entry 4000000 ''0.25'') = demo_entry 4000000 ''0.25''"
    by (simp add: clamp_entry_def entry_time_def demo_entry_def CLOCK_SKEW_TOLERANCE_MS_def)
  with window_clean_durable [OF demo_world_inv ok y_def y(2,3) new now] y(1) show ?thesis by simp
qed

end
