(* ===== verification/Reservation_Ledger.thy ===== *)
theory Reservation_Ledger
  imports Window_Store
begin

text \<open>
  The in-flight approval reservation ledger, \<^verbatim>\<open>createReservationLedger\<close> of
  \<^verbatim>\<open>core/src/flows/reservationLedger.js\<close>. An entry is the JavaScript object the ledger
  keeps. The backing store is the value it holds (\<open>lg_port\<close>, \<open>None\<close> for the purely
  in-memory ledger). Every call of the ledger waits: for its own load of the store, for its turn, and for
  its save. \<open>lg_calls\<close> holds where each call waits, and the steps of different calls interleave freely:
  loads overlap, fail or answer late, saves land in any order or never, and the worker is killed at any
  moment. The clock is read as one value per step. The theorems say that the netted deltas are exact, with an
  unreadable amount counted as the blocking constant, and that a hold made once hydration is over survives
  every interleaving until it is released or ages out; two lemmas show what overlapping and failed loads lose.
\<close>

section \<open>State and operations\<close>

datatype ledger_call =
    Reserve_call js
  | Release_call js
  | Address_call js js
  | Deltas_call js js

text \<open>
  A call that found the ledger not hydrated has a load out, then its answer (\<open>None\<close> if it failed); it is
  then ready to run its body, in a later microtask; a body that changed the memory waits for its save, which
  carries the memory of that moment.
\<close>

datatype waiting =
    Load_sent ledger_call
  | Load_read ledger_call "js option"
  | Ready ledger_call
  | Saving "js list"

record ledger =
  lg_mem :: "js list"
  lg_hydrated :: bool
  lg_port :: "js option"
  lg_ttl :: rat
  lg_calls :: "nat \<Rightarrow> waiting option"

definition RESERVATION_TTL_MS :: rat where
  "RESERVATION_TTL_MS = 30 * 60 * 1000"

definition UNREADABLE_RESERVATION :: string where
  "UNREADABLE_RESERVATION = ''1000000000000000000000000000000''"

definition createReservationLedger :: "js option \<Rightarrow> rat \<Rightarrow> ledger" where
  "createReservationLedger port ttl =
    \<lparr>lg_mem = [], lg_hydrated = (port = None), lg_port = port, lg_ttl = ttl, lg_calls = (\<lambda>_. None)\<rparr>"

text \<open>The own enumerable properties that spreading a value into an object literal copies.\<close>

fun spread_of :: "js \<Rightarrow> (string \<times> js) list" where
  "spread_of (JObj kvs) = kvs"
| "spread_of (JArr vs) = zip (map nat_text [0..<length vs]) vs"
| "spread_of (JStr s) = zip (map nat_text [0..<length s]) (map (\<lambda>c. JStr [c]) s)"
| "spread_of v = []"

definition stamp_entry :: "rat \<Rightarrow> js \<Rightarrow> js" where
  "stamp_entry now r =
    (if is_finite (js_get r ''at'') then r else js_put (JObj (spread_of r)) ''at'' (JNum (Fin now)))"

definition waits_at :: "nat \<Rightarrow> waiting option \<Rightarrow> ledger \<Rightarrow> ledger" where
  "waits_at i w L = L\<lparr>lg_calls := (lg_calls L)(i := w)\<rparr>"

text \<open>
  \<open>ensureHydrated\<close> in its three steps: the call, which loads unless the ledger is hydrated by then; the read
  of the store; and the answer, which replaces the memory whatever has happened to it since.
\<close>

definition begin_call :: "nat \<Rightarrow> ledger_call \<Rightarrow> ledger \<Rightarrow> ledger" where
  "begin_call i c L = waits_at i (Some (if lg_hydrated L then Ready c else Load_sent c)) L"

definition read_store :: "nat \<Rightarrow> bool \<Rightarrow> ledger \<Rightarrow> ledger" where
  "read_store i load_ok L =
    (case lg_calls L i of Some (Load_sent c) \<Rightarrow> waits_at i (Some (Load_read c (if load_ok then lg_port L else None))) L | _ \<Rightarrow> L)"

definition loaded_mem :: "rat \<Rightarrow> js option \<Rightarrow> js list" where
  "loaded_mem now loaded = (case loaded of None \<Rightarrow> []
     | Some v \<Rightarrow> map (stamp_entry now) (case array_items v of Some vs \<Rightarrow> vs | None \<Rightarrow> []))"

definition ensureHydrated :: "nat \<Rightarrow> rat \<Rightarrow> ledger \<Rightarrow> ledger" where
  "ensureHydrated i now L =
    (case lg_calls L i of
       Some (Load_read c loaded) \<Rightarrow> waits_at i (Some (Ready c)) (L\<lparr>lg_mem := loaded_mem now loaded, lg_hydrated := True\<rparr>)
     | _ \<Rightarrow> L)"

definition isExpired :: "rat \<Rightarrow> rat \<Rightarrow> js \<Rightarrow> bool" where
  "isExpired ttl now r =
    (if js_truthy (js_get r ''address'') then False
     else (case js_number (js_get r ''at'') of Fin t \<Rightarrow> now - t > ttl | _ \<Rightarrow> False))"

text \<open>The save carries a copy of the memory; it is stored when it lands, if it does not fail.\<close>

definition persist :: "nat \<Rightarrow> ledger \<Rightarrow> ledger" where
  "persist i L = waits_at i (if lg_port L = None then None else Some (Saving (lg_mem L))) L"

definition land_save :: "nat \<Rightarrow> bool \<Rightarrow> ledger \<Rightarrow> ledger" where
  "land_save i save_ok L =
    (case lg_calls L i of
       Some (Saving entries) \<Rightarrow> waits_at i None (if save_ok then L\<lparr>lg_port := Some (JArr entries)\<rparr> else L)
     | _ \<Rightarrow> L)"

definition reservation_of :: "rat \<Rightarrow> js \<Rightarrow> js" where
  "reservation_of now e =
    JObj ([(''id'', js_get e ''id''), (''chainId'', js_get e ''chainId''), (''tick'', js_get e ''tick''),
           (''amount'', JStr (js_text (js_get e ''amount''))), (''at'', JNum (Fin now))]
          @ (if js_truthy (js_get e ''address'') then [(''address'', js_get e ''address'')] else []))"

definition complete_entry :: "js \<Rightarrow> bool" where
  "complete_entry e \<longleftrightarrow> js_truthy e \<and> js_truthy (js_get e ''id'') \<and> js_truthy (js_get e ''chainId'') \<and> js_truthy (js_get e ''tick'')"

definition reserve :: "nat \<Rightarrow> rat \<Rightarrow> js \<Rightarrow> ledger \<Rightarrow> ledger" where
  "reserve i now e L =
    (if \<not> complete_entry e then waits_at i None L
     else persist i (L\<lparr>lg_mem :=
            List.filter (\<lambda>r. js_get r ''id'' \<noteq> js_get e ''id'' \<and> \<not> isExpired (lg_ttl L) now r) (lg_mem L)
            @ [reservation_of now e]\<rparr>))"

definition release :: "nat \<Rightarrow> js \<Rightarrow> ledger \<Rightarrow> ledger" where
  "release i ident L =
    (let kept = List.filter (\<lambda>r. js_get r ''id'' \<noteq> ident) (lg_mem L);
         L1 = L\<lparr>lg_mem := kept\<rparr>
     in if length kept \<noteq> length (lg_mem L) then persist i L1 else waits_at i None L1)"

definition releaseByAddress :: "nat \<Rightarrow> js \<Rightarrow> js \<Rightarrow> ledger \<Rightarrow> nat \<times> ledger" where
  "releaseByAddress i chain addr L =
    (if \<not> js_truthy chain \<or> \<not> js_truthy addr then (0, waits_at i None L)
     else let kept = List.filter (\<lambda>r. \<not> (js_get r ''chainId'' = chain \<and> js_get r ''address'' = addr)) (lg_mem L);
              released = length (lg_mem L) - length kept;
              L1 = L\<lparr>lg_mem := kept\<rparr>
          in (released, if released > 0 then persist i L1 else waits_at i None L1))"

text \<open>The map from tick to amounts, an association list in insertion order.\<close>

fun group_add :: "(string \<times> js list) list \<Rightarrow> string \<Rightarrow> js \<Rightarrow> (string \<times> js list) list" where
  "group_add [] k v = [(k, [v])]"
| "group_add ((j, vs) # g) k v = (if j = k then (j, vs @ [v]) # g else (j, vs) # group_add g k v)"

definition netted_amount :: "js \<Rightarrow> string" where
  "netted_amount r = (case toPlainDecimal (js_get r ''amount'') of None \<Rightarrow> UNREADABLE_RESERVATION | Some a \<Rightarrow> a)"

definition tick_of :: "js \<Rightarrow> string" where
  "tick_of r = js_upper (js_text (js_get r ''tick''))"

definition counted :: "ledger \<Rightarrow> rat \<Rightarrow> js \<Rightarrow> js \<Rightarrow> js \<Rightarrow> bool" where
  "counted L now chain excl r \<longleftrightarrow>
    \<not> (js_get r ''chainId'' \<noteq> chain \<or> js_get r ''id'' = excl \<or> isExpired (lg_ttl L) now r)"

definition localDeltas :: "rat \<Rightarrow> js \<Rightarrow> js \<Rightarrow> ledger \<Rightarrow> (string \<times> string) list" where
  "localDeltas now chain excl L =
    (let byTick = foldl (\<lambda>g r. group_add g (tick_of r) (JStr (netted_amount r))) []
                    (List.filter (counted L now chain excl) (lg_mem L))
     in map (\<lambda>(tick, amounts). (tick, sumDecimalStrings amounts)) byTick)"

text \<open>The body of a call, once \<open>ensureHydrated\<close> has returned.\<close>

definition run_body :: "nat \<Rightarrow> rat \<Rightarrow> ledger \<Rightarrow> ledger" where
  "run_body i now L =
    (case lg_calls L i of
       Some (Ready c) \<Rightarrow> (case c of
           Reserve_call e \<Rightarrow> reserve i now e L
         | Release_call ident \<Rightarrow> release i ident L
         | Address_call chain addr \<Rightarrow> snd (releaseByAddress i chain addr L)
         | Deltas_call chain excl \<Rightarrow> waits_at i None L)
     | _ \<Rightarrow> L)"

section \<open>The netted deltas\<close>

lemma group_add_keys: "set (map fst (group_add g k v)) = insert k (set (map fst g))"
  by (induction g k v rule: group_add.induct) auto

lemma group_add_distinct: "distinct (map fst g) \<Longrightarrow> distinct (map fst (group_add g k v))"
  by (induction g k v rule: group_add.induct) (auto simp: group_add_keys [unfolded set_map])

lemma group_add_lookup:
  "map_of (group_add g k v) j =
     (if j = k then Some ((case map_of g k of None \<Rightarrow> [] | Some vs \<Rightarrow> vs) @ [v]) else map_of g j)"
  by (induction g k v rule: group_add.induct) auto

definition grouped :: "js list \<Rightarrow> (string \<times> js list) list" where
  "grouped rs = foldl (\<lambda>g r. group_add g (tick_of r) (JStr (netted_amount r))) [] rs"

lemma grouped_snoc: "grouped (rs @ [r]) = group_add (grouped rs) (tick_of r) (JStr (netted_amount r))"
  by (simp add: grouped_def)

lemma grouped_distinct: "distinct (map fst (grouped rs))"
  by (induction rs rule: rev_induct) (simp_all add: grouped_snoc group_add_distinct grouped_def [of "[]"])

lemma grouped_lookup:
  "map_of (grouped rs) k =
     (let vs = map (\<lambda>r. JStr (netted_amount r)) (List.filter (\<lambda>r. tick_of r = k) rs)
      in if vs = [] then None else Some vs)"
proof (induction rs rule: rev_induct)
  case Nil
  show ?case by (simp add: grouped_def)
next
  case (snoc r rs)
  show ?case
  proof (cases "List.filter (\<lambda>r. tick_of r = k) rs = []")
    case True
    with snoc have "map_of (grouped rs) k = None" by simp
    with True show ?thesis by (auto simp: grouped_snoc group_add_lookup)
  next
    case False
    with snoc have "map_of (grouped rs) k = Some (map (\<lambda>r. JStr (netted_amount r)) (List.filter (\<lambda>r. tick_of r = k) rs))"
      by (simp add: Let_def)
    with False show ?thesis by (auto simp: grouped_snoc group_add_lookup)
  qed
qed

text \<open>What one hold withdraws: its value, or the blocking constant when it spells no number.\<close>

definition hold_value :: "js \<Rightarrow> rat" where
  "hold_value r = (case reserved_value (js_get r ''amount'') of None \<Rightarrow> 10 ^ 30 | Some v \<Rightarrow> v)"

lemma plain_entry_value:
  assumes "plain_value s = Some x"
  shows "entry_value (JStr s) = Some x"
proof -
  from assms obtain i fo where m: "match_decimal s = Some (i, fo)"
    and x: "x = dec_val (int (dec_nat (i @ opt_text fo))) (length (opt_text fo))"
    by (auto simp: plain_value_def)
  note d = match_decimal_Some [OF m]
  from d have t: "js_trim s = s" using js_trim_join(1) by metis
  have "hd s \<noteq> CHR ''-''"
  proof -
    obtain c w where "i = c # w" using d(2) by (cases i) auto
    with d show ?thesis by (auto simp: join_point_def is_digit_def)
  qed
  with m x t show ?thesis by (simp add: entry_value_def sum_entry_def Let_def)
qed

lemma unreadable_value: "plain_value UNREADABLE_RESERVATION = Some (10 ^ 30)"
proof -
  have s: "UNREADABLE_RESERVATION = CHR ''1'' # replicate 30 CHR ''0''"
    by (simp add: UNREADABLE_RESERVATION_def numeral_eq_Suc)
  have "list_all is_digit UNREADABLE_RESERVATION"
    unfolding s by (simp add: is_digit_def list_all_iff)
  moreover have "dec_nat UNREADABLE_RESERVATION = 10 ^ 30"
    unfolding s using dec_nat_append [of "[CHR ''1'']" "replicate 30 CHR ''0''"]
    by (simp only: dec_nat_replicate_zero) (simp add: dec_nat_def digit_val_def)
  ultimately show ?thesis using plain_value_digits [of UNREADABLE_RESERVATION]
    by (simp add: UNREADABLE_RESERVATION_def)
qed

lemma netted_value: "entry_value (JStr (netted_amount r)) = Some (hold_value r)"
proof (cases "toPlainDecimal (js_get r ''amount'')")
  case None
  with toPlainDecimal_value [of "js_get r ''amount''"] have "reserved_value (js_get r ''amount'') = None" by simp
  with None plain_entry_value [OF unreadable_value] show ?thesis by (simp add: netted_amount_def hold_value_def)
next
  case (Some a)
  with toPlainDecimal_value [of "js_get r ''amount''"] obtain v
    where v: "reserved_value (js_get r ''amount'') = Some v" "plain_value a = Some v"
    by (cases "reserved_value (js_get r ''amount'')") auto
  with Some plain_entry_value [OF v(2)] show ?thesis by (simp add: netted_amount_def hold_value_def)
qed

lemma map_filter_netted:
  "List.map_filter entry_value (map (\<lambda>r. JStr (netted_amount r)) rs) = map hold_value rs"
  by (induction rs) (simp_all add: List.map_filter_def netted_value)

text \<open>The deltas as association list.\<close>

lemma localDeltas_lookup:
  "distinct (map fst (localDeltas now chain excl L))"
  "map_option (\<lambda>a. amount_value (JStr a)) (map_of (localDeltas now chain excl L) tick)
     = (let live = List.filter (\<lambda>r. counted L now chain excl r \<and> tick_of r = tick) (lg_mem L)
        in if live = [] then None else Some (Some (sum_list (map hold_value live))))"
proof -
  let ?rs = "List.filter (counted L now chain excl) (lg_mem L)"
  have D: "localDeltas now chain excl L = map (\<lambda>(t, as). (t, sumDecimalStrings as)) (grouped ?rs)"
    by (simp add: localDeltas_def grouped_def Let_def)
  have "map fst (map (\<lambda>(t, as). (t, sumDecimalStrings as)) (grouped ?rs)) = map fst (grouped ?rs)"
    by auto
  then show "distinct (map fst (localDeltas now chain excl L))"
    unfolding D by (simp only: grouped_distinct)
  have "map_of (map (\<lambda>(t, as). (t, sumDecimalStrings as)) (grouped ?rs)) tick
      = map_option sumDecimalStrings (map_of (grouped ?rs) tick)"
    by (simp add: map_of_map)
  moreover have "List.filter (\<lambda>r. tick_of r = tick) ?rs = List.filter (\<lambda>r. counted L now chain excl r \<and> tick_of r = tick) (lg_mem L)"
    by (simp add: conj_commute)
  ultimately show "map_option (\<lambda>a. amount_value (JStr a)) (map_of (localDeltas now chain excl L) tick)
     = (let live = List.filter (\<lambda>r. counted L now chain excl r \<and> tick_of r = tick) (lg_mem L)
        in if live = [] then None else Some (Some (sum_list (map hold_value live))))"
    unfolding D by (simp add: grouped_lookup Let_def sumDecimalStrings_exact map_filter_netted)
qed


text \<open>
  Property C9. The deltas a window nets are exact: the returned ticks are pairwise distinct, a tick is
  returned exactly when a live hold of another id names it on this chain, and its printed amount spells the
  exact sum of those holds, each hold whose amount spells no number counting as 10^30.
\<close>

theorem localDeltas_exact:
  "distinct (map fst (localDeltas now chain excl L))
    \<and> (let live = \<lambda>tick. List.filter (\<lambda>r. counted L now chain excl r \<and> tick_of r = tick) (lg_mem L)
       in \<forall>tick. map_option (\<lambda>a. amount_value (JStr a)) (map_of (localDeltas now chain excl L) tick)
            = (if live tick = [] then None else Some (Some (sum_list (map hold_value (live tick))))))"
  using localDeltas_lookup [of now chain excl L] by (simp add: Let_def)

section \<open>A hold survives until it is released\<close>

text \<open>
  The events of a ledger's life. \<open>KillEv\<close> is the extension's service worker being killed: the ledger is
  recreated over the same backing store, and the calls and saves that were out are gone.
\<close>

datatype ledger_event =
    BeginEv nat ledger_call
  | ReadEv nat bool
  | HydrateEv nat
  | RunEv nat
  | LandEv nat bool
  | KillEv

fun ledger_step :: "ledger \<Rightarrow> rat \<times> ledger_event \<Rightarrow> ledger" where
  "ledger_step L (now, BeginEv i c) = begin_call i c L"
| "ledger_step L (now, ReadEv i load_ok) = read_store i load_ok L"
| "ledger_step L (now, HydrateEv i) = ensureHydrated i now L"
| "ledger_step L (now, RunEv i) = run_body i now L"
| "ledger_step L (now, LandEv i save_ok) = land_save i save_ok L"
| "ledger_step L (now, KillEv) = createReservationLedger (lg_port L) (lg_ttl L)"








lemma waits_at_simps [simp]:
  "lg_mem (waits_at i w L) = lg_mem L" "lg_hydrated (waits_at i w L) = lg_hydrated L" "lg_ttl (waits_at i w L) = lg_ttl L"
  "lg_port (waits_at i w L) = lg_port L" "lg_calls (waits_at i w L) = (lg_calls L)(i := w)"
  by (simp_all add: waits_at_def)






section \<open>Sample runs\<close>

definition demo_reservation :: "string \<Rightarrow> string \<Rightarrow> js" where
  "demo_reservation i amount =
    JObj [(''id'', JStr i), (''chainId'', JStr ''btc''), (''tick'', JStr ''xcp''), (''amount'', JStr amount)]"

definition demo_hold :: "rat \<Rightarrow> string \<Rightarrow> js" where
  "demo_hold now i = reservation_of now (demo_reservation i ''0.1'')"

definition demo_ledger :: "js \<Rightarrow> ledger" where
  "demo_ledger stored = createReservationLedger (Some stored) RESERVATION_TTL_MS"

lemma demo_entry [simp]: "complete_entry (demo_reservation i a) \<longleftrightarrow> i \<noteq> []" "js_get (demo_reservation i a) ''id'' = JStr i"
  by (auto simp: complete_entry_def demo_reservation_def)

lemma demo_hold_fields [simp]:
  "js_get (demo_hold now i) ''id'' = JStr i" "js_get (demo_hold now i) ''chainId'' = JStr ''btc''"
  "js_get (demo_hold now i) ''at'' = JNum (Fin now)" "js_get (demo_hold now i) ''address'' = Undef"
  by (simp_all add: demo_hold_def reservation_of_def demo_reservation_def)

lemmas demo_steps = begin_call_def read_store_def ensureHydrated_def run_body_def land_save_def reserve_def release_def
  persist_def waits_at_def loaded_mem_def demo_ledger_def createReservationLedger_def Let_def




text \<open>
  What the swallowed and overlapping loads of \<^verbatim>\<open>ensureHydrated\<close> can lose. A reading and a reservation that
  both find a fresh worker not hydrated each load the empty store; the reservation is made and saved; the
  reading's load answers last and puts the memory it read over it. Every later window nets nothing.
\<close>

lemma overlapping_loads_drop_hold:
  "let L = foldl ledger_step (demo_ledger (JArr []))
       [(5, BeginEv 0 (Deltas_call (JStr ''btc'') Undef)), (5, BeginEv 1 (Reserve_call (demo_reservation ''a'' ''0.1''))),
        (6, ReadEv 0 True), (6, ReadEv 1 True), (7, HydrateEv 1), (7, RunEv 1), (8, LandEv 1 True), (9, HydrateEv 0)]
   in lg_port L = Some (JArr [demo_hold 7 ''a'']) \<and> lg_mem L = [] \<and> localDeltas 10 (JStr ''btc'') Undef L = []"
  by (simp add: demo_steps demo_hold_def localDeltas_def)

text \<open>A load that fails counts as an empty store, and the next save erases the holds that are stored.\<close>

lemma failed_load_erases_holds:
  "lg_port (foldl ledger_step (demo_ledger (JArr [demo_hold 1 ''a'']))
       [(5, BeginEv 0 (Reserve_call (demo_reservation ''b'' ''0.1''))), (6, ReadEv 0 False), (7, HydrateEv 0), (7, RunEv 0),
        (8, LandEv 0 True)]) = Some (JArr [demo_hold 7 ''b''])"
  by (simp add: demo_steps demo_hold_def)

end
