(* ===== verification/Unlock_Guards.thy ===== *)
theory Unlock_Guards
  imports Wallet_Prelude
begin

text \<open>
  The two unlock throttles: the renderer's lockout tracking
  (\<^verbatim>\<open>core/src/flows/lockoutTracking.js\<close>), whose state lives in an injected store, in
  localStorage or in memory, and the background's authoritative gate
  (\<^verbatim>\<open>extension/src/background/unlockThrottle.js\<close>). Both implement one contract, the
  locale \<open>backoff_ladder\<close>: an attempt is blocked for exactly the ladder's delay after the last
  failure, so a run of failed attempts takes at least the sum of the delays. The theorems also show
  that the two ladders and the two gates are the same function, and that no persisted value can
  lock the owner out beyond the cap.
\<close>

section \<open>The ladders\<close>

definition SCHEDULE_SECONDS :: "rat list" where
  "SCHEDULE_SECONDS = [0, 0, 0, 5, 15, 60, 300]"

definition MAX_DELAY_SECONDS :: rat where
  "MAX_DELAY_SECONDS = 900"

definition delayForAttempts :: "jnum \<Rightarrow> rat" where
  "delayForAttempts failedAttempts =
    (case failedAttempts of
       Fin a \<Rightarrow> (if a < 0 then 0
         else let n = nat \<lfloor>a\<rfloor> in if n < length SCHEDULE_SECONDS then SCHEDULE_SECONDS ! n else MAX_DELAY_SECONDS)
     | _ \<Rightarrow> 0)"

definition BACKOFF_MS :: "rat list" where
  "BACKOFF_MS = [0, 0, 0, 5 * 1000, 15 * 1000, 60 * 1000, 5 * 60 * 1000]"

definition CAP_MS :: rat where
  "CAP_MS = 15 * 60 * 1000"

definition computeBackoffMs :: "jnum \<Rightarrow> rat" where
  "computeBackoffMs failCount =
    (case failCount of
       Fin a \<Rightarrow> (if a < 0 then 0
         else let n = nat \<lfloor>a\<rfloor> in if n < length BACKOFF_MS then BACKOFF_MS ! n else CAP_MS)
     | _ \<Rightarrow> 0)"

section \<open>The renderer's lockout\<close>

record lockout =
  failedAttempts :: rat
  lockedUntilMs :: rat

definition emptyLockoutState :: lockout where
  "emptyLockoutState = \<lparr>failedAttempts = 0, lockedUntilMs = 0\<rparr>"

fun nonneg_number :: "js \<Rightarrow> bool" where
  "nonneg_number (JNum (Fin r)) = (0 \<le> r)"
| "nonneg_number _ = False"

definition coerceLockoutState :: "js \<Rightarrow> lockout" where
  "coerceLockoutState p =
    (if \<not> js_truthy p \<or> \<not> nonneg_number (js_get p ''failedAttempts'') \<or> \<not> nonneg_number (js_get p ''lockedUntilMs'')
     then emptyLockoutState
     else \<lparr>failedAttempts = of_int \<lfloor>fin_val (js_get p ''failedAttempts'')\<rfloor>,
           lockedUntilMs = of_int \<lfloor>fin_val (js_get p ''lockedUntilMs'')\<rfloor>\<rparr>)"

text \<open>
  The places the state can live: \<open>ls\<close> is the localStorage slot (unavailable, unreadable, or
  the parsed item, \<open>Null\<close> when there is none), \<open>memory\<close> is \<^verbatim>\<open>memoryFallback\<close>,
  \<open>injected\<close> the injected store's value when one is configured, and \<open>generation\<close> the
  counter that discards a load that a later write has overtaken.
\<close>

datatype local_slot = Unavailable | Unreadable | Slot js

record guard =
  g_injected :: "js option"
  g_memory :: "lockout option"
  g_local :: local_slot
  g_generation :: nat

definition lockout_object :: "lockout \<Rightarrow> js" where
  "lockout_object s = JObj [(''failedAttempts'', JNum (Fin (failedAttempts s))), (''lockedUntilMs'', JNum (Fin (lockedUntilMs s)))]"

definition empty_lockout :: "lockout \<Rightarrow> bool" where
  "empty_lockout s \<longleftrightarrow> failedAttempts s = 0 \<and> lockedUntilMs s = 0"

definition readState :: "guard \<Rightarrow> lockout" where
  "readState g =
    (case g_memory g of
       Some s \<Rightarrow> s
     | None \<Rightarrow> (if g_injected g \<noteq> None then emptyLockoutState
                else case g_local g of Slot v \<Rightarrow> coerceLockoutState v | _ \<Rightarrow> emptyLockoutState))"

text \<open>\<open>stored\<close> says whether the storage call the write makes succeeds.\<close>

definition writeState :: "bool \<Rightarrow> lockout \<Rightarrow> guard \<Rightarrow> guard" where
  "writeState stored s g =
    (case g_injected g of
       Some v \<Rightarrow> g\<lparr>g_generation := g_generation g + 1,
                  g_memory := (if empty_lockout s then None else Some s),
                  g_injected := Some (if \<not> stored then v else if empty_lockout s then Null else lockout_object s)\<rparr>
     | None \<Rightarrow>
        (case g_local g of
           Unavailable \<Rightarrow> g\<lparr>g_memory := Some s\<rparr>
         | _ \<Rightarrow> (if \<not> stored then g\<lparr>g_memory := Some s\<rparr>
                else g\<lparr>g_local := Slot (if empty_lockout s then Null else lockout_object s), g_memory := None\<rparr>)))"

definition applyExternalLockoutState :: "js \<Rightarrow> guard \<Rightarrow> guard" where
  "applyExternalLockoutState raw g =
    (let s = coerceLockoutState raw
     in g\<lparr>g_generation := g_generation g + 1, g_memory := (if empty_lockout s then None else Some s)\<rparr>)"

text \<open>Configuring persistence: the synchronous part, and the answer of the store's load.\<close>

definition configure_begin :: "js option \<Rightarrow> guard \<Rightarrow> nat \<times> guard" where
  "configure_begin store g =
    (let g1 = g\<lparr>g_generation := g_generation g + 1, g_injected := store, g_memory := None\<rparr>
     in (g_generation g1, g1))"

definition configure_loaded :: "nat \<Rightarrow> js option \<Rightarrow> guard \<Rightarrow> guard" where
  "configure_loaded generation loaded g =
    (case loaded of
       None \<Rightarrow> g
     | Some v \<Rightarrow> (if generation = g_generation g \<and> g_injected g \<noteq> None then applyExternalLockoutState v g else g))"

definition getRemainingMs :: "lockout \<Rightarrow> rat \<Rightarrow> rat" where
  "getRemainingMs s nowMs =
    (if lockedUntilMs s = 0 then 0
     else let diff = lockedUntilMs s - nowMs; maximumDelayMs = delayForAttempts (Fin (failedAttempts s)) * 1000
          in if diff > 0 \<and> diff \<le> maximumDelayMs then diff else 0)"

definition recordFailure :: "bool \<Rightarrow> rat \<Rightarrow> guard \<Rightarrow> lockout \<times> guard" where
  "recordFailure stored nowMs g =
    (let n = failedAttempts (readState g) + 1;
         delaySec = delayForAttempts (Fin n);
         s = \<lparr>failedAttempts = n, lockedUntilMs = (if delaySec > 0 then nowMs + delaySec * 1000 else 0)\<rparr>
     in (s, writeState stored s g))"

definition recordSuccess :: "bool \<Rightarrow> guard \<Rightarrow> guard" where
  "recordSuccess stored g = writeState stored emptyLockoutState g"

definition clearLockoutState :: "bool \<Rightarrow> guard \<Rightarrow> guard" where
  "clearLockoutState stored g =
    (let g1 = g\<lparr>g_memory := None\<rparr>
     in case g_injected g of
          Some v \<Rightarrow> g1\<lparr>g_generation := g_generation g + 1, g_injected := Some (if stored then Null else v)\<rparr>
        | None \<Rightarrow> (case g_local g of Unavailable \<Rightarrow> g1 | _ \<Rightarrow> if stored then g1\<lparr>g_local := Slot Null\<rparr> else g1))"

section \<open>The background's gate\<close>

record throttle =
  failCount :: jnum
  lockedUntil :: jnum

datatype unlock_verdict = Allowed | RetryAfter jnum

definition checkUnlockAllowed :: "throttle option \<Rightarrow> rat \<Rightarrow> unlock_verdict" where
  "checkUnlockAllowed s now =
    (case s of
       None \<Rightarrow> Allowed
     | Some t \<Rightarrow>
        (if num_le (lockedUntil t) (Fin 0) then Allowed
         else if num_le (lockedUntil t) (Fin now) then Allowed
         else let retryAfterMs = num_sub (lockedUntil t) (Fin now)
              in if num_lt (Fin (computeBackoffMs (failCount t))) retryAfterMs then Allowed
                 else RetryAfter retryAfterMs))"

definition or_zero :: "jnum \<Rightarrow> jnum" where
  "or_zero x = (if x = NaN then Fin 0 else x)"

fun num_succ :: "jnum \<Rightarrow> jnum" where
  "num_succ (Fin a) = Fin (a + 1)"
| "num_succ x = x"

definition recordThrottleFailure :: "throttle option \<Rightarrow> rat \<Rightarrow> throttle" where
  "recordThrottleFailure s now =
    (let n = num_succ (case s of None \<Rightarrow> Fin 0 | Some t \<Rightarrow> or_zero (failCount t));
         backoff = computeBackoffMs n
     in \<lparr>failCount = n, lockedUntil = Fin (if backoff > 0 then now + backoff else 0)\<rparr>)"

text \<open>
  \<^verbatim>\<open>ChromeUnlockThrottleStore\<close>: the storage area is absent (\<open>None\<close>) or holds a
  value under the key; a call on it may reject, which the store swallows.
\<close>

fun is_object :: "js \<Rightarrow> bool" where
  "is_object (JObj kvs) = True"
| "is_object (JArr vs) = True"
| "is_object _ = False"

definition store_load :: "bool \<Rightarrow> js option \<Rightarrow> throttle option" where
  "store_load got area =
    (case area of
       None \<Rightarrow> None
     | Some v \<Rightarrow> (if \<not> got \<or> \<not> is_object v then None
         else Some \<lparr>failCount = or_zero (js_number (js_get v ''failCount'')),
                    lockedUntil = or_zero (js_number (js_get v ''lockedUntil''))\<rparr>))"

definition throttle_object :: "throttle \<Rightarrow> js" where
  "throttle_object t = JObj [(''failCount'', JNum (failCount t)), (''lockedUntil'', JNum (lockedUntil t))]"

definition store_save :: "bool \<Rightarrow> throttle \<Rightarrow> js option \<Rightarrow> js option" where
  "store_save stored t area = (case area of None \<Rightarrow> None | Some v \<Rightarrow> Some (if stored then throttle_object t else v))"

definition store_clear :: "bool \<Rightarrow> js option \<Rightarrow> js option" where
  "store_clear removed area = (case area of None \<Rightarrow> None | Some v \<Rightarrow> Some (if removed then Undef else v))"

section \<open>One ladder, one gate\<close>

lemma ladder_list: "BACKOFF_MS = map (\<lambda>d. d * 1000) SCHEDULE_SECONDS"
  by (simp add: BACKOFF_MS_def SCHEDULE_SECONDS_def)

lemma computeBackoff_delay: "computeBackoffMs x = delayForAttempts x * 1000"
  by (cases x)
    (simp_all add: computeBackoffMs_def delayForAttempts_def Let_def ladder_list CAP_MS_def MAX_DELAY_SECONDS_def)

lemma less_7_cases: "(n :: nat) < 7 \<Longrightarrow> n \<in> {0, 1, 2, 3, 4, 5, 6}"
  by auto

lemma schedule_bounds: "n < 7 \<Longrightarrow> 0 \<le> SCHEDULE_SECONDS ! n \<and> SCHEDULE_SECONDS ! n \<le> 300"
  by (drule less_7_cases) (auto simp: SCHEDULE_SECONDS_def)

lemma delay_bounds: "0 \<le> delayForAttempts x \<and> delayForAttempts x \<le> MAX_DELAY_SECONDS"
proof (cases x)
  case (Fin a)
  have "length SCHEDULE_SECONDS = 7" by (simp add: SCHEDULE_SECONDS_def)
  with schedule_bounds [of "nat \<lfloor>a\<rfloor>"] show ?thesis
    by (auto simp: Fin delayForAttempts_def MAX_DELAY_SECONDS_def Let_def)
qed (simp_all add: delayForAttempts_def MAX_DELAY_SECONDS_def)

text \<open>
  The two throttles agree: for every attempt count, finite or not, the background's
  backoff is the renderer's delay, and on the same state and clock the background refuses an attempt
  with a waiting time exactly when the renderer shows that waiting time.
\<close>

lemma throttles_agree:
  "computeBackoffMs x = delayForAttempts x * 1000
   \<and> (let t = \<lparr>failCount = Fin (failedAttempts s), lockedUntil = Fin (lockedUntilMs s)\<rparr>;
          r = (if lockedUntilMs s < 0 then 0 else getRemainingMs s now)
      in checkUnlockAllowed (Some t) now = (if r = 0 then Allowed else RetryAfter (Fin r)))"
  by (auto simp: computeBackoff_delay checkUnlockAllowed_def getRemainingMs_def Let_def)

text \<open>
  Nobody is stranded: whatever record a store holds, a refused attempt has to wait a
  finite, positive time of at most fifteen minutes.
\<close>

lemma lockout_is_capped:
  "(case checkUnlockAllowed (store_load got area) now of
      Allowed \<Rightarrow> True
    | RetryAfter r \<Rightarrow> \<exists>ms. r = Fin ms \<and> 0 < ms \<and> ms \<le> 15 * 60 * 1000)
   \<and> 0 \<le> getRemainingMs (readState g) now \<and> getRemainingMs (readState g) now \<le> 15 * 60 * 1000"
proof
  have cap: "y \<le> delayForAttempts x * 1000 \<Longrightarrow> y \<le> 15 * 60 * 1000" for x y
    using delay_bounds [of x] by (simp add: MAX_DELAY_SECONDS_def)
  show "0 \<le> getRemainingMs (readState g) now \<and> getRemainingMs (readState g) now \<le> 15 * 60 * 1000"
    using cap by (auto simp: getRemainingMs_def Let_def)
  show "case checkUnlockAllowed (store_load got area) now of Allowed \<Rightarrow> True
    | RetryAfter r \<Rightarrow> \<exists>ms. r = Fin ms \<and> 0 < ms \<and> ms \<le> 15 * 60 * 1000"
  proof (cases "store_load got area")
    case None
    then show ?thesis by (simp add: checkUnlockAllowed_def)
  next
    case (Some t)
    then have "lockedUntil t \<noteq> NaN"
      by (auto simp: store_load_def or_zero_def split: option.splits if_splits)
    then show ?thesis
      using delay_bounds [of "failCount t"] by (cases "lockedUntil t")
        (auto simp: Some checkUnlockAllowed_def computeBackoff_delay MAX_DELAY_SECONDS_def num_le_def Let_def not_less)
  qed
qed

section \<open>The ladder holds back repeated guesses\<close>

text \<open>
  A run of failed attempts: each attempt is let through by the gate in the state the earlier
  failures left, at a clock that does not run backward.
\<close>

fun attempt_run :: "('s \<Rightarrow> rat \<Rightarrow> bool) \<Rightarrow> ('s \<Rightarrow> 'e \<Rightarrow> 's) \<Rightarrow> ('e \<Rightarrow> rat) \<Rightarrow> 's \<Rightarrow> rat \<Rightarrow> 'e list \<Rightarrow> bool" where
  "attempt_run blocked fail time s t [] = True"
| "attempt_run blocked fail time s t (e # es) =
     (js_is_int (time e) \<and> t \<le> time e \<and> \<not> blocked s (time e) \<and> attempt_run blocked fail time (fail s e) (time e) es)"

locale backoff_ladder =
  fixes delay :: "nat \<Rightarrow> rat"
    and blocked :: "'s \<Rightarrow> rat \<Rightarrow> bool"
    and fail :: "'s \<Rightarrow> 'e \<Rightarrow> 's"
    and time :: "'e \<Rightarrow> rat"
    and fails :: "'s \<Rightarrow> nat"
    and inv :: "'s \<Rightarrow> bool"
  assumes inv_fail: "inv s \<Longrightarrow> 0 \<le> time e \<Longrightarrow> js_is_int (time e) \<Longrightarrow> inv (fail s e)"
    and fails_fail: "inv s \<Longrightarrow> 0 \<le> time e \<Longrightarrow> js_is_int (time e) \<Longrightarrow> fails (fail s e) = Suc (fails s)"
    and blocked_fail: "inv s \<Longrightarrow> 0 \<le> time e \<Longrightarrow> js_is_int (time e) \<Longrightarrow> time e \<le> u \<Longrightarrow>
          blocked (fail s e) u \<longleftrightarrow> u < time e + delay (Suc (fails s))"
begin

lemma run_takes:
  assumes "inv s" "0 \<le> time e" "js_is_int (time e)" "attempt_run blocked fail time (fail s e) (time e) es"
  shows "time e + (\<Sum>i < length es. delay (fails s + 1 + i)) \<le> time (last (e # es))"
  using assms
proof (induction es arbitrary: s e)
  case Nil
  then show ?case by simp
next
  case (Cons f es)
  then have f: "js_is_int (time f)" "time e \<le> time f" "\<not> blocked (fail s e) (time f)"
    "attempt_run blocked fail time (fail (fail s e) f) (time f) es" by auto
  have i: "inv (fail s e)" and n: "fails (fail s e) = Suc (fails s)"
    using Cons.prems(1-3) by (auto intro: inv_fail fails_fail)
  have "time e + delay (Suc (fails s)) \<le> time f"
    using blocked_fail [OF Cons.prems(1-3) f(2)] f(3) by simp
  moreover have "time f + (\<Sum>i < length es. delay (Suc (fails s) + 1 + i)) \<le> time (last (f # es))"
    using Cons.IH [OF i _ f(1,4)] Cons.prems(2) f(2) n by simp
  moreover have "(\<Sum>i < length (f # es). delay (fails s + 1 + i))
      = delay (Suc (fails s)) + (\<Sum>i < length es. delay (Suc (fails s) + 1 + i))"
    using sum.lessThan_Suc_shift [of "\<lambda>i. delay (fails s + 1 + i)" "length es"] by simp
  ultimately show ?case by simp
qed

end

definition ladder_delay :: "nat \<Rightarrow> rat" where
  "ladder_delay n = delayForAttempts (Fin (of_nat n)) * 1000"

definition renderer_blocked :: "guard \<Rightarrow> rat \<Rightarrow> bool" where
  "renderer_blocked g now \<longleftrightarrow> getRemainingMs (readState g) now > 0"

definition renderer_fail :: "guard \<Rightarrow> rat \<times> bool \<Rightarrow> guard" where
  "renderer_fail g e = snd (recordFailure (snd e) (fst e) g)"

definition renderer_fails :: "guard \<Rightarrow> nat" where
  "renderer_fails g = nat \<lfloor>failedAttempts (readState g)\<rfloor>"

definition renderer_inv :: "guard \<Rightarrow> bool" where
  "renderer_inv g \<longleftrightarrow> (\<exists>n. failedAttempts (readState g) = of_nat n)"

definition gate_blocked :: "js option \<Rightarrow> rat \<Rightarrow> bool" where
  "gate_blocked area now \<longleftrightarrow> checkUnlockAllowed (store_load True area) now \<noteq> Allowed"

definition gate_fail :: "js option \<Rightarrow> rat \<Rightarrow> js option" where
  "gate_fail area now = store_save True (recordThrottleFailure (store_load True area) now) area"

definition gate_count :: "js option \<Rightarrow> jnum" where
  "gate_count area = (case store_load True area of None \<Rightarrow> Fin 0 | Some t \<Rightarrow> failCount t)"

definition gate_fails :: "js option \<Rightarrow> nat" where
  "gate_fails area = (case gate_count area of Fin a \<Rightarrow> nat \<lfloor>a\<rfloor> | _ \<Rightarrow> 0)"

definition gate_inv :: "js option \<Rightarrow> bool" where
  "gate_inv area \<longleftrightarrow> area \<noteq> None \<and> (\<exists>n. gate_count area = Fin (of_nat n))"

lemma js_is_int_add: "js_is_int a \<Longrightarrow> js_is_int b \<Longrightarrow> js_is_int (a + b)"
  by (metis floor_of_int js_is_int_def of_int_add)

lemma schedule_ints: "n < 7 \<Longrightarrow> js_is_int (SCHEDULE_SECONDS ! n * 1000)"
  by (drule less_7_cases) (auto simp: SCHEDULE_SECONDS_def js_is_int_def)

lemma delay_int: "js_is_int (delayForAttempts x * 1000)"
proof (cases x)
  case (Fin a)
  have "length SCHEDULE_SECONDS = 7" by (simp add: SCHEDULE_SECONDS_def)
  with schedule_ints [of "nat \<lfloor>a\<rfloor>"] show ?thesis
    by (auto simp: Fin delayForAttempts_def MAX_DELAY_SECONDS_def Let_def js_is_int_def)
qed (simp_all add: delayForAttempts_def js_is_int_def)

text \<open>What the guard writes it reads back, wherever the state lives and whether or not the storage takes it.\<close>

lemma coerce_object:
  "0 \<le> failedAttempts s \<Longrightarrow> 0 \<le> lockedUntilMs s \<Longrightarrow> js_is_int (failedAttempts s) \<Longrightarrow> js_is_int (lockedUntilMs s) \<Longrightarrow>
   coerceLockoutState (lockout_object s) = s"
  by (simp add: coerceLockoutState_def lockout_object_def js_is_int_def)

lemma read_write:
  assumes "0 \<le> failedAttempts s" "0 \<le> lockedUntilMs s" "js_is_int (failedAttempts s)" "js_is_int (lockedUntilMs s)"
  shows "readState (writeState stored s g) = s"
proof -
  have "empty_lockout s \<Longrightarrow> s = emptyLockoutState" by (simp add: empty_lockout_def emptyLockoutState_def)
  moreover have "coerceLockoutState Null = emptyLockoutState" by (simp add: coerceLockoutState_def)
  ultimately show ?thesis using coerce_object [OF assms]
    by (auto simp: readState_def writeState_def split: option.splits local_slot.splits)
qed

lemma read_recordFailure:
  assumes "failedAttempts (readState g) = of_nat n" "0 \<le> t" "js_is_int t"
  shows "readState (snd (recordFailure stored t g)) = fst (recordFailure stored t g)"
    and "fst (recordFailure stored t g) =
      \<lparr>failedAttempts = of_nat (Suc n), lockedUntilMs = (if ladder_delay (Suc n) > 0 then t + ladder_delay (Suc n) else 0)\<rparr>"
proof -
  have d: "0 \<le> delayForAttempts x" for x using delay_bounds by blast
  show s: "fst (recordFailure stored t g) =
      \<lparr>failedAttempts = of_nat (Suc n), lockedUntilMs = (if ladder_delay (Suc n) > 0 then t + ladder_delay (Suc n) else 0)\<rparr>"
    using assms(1) by (simp add: recordFailure_def ladder_delay_def Let_def add.commute)
  have "0 \<le> ladder_delay (Suc n)" "js_is_int (ladder_delay (Suc n))"
    using d delay_int by (simp_all add: ladder_delay_def)
  with assms(2,3) have "0 \<le> failedAttempts (fst (recordFailure stored t g))"
    "0 \<le> lockedUntilMs (fst (recordFailure stored t g))"
    "js_is_int (failedAttempts (fst (recordFailure stored t g)))"
    "js_is_int (lockedUntilMs (fst (recordFailure stored t g)))"
    unfolding s by (auto simp: js_is_int_add) (simp_all add: js_is_int_def)
  from read_write [OF this, of stored g] show "readState (snd (recordFailure stored t g)) = fst (recordFailure stored t g)"
    by (simp add: recordFailure_def Let_def)
qed

interpretation renderer: backoff_ladder ladder_delay renderer_blocked renderer_fail fst renderer_fails renderer_inv
proof
  fix g :: guard and e :: "rat \<times> bool" and u
  assume "renderer_inv g" and t: "0 \<le> fst e" "js_is_int (fst e)"
  then obtain n where n: "failedAttempts (readState g) = of_nat n" by (auto simp: renderer_inv_def)
  note R = read_recordFailure [OF n t, of "snd e"]
  have k: "renderer_fails g = n" by (simp add: renderer_fails_def n)
  have r: "readState (renderer_fail g e) =
    \<lparr>failedAttempts = of_nat (Suc n), lockedUntilMs = (if ladder_delay (Suc n) > 0 then fst e + ladder_delay (Suc n) else 0)\<rparr>"
    unfolding renderer_fail_def R(1) by (rule R(2))
  show "renderer_inv (renderer_fail g e)" using r by (auto simp: renderer_inv_def simp del: of_nat_Suc)
  have "\<lfloor>1 + of_nat n :: rat\<rfloor> = 1 + int n" by linarith
  then show "renderer_fails (renderer_fail g e) = Suc (renderer_fails g)"
    by (simp add: k renderer_fails_def [of "renderer_fail g e"] r)
  assume "fst e \<le> u"
  moreover have "0 \<le> ladder_delay (Suc n)" using delay_bounds by (simp add: ladder_delay_def)
  ultimately show "renderer_blocked (renderer_fail g e) u \<longleftrightarrow> u < fst e + ladder_delay (Suc (renderer_fails g))"
    using t(1) unfolding renderer_blocked_def r k getRemainingMs_def Let_def
    by (auto simp: ladder_delay_def simp del: of_nat_Suc)
qed

lemma load_saved:
  "store_load True (store_save True t (Some v)) = Some \<lparr>failCount = or_zero (failCount t), lockedUntil = or_zero (lockedUntil t)\<rparr>"
  by (simp add: store_load_def store_save_def throttle_object_def)

interpretation gate: backoff_ladder ladder_delay gate_blocked gate_fail "\<lambda>t. t" gate_fails gate_inv
proof
  fix area :: "js option" and t u :: rat
  assume "gate_inv area" and t: "0 \<le> t" "js_is_int t"
  then obtain v n where v: "area = Some v" and n: "gate_count area = Fin (of_nat n)"
    by (auto simp: gate_inv_def)
  have k: "gate_fails area = n" by (simp add: gate_fails_def n)
  have "(case store_load True area of None \<Rightarrow> Fin 0 | Some t \<Rightarrow> or_zero (failCount t)) = Fin (of_nat n)"
    using n by (auto simp: gate_count_def or_zero_def split: option.splits)
  then have rec: "recordThrottleFailure (store_load True area) t =
      \<lparr>failCount = Fin (of_nat (Suc n)), lockedUntil = Fin (if ladder_delay (Suc n) > 0 then t + ladder_delay (Suc n) else 0)\<rparr>"
    by (simp add: recordThrottleFailure_def Let_def computeBackoff_delay ladder_delay_def add.commute)
  have l: "store_load True (gate_fail area t) =
      Some \<lparr>failCount = Fin (of_nat (Suc n)), lockedUntil = Fin (if ladder_delay (Suc n) > 0 then t + ladder_delay (Suc n) else 0)\<rparr>"
    unfolding gate_fail_def rec unfolding v load_saved by (simp add: or_zero_def)
  have c: "gate_count (gate_fail area t) = Fin (of_nat (Suc n))" unfolding gate_count_def l by simp
  then show "gate_inv (gate_fail area t)"
    unfolding gate_inv_def by (auto simp: gate_fail_def v store_save_def simp del: of_nat_Suc)
  have "\<lfloor>1 + of_nat n :: rat\<rfloor> = 1 + int n" by linarith
  then show "gate_fails (gate_fail area t) = Suc (gate_fails area)"
    by (simp add: k gate_fails_def [of "gate_fail area t"] c)
  assume "t \<le> u"
  moreover have "0 \<le> ladder_delay (Suc n)" using delay_bounds by (simp add: ladder_delay_def)
  ultimately show "gate_blocked (gate_fail area t) u \<longleftrightarrow> u < t + ladder_delay (Suc (gate_fails area))"
    using t(1) unfolding gate_blocked_def l k checkUnlockAllowed_def Let_def
    by (auto simp: computeBackoff_delay ladder_delay_def simp del: of_nat_Suc)
qed

text \<open>
  Property C13. Guessing is slowed down by both throttles: when failed attempts, each let through,
  follow a failed attempt on a guard that has seen k failures, the time from that attempt to the
  last one is at least the sum of the ladder's delays for failures k+1, k+2 and so on, even when the
  state lives in a store that refuses writes (renderer) or goes through its persisted form (gate).
\<close>

theorem guessing_is_slowed:
  assumes "0 \<le> t" "js_is_int t"
    and "renderer_inv g" "attempt_run renderer_blocked renderer_fail fst (renderer_fail g (t, stored)) t es"
    and "gate_inv area" "attempt_run gate_blocked gate_fail (\<lambda>t. t) (gate_fail area t) t ts"
  shows "t + (\<Sum>i < length es. ladder_delay (renderer_fails g + 1 + i)) \<le> fst (last ((t, stored) # es))
       \<and> t + (\<Sum>i < length ts. ladder_delay (gate_fails area + 1 + i)) \<le> last (t # ts)"
  using renderer.run_takes [OF assms(3), of "(t, stored)" es] gate.run_takes [OF assms(5,1,2,6)] assms(1,2,4)
  by simp

theorem guessing_is_slowed_witness:
  "(100 :: rat) + (ladder_delay 3 + ladder_delay 4) \<le> 20100"
proof -
  let ?g = "\<lparr>g_injected = None, g_memory = Some \<lparr>failedAttempts = 2, lockedUntilMs = 0\<rparr>, g_local = Unavailable, g_generation = 0\<rparr>"
  let ?a = "Some (JObj [(''failCount'', JNum (Fin 2)), (''lockedUntil'', JNum (Fin 0))])"
  note defs = renderer_fail_def recordFailure_def readState_def writeState_def renderer_blocked_def getRemainingMs_def
    delayForAttempts_def SCHEDULE_SECONDS_def js_is_int_def renderer_inv_def gate_inv_def gate_count_def
    store_load_def or_zero_def gate_blocked_def gate_fail_def store_save_def recordThrottleFailure_def
    computeBackoffMs_def BACKOFF_MS_def checkUnlockAllowed_def throttle_object_def Let_def
  have r: "renderer_inv ?g" "renderer_fails ?g = 2"
    by (auto simp: renderer_inv_def readState_def renderer_fails_def intro!: exI [of _ 2])
  have a: "gate_inv ?a" "gate_fails ?a = 2"
    by (auto simp: gate_inv_def gate_fails_def gate_count_def store_load_def or_zero_def intro!: exI [of _ 2])
  have "attempt_run renderer_blocked renderer_fail fst (renderer_fail ?g (100, True)) 100 [(5100, False), (20100, True)]"
    by (simp add: defs)
  moreover have "attempt_run gate_blocked gate_fail (\<lambda>t. t) (gate_fail ?a 100) 100 [5100, 20100]"
    by (simp add: defs)
  moreover have "js_is_int 100" by (simp add: js_is_int_def)
  ultimately have "100 + (\<Sum>i < length [5100, 20100 :: rat]. ladder_delay (gate_fails ?a + 1 + i)) \<le> last [100, 5100, 20100]"
    using guessing_is_slowed [of 100 ?g True "[(5100, False), (20100, True)]" ?a "[5100, 20100]"] r(1) a(1) by simp
  then show ?thesis unfolding a(2) by (simp add: numeral_eq_Suc)
qed

end
