(* ===== verification/Auto_Lock.thy ===== *)
theory Auto_Lock
  imports Window_Store
begin

text \<open>
  The closed-popup auto-lock of the extension: the armed record and its storage
  (\<^verbatim>\<open>extension/src/background/autoLockState.js\<close>), and the lock itself with its retry
  (\<^verbatim>\<open>handleWalletLock\<close>, \<^verbatim>\<open>createUiRequestTracker\<close> and
  \<^verbatim>\<open>createLockBackstop\<close> of \<^verbatim>\<open>extension/src/background/walletLock.js\<close>).
  A storage call or a clear may be refused; whether it succeeds is an argument. The theorems say
  that an armed session locks by its deadline through refused writes, worker restarts and stale
  disarms, that a finished lock leaves no secret, and that an unfinished one is retried.
\<close>

section \<open>The record\<close>

record auto_lock =
  armed :: bool
  idleMs :: jnum
  lastActivity :: jnum
  armedAt :: "jnum option"

text \<open>
  \<open>al_area\<close> is the value under the key in session storage, \<open>None\<close> when the host has no
  such area; \<open>al_unsaved\<close> is \<^verbatim>\<open>unsavedState\<close>: \<open>None\<close> for undefined.
\<close>

record lock_storage =
  al_area :: "js option"
  al_unsaved :: "auto_lock option option"

definition CLOCK_ROLLBACK_TOLERANCE_MS :: rat where
  "CLOCK_ROLLBACK_TOLERANCE_MS = 5 * 60 * 1000"

fun number_or_zero :: "js \<Rightarrow> jnum" where
  "number_or_zero (JNum x) = x"
| "number_or_zero _ = Fin 0"

fun number_opt :: "js \<Rightarrow> jnum option" where
  "number_opt (JNum x) = Some x"
| "number_opt _ = None"

fun object_like :: "js \<Rightarrow> bool" where
  "object_like (JObj kvs) = True"
| "object_like (JArr vs) = True"
| "object_like _ = False"

definition parse_record :: "js \<Rightarrow> auto_lock option" where
  "parse_record v =
    (if \<not> object_like v then None
     else Some \<lparr>armed = (js_get v ''armed'' = JBool True), idleMs = number_or_zero (js_get v ''idleMs''),
                lastActivity = number_or_zero (js_get v ''lastActivity''), armedAt = number_opt (js_get v ''armedAt'')\<rparr>)"

definition record_object :: "auto_lock \<Rightarrow> js" where
  "record_object s = JObj ([(''armed'', JBool (armed s)), (''idleMs'', JNum (idleMs s)), (''lastActivity'', JNum (lastActivity s))]
     @ (case armedAt s of None \<Rightarrow> [] | Some t \<Rightarrow> [(''armedAt'', JNum t)]))"

datatype read_error = AutoLockStateUnreadable

definition readAutoLockState :: "bool \<Rightarrow> lock_storage \<Rightarrow> read_error + auto_lock option" where
  "readAutoLockState got w =
    (case al_unsaved w of
       Some u \<Rightarrow> Inr u
     | None \<Rightarrow>
        (case al_area w of
           None \<Rightarrow> Inr None
         | Some v \<Rightarrow> if got then Inr (parse_record v) else Inl AutoLockStateUnreadable))"

definition readForUpdate :: "bool \<Rightarrow> lock_storage \<Rightarrow> auto_lock option" where
  "readForUpdate got w = (case readAutoLockState got w of Inl err \<Rightarrow> None | Inr s \<Rightarrow> s)"

definition writeAutoLockState :: "bool \<Rightarrow> auto_lock \<Rightarrow> lock_storage \<Rightarrow> bool \<times> lock_storage" where
  "writeAutoLockState stored s w =
    (case al_area w of
       None \<Rightarrow> (True, w)
     | Some v \<Rightarrow> if stored then (True, w\<lparr>al_area := Some (record_object s), al_unsaved := None\<rparr>)
                 else (False, w\<lparr>al_unsaved := Some (Some s)\<rparr>))"

fun num_max :: "jnum \<Rightarrow> jnum \<Rightarrow> jnum" where
  "num_max x y = (if x = NaN \<or> y = NaN then NaN else if num_lt x y then y else x)"

definition is_armed :: "auto_lock option \<Rightarrow> bool" where
  "is_armed s = (case s of None \<Rightarrow> False | Some a \<Rightarrow> armed a)"

definition signal_issued :: "js \<Rightarrow> jnum option" where
  "signal_issued signal = (case js_get signal ''issuedAt'' of JNum (Fin t) \<Rightarrow> Some (Fin t) | _ \<Rightarrow> None)"

text \<open>A disarm that was issued before the arm on record.\<close>

definition stale_disarm :: "jnum option \<Rightarrow> auto_lock option \<Rightarrow> bool" where
  "stale_disarm issuedAt current =
    (case (issuedAt, current) of
       (Some i, Some c) \<Rightarrow> armed c \<and> (case armedAt c of None \<Rightarrow> False | Some t \<Rightarrow> num_lt i t)
     | _ \<Rightarrow> False)"

definition armed_record :: "js \<Rightarrow> rat \<Rightarrow> auto_lock option \<Rightarrow> auto_lock" where
  "armed_record signal now current =
    (let activity = (js_get signal ''activity'' = JBool True);
         issuedAt = signal_issued signal;
         last = (if \<not> activity \<and> is_armed current \<and> num_lt (Fin 0) (lastActivity (the current))
                 then lastActivity (the current) else Fin now);
         prior = (if is_armed current then armedAt (the current) else None)
     in \<lparr>armed = True,
         idleMs = (case js_number (js_get signal ''idleMs'') of Fin i \<Rightarrow> (if i > 0 then Fin i else Fin 0) | _ \<Rightarrow> Fin 0),
         lastActivity = last,
         armedAt = (if \<not> activity \<and> issuedAt \<noteq> None
                    then (case prior of None \<Rightarrow> issuedAt | Some p \<Rightarrow> Some (num_max p (the issuedAt)))
                    else prior)\<rparr>)"

text \<open>The result is the reply's \<^verbatim>\<open>saved\<close>.\<close>

definition applyAutoLockSignal :: "bool \<Rightarrow> bool \<Rightarrow> js \<Rightarrow> rat \<Rightarrow> lock_storage \<Rightarrow> bool \<times> lock_storage" where
  "applyAutoLockSignal got stored signal now w =
    (if \<not> js_truthy signal \<or> js_get signal ''armed'' \<noteq> JBool True
     then (if stale_disarm (signal_issued signal) (readForUpdate got w) then (True, w)
           else (True, snd (writeAutoLockState stored
                  \<lparr>armed = False, idleMs = Fin 0, lastActivity = Fin now, armedAt = None\<rparr> w)))
     else let current = readForUpdate got w; activity = (js_get signal ''activity'' = JBool True)
          in if activity \<and> \<not> is_armed current then (True, w)
             else let (written, w') = writeAutoLockState stored (armed_record signal now current) w
                  in (written \<or> activity, w'))"

definition stampAutoLockActivity :: "bool \<Rightarrow> bool \<Rightarrow> rat \<Rightarrow> lock_storage \<Rightarrow> lock_storage" where
  "stampAutoLockActivity got stored now w =
    (case readForUpdate got w of
       Some s \<Rightarrow> if armed s then snd (writeAutoLockState stored (s\<lparr>lastActivity := Fin now\<rparr>) w) else w
     | None \<Rightarrow> w)"

definition clearAutoLockState :: "bool \<Rightarrow> lock_storage \<Rightarrow> lock_storage" where
  "clearAutoLockState removed w =
    (case al_area w of
       None \<Rightarrow> w
     | Some v \<Rightarrow> if removed then w\<lparr>al_area := Some Undef, al_unsaved := None\<rparr> else w\<lparr>al_unsaved := Some None\<rparr>)"

definition shouldAutoLock :: "auto_lock option \<Rightarrow> rat \<Rightarrow> bool" where
  "shouldAutoLock s now =
    (case s of
       None \<Rightarrow> False
     | Some a \<Rightarrow>
        (if \<not> armed a \<or> \<not> num_lt (Fin 0) (idleMs a) \<or> \<not> num_lt (Fin 0) (lastActivity a) then False
         else num_lt (Fin CLOCK_ROLLBACK_TOLERANCE_MS) (num_sub (lastActivity a) (Fin now))
              \<or> num_le (idleMs a) (num_sub (Fin now) (lastActivity a))))"

section \<open>Requests that hold a due lock\<close>

definition requestHoldsAutoLock :: "js \<Rightarrow> bool" where
  "requestHoldsAutoLock type =
    (case type of
       JStr s \<Rightarrow> take 7 s = ''action.'' \<or> take 9 s = ''auth.sign'' \<or> s = ''broadcast.signedTx''
                 \<or> s = ''broadcast.queue.broadcast'' \<or> take 13 s = ''multisigSign.''
     | _ \<Rightarrow> False)"

definition AUTO_LOCK_REQUEST_CEILING_MS :: rat where
  "AUTO_LOCK_REQUEST_CEILING_MS = 10 * 60 * 1000"

text \<open>The requests in flight, oldest first: a token and the time it began.\<close>

definition begin_request :: "js \<Rightarrow> nat \<Rightarrow> rat \<Rightarrow> (nat \<times> rat) list \<Rightarrow> (nat \<times> rat) list" where
  "begin_request type token now reqs = (if requestHoldsAutoLock type then reqs @ [(token, now)] else reqs)"

definition end_request :: "nat \<Rightarrow> (nat \<times> rat) list \<Rightarrow> (nat \<times> rat) list" where
  "end_request token reqs = List.filter (\<lambda>(k, t). k \<noteq> token) reqs"

definition request_active :: "rat \<Rightarrow> rat \<Rightarrow> (nat \<times> rat) list \<Rightarrow> bool \<times> (nat \<times> rat) list" where
  "request_active ceilingMs now reqs =
    (let rest = dropWhile (\<lambda>(k, startedAt). \<not> now - startedAt < ceilingMs) reqs in (rest \<noteq> [], rest))"

section \<open>The lock\<close>

record lock_world =
  lk_storage :: lock_storage
  lk_unlocked :: bool
  lk_session :: bool
  lk_signing :: bool
  lk_cleanup :: bool
  lk_requests :: "(nat \<times> rat) list"

datatype lock_step = SessionClear | SigningClear | Teardown

text \<open>What the three steps of a lock answer: both clears and the teardown can throw.\<close>

record lock_answers =
  session_ok :: bool
  signing_ok :: bool
  teardown_ok :: bool

definition handleWalletLock :: "lock_answers \<Rightarrow> lock_world \<Rightarrow> lock_step list \<times> lock_world" where
  "handleWalletLock a w =
    ((if session_ok a then [] else [SessionClear]) @ (if signing_ok a then [] else [SigningClear])
       @ (if teardown_ok a then [] else [Teardown]),
     w\<lparr>lk_session := (lk_session w \<and> \<not> session_ok a), lk_signing := (lk_signing w \<and> \<not> signing_ok a),
       lk_unlocked := (lk_unlocked w \<and> \<not> teardown_ok a)\<rparr>)"

definition lockWalletNow :: "lock_answers \<Rightarrow> bool \<Rightarrow> lock_world \<Rightarrow> bool \<times> lock_world" where
  "lockWalletNow a removed w =
    (case handleWalletLock a w of
       (failed, w1) \<Rightarrow>
         (if failed \<noteq> [] then (False, w1\<lparr>lk_cleanup := True\<rparr>)
          else (True, w1\<lparr>lk_cleanup := False, lk_storage := clearAutoLockState removed (lk_storage w1)\<rparr>)))"

datatype lock_outcome = Skipped | Deferred | Locked | Failed

definition maybeAutoLock :: "bool \<Rightarrow> lock_answers \<Rightarrow> bool \<Rightarrow> rat \<Rightarrow> lock_world \<Rightarrow> lock_outcome \<times> lock_world" where
  "maybeAutoLock got a removed now w =
    (if \<not> lk_unlocked w \<and> \<not> lk_cleanup w then (Skipped, w)
     else let due = (case readAutoLockState got (lk_storage w) of Inl err \<Rightarrow> True | Inr s \<Rightarrow> shouldAutoLock s now)
          in if \<not> due then (Skipped, w)
             else let (busy, reqs) = request_active AUTO_LOCK_REQUEST_CEILING_MS now (lk_requests w);
                      w1 = w\<lparr>lk_requests := reqs\<rparr>
                  in if busy then (Deferred, w1)
                     else case lockWalletNow a removed w1 of (ok, w2) \<Rightarrow> (if ok then Locked else Failed, w2))"

text \<open>A popup-driven lock: the handler with the backstop's \<^verbatim>\<open>onLocked\<close> as its callback.\<close>

definition popup_lock :: "lock_answers \<Rightarrow> bool \<Rightarrow> lock_world \<Rightarrow> lock_step list \<times> lock_world" where
  "popup_lock a removed w =
    (case handleWalletLock a w of
       (failed, w1) \<Rightarrow>
         (failed, if session_ok a \<and> signing_ok a
                  then w1\<lparr>lk_cleanup := False, lk_storage := clearAutoLockState removed (lk_storage w1)\<rparr>
                  else w1\<lparr>lk_cleanup := True\<rparr>))"

definition noteUnlocked :: "lock_world \<Rightarrow> lock_world" where
  "noteUnlocked w = w\<lparr>lk_cleanup := False\<rparr>"

section \<open>An armed session locks by its deadline\<close>

lemma parse_record_object: "parse_record (record_object s) = Some s"
  by (cases "armedAt s") (auto simp: parse_record_def record_object_def)

text \<open>The records an armed session may hold: threshold at most I, activity by A, armed no earlier than s0.\<close>

definition due_by :: "rat \<Rightarrow> rat \<Rightarrow> rat \<Rightarrow> auto_lock \<Rightarrow> bool" where
  "due_by I A s0 s \<longleftrightarrow> armed s \<and> (\<exists>i a t. idleMs s = Fin i \<and> 0 < i \<and> i \<le> I \<and> lastActivity s = Fin a \<and> 0 < a \<and> a \<le> A
     \<and> armedAt s = Some (Fin t) \<and> s0 \<le> t)"

definition deadline_inv :: "rat \<Rightarrow> rat \<Rightarrow> rat \<Rightarrow> lock_storage \<Rightarrow> bool" where
  "deadline_inv I A s0 w \<longleftrightarrow> (\<exists>v s. al_area w = Some v \<and> parse_record v = Some s \<and> due_by I A s0 s)
     \<and> (al_unsaved w = None \<or> (\<exists>s. al_unsaved w = Some (Some s) \<and> due_by I A s0 s))"

datatype lock_event =
    Signal js rat bool
  | Stamp rat bool bool
  | Evicted

fun lock_event_step :: "lock_storage \<Rightarrow> lock_event \<Rightarrow> lock_storage" where
  "lock_event_step w (Signal signal now stored) = snd (applyAutoLockSignal True stored signal now w)"
| "lock_event_step w (Stamp now got stored) = stampAutoLockActivity got stored now w"
| "lock_event_step w Evicted = w\<lparr>al_unsaved := None\<rparr>"

text \<open>
  The events of a session that stays armed: arms with a threshold of at most I, activity up to
  time A, disarms issued before s0, and evictions of the worker, which lose \<^verbatim>\<open>unsavedState\<close>.
\<close>

fun deadline_event :: "rat \<Rightarrow> rat \<Rightarrow> rat \<Rightarrow> lock_storage \<Rightarrow> lock_event \<Rightarrow> bool" where
  "deadline_event I A s0 w (Signal signal now stored) =
     (if js_truthy signal \<and> js_get signal ''armed'' = JBool True
      then (case js_number (js_get signal ''idleMs'') of Fin i \<Rightarrow> 0 < i \<and> i \<le> I | _ \<Rightarrow> False)
           \<and> (js_get signal ''activity'' \<noteq> JBool True \<or> (0 < now \<and> now \<le> A))
      else (case signal_issued signal of Some (Fin t) \<Rightarrow> t < s0 | _ \<Rightarrow> False))"
| "deadline_event I A s0 w (Stamp now got stored) = (0 < now \<and> now \<le> A)"
| "deadline_event I A s0 w Evicted = True"

lemma deadline_read:
  assumes "deadline_inv I A s0 w"
  shows "\<exists>s. readAutoLockState True w = Inr (Some s) \<and> due_by I A s0 s"
  using assms by (auto simp: deadline_inv_def readAutoLockState_def)

lemma deadline_write:
  assumes "deadline_inv I A s0 w" "due_by I A s0 s"
  shows "deadline_inv I A s0 (snd (writeAutoLockState stored s w))"
  using assms by (auto simp: deadline_inv_def writeAutoLockState_def parse_record_object)

lemma deadline_step:
  assumes inv: "deadline_inv I A s0 w" and ok: "deadline_event I A s0 w ev"
  shows "deadline_inv I A s0 (lock_event_step w ev)"
proof (cases ev)
  case (Signal signal now stored)
  from deadline_read [OF inv] obtain s where s: "readForUpdate True w = Some s" "due_by I A s0 s"
    by (auto simp: readForUpdate_def)
  then obtain i a t where f: "armed s" "idleMs s = Fin i" "lastActivity s = Fin a" "0 < a" "a \<le> A"
    "armedAt s = Some (Fin t)" "s0 \<le> t" by (auto simp: due_by_def)
  show ?thesis
  proof (cases "js_truthy signal \<and> js_get signal ''armed'' = JBool True")
    case False
    with ok Signal obtain u where u: "signal_issued signal = Some (Fin u)" "u < s0"
      by (auto split: option.splits jnum.splits)
    with f have "stale_disarm (signal_issued signal) (Some s)" by (simp add: stale_disarm_def)
    with False inv Signal s(1) show ?thesis by (auto simp: applyAutoLockSignal_def)
  next
    case True
    with ok Signal obtain j where j: "js_number (js_get signal ''idleMs'') = Fin j" "0 < j" "j \<le> I"
      and act: "js_get signal ''activity'' \<noteq> JBool True \<or> (0 < now \<and> now \<le> A)"
      by (auto split: jnum.splits)
    have iss: "signal_issued signal = None \<or> (\<exists>u. signal_issued signal = Some (Fin u))"
      by (auto simp: signal_issued_def split: js.splits jnum.splits)
    have "due_by I A s0 (armed_record signal now (Some s))"
      using f j act iss by (auto simp: due_by_def armed_record_def is_armed_def Let_def)
    from deadline_write [OF inv this] True Signal s(1) f(1) show ?thesis
      by (auto simp: applyAutoLockSignal_def is_armed_def Let_def case_prod_beta)
  qed
next
  case (Stamp now got stored)
  show ?thesis
  proof (cases "readForUpdate got w")
    case None
    with inv Stamp show ?thesis by (simp add: stampAutoLockActivity_def)
  next
    case (Some s)
    then have "readForUpdate True w = Some s"
      by (auto simp: readForUpdate_def readAutoLockState_def split: option.splits if_splits)
    with deadline_read [OF inv] have "due_by I A s0 s" by (auto simp: readForUpdate_def)
    with ok Stamp have "due_by I A s0 (s\<lparr>lastActivity := Fin now\<rparr>)" by (auto simp: due_by_def)
    from deadline_write [OF inv this] inv Stamp Some show ?thesis by (simp add: stampAutoLockActivity_def)
  qed
next
  case Evicted
  with inv show ?thesis by (auto simp: deadline_inv_def)
qed

interpretation deadline: machine "deadline_event I A s0" lock_event_step "deadline_inv I A s0" for I A s0
  by unfold_locales (rule deadline_step)

lemma due_by_locks:
  assumes "due_by I A s0 s" "A + I \<le> now"
  shows "shouldAutoLock (Some s) now"
  using assms by (auto simp: due_by_def shouldAutoLock_def)

text \<open>
  Property C14. An armed session locks by its deadline: once storage holds an arm issued at s0 with a
  threshold of at most I and activity by A, then through re-arms, activity up to A, disarms issued
  before s0, refused writes and worker evictions, the first alarm at or after A + I on an unlocked
  wallet never skips: it locks, waits for a request in flight, or fails and stays pending, even when
  storage refuses the read.
\<close>

theorem armed_session_locks:
  assumes "deadline_inv I A s0 w" "run_ok (deadline_event I A s0) lock_event_step w evs"
    and "A + I \<le> now" "lk_unlocked x" "lk_storage x = foldl lock_event_step w evs"
  shows "fst (maybeAutoLock got a removed now x) \<noteq> Skipped"
proof -
  have inv: "deadline_inv I A s0 (lk_storage x)" using deadline.inv_run [OF assms(1,2)] assms(5) by simp
  have "case readAutoLockState got (lk_storage x) of Inl err \<Rightarrow> True | Inr s \<Rightarrow> shouldAutoLock s now"
  proof (cases "readAutoLockState got (lk_storage x)")
    case (Inr s)
    then have "readAutoLockState True (lk_storage x) = Inr s"
      by (auto simp: readAutoLockState_def split: option.splits if_splits)
    with deadline_read [OF inv] obtain r where "s = Some r" "due_by I A s0 r" by auto
    with due_by_locks [OF _ assms(3)] Inr show ?thesis by simp
  qed simp
  with assms(4) show ?thesis by (simp add: maybeAutoLock_def Let_def split: prod.splits)
qed

definition demo_record :: auto_lock where
  "demo_record = \<lparr>armed = True, idleMs = Fin 60000, lastActivity = Fin 1000, armedAt = Some (Fin 1000)\<rparr>"

theorem armed_session_locks_witness:
  "fst (maybeAutoLock False \<lparr>session_ok = False, signing_ok = True, teardown_ok = True\<rparr> True 65000
     \<lparr>lk_storage = foldl lock_event_step \<lparr>al_area = Some (record_object demo_record), al_unsaved = None\<rparr>
        [Stamp 4000 True False, Evicted, Signal (JObj [(''issuedAt'', JNum (Fin 900))]) 5000 True],
      lk_unlocked = True, lk_session = True, lk_signing = True, lk_cleanup = False, lk_requests = []\<rparr>) \<noteq> Skipped"
proof -
  let ?w = "\<lparr>al_area = Some (record_object demo_record), al_unsaved = None\<rparr>"
  let ?es = "[Stamp 4000 True False, Evicted, Signal (JObj [(''issuedAt'', JNum (Fin 900))]) 5000 True]"
  have "deadline_inv 60000 5000 1000 ?w"
    by (simp add: deadline_inv_def parse_record_object due_by_def demo_record_def)
  moreover have "run_ok (deadline_event 60000 5000 1000) lock_event_step ?w ?es"
    by (simp add: signal_issued_def)
  ultimately show ?thesis by (rule armed_session_locks) simp_all
qed

section \<open>A lock finishes or is retried\<close>

definition requests_busy :: "rat \<Rightarrow> lock_world \<Rightarrow> bool" where
  "requests_busy now w \<longleftrightarrow> (\<exists>(k, t) \<in> set (lk_requests w). now - t < AUTO_LOCK_REQUEST_CEILING_MS)"

lemma request_active_iff: "fst (request_active c now reqs) \<longleftrightarrow> (\<exists>(k, t) \<in> set reqs. now - t < c)"
  by (induction reqs) (auto simp: request_active_def)

definition idle_due :: "lock_storage \<Rightarrow> rat \<Rightarrow> bool" where
  "idle_due w now \<longleftrightarrow> al_area w \<noteq> None \<and> (\<exists>s i a. readAutoLockState True w = Inr (Some s) \<and> armed s \<and> idleMs s = Fin i \<and> 0 < i
      \<and> lastActivity s = Fin a \<and> 0 < a \<and> i \<le> now - a)"

lemma idle_due_should: "idle_due w now \<Longrightarrow> now \<le> later \<Longrightarrow>
    (case readAutoLockState got w of Inl err \<Rightarrow> True | Inr s \<Rightarrow> shouldAutoLock s later)"
  by (auto simp: idle_due_def readAutoLockState_def shouldAutoLock_def split: option.splits)

lemma maybeAutoLock_due:
  assumes "lk_unlocked w \<or> lk_cleanup w"
    and "case readAutoLockState got (lk_storage w) of Inl err \<Rightarrow> True | Inr s \<Rightarrow> shouldAutoLock s now"
    and "request_active AUTO_LOCK_REQUEST_CEILING_MS now (lk_requests w) = (False, [])"
  shows "maybeAutoLock got a removed now w = (case lockWalletNow a removed (w\<lparr>lk_requests := []\<rparr>) of
      (ok, w2) \<Rightarrow> (if ok then Locked else Failed, w2))"
  using assms by (auto simp: maybeAutoLock_def Let_def)

text \<open>
  Property C18. A due lock leaves no secret behind, or is retried: at the idle deadline of an armed,
  unlocked wallet with no request in flight, the alarm either reports the lock, and then the session
  key, the signing secret and the host are gone, nothing is pending and the record is cleared, or
  some step failed, and then the record is kept and every later alarm with no request in flight
  tries again until its clears succeed.
\<close>

theorem due_lock_finishes_or_retries:
  assumes "lk_unlocked w \<or> lk_cleanup w" "idle_due (lk_storage w) now" "\<not> requests_busy now w"
    and "maybeAutoLock got a removed now w = (r, w')"
  shows "(r = Locked \<and> session_ok a \<and> signing_ok a \<and> teardown_ok a \<and> \<not> lk_session w' \<and> \<not> lk_signing w'
            \<and> \<not> lk_unlocked w' \<and> \<not> lk_cleanup w' \<and> \<not> is_armed (readForUpdate True (lk_storage w')))
       \<or> (r = Failed \<and> lk_cleanup w' \<and> lk_storage w' = lk_storage w
            \<and> (\<forall>got' a' removed'. \<forall>later \<ge> now. \<not> requests_busy later w' \<longrightarrow>
                 fst (maybeAutoLock got' a' removed' later w')
                   = (if session_ok a' \<and> signing_ok a' \<and> teardown_ok a' then Locked else Failed)))"
proof -
  have alarm: "fst (maybeAutoLock g b m t v) = (if session_ok b \<and> signing_ok b \<and> teardown_ok b then Locked else Failed)"
    if "lk_unlocked v \<or> lk_cleanup v" "idle_due (lk_storage v) now" "now \<le> t" "\<not> requests_busy t v" for g b m t v
    using that idle_due_should [OF that(2,3), of g] request_active_iff [of AUTO_LOCK_REQUEST_CEILING_MS t "lk_requests v"]
    by (auto simp: maybeAutoLock_def Let_def requests_busy_def lockWalletNow_def handleWalletLock_def split: prod.splits)
  have due: "case readAutoLockState got (lk_storage w) of Inl err \<Rightarrow> True | Inr s \<Rightarrow> shouldAutoLock s now"
    by (rule idle_due_should [OF assms(2)]) simp
  have "snd (request_active AUTO_LOCK_REQUEST_CEILING_MS now (lk_requests w)) = []"
    "\<not> fst (request_active AUTO_LOCK_REQUEST_CEILING_MS now (lk_requests w))"
    using assms(3) request_active_iff [of AUTO_LOCK_REQUEST_CEILING_MS now "lk_requests w"]
    by (auto simp: requests_busy_def) (auto simp: request_active_def Let_def)
  then have "request_active AUTO_LOCK_REQUEST_CEILING_MS now (lk_requests w) = (False, [])"
    by (simp add: prod_eq_iff)
  from maybeAutoLock_due [OF assms(1) due this] assms(4)
  have r: "(r, w') = (case lockWalletNow a removed (w\<lparr>lk_requests := []\<rparr>) of
      (ok, w2) \<Rightarrow> (if ok then Locked else Failed, w2))" by simp
  show ?thesis
  proof (cases "session_ok a \<and> signing_ok a \<and> teardown_ok a")
    case True
    have "\<not> is_armed (readForUpdate True (clearAutoLockState removed (lk_storage w)))"
      using assms(2) by (auto simp: idle_due_def clearAutoLockState_def readForUpdate_def readAutoLockState_def
          parse_record_def is_armed_def split: option.splits)
    with r True show ?thesis by (simp add: lockWalletNow_def handleWalletLock_def)
  next
    case False
    with r have w': "r = Failed" "lk_cleanup w'" "lk_storage w' = lk_storage w"
      by (auto simp: lockWalletNow_def handleWalletLock_def)
    with alarm [of w'] assms(2) show ?thesis by auto
  qed
qed

theorem due_lock_finishes_or_retries_witness:
  "fst (maybeAutoLock True \<lparr>session_ok = True, signing_ok = True, teardown_ok = True\<rparr> True 65000
     (snd (maybeAutoLock True \<lparr>session_ok = False, signing_ok = True, teardown_ok = True\<rparr> True 62000
       \<lparr>lk_storage = \<lparr>al_area = Some (record_object demo_record), al_unsaved = None\<rparr>,
        lk_unlocked = True, lk_session = True, lk_signing = True, lk_cleanup = False, lk_requests = []\<rparr>))) = Locked"
proof -
  let ?w = "\<lparr>lk_storage = \<lparr>al_area = Some (record_object demo_record), al_unsaved = None\<rparr>,
        lk_unlocked = True, lk_session = True, lk_signing = True, lk_cleanup = False, lk_requests = []\<rparr>"
  let ?a = "\<lparr>session_ok = False, signing_ok = True, teardown_ok = True\<rparr>"
  obtain r w' where m: "maybeAutoLock True ?a True 62000 ?w = (r, w')" by fastforce
  have "idle_due (lk_storage ?w) 62000"
    by (simp add: idle_due_def readAutoLockState_def parse_record_object demo_record_def)
  moreover have "\<not> requests_busy 62000 ?w" by (simp add: requests_busy_def)
  ultimately have "r = Failed \<and> (\<forall>got' a' removed'. \<forall>later \<ge> 62000. \<not> requests_busy later w' \<longrightarrow>
                 fst (maybeAutoLock got' a' removed' later w')
                   = (if session_ok a' \<and> signing_ok a' \<and> teardown_ok a' then Locked else Failed))"
    using due_lock_finishes_or_retries [OF _ _ _ m] by simp
  moreover have "lk_requests w' = []"
    using m by (auto simp: maybeAutoLock_def request_active_def lockWalletNow_def handleWalletLock_def Let_def
        split: if_splits)
  ultimately show ?thesis by (simp add: m requests_busy_def)
qed

end
