(* ===== verification/Sign_Throttle.thy ===== *)
theory Sign_Throttle
  imports Wallet_Prelude "HOL-Library.Multiset"
begin

text \<open>
  The per-origin sign-request throttle, \<^verbatim>\<open>createSignThrottle\<close> of
  \<^verbatim>\<open>core/src/flows/signThrottle.js\<close>: live limits, buckets of timestamps, the check, clearing,
  and seeding from a persisted snapshot. The theorems bound the requests an origin gets through any
  window of time, across restarts that seed a stale snapshot, and give the waiting time its meaning.
\<close>

section \<open>Limits\<close>

definition SIGN_THROTTLE_DEFAULT_BURST :: int where
  "SIGN_THROTTLE_DEFAULT_BURST = 5"

definition SIGN_THROTTLE_DEFAULT_WINDOW_MS :: int where
  "SIGN_THROTTLE_DEFAULT_WINDOW_MS = 60000"

definition coerceBurst :: "js \<Rightarrow> int" where
  "coerceBurst v = (if is_finite v \<and> fin_val v > 0 then \<lfloor>fin_val v\<rfloor> else SIGN_THROTTLE_DEFAULT_BURST)"

definition coerceWindowMs :: "js \<Rightarrow> int" where
  "coerceWindowMs v = (if is_finite v \<and> fin_val v > 0 then \<lfloor>fin_val v\<rfloor> else SIGN_THROTTLE_DEFAULT_WINDOW_MS)"

text \<open>
  \<^verbatim>\<open>getLimits()\<close>: the static options, or the live ones over the static. \<open>live\<close> is
  the value the supplied function returns, \<open>None\<close> when no function was supplied.
\<close>

definition getLimits :: "js \<Rightarrow> js option \<Rightarrow> int \<times> int" where
  "getLimits opts live =
    (case live of
       None \<Rightarrow> (coerceBurst (js_get opts ''burst''), coerceWindowMs (js_get opts ''windowMs''))
     | Some v \<Rightarrow> (coerceBurst (js_coalesce (js_get v ''burst'') (js_get opts ''burst'')),
                 coerceWindowMs (js_coalesce (js_get v ''windowMs'') (js_get opts ''windowMs''))))"

section \<open>Buckets\<close>

type_synonym buckets = "string \<rightharpoonup> rat list"

fun finite_list :: "js \<Rightarrow> rat list option" where
  "finite_list (JArr vs) = (if list_all is_finite vs then Some (map fin_val vs) else None)"
| "finite_list _ = None"

fun own_entries :: "js \<Rightarrow> (string \<times> js) list" where
  "own_entries (JObj kvs) = kvs"
| "own_entries (JArr vs) = zip (map nat_text [0..<length vs]) vs"
| "own_entries _ = []"

definition initial_buckets :: "js \<Rightarrow> buckets" where
  "initial_buckets saved =
    foldl (\<lambda>b (origin, v). case finite_list v of
             Some ts \<Rightarrow> (if origin \<noteq> [] then b(origin \<mapsto> ts) else b)
           | None \<Rightarrow> b) Map.empty (own_entries saved)"

record throttle_reply =
  allowed :: bool
  retryAfterMs :: jnum

definition bucket_of :: "buckets \<Rightarrow> string \<Rightarrow> rat list" where
  "bucket_of b origin = (case b origin of None \<Rightarrow> [] | Some ts \<Rightarrow> ts)"

definition fresh_of :: "rat \<Rightarrow> rat \<Rightarrow> rat list \<Rightarrow> rat list" where
  "fresh_of windowMs t ts = List.filter (\<lambda>x. x > t - windowMs) ts"

definition check :: "int \<times> int \<Rightarrow> rat \<Rightarrow> js \<Rightarrow> buckets \<Rightarrow> throttle_reply \<times> buckets" where
  "check limits t origin b =
    (case origin of
       JStr s \<Rightarrow>
        (if s = [] then (\<lparr>allowed = True, retryAfterMs = Fin 0\<rparr>, b)
         else let (burst, windowMs) = limits; fresh = fresh_of (of_int windowMs) t (bucket_of b s)
              in if burst \<le> int (length fresh)
                 then (\<lparr>allowed = False,
                        retryAfterMs = (if fresh = [] then NaN else Fin (max 0 (hd fresh + of_int windowMs - t)))\<rparr>,
                       b(s \<mapsto> fresh))
                 else (\<lparr>allowed = True, retryAfterMs = Fin 0\<rparr>, b(s \<mapsto> fresh @ [t])))
     | _ \<Rightarrow> (\<lparr>allowed = True, retryAfterMs = Fin 0\<rparr>, b))"

definition clear_buckets :: "js \<Rightarrow> buckets \<Rightarrow> buckets" where
  "clear_buckets origin b = (case origin of JStr s \<Rightarrow> (if s = [] then Map.empty else b(s := None)) | _ \<Rightarrow> Map.empty)"

text \<open>The timestamps of a persisted list that survive its own filter: every finite one.\<close>

fun finite_stamps :: "js \<Rightarrow> rat list" where
  "finite_stamps (JArr vs) = map fin_val (List.filter is_finite vs)"
| "finite_stamps _ = []"

definition seed_one :: "buckets \<Rightarrow> string \<times> js \<Rightarrow> buckets" where
  "seed_one b p = (case p of (origin, v) \<Rightarrow>
    (if origin = [] \<or> finite_stamps v = [] then b
     else b(origin \<mapsto> sort (bucket_of b origin @ finite_stamps v))))"

definition seed :: "js \<Rightarrow> buckets \<Rightarrow> buckets" where
  "seed persisted b = foldl seed_one b (own_entries persisted)"

section \<open>The rate an origin gets\<close>

text \<open>
  The throttle with two ghosts: the times of the requests it let through for one origin, and the
  latest clock reading. Clearing is an explicit act of the wallet and stays out of the bound unless
  it names another origin.
\<close>

datatype throttle_event =
    CheckEv "int \<times> int" rat js
  | SeedEv js
  | ClearEv string

record throttle_world =
  tw_buckets :: buckets
  tw_log :: "rat list"
  tw_clock :: rat

fun throttle_step :: "string \<Rightarrow> throttle_world \<Rightarrow> throttle_event \<Rightarrow> throttle_world" where
  "throttle_step s w (CheckEv limits t origin) =
     (let (r, b) = check limits t origin (tw_buckets w)
      in w\<lparr>tw_buckets := b, tw_clock := t, tw_log := (if origin = JStr s \<and> allowed r then tw_log w @ [t] else tw_log w)\<rparr>)"
| "throttle_step s w (SeedEv persisted) = w\<lparr>tw_buckets := seed persisted (tw_buckets w)\<rparr>"
| "throttle_step s w (ClearEv origin) = w\<lparr>tw_buckets := clear_buckets (JStr origin) (tw_buckets w)\<rparr>"

fun throttle_event_ok :: "string \<Rightarrow> nat \<Rightarrow> rat \<Rightarrow> throttle_world \<Rightarrow> throttle_event \<Rightarrow> bool" where
  "throttle_event_ok s B W w (CheckEv limits t origin) =
     (tw_clock w \<le> t \<and> fst limits \<le> int B \<and> W \<le> of_int (snd limits))"
| "throttle_event_ok s B W w (SeedEv persisted) = True"
| "throttle_event_ok s B W w (ClearEv origin) = (origin \<noteq> [] \<and> origin \<noteq> s)"

definition let_through :: "rat \<Rightarrow> rat \<Rightarrow> rat list \<Rightarrow> nat" where
  "let_through W x ts = length (List.filter (\<lambda>t. x - W < t \<and> t \<le> x) ts)"

definition throttle_inv :: "string \<Rightarrow> nat \<Rightarrow> rat \<Rightarrow> throttle_world \<Rightarrow> bool" where
  "throttle_inv s B W w \<longleftrightarrow> (\<forall>t \<in> set (tw_log w). t \<le> tw_clock w)
     \<and> filter_mset (\<lambda>t. tw_clock w - W < t) (mset (tw_log w)) \<subseteq># mset (bucket_of (tw_buckets w) s)
     \<and> (\<forall>x. let_through W x (tw_log w) \<le> B)"

lemma bucket_of_upd [simp]: "bucket_of (b(o1 \<mapsto> ts)) o2 = (if o1 = o2 then ts else bucket_of b o2)"
  by (simp add: bucket_of_def)

lemma seed_grows: "mset (bucket_of b s) \<subseteq># mset (bucket_of (foldl seed_one b es) s)"
proof (induction es arbitrary: b)
  case (Cons e es)
  have "mset (bucket_of b s) \<subseteq># mset (bucket_of (seed_one b e) s)"
    by (cases e) (auto simp: seed_one_def)
  with Cons [of "seed_one b e"] show ?case by (auto intro: subset_mset.order_trans)
qed simp

lemma filter_mset_weaken: "(\<And>x. P x \<Longrightarrow> Q x) \<Longrightarrow> filter_mset P M \<subseteq># filter_mset Q M"
  by (induction M) (auto intro: subset_mset.order_trans mset_subset_eq_add_right)

lemma let_through_snoc:
  "let_through W x (ts @ [t]) = let_through W x ts + (if x - W < t \<and> t \<le> x then 1 else 0)"
  by (simp add: let_through_def)

lemma throttle_inv_check:
  assumes inv: "throttle_inv s B W w" and s: "s \<noteq> []" and W: "0 < W"
    and ok: "tw_clock w \<le> t" "fst limits \<le> int B" "W \<le> of_int (snd limits)"
  shows "throttle_inv s B W (throttle_step s w (CheckEv limits t origin))"
proof -
  let ?log = "tw_log w" and ?bucket = "bucket_of (tw_buckets w) s"
  have "filter_mset (\<lambda>x. t - W < x) (mset ?log) \<subseteq># filter_mset (\<lambda>x. tw_clock w - W < x) (mset ?log)"
    using ok(1) by (intro filter_mset_weaken) auto
  then have log: "filter_mset (\<lambda>x. t - W < x) (mset ?log) \<subseteq># mset ?bucket"
    using inv by (auto simp: throttle_inv_def intro: subset_mset.order_trans)
  have past: "\<forall>y \<in> set ?log. y \<le> t" using inv ok(1) by (auto simp: throttle_inv_def intro: order_trans)
  show ?thesis
  proof (cases "origin = JStr s")
    case other: False
    have "bucket_of (snd (check limits t origin (tw_buckets w))) s = ?bucket"
      using other by (auto simp: check_def Let_def split: js.splits prod.splits)
    with inv log past other show ?thesis by (auto simp: throttle_inv_def case_prod_beta)
  next
    case True
    obtain burst windowMs where l: "limits = (burst, windowMs)" by (cases limits)
    define fresh where "fresh = fresh_of (of_int windowMs) t ?bucket"
    have "filter_mset (\<lambda>x. t - W < x) (mset ?log) \<subseteq># filter_mset (\<lambda>x. t - W < x) (mset ?bucket)"
      using multiset_filter_mono [OF log, of "\<lambda>x. t - W < x"] by (simp add: filter_filter_mset)
    moreover have "\<dots> \<subseteq># mset fresh"
      unfolding fresh_def fresh_of_def mset_filter using ok(3) l by (intro filter_mset_weaken) auto
    ultimately have keep: "filter_mset (\<lambda>x. t - W < x) (mset ?log) \<subseteq># mset fresh"
      by (rule subset_mset.order_trans)
    from size_mset_mono [OF this] have few: "length (List.filter (\<lambda>x. t - W < x) ?log) \<le> length fresh"
      by (simp flip: mset_filter)
    show ?thesis
    proof (cases "burst \<le> int (length fresh)")
      case blocked: True
      with True s l keep past inv show ?thesis
        by (simp add: check_def throttle_inv_def fresh_def [symmetric])
    next
      case False
      have "let_through W x (?log @ [t]) \<le> B" for x
      proof (cases "x - W < t \<and> t \<le> x")
        case in_window: True
        have "let_through W x ?log \<le> length (List.filter (\<lambda>y. t - W < y) ?log)"
          unfolding let_through_def using in_window by (intro filter_le_length) auto
        with few False ok(2) l show ?thesis by (simp add: let_through_snoc)
      next
        case out: False
        with inv show ?thesis unfolding let_through_snoc by (auto simp: throttle_inv_def)
      qed
      with True s l keep past False W show ?thesis
        by (simp add: check_def throttle_inv_def fresh_def [symmetric])
    qed
  qed
qed

lemma throttle_inv_step:
  assumes "s \<noteq> []" "0 < W" "throttle_inv s B W w" "throttle_event_ok s B W w ev"
  shows "throttle_inv s B W (throttle_step s w ev)"
proof (cases ev)
  case (CheckEv limits t origin)
  with assms throttle_inv_check [OF assms(3,1,2)] show ?thesis by auto
next
  case (SeedEv persisted)
  with assms seed_grows [of "tw_buckets w" s "own_entries persisted"] show ?thesis
    by (auto simp: throttle_inv_def seed_def intro: subset_mset.order_trans)
next
  case (ClearEv origin)
  with assms show ?thesis by (auto simp: throttle_inv_def clear_buckets_def bucket_of_def)
qed

text \<open>A named origin and a positive window: the parameters of one origin's guarantee.\<close>

definition guarded :: "string \<Rightarrow> rat \<Rightarrow> bool" where
  "guarded s W \<longleftrightarrow> s \<noteq> [] \<and> 0 < W"

interpretation throttle: machine "\<lambda>w ev. guarded s W \<and> throttle_event_ok s B W w ev" "throttle_step s" "throttle_inv s B W"
  for s B W
  by unfold_locales (auto simp: guarded_def intro: throttle_inv_step)

text \<open>
  Property C21. The throttle bounds an origin's rate: under limits of at most B requests per window
  of at least W milliseconds, read afresh at every check, and a clock that does not run backward, no
  interval of length W contains more than B requests let through for the origin, whatever other
  origins do and whatever persisted snapshots are seeded in between.
\<close>

theorem throttle_bounds_rate:
  assumes "s \<noteq> []" "0 < W"
    and "run_ok (throttle_event_ok s B W) (throttle_step s)
           \<lparr>tw_buckets = initial_buckets saved, tw_log = [], tw_clock = t0\<rparr> evs"
  shows "let_through W x (tw_log (foldl (throttle_step s)
           \<lparr>tw_buckets = initial_buckets saved, tw_log = [], tw_clock = t0\<rparr> evs)) \<le> B"
proof -
  have "throttle_inv s B W \<lparr>tw_buckets = initial_buckets saved, tw_log = [], tw_clock = t0\<rparr>"
    by (simp add: throttle_inv_def let_through_def)
  from throttle.inv_run [OF this run_ok_mono [OF _ assms(3)]] assms(1,2) show ?thesis
    by (auto simp: guarded_def throttle_inv_def)
qed

definition demo_checks :: "throttle_event list" where
  "demo_checks = [CheckEv (2, 1000) 10 (JStr ''a''), CheckEv (2, 1000) 20 (JStr ''a''), CheckEv (2, 1000) 30 (JStr ''a''),
     ClearEv ''b'', SeedEv (JObj [(''a'', JArr [JNum (Fin 5)])]), CheckEv (2, 1000) 1015 (JStr ''a'')]"

theorem throttle_bounds_rate_witness:
  "let_through 1000 1015 (tw_log (foldl (throttle_step ''a'')
      \<lparr>tw_buckets = initial_buckets Undef, tw_log = [], tw_clock = 0\<rparr> demo_checks)) \<le> 2"
proof -
  have "run_ok (throttle_event_ok ''a'' 2 1000) (throttle_step ''a'')
      \<lparr>tw_buckets = initial_buckets Undef, tw_log = [], tw_clock = 0\<rparr> demo_checks"
    by (simp add: demo_checks_def check_def fresh_of_def bucket_of_def initial_buckets_def Let_def
        clear_buckets_def)
  then show ?thesis by (intro throttle_bounds_rate) simp_all
qed

section \<open>The waiting time\<close>

text \<open>A refused origin is refused again until its oldest fresh request has left the window.\<close>

lemma refused_until_retry:
  assumes "check (burst, windowMs) t (JStr s) b = (\<lparr>allowed = False, retryAfterMs = Fin r\<rparr>, b')"
    and "sorted (bucket_of b s)" "t \<le> t'" "t' < t + r"
  shows "\<not> allowed (fst (check (burst, windowMs) t' (JStr s) b'))"
proof -
  let ?f = "fresh_of (of_int windowMs) t (bucket_of b s)"
  from assms(1) have s: "s \<noteq> []" and len: "burst \<le> int (length ?f)" and ne: "?f \<noteq> []"
    and r: "r = max 0 (hd ?f + of_int windowMs - t)" and b': "bucket_of b' s = ?f"
    by (auto simp: check_def Let_def split: if_splits)
  have "sorted ?f" using assms(2) by (simp add: fresh_of_def sorted_wrt_filter)
  then have "\<forall>x \<in> set ?f. hd ?f \<le> x" using ne by (cases ?f) auto
  moreover have "t' - of_int windowMs < hd ?f" using assms(3,4) r by auto
  ultimately have "\<forall>x \<in> set ?f. t' - of_int windowMs < x" by (meson less_le_trans)
  then have "fresh_of (of_int windowMs) t' ?f = ?f" by (simp add: fresh_of_def [of _ t'])
  with s len b' show ?thesis by (simp add: check_def Let_def)
qed

end
