(* ===== verification/Approval_Broker.thy ===== *)
theory Approval_Broker
  imports Wallet_Prelude
begin

text \<open>
  The approval broker, \<^verbatim>\<open>ApprovalBroker\<close> of
  \<^verbatim>\<open>extension/src/background/approvalBroker.js\<close>: the table of parked requests, their
  timers and popup windows, the user's decision, cancellation, and the toolbar badge. A request's
  promise is identified by the request's id; settling it appends to \<open>b_settled\<close>. Chrome's side
  (window creation answering later, windows and tabs closing, timers firing) is the events of the
  step relation, with what Chrome guarantees as their guards. The theorems say that every request is
  settled at most once and stays pending with an armed timer until then, that only the popup's own
  decision can approve, that concurrent connect requests of an origin share one prompt, that no
  popup window is left behind, and that cancelling everything really ends it.
\<close>

section \<open>State\<close>

datatype approval_kind = Connect | SignAction | SignMessage | SignPsbt | CoSign | SignIn

datatype broker_outcome = Resolved js | Errored string

record pending_entry =
  pe_id :: string
  pe_kind :: approval_kind
  pe_payload :: js
  pe_window :: "rat option"
  pe_tab :: "rat option"

text \<open>
  The pending map in insertion order, the armed timers, the window creations in flight, the windows
  created and those asked to close (or closed), the settled promises, and the badge with the number
  of its queued updates. \<open>b_used\<close> and \<open>b_decided\<close> are ghosts: the ids handed out and the
  decisions the popup reported for a pending request.
\<close>

record broker =
  b_pending :: "pending_entry list"
  b_timers :: "string list"
  b_creating :: "string list"
  b_windows :: "rat list"
  b_closing :: "rat list"
  b_settled :: "(string \<times> broker_outcome) list"
  b_badge :: string
  b_badge_queue :: nat
  b_used :: "string list"
  b_decided :: "(string \<times> js) list"

definition APPROVAL_TIMEOUT_MS :: nat where
  "APPROVAL_TIMEOUT_MS = 5 * 60 * 1000"

definition new_broker :: broker where
  "new_broker = \<lparr>b_pending = [], b_timers = [], b_creating = [], b_windows = [], b_closing = [],
     b_settled = [], b_badge = '''', b_badge_queue = 1, b_used = [], b_decided = []\<rparr>"

definition approvalBadgeText :: "nat \<Rightarrow> string" where
  "approvalBadgeText count = (if count = 0 then '''' else if count > 99 then ''99+'' else nat_text count)"

definition rejection :: "js \<Rightarrow> js" where
  "rejection reason = (case reason of
     JStr s \<Rightarrow> (if s = [] then JObj [(''approved'', JBool False)]
                else JObj [(''approved'', JBool False), (''reason'', JStr s)])
   | _ \<Rightarrow> JObj [(''approved'', JBool False)])"

section \<open>Operations\<close>

definition find_pending :: "string \<Rightarrow> broker \<Rightarrow> pending_entry option" where
  "find_pending i b = find (\<lambda>e. pe_id e = i) (b_pending b)"

text \<open>Deleting a request, clearing its timer, queueing the badge and settling its promise.\<close>

definition settle :: "string \<Rightarrow> broker_outcome \<Rightarrow> broker \<Rightarrow> broker" where
  "settle i r b = b\<lparr>b_pending := List.filter (\<lambda>e. pe_id e \<noteq> i) (b_pending b),
     b_timers := List.filter (\<lambda>t. t \<noteq> i) (b_timers b), b_badge_queue := b_badge_queue b + 1,
     b_settled := b_settled b @ [(i, r)]\<rparr>"

definition close_window :: "rat option \<Rightarrow> broker \<Rightarrow> broker" where
  "close_window win b = (case win of None \<Rightarrow> b | Some w \<Rightarrow> b\<lparr>b_closing := b_closing b @ [w]\<rparr>)"

definition fetch :: "string \<Rightarrow> broker \<Rightarrow> (string \<times> approval_kind \<times> js) option" where
  "fetch i b = (case find_pending i b of None \<Rightarrow> None | Some e \<Rightarrow> Some (pe_id e, pe_kind e, pe_payload e))"

definition resolve :: "string \<Rightarrow> js \<Rightarrow> broker \<Rightarrow> bool \<times> broker" where
  "resolve i result b =
    (case find_pending i b of
       None \<Rightarrow> (False, b)
     | Some e \<Rightarrow> (True, close_window (pe_window e) (settle i (Resolved result) b)\<lparr>b_decided := b_decided b @ [(i, result)]\<rparr>))"

definition rejectPending :: "string \<Rightarrow> broker \<Rightarrow> broker" where
  "rejectPending i b =
    (case find_pending i b of
       None \<Rightarrow> b
     | Some e \<Rightarrow> close_window (pe_window e) (settle i (Resolved (rejection Undef)) b))"

definition cancel_one :: "js \<Rightarrow> broker \<Rightarrow> pending_entry \<Rightarrow> broker" where
  "cancel_one reason b e =
    (if find_pending (pe_id e) b = Some e
     then close_window (pe_window e) (settle (pe_id e) (Resolved (rejection reason)) b) else b)"

definition cancelEntries :: "pending_entry list \<Rightarrow> js \<Rightarrow> broker \<Rightarrow> broker" where
  "cancelEntries es reason b = foldl (cancel_one reason) b es"

definition cancelOriginsMatching :: "(js \<Rightarrow> bool) \<Rightarrow> broker \<Rightarrow> nat \<times> broker" where
  "cancelOriginsMatching matches b =
    (let es = List.filter (\<lambda>e. matches (js_get (pe_payload e) ''origin'')) (b_pending b)
     in (length es, cancelEntries es Undef b))"

definition cancelAll :: "js \<Rightarrow> broker \<Rightarrow> broker" where
  "cancelAll reason b = cancelEntries (b_pending b) reason b"

fun omitRequesterTabId :: "js \<Rightarrow> js" where
  "omitRequesterTabId (JObj kvs) = JObj (List.filter (\<lambda>(k, v). k \<noteq> ''requesterTabId'') kvs)"
| "omitRequesterTabId v = v"

definition new_entry :: "string \<Rightarrow> approval_kind \<Rightarrow> js \<Rightarrow> pending_entry" where
  "new_entry i kind payload =
    (let tab = js_get payload ''requesterTabId''
     in \<lparr>pe_id = i, pe_kind = kind,
         pe_payload = (if is_integer tab then omitRequesterTabId payload else payload),
         pe_window = None, pe_tab = (if is_integer tab then Some (fin_val tab) else None)\<rparr>)"

text \<open>
  \<^verbatim>\<open>_request\<close>: parks the request under a new id. Without a window API the promise is
  rejected at once; with one the creation is in flight when it returns.
\<close>

definition request :: "bool \<Rightarrow> string \<Rightarrow> approval_kind \<Rightarrow> js \<Rightarrow> broker \<Rightarrow> string \<times> broker" where
  "request can_create i kind payload b =
    (let b1 = b\<lparr>b_pending := b_pending b @ [new_entry i kind payload], b_timers := b_timers b @ [i],
               b_badge_queue := b_badge_queue b + 1, b_used := b_used b @ [i]\<rparr>
     in (i, if can_create then b1\<lparr>b_creating := b_creating b1 @ [i]\<rparr>
            else settle i (Errored ''ApprovalBroker: chrome.windows.create unavailable; inject windows for tests'') b1))"

text \<open>The popup payload's origin, when it is a non-empty string.\<close>

fun origin_text :: "js \<Rightarrow> string" where
  "origin_text (JStr s) = s"
| "origin_text _ = []"

text \<open>\<^verbatim>\<open>connect\<close>: the promise of a pending connect of the same origin, or a new request.\<close>

definition connect :: "bool \<Rightarrow> string \<Rightarrow> js \<Rightarrow> broker \<Rightarrow> string \<times> broker" where
  "connect can_create i req b =
    (let origin = origin_text (js_get req ''origin'');
         shared = find (\<lambda>e. pe_kind e = Connect \<and> js_get (pe_payload e) ''origin'' = JStr origin) (b_pending b)
     in if origin \<noteq> [] \<and> shared \<noteq> None then (pe_id (the shared), b) else request can_create i Connect req b)"

text \<open>The two answers of \<^verbatim>\<open>windows.create\<close>.\<close>

definition window_created :: "string \<Rightarrow> rat option \<Rightarrow> broker \<Rightarrow> broker" where
  "window_created i win b0 =
    (let b = b0\<lparr>b_creating := List.filter (\<lambda>j. j \<noteq> i) (b_creating b0),
               b_windows := b_windows b0 @ (case win of None \<Rightarrow> [] | Some w \<Rightarrow> [w])\<rparr>
     in if find_pending i b \<noteq> None
        then b\<lparr>b_pending := map (\<lambda>e. if pe_id e = i then e\<lparr>pe_window := win\<rparr> else e) (b_pending b)\<rparr>
        else close_window win b)"

definition window_failed :: "string \<Rightarrow> string \<Rightarrow> broker \<Rightarrow> broker" where
  "window_failed i err b0 =
    (let b = b0\<lparr>b_creating := List.filter (\<lambda>j. j \<noteq> i) (b_creating b0)\<rparr>
     in if find_pending i b \<noteq> None then settle i (Errored err) b else b)"

definition onWindowRemoved :: "rat \<Rightarrow> broker \<Rightarrow> broker" where
  "onWindowRemoved w b0 =
    (let b = b0\<lparr>b_closing := b_closing b0 @ [w]\<rparr>
     in case find (\<lambda>e. pe_window e = Some w) (b_pending b) of
          None \<Rightarrow> b
        | Some e \<Rightarrow> settle (pe_id e) (Resolved (rejection Undef)) b)"

definition onTabRemoved :: "rat \<Rightarrow> broker \<Rightarrow> broker" where
  "onTabRemoved tab b = foldl (\<lambda>b e. if pe_tab e = Some tab then rejectPending (pe_id e) b else b) b (b_pending b)"

definition badge_updated :: "broker \<Rightarrow> broker" where
  "badge_updated b = b\<lparr>b_badge := approvalBadgeText (length (b_pending b)), b_badge_queue := b_badge_queue b - 1\<rparr>"

section \<open>Events\<close>

datatype broker_event =
    ConnectEv bool string js
  | RequestEv bool string approval_kind js
  | ResolveEv string js
  | CancelOriginsEv "js list"
  | CancelAllEv js
  | WindowCreatedEv string "rat option"
  | WindowFailedEv string string
  | WindowRemovedEv rat
  | TabRemovedEv rat
  | TimerEv string
  | BadgeEv

text \<open>
  What the environment guarantees: ids are fresh, a creation answers once with a new window, a timer
  fires only while armed, a badge update runs only when queued.
\<close>

inductive broker_step :: "broker \<Rightarrow> broker_event \<Rightarrow> broker \<Rightarrow> bool" where
  Connect: "i \<notin> set (b_used b) \<Longrightarrow> broker_step b (ConnectEv c i req) (snd (connect c i req b))"
| Request: "i \<notin> set (b_used b) \<Longrightarrow> k \<noteq> Connect \<Longrightarrow> broker_step b (RequestEv c i k p) (snd (request c i k p b))"
| Resolve: "broker_step b (ResolveEv i r) (snd (resolve i r b))"
| CancelOrigins: "broker_step b (CancelOriginsEv vs) (snd (cancelOriginsMatching (\<lambda>v. v \<in> set vs) b))"
| CancelAll: "broker_step b (CancelAllEv reason) (cancelAll reason b)"
| Created: "i \<in> set (b_creating b) \<Longrightarrow> (\<forall>w. win = Some w \<longrightarrow> w \<notin> set (b_windows b)) \<Longrightarrow>
    broker_step b (WindowCreatedEv i win) (window_created i win b)"
| Failed: "i \<in> set (b_creating b) \<Longrightarrow> broker_step b (WindowFailedEv i err) (window_failed i err b)"
| Removed: "broker_step b (WindowRemovedEv w) (onWindowRemoved w b)"
| Tab: "broker_step b (TabRemovedEv t) (onTabRemoved t b)"
| Timer: "i \<in> set (b_timers b) \<Longrightarrow> broker_step b (TimerEv i) (rejectPending i b)"
| Badge: "0 < b_badge_queue b \<Longrightarrow> broker_step b BadgeEv (badge_updated b)"

inductive_cases stepE: "broker_step b ev b'"

inductive broker_run :: "broker \<Rightarrow> broker_event list \<Rightarrow> broker \<Rightarrow> bool" where
  Start: "broker_run b [] b"
| Next: "broker_step b ev b1 \<Longrightarrow> broker_run b1 evs b2 \<Longrightarrow> broker_run b (ev # evs) b2"

section \<open>The invariant\<close>

abbreviation pending_ids :: "broker \<Rightarrow> string set" where
  "pending_ids b \<equiv> pe_id ` set (b_pending b)"

abbreviation settled_ids :: "broker \<Rightarrow> string set" where
  "settled_ids b \<equiv> fst ` set (b_settled b)"

definition ids_inv :: "broker \<Rightarrow> bool" where
  "ids_inv b \<longleftrightarrow> distinct (map pe_id (b_pending b)) \<and> distinct (map fst (b_settled b))
     \<and> pending_ids b \<inter> settled_ids b = {} \<and> set (b_used b) = pending_ids b \<union> settled_ids b
     \<and> distinct (b_timers b) \<and> set (b_timers b) = pending_ids b"

definition windows_inv :: "broker \<Rightarrow> bool" where
  "windows_inv b \<longleftrightarrow> set (b_creating b) \<subseteq> set (b_used b)
     \<and> (\<forall>e \<in> set (b_pending b). pe_id e \<in> set (b_creating b) \<longrightarrow> pe_window e = None)
     \<and> (\<forall>w \<in> set (b_windows b). w \<in> set (b_closing b) \<or> (\<exists>e \<in> set (b_pending b). pe_window e = Some w))"

definition outcome_ok :: "(string \<times> js) set \<Rightarrow> string \<Rightarrow> broker_outcome \<Rightarrow> bool" where
  "outcome_ok decided i r \<longleftrightarrow> (case r of Errored err \<Rightarrow> True
     | Resolved v \<Rightarrow> js_get v ''approved'' = JBool False \<or> (i, v) \<in> decided)"

definition decided_inv :: "broker \<Rightarrow> bool" where
  "decided_inv b \<longleftrightarrow> (\<forall>(i, r) \<in> set (b_settled b). outcome_ok (set (b_decided b)) i r)"

text \<open>A pending connect request of an origin.\<close>

definition connect_of :: "string \<Rightarrow> pending_entry \<Rightarrow> bool" where
  "connect_of origin e \<longleftrightarrow> pe_kind e = approval_kind.Connect \<and> js_get (pe_payload e) ''origin'' = JStr origin"

definition connect_inv :: "broker \<Rightarrow> bool" where
  "connect_inv b \<longleftrightarrow> (\<forall>origin. origin \<noteq> [] \<longrightarrow> length (List.filter (connect_of origin) (b_pending b)) \<le> 1)"

definition badge_inv :: "broker \<Rightarrow> bool" where
  "badge_inv b \<longleftrightarrow> (b_badge_queue b = 0 \<longrightarrow> b_badge b = approvalBadgeText (length (b_pending b)))"

definition broker_inv :: "broker \<Rightarrow> bool" where
  "broker_inv b \<longleftrightarrow> ids_inv b \<and> windows_inv b \<and> decided_inv b \<and> connect_inv b \<and> badge_inv b"

lemmas broker_invs = broker_inv_def ids_inv_def windows_inv_def decided_inv_def connect_inv_def badge_inv_def

lemma broker_invD:
  "broker_inv b \<Longrightarrow> ids_inv b" "broker_inv b \<Longrightarrow> windows_inv b" "broker_inv b \<Longrightarrow> decided_inv b"
  "broker_inv b \<Longrightarrow> connect_inv b" "broker_inv b \<Longrightarrow> badge_inv b"
  by (simp_all add: broker_inv_def)

lemma find_pending_Some:
  "find_pending i b = Some e \<Longrightarrow> e \<in> set (b_pending b) \<and> pe_id e = i"
  by (auto simp: find_pending_def find_Some_iff)

lemma find_pending_None: "find_pending i b = None \<longleftrightarrow> i \<notin> pending_ids b"
  by (auto simp: find_pending_def find_None_iff)

lemma find_pending_in:
  "ids_inv b \<Longrightarrow> e \<in> set (b_pending b) \<Longrightarrow> find_pending (pe_id e) b = Some e"
  by (metis (no_types, lifting) distinct_map find_pending_None find_pending_Some ids_inv_def imageI inj_on_def
      not_None_eq)

lemma close_settle: "close_window w (settle i r b) = settle i r (close_window w b)"
  by (cases w) (simp_all add: close_window_def settle_def)

lemma broker_inv_closing:
  "broker_inv b \<Longrightarrow> broker_inv (b\<lparr>b_closing := b_closing b @ ws\<rparr>)"
  by (auto simp: broker_invs)

lemma broker_inv_close: "broker_inv b \<Longrightarrow> broker_inv (close_window w b)"
  by (cases w) (auto simp: close_window_def broker_inv_closing)

lemma close_window_pending [simp]: "b_pending (close_window w b) = b_pending b"
  by (cases w) (simp_all add: close_window_def)

lemma close_window_decided [simp]: "b_decided (close_window w b) = b_decided b"
  by (cases w) (simp_all add: close_window_def)

lemma connect_inv_filter:
  assumes "connect_inv b"
  shows "origin \<noteq> [] \<Longrightarrow> length (List.filter (connect_of origin) (List.filter P (b_pending b))) \<le> 1"
proof -
  assume "origin \<noteq> []"
  have "length (List.filter (connect_of origin) (List.filter P (b_pending b)))
      \<le> length (List.filter (connect_of origin) (b_pending b))"
    unfolding filter_filter by (rule filter_le_length) simp
  with assms \<open>origin \<noteq> []\<close> show ?thesis by (fastforce simp: connect_inv_def)
qed

lemma broker_inv_settle:
  assumes inv: "broker_inv b" and i: "i \<in> pending_ids b"
    and win: "\<forall>e \<in> set (b_pending b). pe_id e = i \<longrightarrow> pe_window e = None \<or> the (pe_window e) \<in> set (b_closing b)"
    and r: "outcome_ok (set (b_decided b)) i r"
  shows "broker_inv (settle i r b)"
proof -
  let ?b = "settle i r b"
  note I = broker_invD [OF inv]
  have p: "b_pending ?b = List.filter (\<lambda>e. pe_id e \<noteq> i) (b_pending b)" by (simp add: settle_def)
  have ps: "pending_ids ?b = pending_ids b - {i}" unfolding p by auto
  have "ids_inv ?b"
  proof -
    have "distinct (map pe_id (b_pending ?b))" using I(1) by (simp add: p ids_inv_def distinct_map_filter)
    moreover have "i \<notin> settled_ids b" using I(1) i by (auto simp: ids_inv_def)
    moreover have "b_settled ?b = b_settled b @ [(i, r)]" "b_used ?b = b_used b"
      "b_timers ?b = List.filter (\<lambda>t. t \<noteq> i) (b_timers b)" by (simp_all add: settle_def)
    ultimately show ?thesis unfolding ids_inv_def ps using I(1) i by (auto simp: ids_inv_def)
  qed
  moreover have "windows_inv ?b"
  proof -
    have "\<exists>e \<in> set (b_pending ?b). pe_window e = Some w"
      if w: "w \<in> set (b_windows b)" "w \<notin> set (b_closing b)" for w
    proof -
      from I(2) w obtain e where "e \<in> set (b_pending b)" "pe_window e = Some w" by (auto simp: windows_inv_def)
      moreover from this win w(2) have "pe_id e \<noteq> i" by force
      ultimately show ?thesis unfolding p by auto
    qed
    moreover have "b_creating ?b = b_creating b" "b_used ?b = b_used b" "b_windows ?b = b_windows b" "b_closing ?b = b_closing b"
      by (simp_all add: settle_def)
    ultimately show ?thesis using I(2) unfolding windows_inv_def p by auto
  qed
  moreover have "decided_inv ?b" using I(3) r by (auto simp: decided_inv_def settle_def)
  moreover have "connect_inv ?b"
    unfolding connect_inv_def p using connect_inv_filter [OF I(4)] by blast
  moreover have "badge_inv ?b" by (simp add: badge_inv_def settle_def)
  ultimately show ?thesis by (simp add: broker_inv_def)
qed

text \<open>Settling a pending request and closing its window.\<close>

lemma broker_inv_settle_close:
  assumes inv: "broker_inv b" and e: "find_pending i b = Some e" and r: "outcome_ok (set (b_decided b)) i r"
  shows "broker_inv (close_window (pe_window e) (settle i r b))"
proof -
  have "\<forall>f \<in> set (b_pending b). pe_id f = i \<longrightarrow> f = e"
    using inv e find_pending_in [of b] by (metis broker_inv_def option.inject)
  then have "\<forall>f \<in> set (b_pending (close_window (pe_window e) b)). pe_id f = i \<longrightarrow>
      pe_window f = None \<or> the (pe_window f) \<in> set (b_closing (close_window (pe_window e) b))"
    by (auto simp: close_window_def split: option.splits)
  moreover have "i \<in> pending_ids (close_window (pe_window e) b)" using find_pending_Some [OF e] by auto
  ultimately show ?thesis unfolding close_settle
    using broker_inv_settle [OF broker_inv_close [OF inv], of i "pe_window e" r] r by simp
qed

lemma rejection_not_approved [simp]: "js_get (rejection reason) ''approved'' = JBool False"
  by (auto simp: rejection_def split: js.splits)

lemma outcome_rejection [simp]: "outcome_ok D i (Resolved (rejection reason))"
  by (simp add: outcome_ok_def)

lemma broker_inv_reject: "broker_inv b \<Longrightarrow> broker_inv (rejectPending i b)"
  by (auto simp: rejectPending_def intro: broker_inv_settle_close split: option.splits)

lemma broker_inv_cancel: "broker_inv b \<Longrightarrow> broker_inv (cancelEntries es reason b)"
proof (induction es arbitrary: b)
  case (Cons e es)
  then have "broker_inv (cancel_one reason b e)" by (auto simp: cancel_one_def intro: broker_inv_settle_close)
  with Cons.IH show ?case by (simp add: cancelEntries_def)
qed (simp add: cancelEntries_def)

lemma broker_inv_tab: "broker_inv b \<Longrightarrow> broker_inv (onTabRemoved t b)"
proof -
  have "broker_inv b \<Longrightarrow> broker_inv (foldl (\<lambda>b e. if pe_tab e = Some t then rejectPending (pe_id e) b else b) b es)" for b es
    by (induction es arbitrary: b) (auto intro: broker_inv_reject)
  then show "broker_inv b \<Longrightarrow> broker_inv (onTabRemoved t b)" by (simp add: onTabRemoved_def)
qed

lemma broker_inv_decide: "broker_inv b \<Longrightarrow> broker_inv (b\<lparr>b_decided := b_decided b @ ds\<rparr>)"
  by (auto simp: broker_inv_def ids_inv_def windows_inv_def connect_inv_def badge_inv_def decided_inv_def
      outcome_ok_def split: broker_outcome.splits)

lemma broker_inv_resolve: "broker_inv b \<Longrightarrow> broker_inv (snd (resolve i r b))"
proof (cases "find_pending i b")
  case (Some e)
  assume inv: "broker_inv b"
  let ?b = "b\<lparr>b_decided := b_decided b @ [(i, r)]\<rparr>"
  have "find_pending i ?b = Some e" using Some by (simp add: find_pending_def)
  then have "broker_inv (close_window (pe_window e) (settle i (Resolved r) ?b))"
    by (rule broker_inv_settle_close [OF broker_inv_decide [OF inv]]) (simp add: outcome_ok_def)
  moreover have "close_window (pe_window e) (settle i (Resolved r) ?b)
      = close_window (pe_window e) (settle i (Resolved r) b)\<lparr>b_decided := b_decided b @ [(i, r)]\<rparr>"
    by (cases "pe_window e") (simp_all add: close_window_def settle_def)
  ultimately show ?thesis using Some by (simp add: resolve_def)
qed (simp add: resolve_def)

lemma origin_omit [simp]: "js_get (omitRequesterTabId p) ''origin'' = js_get p ''origin''"
proof -
  have "map_of (List.filter (\<lambda>(k, v). k \<noteq> ''requesterTabId'') kvs) ''origin'' = map_of kvs ''origin''" for kvs :: "(string \<times> js) list"
    by (induction kvs) auto
  then show ?thesis by (cases p) auto
qed

lemma new_entry_simps [simp]:
  "pe_id (new_entry i k p) = i" "pe_kind (new_entry i k p) = k" "pe_window (new_entry i k p) = None"
  "js_get (pe_payload (new_entry i k p)) ''origin'' = js_get p ''origin''"
  by (simp_all add: new_entry_def Let_def)

lemma broker_inv_request:
  assumes inv: "broker_inv b" and i: "i \<notin> set (b_used b)"
    and c: "\<forall>origin. origin \<noteq> [] \<longrightarrow> connect_of origin (new_entry i k p) \<longrightarrow> List.filter (connect_of origin) (b_pending b) = []"
  shows "broker_inv (snd (request can_create i k p b))"
proof -
  let ?b = "b\<lparr>b_pending := b_pending b @ [new_entry i k p], b_timers := b_timers b @ [i],
               b_badge_queue := b_badge_queue b + 1, b_used := b_used b @ [i]\<rparr>"
  note I = broker_invD [OF inv]
  have "ids_inv ?b" using I(1) i by (auto simp: ids_inv_def)
  moreover have "windows_inv ?b" using I(1,2) i by (auto simp: windows_inv_def ids_inv_def)
  moreover have "decided_inv ?b" using I(3) by (simp add: decided_inv_def)
  moreover have "connect_inv ?b" using I(4) c by (auto simp: connect_inv_def)
  moreover have "badge_inv ?b" by (simp add: badge_inv_def)
  ultimately have B: "broker_inv ?b" by (simp add: broker_inv_def)
  have only: "e = new_entry i k p" if "e \<in> set (b_pending ?b)" "pe_id e = i" for e
    using that I(1) i by (auto simp: ids_inv_def)
  have none: "\<forall>e \<in> set (b_pending ?b). pe_id e = i \<longrightarrow> pe_window e = None"
    using only by (metis new_entry_simps(3))
  have "broker_inv (settle i (Errored err) ?b)" for err
  proof (rule broker_inv_settle [OF B])
    show "\<forall>e \<in> set (b_pending ?b). pe_id e = i \<longrightarrow> pe_window e = None \<or> the (pe_window e) \<in> set (b_closing ?b)"
      using none by blast
    show "outcome_ok (set (b_decided ?b)) i (Errored err)" by (simp add: outcome_ok_def)
  qed simp
  moreover have "broker_inv (?b\<lparr>b_creating := b_creating b @ [i]\<rparr>)"
  proof -
    let ?c = "?b\<lparr>b_creating := b_creating b @ [i]\<rparr>"
    have "windows_inv ?c" using broker_invD(2) [OF B] none by (auto simp: windows_inv_def)
    moreover have "ids_inv ?c" "decided_inv ?c" "connect_inv ?c" "badge_inv ?c"
      using broker_invD [OF B] by (simp_all add: ids_inv_def decided_inv_def connect_inv_def badge_inv_def)
    ultimately show ?thesis by (simp add: broker_inv_def)
  qed
  ultimately show ?thesis by (simp add: request_def Let_def)
qed

lemma broker_inv_connect:
  assumes inv: "broker_inv b" and i: "i \<notin> set (b_used b)"
  shows "broker_inv (snd (connect can_create i req b))"
proof (cases "snd (connect can_create i req b) = b")
  case False
  let ?o = "origin_text (js_get req ''origin'')"
  from False have n: "?o = [] \<or> find (\<lambda>e. pe_kind e = approval_kind.Connect \<and> js_get (pe_payload e) ''origin'' = JStr ?o) (b_pending b) = None"
    and r: "connect can_create i req b = request can_create i approval_kind.Connect req b"
    by (auto simp: connect_def Let_def split: if_splits)
  have "List.filter (connect_of origin) (b_pending b) = []"
    if "origin \<noteq> []" "connect_of origin (new_entry i approval_kind.Connect req)" for origin
    using that n by (auto simp: connect_of_def find_None_iff filter_empty_conv)
  then show ?thesis unfolding r by (intro broker_inv_request [OF inv i]) blast
qed (use inv in simp)

lemma broker_inv_created:
  assumes inv: "broker_inv b" and i: "i \<in> set (b_creating b)"
  shows "broker_inv (window_created i win b)"
proof -
  let ?c = "b\<lparr>b_creating := List.filter (\<lambda>j. j \<noteq> i) (b_creating b),
               b_windows := b_windows b @ (case win of None \<Rightarrow> [] | Some w \<Rightarrow> [w])\<rparr>"
  note I = broker_invD [OF inv]
  have none: "\<forall>e \<in> set (b_pending b). pe_id e = i \<longrightarrow> pe_window e = None"
    using I(2) i by (auto simp: windows_inv_def)
  show ?thesis
  proof (cases "find_pending i ?c = None")
    case True
    then have w: "window_created i win b = close_window win ?c" by (simp add: window_created_def Let_def)
    have "windows_inv (close_window win ?c)"
      using I(2) by (cases win) (auto simp: windows_inv_def close_window_def)
    moreover have "ids_inv (close_window win ?c)" "decided_inv (close_window win ?c)" "connect_inv (close_window win ?c)"
      "badge_inv (close_window win ?c)"
      using I by (cases win; simp add: ids_inv_def decided_inv_def connect_inv_def badge_inv_def close_window_def)+
    ultimately show ?thesis by (simp add: w broker_inv_def)
  next
    case False
    let ?f = "\<lambda>e. if pe_id e = i then e\<lparr>pe_window := win\<rparr> else e"
    let ?d = "?c\<lparr>b_pending := map ?f (b_pending b)\<rparr>"
    have w: "window_created i win b = ?d" using False by (simp add: window_created_def Let_def)
    have f: "pe_id (?f e) = pe_id e" "connect_of origin (?f e) = connect_of origin e" for e origin
      by (simp_all add: connect_of_def)
    then have fs: "map pe_id (map ?f es) = map pe_id es"
      "length (List.filter (connect_of origin) (map ?f es)) = length (List.filter (connect_of origin) es)" for es origin
      by (induction es) auto
    have ids: "pe_id ` set (map ?f (b_pending b)) = pending_ids b"
      using fs(1) [of "b_pending b"] by (metis set_map)
    have "windows_inv ?d"
    proof -
      have "i \<in> pending_ids b" using False by (simp add: find_pending_None)
      then obtain e0 where e0: "e0 \<in> set (b_pending b)" "pe_id e0 = i" by auto
      have "w \<in> set (b_closing b) \<or> (\<exists>e \<in> set (b_pending b). pe_window (?f e) = Some w)"
        if "w \<in> set (b_windows ?d)" for w
      proof (cases "w \<in> set (b_windows b)")
        case True
        with I(2) none show ?thesis by (fastforce simp: windows_inv_def)
      next
        case False
        with that have "win = Some w" by (cases win) auto
        with e0 show ?thesis by force
      qed
      then have "\<forall>w \<in> set (b_windows ?d). w \<in> set (b_closing ?d) \<or> (\<exists>e \<in> set (b_pending ?d). pe_window e = Some w)"
        by fastforce
      moreover have "\<forall>e \<in> set (b_pending ?d). pe_id e \<in> set (b_creating ?d) \<longrightarrow> pe_window e = None"
        using I(2) by (auto simp: windows_inv_def)
      moreover have "set (b_creating ?d) \<subseteq> set (b_used ?d)" using I(2) by (auto simp: windows_inv_def)
      ultimately show ?thesis unfolding windows_inv_def by blast
    qed
    moreover have "ids_inv ?d"
    proof -
      have m: "map pe_id (b_pending ?d) = map pe_id (b_pending b)" using fs(1) by simp
      have "distinct (map pe_id (b_pending ?d))" unfolding m using I(1) by (simp add: ids_inv_def)
      moreover have q: "pending_ids ?d = pending_ids b" using ids by simp
      ultimately show ?thesis unfolding ids_inv_def q using I(1) by (simp add: ids_inv_def)
    qed
    moreover have "connect_inv ?d" using I(4) fs(2) by (simp add: connect_inv_def)
    moreover have "decided_inv ?d" "badge_inv ?d" using I(3,5) by (simp_all add: decided_inv_def badge_inv_def)
    ultimately show ?thesis unfolding w by (simp add: broker_inv_def)
  qed
qed

lemma broker_inv_failed:
  assumes inv: "broker_inv b" and i: "i \<in> set (b_creating b)"
  shows "broker_inv (window_failed i err b)"
proof -
  let ?c = "b\<lparr>b_creating := List.filter (\<lambda>j. j \<noteq> i) (b_creating b)\<rparr>"
  note I = broker_invD [OF inv]
  have "windows_inv ?c" using I(2) by (auto simp: windows_inv_def)
  with I have C: "broker_inv ?c"
    by (simp add: broker_inv_def ids_inv_def decided_inv_def connect_inv_def badge_inv_def)
  have "broker_inv (settle i (Errored err) ?c)" if "find_pending i ?c \<noteq> None"
  proof (rule broker_inv_settle [OF C])
    show "i \<in> pending_ids ?c" using that by (simp add: find_pending_None)
    show "\<forall>e \<in> set (b_pending ?c). pe_id e = i \<longrightarrow> pe_window e = None \<or> the (pe_window e) \<in> set (b_closing ?c)"
      using I(2) i by (auto simp: windows_inv_def)
  qed (simp add: outcome_ok_def)
  with C show ?thesis by (simp add: window_failed_def Let_def)
qed

lemma broker_inv_removed:
  assumes inv: "broker_inv b"
  shows "broker_inv (onWindowRemoved w b)"
proof -
  let ?c = "b\<lparr>b_closing := b_closing b @ [w]\<rparr>"
  have C: "broker_inv ?c" by (rule broker_inv_closing [OF inv])
  show ?thesis
  proof (cases "find (\<lambda>e. pe_window e = Some w) (b_pending ?c)")
    case None
    with C show ?thesis by (simp add: onWindowRemoved_def Let_def)
  next
    case (Some e)
    then have e: "e \<in> set (b_pending ?c)" "pe_window e = Some w" by (auto simp: find_Some_iff)
    have "broker_inv (settle (pe_id e) (Resolved (rejection Undef)) ?c)"
    proof (rule broker_inv_settle [OF C])
      have "f = e" if "f \<in> set (b_pending ?c)" "pe_id f = pe_id e" for f
        using find_pending_in [OF broker_invD(1) [OF C]] e(1) that by (metis option.inject)
      moreover have "the (pe_window e) \<in> set (b_closing ?c)" using e(2) by simp
      ultimately show "\<forall>f \<in> set (b_pending ?c). pe_id f = pe_id e \<longrightarrow>
          pe_window f = None \<or> the (pe_window f) \<in> set (b_closing ?c)" by metis
    qed (use e in auto)
    with Some show ?thesis by (simp add: onWindowRemoved_def Let_def)
  qed
qed

lemma broker_inv_badge: "broker_inv b \<Longrightarrow> broker_inv (badge_updated b)"
  by (auto simp: broker_invs badge_updated_def)

lemma broker_inv_step:
  assumes "broker_inv b" "broker_step b ev b'"
  shows "broker_inv b'"
  using assms(2,1)
proof cases
  case (Request i k c p)
  have "\<not> connect_of origin (new_entry i k p)" for origin using Request by (simp add: connect_of_def)
  with Request assms(1) show ?thesis by (auto intro!: broker_inv_request)
qed (auto simp: cancelOriginsMatching_def cancelAll_def Let_def intro: broker_inv_connect broker_inv_resolve broker_inv_cancel
    broker_inv_created broker_inv_failed broker_inv_removed broker_inv_tab broker_inv_reject broker_inv_badge)

lemma broker_inv_run: "broker_run b evs b' \<Longrightarrow> broker_inv b \<Longrightarrow> broker_inv b'"
  by (induction rule: broker_run.induct) (auto intro: broker_inv_step)

lemma broker_inv_new: "broker_inv new_broker"
  by (simp add: broker_invs new_broker_def)

section \<open>What the broker guarantees\<close>

lemma reachable_inv: "broker_run new_broker evs b \<Longrightarrow> broker_inv b"
  using broker_inv_run broker_inv_new by blast

lemma pending_close_settle: "b_pending (close_window w (settle i r b)) = List.filter (\<lambda>e. pe_id e \<noteq> i) (b_pending b)"
  by (simp add: settle_def)

lemma reject_settles:
  assumes "i \<in> pending_ids b"
  shows "(i, Resolved (rejection Undef)) \<in> set (b_settled (rejectPending i b))"
proof -
  from assms obtain e where "find_pending i b = Some e" using find_pending_None by fastforce
  then show ?thesis by (cases "pe_window e") (simp_all add: rejectPending_def settle_def close_window_def)
qed

text \<open>
  Property C25. Every request is settled exactly once: in every reachable state no promise has been
  settled twice, every id handed out is either still pending or settled, never both, and a pending
  request always has an armed timer whose firing settles it as a rejection.
\<close>

theorem requests_settle_once:
  assumes "broker_run new_broker evs b"
  shows "distinct (map fst (b_settled b))
    \<and> (\<forall>i. i \<in> set (b_used b) \<longleftrightarrow> (i \<in> pending_ids b) \<noteq> (i \<in> settled_ids b))
    \<and> (\<forall>i \<in> pending_ids b. \<exists>b'. broker_step b (TimerEv i) b'
          \<and> (i, Resolved (rejection Undef)) \<in> set (b_settled b') \<and> i \<notin> pending_ids b')"
proof -
  have I: "ids_inv b" using reachable_inv [OF assms] by (rule broker_invD)
  have "i \<notin> pending_ids (rejectPending i b)" for i
  proof (cases "find_pending i b")
    case None
    then show ?thesis using find_pending_None [of i b] by (simp add: rejectPending_def)
  next
    case (Some e)
    then show ?thesis by (auto simp: rejectPending_def settle_def)
  qed
  with I show ?thesis by (auto simp: ids_inv_def intro!: exI broker_step.Timer reject_settles)
qed

definition demo_run :: "broker_event list" where
  "demo_run = [ConnectEv True ''a'' (JObj [(''origin'', JStr ''x'')]), WindowCreatedEv ''a'' (Some 7)]"

lemma demo_broker:
  "\<exists>b. broker_run new_broker demo_run b \<and> pending_ids b = {''a''} \<and> b_settled b = [] \<and> b_windows b = [7]
     \<and> b_creating b = [] \<and> b_used b = [''a'']"
proof -
  let ?b1 = "snd (connect True ''a'' (JObj [(''origin'', JStr ''x'')]) new_broker)"
  let ?b2 = "window_created ''a'' (Some 7) ?b1"
  have "broker_step new_broker (ConnectEv True ''a'' (JObj [(''origin'', JStr ''x'')])) ?b1"
    by (rule broker_step.Connect) (simp add: new_broker_def)
  moreover have "broker_step ?b1 (WindowCreatedEv ''a'' (Some 7)) ?b2"
    by (rule broker_step.Created) (simp_all add: connect_def request_def new_broker_def Let_def)
  ultimately have "broker_run new_broker demo_run ?b2"
    unfolding demo_run_def by (auto intro: broker_run.intros)
  moreover have "pending_ids ?b2 = {''a''} \<and> b_settled ?b2 = [] \<and> b_windows ?b2 = [7] \<and> b_creating ?b2 = [] \<and> b_used ?b2 = [''a'']"
    by (simp add: window_created_def connect_def request_def new_broker_def find_pending_def Let_def)
  ultimately show ?thesis by blast
qed

theorem requests_settle_once_witness:
  "\<exists>b b'. broker_run new_broker demo_run b \<and> broker_step b (TimerEv ''a'') b'
     \<and> (''a'', Resolved (rejection Undef)) \<in> set (b_settled b')"
proof -
  obtain b where b: "broker_run new_broker demo_run b" "pending_ids b = {''a''}" using demo_broker by blast
  from b(2) have "''a'' \<in> pending_ids b" by simp
  from bspec [OF requests_settle_once [OF b(1), THEN conjunct2, THEN conjunct2] this] b(1) show ?thesis by blast
qed

lemma settle_decided [simp]: "b_decided (settle i r b) = b_decided b"
  by (simp add: settle_def)

lemma cancel_decided [simp]: "b_decided (cancelEntries es reason b) = b_decided b"
  by (induction es arbitrary: b) (auto simp: cancelEntries_def cancel_one_def)

lemma reject_decided [simp]: "b_decided (rejectPending i b) = b_decided b"
  by (simp add: rejectPending_def split: option.splits)

lemma tab_decided [simp]: "b_decided (onTabRemoved t b) = b_decided b"
proof -
  have "b_decided (foldl (\<lambda>b e. if pe_tab e = Some t then rejectPending (pe_id e) b else b) b es) = b_decided b" for b es
    by (induction es arbitrary: b) auto
  then show ?thesis by (simp add: onTabRemoved_def)
qed

lemma request_decided [simp]: "b_decided (snd (request c i k p b)) = b_decided b"
  by (simp add: request_def Let_def)

lemma step_decided:
  "broker_step b ev b' \<Longrightarrow> set (b_decided b') \<subseteq> set (b_decided b) \<union> {(i, r). ev = ResolveEv i r}"
  by (erule stepE)
    (auto simp: connect_def resolve_def cancelOriginsMatching_def cancelAll_def window_created_def window_failed_def
      onWindowRemoved_def badge_updated_def Let_def split: option.splits if_splits)

lemma run_decided:
  "broker_run b evs b' \<Longrightarrow> set (b_decided b') \<subseteq> set (b_decided b) \<union> {(i, r). ResolveEv i r \<in> set evs}"
proof (induction rule: broker_run.induct)
  case (Next b ev b1 evs b2)
  with step_decided [OF Next(1)] show ?case by auto
qed simp

text \<open>
  Property C11. Only the popup's own decision can approve: whatever a request's promise resolved to
  in a reachable state, either it says it was not approved, or the popup resolved that very request
  with that very result.
\<close>

theorem only_popup_approves:
  assumes "broker_run new_broker evs b" "(i, Resolved r) \<in> set (b_settled b)"
  shows "js_get r ''approved'' = JBool False \<or> ResolveEv i r \<in> set evs"
proof -
  have "decided_inv b" using reachable_inv [OF assms(1)] by (rule broker_invD)
  with assms(2) have "js_get r ''approved'' = JBool False \<or> (i, r) \<in> set (b_decided b)"
    by (auto simp: decided_inv_def outcome_ok_def)
  with run_decided [OF assms(1)] show ?thesis by (auto simp: new_broker_def)
qed

lemma broker_run_snoc: "broker_run b evs b1 \<Longrightarrow> broker_step b1 ev b2 \<Longrightarrow> broker_run b (evs @ [ev]) b2"
  by (induction rule: broker_run.induct) (auto intro: broker_run.intros)

theorem only_popup_approves_witness:
  "\<exists>b. broker_run new_broker (demo_run @ [ResolveEv ''a'' (JBool True)]) b \<and> (''a'', Resolved (JBool True)) \<in> set (b_settled b)
     \<and> (js_get (JBool True) ''approved'' = JBool False
          \<or> ResolveEv ''a'' (JBool True) \<in> set (demo_run @ [ResolveEv ''a'' (JBool True)]))"
proof -
  obtain b where b: "broker_run new_broker demo_run b" "pending_ids b = {''a''}" using demo_broker by blast
  let ?b = "snd (resolve ''a'' (JBool True) b)"
  have r: "broker_run new_broker (demo_run @ [ResolveEv ''a'' (JBool True)]) ?b"
    using broker_run_snoc [OF b(1) broker_step.Resolve] .
  obtain e where "find_pending ''a'' b = Some e" using b(2) find_pending_None [of "''a''" b] by fastforce
  then have s: "(''a'', Resolved (JBool True)) \<in> set (b_settled ?b)"
    by (cases "pe_window e") (simp_all add: resolve_def settle_def close_window_def)
  from only_popup_approves [OF r s] r s show ?thesis by blast
qed


lemma settled_close_settle: "b_settled (close_window w (settle i r b)) = b_settled b @ [(i, r)]"
  by (cases w) (simp_all add: settle_def close_window_def)

text \<open>Cancelling a list of pending entries removes exactly them and settles each as a rejection.\<close>

lemma cancel_entries:
  assumes "broker_inv b" "distinct es" "set es \<subseteq> set (b_pending b)"
  shows "set (b_pending (cancelEntries es reason b)) = set (b_pending b) - set es
       \<and> set (b_settled (cancelEntries es reason b))
           = set (b_settled b) \<union> (\<lambda>e. (pe_id e, Resolved (rejection reason))) ` set es"
  using assms
proof (induction es arbitrary: b)
  case Nil
  then show ?case by (simp add: cancelEntries_def)
next
  case (Cons e es)
  let ?b = "close_window (pe_window e) (settle (pe_id e) (Resolved (rejection reason)) b)"
  have f: "find_pending (pe_id e) b = Some e"
    using Cons.prems(1,3) by (intro find_pending_in) (auto dest: broker_invD)
  have inv: "broker_inv ?b" by (rule broker_inv_settle_close [OF Cons.prems(1) f]) simp
  have "g = e" if "g \<in> set (b_pending b)" "pe_id g = pe_id e" for g
    using that f find_pending_in [OF broker_invD(1) [OF Cons.prems(1)]] by (metis option.inject)
  then have p: "set (b_pending ?b) = set (b_pending b) - {e}"
    using Cons.prems(3) unfolding pending_close_settle by auto
  have "set es \<subseteq> set (b_pending ?b)" using Cons.prems(2,3) unfolding p by auto
  from Cons.IH [OF inv _ this] Cons.prems(2) have
    "set (b_pending (cancelEntries es reason ?b)) = set (b_pending ?b) - set es
     \<and> set (b_settled (cancelEntries es reason ?b))
         = set (b_settled ?b) \<union> (\<lambda>e. (pe_id e, Resolved (rejection reason))) ` set es" by simp
  moreover have "cancelEntries (e # es) reason b = cancelEntries es reason ?b"
    using f by (simp add: cancelEntries_def cancel_one_def)
  ultimately show ?case unfolding p settled_close_settle by auto
qed

lemma ids_distinct_entries: "ids_inv b \<Longrightarrow> distinct (b_pending b)"
  by (auto simp: ids_inv_def distinct_map)

text \<open>
  Locking ends every prompt: after \<^verbatim>\<open>cancelAll\<close> in a reachable state nothing
  is pending and no timer is armed, every request that was pending has been settled as a rejection,
  a late decision is refused and changes nothing, and a window whose creation answers late is closed.
\<close>

lemma cancel_all_ends_prompts:
  assumes "broker_run new_broker evs b"
  shows "b_pending (cancelAll reason b) = [] \<and> b_timers (cancelAll reason b) = []
    \<and> (\<forall>i \<in> pending_ids b. (i, Resolved (rejection reason)) \<in> set (b_settled (cancelAll reason b)))
    \<and> resolve i r (cancelAll reason b) = (False, cancelAll reason b)
    \<and> (\<forall>w. w \<in> set (b_closing (window_created i (Some w) (cancelAll reason b))))"
proof -
  let ?c = "cancelAll reason b"
  have inv: "broker_inv b" by (rule reachable_inv [OF assms])
  have C: "set (b_pending ?c) = {}"
    "set (b_settled ?c) = set (b_settled b) \<union> (\<lambda>e. (pe_id e, Resolved (rejection reason))) ` set (b_pending b)"
    using cancel_entries [OF inv ids_distinct_entries [OF broker_invD(1) [OF inv]], of reason]
    by (simp_all add: cancelAll_def)
  then have p: "b_pending ?c = []" by simp
  have "broker_inv ?c" unfolding cancelAll_def by (rule broker_inv_cancel [OF inv])
  then have "set (b_timers ?c) = {}" using p by (simp add: broker_inv_def ids_inv_def)
  then have t: "b_timers ?c = []" by simp
  have n: "find_pending i ?c = None" for i using p by (simp add: find_pending_def)
  show ?thesis
    using C(2) p t n by (auto simp: resolve_def window_created_def close_window_def find_pending_def Let_def)
qed

text \<open>
  Prompts do not pile up or get lost: in every reachable state an origin has at most one
  pending connect request, a further connect from it joins that request and changes nothing, every
  popup window ever created belongs to a pending request or has been closed, and with no badge
  update queued the badge shows the number of pending requests.
\<close>

lemma prompts_are_shared_and_tracked:
  assumes "broker_run new_broker evs b"
  shows "(\<forall>origin. origin \<noteq> [] \<longrightarrow> length (List.filter (connect_of origin) (b_pending b)) \<le> 1
            \<and> (\<forall>e \<in> set (b_pending b). \<forall>c i req. connect_of origin e \<and> js_get req ''origin'' = JStr origin \<longrightarrow>
                 connect c i req b = (pe_id e, b)))
    \<and> (\<forall>w \<in> set (b_windows b). w \<in> set (b_closing b) \<or> (\<exists>e \<in> set (b_pending b). pe_window e = Some w))
    \<and> (b_badge_queue b = 0 \<longrightarrow> b_badge b = approvalBadgeText (length (b_pending b)))"
proof -
  note I = broker_invD [OF reachable_inv [OF assms]]
  have join: "connect c i req b = (pe_id e, b)"
    if o: "origin \<noteq> []" and e: "e \<in> set (b_pending b)" "connect_of origin e" and r: "js_get req ''origin'' = JStr origin"
    for origin e c i req
  proof -
    have f: "(\<lambda>e. pe_kind e = approval_kind.Connect \<and> js_get (pe_payload e) ''origin'' = JStr origin) = connect_of origin"
      by (simp add: connect_of_def fun_eq_iff)
    obtain g where g: "find (connect_of origin) (b_pending b) = Some g"
      using e by (metis find_None_iff not_None_eq)
    then have g': "g \<in> set (b_pending b)" "connect_of origin g" by (auto simp: find_Some_iff)
    have "length (List.filter (connect_of origin) (b_pending b)) \<le> 1" using I(4) o by (simp add: connect_inv_def)
    moreover have "g \<in> set (List.filter (connect_of origin) (b_pending b))"
      "e \<in> set (List.filter (connect_of origin) (b_pending b))" using g' e by auto
    ultimately have "g = e"
      by (cases "List.filter (connect_of origin) (b_pending b)") auto
    with g o r show ?thesis by (simp add: connect_def f Let_def)
  qed
  have "\<forall>w \<in> set (b_windows b). w \<in> set (b_closing b) \<or> (\<exists>e \<in> set (b_pending b). pe_window e = Some w)"
    using I(2) by (simp add: windows_inv_def)
  moreover have "b_badge_queue b = 0 \<longrightarrow> b_badge b = approvalBadgeText (length (b_pending b))"
    using I(5) by (simp add: badge_inv_def)
  moreover have "length (List.filter (connect_of origin) (b_pending b)) \<le> 1" if "origin \<noteq> []" for origin
    using I(4) that by (simp add: connect_inv_def)
  ultimately show ?thesis by (intro conjI allI impI ballI) (use join in \<open>blast+\<close>)
qed

end
