(* ===== verification/Multisig_Session.thy ===== *)
theory Multisig_Session
  imports Byte_Codec "HOL-Library.Sublist"
begin

text \<open>
  Multisig signing sessions: the persisted record
  (\<^verbatim>\<open>core/src/schemas/multisigSigningSession.js\<close>) and the operations that drive it
  (\<^verbatim>\<open>core/src/flows/multisigSigning.js\<close>). Every operation runs under the session's lock,
  so it is one atomic step from the stored record to the stored record, with the error it throws,
  if any. The cryptography, the chain SDK and the transaction verifier are the fields of
  \<open>multisig_sdk\<close>, which the operations take as an argument; the clock is the timestamp text.
\<close>

section \<open>The record\<close>

datatype scheme = P2SH | P2WSH | MuSig2

datatype session_status =
    CollectingNonces
  | CollectingSigs
  | ReadyToFinalize
  | Finalized
  | Broadcast
  | Cancelled

record nonce_contribution =
  nc_pubkey :: string
  nc_nonce :: string
  nc_at :: string

record signature_contribution =
  sc_pubkey :: string
  sc_sig :: string
  sc_at :: string

record session =
  ms_id :: string
  ms_wallet :: string
  ms_chain :: string
  ms_scheme :: scheme
  ms_threshold :: int
  ms_cosigners :: "string list"
  ms_msgHash :: string
  ms_psbt :: string
  ms_summary :: string
  ms_nonces :: "nonce_contribution list"
  ms_aggNonce :: "string option"
  ms_partials :: "signature_contribution list"
  ms_schnorr :: "string option"
  ms_signatures :: "signature_contribution list"
  ms_status :: session_status
  ms_tx :: "string option"
  ms_txid :: "string option"
  ms_created :: string
  ms_updated :: string

text \<open>The statuses in the order a session passes them; cancelling comes last.\<close>

fun status_rank :: "session_status \<Rightarrow> nat" where
  "status_rank CollectingNonces = 0"
| "status_rank CollectingSigs = 1"
| "status_rank ReadyToFinalize = 2"
| "status_rank Finalized = 3"
| "status_rank Broadcast = 4"
| "status_rank Cancelled = 5"

lemma status_rank_inj: "status_rank a = status_rank b \<Longrightarrow> a = b"
  by (cases a; cases b) simp_all

lemma status_rank_bounds [simp]: "status_rank a \<le> 5" "status_rank a < 5 \<longleftrightarrow> a \<noteq> Cancelled"
  by (cases a; simp)+

instantiation session_status :: linorder
begin

definition less_eq_session_status :: "session_status \<Rightarrow> session_status \<Rightarrow> bool" where
  "less_eq_session_status a b \<longleftrightarrow> status_rank a \<le> status_rank b"

definition less_session_status :: "session_status \<Rightarrow> session_status \<Rightarrow> bool" where
  "less_session_status a b \<longleftrightarrow> status_rank a < status_rank b"

instance
  by standard (auto simp: less_eq_session_status_def less_session_status_def intro: status_rank_inj)

end

lemmas status_order = less_eq_session_status_def less_session_status_def

section \<open>Errors and the outside world\<close>

datatype session_error =
    InputInvalid
  | WalletNotFound
  | ConfigNotFound
  | SessionNotFound
  | NotMusig2
  | WrongStatus
  | NotCosigner
  | AlreadyContributed
  | NonceNotHex
  | NonceInvalid
  | NonceRepeated
  | SignatureNotHex
  | SignatureLength
  | SignatureInvalid
  | SdkUnavailable
  | NoAggNonce
  | AggregationFailed
  | SigningFrozen
  | BroadcastUnverified
  | BroadcastFailed
  | NoTxid
  | ForeignTxid
  | TxHexInvalid
  | FinalizationConflict
  | FinalizeFailed

datatype broadcast_answer = Reply js | AlreadyOnNetwork | BroadcastError

text \<open>
  \<open>classical_valid sig hash pubkey\<close> is the low-S DER check of the curve library;
  \<open>partial_valid aggNonce hash pubkeys sig pubkey nonce\<close> is BIP327's PartialSigVerify under the
  session key of the three first arguments; the aggregations and the finalizer answer \<open>None\<close> when
  they throw; \<open>tx_verifies tx psbt\<close> is the signature check before a broadcast.
\<close>

record multisig_sdk =
  sdk_verifier :: bool
  sdk_musig2 :: bool
  classical_valid :: "string \<Rightarrow> string \<Rightarrow> string \<Rightarrow> bool"
  is_point :: "string \<Rightarrow> bool"
  partial_valid :: "byte list \<Rightarrow> byte list \<Rightarrow> byte list list \<Rightarrow> byte list \<Rightarrow> byte list \<Rightarrow> byte list \<Rightarrow> bool"
  aggregate_nonces :: "byte list list \<Rightarrow> byte list option"
  aggregate_signatures :: "byte list list \<Rightarrow> byte list \<Rightarrow> byte list \<Rightarrow> byte list list \<Rightarrow> byte list option"
  finalize_psbt :: "string \<Rightarrow> js option"
  sdk_finalizer :: bool
  sdk_broadcaster :: bool
  signing_allowed :: bool
  tx_verifies :: "string \<Rightarrow> string \<Rightarrow> bool"

section \<open>Creating a session\<close>

definition lowerHex :: "string \<Rightarrow> string" where
  "lowerHex v = js_lower v"

definition isHexLength :: "string \<Rightarrow> nat \<Rightarrow> bool" where
  "isHexLength v n \<longleftrightarrow> lower_hex (js_lower v) \<and> length v = 2 * n"

definition even_hex :: "string \<Rightarrow> bool" where
  "even_hex v \<longleftrightarrow> v \<noteq> [] \<and> even (length v) \<and> list_all is_lower_hex (js_lower v)"

record config =
  cf_id :: string
  cf_scheme :: scheme
  cf_threshold :: int
  cf_pubkeys :: "string list"

definition createMultisigSigningSession ::
    "string \<Rightarrow> string \<Rightarrow> string \<Rightarrow> string \<Rightarrow> config \<Rightarrow> string \<Rightarrow> string \<Rightarrow> string \<Rightarrow> session_error + session" where
  "createMultisigSigningSession now uuid walletId chainId c msgHash psbtHex actionSummary =
    (if walletId = [] \<or> chainId = [] \<or> cf_threshold c \<le> 0 \<or> length (cf_pubkeys c) < 2
        \<or> cf_threshold c > int (length (cf_pubkeys c)) \<or> \<not> hex_of_length 32 (js_lower msgHash)
     then Inl InputInvalid
     else Inr \<lparr>ms_id = uuid, ms_wallet = walletId, ms_chain = chainId, ms_scheme = cf_scheme c,
            ms_threshold = cf_threshold c, ms_cosigners = map js_lower (cf_pubkeys c), ms_msgHash = js_lower msgHash,
            ms_psbt = psbtHex, ms_summary = actionSummary, ms_nonces = [], ms_aggNonce = None, ms_partials = [],
            ms_schnorr = None, ms_signatures = [],
            ms_status = (if cf_scheme c = MuSig2 then CollectingNonces else CollectingSigs),
            ms_tx = None, ms_txid = None, ms_created = now, ms_updated = now\<rparr>)"

type_synonym session_vault = "string \<rightharpoonup> session"

text \<open>Starting a session for a wallet's stored configuration: the one named, or the first.\<close>

definition startMultisigSigningSession ::
    "string \<Rightarrow> string \<Rightarrow> (string \<rightharpoonup> config list) \<Rightarrow> string \<Rightarrow> string \<Rightarrow> string \<Rightarrow> string \<Rightarrow> string \<Rightarrow> string
     \<Rightarrow> session_vault \<Rightarrow> (session_error + session) \<times> session_vault" where
  "startMultisigSigningSession now uuid wallets walletId chainId configId msgHash psbtHex actionSummary V =
    (if walletId = [] \<or> chainId = [] \<or> \<not> isHexLength msgHash 32 then (Inl InputInvalid, V)
     else (case wallets walletId of
         None \<Rightarrow> (Inl WalletNotFound, V)
       | Some cs \<Rightarrow>
          (case (if configId \<noteq> [] then find (\<lambda>c. cf_id c = configId) cs
                 else case cs of [] \<Rightarrow> None | c # _ \<Rightarrow> Some c) of
             None \<Rightarrow> (Inl ConfigNotFound, V)
           | Some c \<Rightarrow>
              (case createMultisigSigningSession now uuid walletId chainId c msgHash psbtHex actionSummary of
                 Inl err \<Rightarrow> (Inl err, V)
               | Inr s \<Rightarrow> (Inr s, V(ms_id s \<mapsto> s))))))"

section \<open>The operations on a session\<close>

type_synonym op_result = "session_error option \<times> session"

definition persist :: "string \<Rightarrow> session \<Rightarrow> session" where
  "persist now s = s\<lparr>ms_updated := now\<rparr>"

definition cancelMultisigSigningSession :: "string \<Rightarrow> session \<Rightarrow> op_result" where
  "cancelMultisigSigningSession now s =
    (if ms_status s \<in> {Cancelled, Broadcast} then (None, s)
     else (None, persist now (s\<lparr>ms_status := Cancelled\<rparr>)))"

definition musig2NonceProblem :: "multisig_sdk \<Rightarrow> session \<Rightarrow> string \<Rightarrow> session_error option" where
  "musig2NonceProblem sdk s nonce =
    (if \<not> (is_point sdk (take 66 nonce) \<and> is_point sdk (drop 66 nonce)) then Some NonceInvalid
     else if \<exists>n \<in> set (ms_nonces s). nc_nonce n = nonce then Some NonceRepeated
     else None)"

definition contributeMultisigNonce :: "multisig_sdk \<Rightarrow> string \<Rightarrow> string \<Rightarrow> string \<Rightarrow> session \<Rightarrow> op_result" where
  "contributeMultisigNonce sdk now pubkey nonceHex s =
    (if \<not> isHexLength nonceHex 66 then (Some NonceNotHex, s)
     else if ms_scheme s \<noteq> MuSig2 then (Some NotMusig2, s)
     else if ms_status s \<noteq> CollectingNonces then (Some WrongStatus, s)
     else let pk = lowerHex pubkey
          in if pk \<notin> set (ms_cosigners s) then (Some NotCosigner, s)
             else if \<exists>n \<in> set (ms_nonces s). nc_pubkey n = pk then (Some AlreadyContributed, s)
             else (case musig2NonceProblem sdk s (lowerHex nonceHex) of
                Some p \<Rightarrow> (Some p, s)
              | None \<Rightarrow> (None, persist now (s\<lparr>ms_nonces := ms_nonces s
                   @ [\<lparr>nc_pubkey = pk, nc_nonce = lowerHex nonceHex, nc_at = now\<rparr>]\<rparr>))))"

definition isMusig2PartialOf :: "multisig_sdk \<Rightarrow> session \<Rightarrow> string \<Rightarrow> string \<Rightarrow> bool" where
  "isMusig2PartialOf sdk s pubkey sig =
    (case (ms_aggNonce s, find (\<lambda>n. nc_pubkey n = pubkey) (ms_nonces s)) of
       (Some agg, Some n) \<Rightarrow> agg \<noteq> [] \<and>
          partial_valid sdk (hexToBytes agg) (hexToBytes (ms_msgHash s)) (map hexToBytes (ms_cosigners s))
            (hexToBytes sig) (hexToBytes pubkey) (hexToBytes (nc_nonce n))
     | _ \<Rightarrow> False)"

definition contributeMultisigSignature :: "multisig_sdk \<Rightarrow> string \<Rightarrow> string \<Rightarrow> string \<Rightarrow> session \<Rightarrow> op_result" where
  "contributeMultisigSignature sdk now pubkey sigHex s =
    (if \<not> even_hex sigHex then (Some SignatureNotHex, s)
     else if ms_status s \<noteq> CollectingSigs then (Some WrongStatus, s)
     else let pk = lowerHex pubkey; sig = lowerHex sigHex; entry = \<lparr>sc_pubkey = pk, sc_sig = sig, sc_at = now\<rparr>
          in if pk \<notin> set (ms_cosigners s) then (Some NotCosigner, s)
             else if ms_scheme s = MuSig2
             then (if length sig \<noteq> 64 then (Some SignatureLength, s)
                   else if \<exists>p \<in> set (ms_partials s). sc_pubkey p = pk then (Some AlreadyContributed, s)
                   else if \<not> sdk_verifier sdk then (Some SdkUnavailable, s)
                   else if \<not> isMusig2PartialOf sdk s pk sig then (Some SignatureInvalid, s)
                   else (None, persist now (s\<lparr>ms_partials := ms_partials s @ [entry]\<rparr>)))
             else (if length sig < 16 \<or> length sig > 200 then (Some SignatureLength, s)
                   else if \<exists>p \<in> set (ms_signatures s). sc_pubkey p = pk then (Some AlreadyContributed, s)
                   else if \<not> classical_valid sdk sig (ms_msgHash s) pk then (Some SignatureInvalid, s)
                   else let sigs = ms_signatures s @ [entry]
                        in (None, persist now (s\<lparr>ms_signatures := sigs,
                              ms_status := (if ms_threshold s \<le> int (length sigs) then ReadyToFinalize else ms_status s)\<rparr>))))"

text \<open>The contributions in cosigner order, the first threshold of them.\<close>

definition ordered_nonces :: "session \<Rightarrow> byte list list" where
  "ordered_nonces s = map (\<lambda>n. hexToBytes (nc_nonce n))
     (take (nat (ms_threshold s)) (List.map_filter (\<lambda>pk. find (\<lambda>n. nc_pubkey n = pk) (ms_nonces s)) (ms_cosigners s)))"

definition ordered_partials :: "session \<Rightarrow> byte list list" where
  "ordered_partials s = map (\<lambda>p. hexToBytes (sc_sig p))
     (take (nat (ms_threshold s)) (List.map_filter (\<lambda>pk. find (\<lambda>p. sc_pubkey p = pk) (ms_partials s)) (ms_cosigners s)))"

definition aggregate_round1 :: "multisig_sdk \<Rightarrow> string \<Rightarrow> session \<Rightarrow> op_result" where
  "aggregate_round1 sdk now s =
    (if ms_status s = CollectingNonces \<and> ms_threshold s \<le> int (length (ms_nonces s))
     then (case aggregate_nonces sdk (ordered_nonces s) of
         None \<Rightarrow> (Some AggregationFailed, s)
       | Some agg \<Rightarrow> (None, persist now (s\<lparr>ms_aggNonce := Some (bytesToHex agg), ms_status := CollectingSigs\<rparr>)))
     else (None, s))"

definition aggregate_round2 :: "multisig_sdk \<Rightarrow> string \<Rightarrow> session \<Rightarrow> op_result" where
  "aggregate_round2 sdk now s =
    (if ms_status s = CollectingSigs \<and> ms_threshold s \<le> int (length (ms_partials s))
     then (case ms_aggNonce s of
         None \<Rightarrow> (Some NoAggNonce, s)
       | Some agg \<Rightarrow>
          (if agg = [] then (Some NoAggNonce, s)
           else (case aggregate_signatures sdk (ordered_partials s) (hexToBytes agg) (hexToBytes (ms_msgHash s))
                        (map hexToBytes (ms_cosigners s)) of
              None \<Rightarrow> (Some AggregationFailed, s)
            | Some sig \<Rightarrow> (None, persist now (s\<lparr>ms_schnorr := Some (bytesToHex sig), ms_status := ReadyToFinalize\<rparr>)))))
     else (None, s))"

definition aggregateMultisigSession :: "multisig_sdk \<Rightarrow> string \<Rightarrow> session \<Rightarrow> op_result" where
  "aggregateMultisigSession sdk now s =
    (if ms_scheme s \<noteq> MuSig2 then (Some NotMusig2, s)
     else if \<not> sdk_musig2 sdk then (Some SdkUnavailable, s)
     else (case aggregate_round1 sdk now s of
         (Some err, s1) \<Rightarrow> (Some err, s1)
       | (None, s1) \<Rightarrow> aggregate_round2 sdk now s1))"

definition txid_text :: "string \<Rightarrow> bool" where
  "txid_text s \<longleftrightarrow> length s = 64 \<and> list_all is_hex s"

fun reply_txid :: "js \<Rightarrow> js" where
  "reply_txid (JStr s) = JStr s"
| "reply_txid v = js_get v ''txid''"

definition broadcast_session :: "multisig_sdk \<Rightarrow> string \<Rightarrow> broadcast_answer \<Rightarrow> session \<Rightarrow> op_result" where
  "broadcast_session sdk now answer s =
    (if ms_status s = Broadcast then (None, s)
     else if ms_status s \<noteq> Finalized then (Some WrongStatus, s)
     else if \<not> sdk_broadcaster sdk then (Some SdkUnavailable, s)
     else if \<not> signing_allowed sdk then (Some SigningFrozen, s)
     else (case ms_tx s of
         None \<Rightarrow> (Some BroadcastUnverified, s)
       | Some tx \<Rightarrow>
          (if \<not> tx_verifies sdk tx (ms_psbt s) then (Some BroadcastUnverified, s)
           else (case answer of
               AlreadyOnNetwork \<Rightarrow> (None, persist now (s\<lparr>ms_status := Broadcast\<rparr>))
             | BroadcastError \<Rightarrow> (Some BroadcastFailed, s)
             | Reply v \<Rightarrow>
                (case reply_txid v of
                   JStr t \<Rightarrow>
                    (if \<not> txid_text t then (Some NoTxid, s)
                     else if (case ms_txid s of Some u \<Rightarrow> txid_text u \<and> js_lower t \<noteq> js_lower u | None \<Rightarrow> False)
                     then (Some ForeignTxid, s)
                     else (None, persist now (s\<lparr>ms_txid := Some (js_lower t), ms_status := Broadcast\<rparr>)))
                 | _ \<Rightarrow> (Some NoTxid, s))))))"

definition opt_nonempty :: "string option \<Rightarrow> string option" where
  "opt_nonempty x = (case x of Some s \<Rightarrow> (if s = [] then None else Some s) | None \<Rightarrow> None)"

text \<open>Finalizing with bytes another wallet supplies.\<close>

definition finalize_supplied :: "string \<Rightarrow> string \<Rightarrow> string option \<Rightarrow> session \<Rightarrow> op_result" where
  "finalize_supplied now txHex txid s =
    (if ms_status s \<notin> {ReadyToFinalize, Finalized} then (Some WrongStatus, s)
     else if \<not> even_hex txHex then (Some TxHexInvalid, s)
     else if ms_status s = Finalized
     then (let sameTxid = (case opt_nonempty txid of None \<Rightarrow> True
              | Some t \<Rightarrow> (case ms_txid s of Some u \<Rightarrow> lowerHex t = lowerHex u | None \<Rightarrow> False))
           in if lowerHex txHex \<noteq> (case ms_tx s of Some t \<Rightarrow> lowerHex t | None \<Rightarrow> []) \<or> \<not> sameTxid
              then (Some FinalizationConflict, s) else (None, s))
     else (None, persist now (s\<lparr>ms_tx := Some (lowerHex txHex),
             ms_txid := (case opt_nonempty txid of Some t \<Rightarrow> Some t | None \<Rightarrow> ms_txid s), ms_status := Finalized\<rparr>)))"

definition finalize_with_sdk :: "multisig_sdk \<Rightarrow> string \<Rightarrow> session \<Rightarrow> op_result" where
  "finalize_with_sdk sdk now s =
    (if ms_status s \<notin> {ReadyToFinalize, Finalized} then (Some WrongStatus, s)
     else if ms_status s = Finalized then (None, s)
     else if \<not> sdk_finalizer sdk then (Some SdkUnavailable, s)
     else (case finalize_psbt sdk (ms_psbt s) of
         None \<Rightarrow> (Some FinalizeFailed, s)
       | Some v \<Rightarrow>
          (case js_get v ''txHex'' of
             JStr h \<Rightarrow>
              (if \<not> even_hex h then (Some TxHexInvalid, s)
               else (None, persist now (s\<lparr>ms_tx := Some (lowerHex h),
                       ms_txid := (case js_get v ''txid'' of JStr t \<Rightarrow> (if t = [] then ms_txid s else Some t) | _ \<Rightarrow> ms_txid s),
                       ms_status := Finalized\<rparr>)))
           | _ \<Rightarrow> (Some TxHexInvalid, s))))"

section \<open>Views\<close>

definition pendingCosignerPubkeys :: "session \<Rightarrow> string list" where
  "pendingCosignerPubkeys s =
    (let without = \<lambda>xs. List.filter (\<lambda>pk. pk \<notin> set xs) (ms_cosigners s)
     in if ms_scheme s = MuSig2
        then (if ms_status s = CollectingNonces then without (map nc_pubkey (ms_nonces s))
              else if ms_status s = CollectingSigs then without (map sc_pubkey (ms_partials s)) else [])
        else if ms_status s = CollectingSigs then without (map sc_pubkey (ms_signatures s)) else [])"

definition progressSummary :: "session \<Rightarrow> string \<times> int \<times> int" where
  "progressSummary s =
    (let t = ms_threshold s
     in if ms_status s = Cancelled then (''Cancelled'', 0, t)
        else if ms_status s = Broadcast then (''Broadcast'', t, t)
        else if ms_status s = Finalized then (''Finalized'', t, t)
        else if ms_status s = ReadyToFinalize then (''Ready to finalize'', t, t)
        else if ms_scheme s = MuSig2
        then (if ms_status s = CollectingNonces
              then (''Cosigners responded (step 1 of 2)'', int (length (ms_nonces s)), t)
              else (''Signatures collected (step 2 of 2)'', int (length (ms_partials s)), t))
        else (''Signatures collected'', int (length (ms_signatures s)), t))"

section \<open>The life of a session\<close>

text \<open>The stored record under its id: a change reads it, edits it and writes it back under the lock.\<close>

definition on_session :: "(session \<Rightarrow> op_result) \<Rightarrow> string \<Rightarrow> session_vault \<Rightarrow> session_error option \<times> session_vault" where
  "on_session op i V =
    (case V i of
       None \<Rightarrow> (Some SessionNotFound, V)
     | Some s \<Rightarrow> (case op s of (err, s') \<Rightarrow> (err, V(i \<mapsto> s'))))"

datatype session_event =
    NonceEv string string
  | SignatureEv string string
  | AggregateEv
  | FinalizeEv
  | FinalizeSuppliedEv string "string option"
  | BroadcastEv broadcast_answer
  | CancelEv

fun session_op :: "multisig_sdk \<Rightarrow> string \<Rightarrow> session_event \<Rightarrow> session \<Rightarrow> op_result" where
  "session_op sdk now (NonceEv pk n) s = contributeMultisigNonce sdk now pk n s"
| "session_op sdk now (SignatureEv pk sig) s = contributeMultisigSignature sdk now pk sig s"
| "session_op sdk now AggregateEv s = aggregateMultisigSession sdk now s"
| "session_op sdk now FinalizeEv s = finalize_with_sdk sdk now s"
| "session_op sdk now (FinalizeSuppliedEv tx txid) s = finalize_supplied now tx txid s"
| "session_op sdk now (BroadcastEv answer) s = broadcast_session sdk now answer s"
| "session_op sdk now CancelEv s = cancelMultisigSigningSession now s"

definition session_step :: "multisig_sdk \<Rightarrow> session \<Rightarrow> string \<times> session_event \<Rightarrow> session" where
  "session_step sdk s ev = snd (session_op sdk (fst ev) (snd ev) s)"

text \<open>
  The specification: the moves a session may make, each with what has to hold for it. Everything
  the operations do has to be a sequence of these.
\<close>

inductive session_move :: "multisig_sdk \<Rightarrow> session \<Rightarrow> session \<Rightarrow> bool" for sdk where
  AddNonce: "ms_scheme s = MuSig2 \<Longrightarrow> ms_status s = CollectingNonces \<Longrightarrow>
    nc_pubkey n \<in> set (ms_cosigners s) \<Longrightarrow> nc_pubkey n \<notin> nc_pubkey ` set (ms_nonces s) \<Longrightarrow>
    nc_nonce n \<notin> nc_nonce ` set (ms_nonces s) \<Longrightarrow> hex_of_length 66 (nc_nonce n) \<Longrightarrow>
    is_point sdk (take 66 (nc_nonce n)) \<Longrightarrow> is_point sdk (drop 66 (nc_nonce n)) \<Longrightarrow>
    session_move sdk s (s\<lparr>ms_nonces := ms_nonces s @ [n], ms_updated := now\<rparr>)"
| NoncesDone: "ms_status s = CollectingNonces \<Longrightarrow> ms_scheme s = MuSig2 \<Longrightarrow> ms_threshold s \<le> int (length (ms_nonces s)) \<Longrightarrow>
    aggregate_nonces sdk (ordered_nonces s) = Some agg \<Longrightarrow>
    session_move sdk s (s\<lparr>ms_aggNonce := Some (bytesToHex agg), ms_status := CollectingSigs, ms_updated := now\<rparr>)"
| AddPartial: "ms_scheme s = MuSig2 \<Longrightarrow> ms_status s = CollectingSigs \<Longrightarrow>
    sc_pubkey p \<in> set (ms_cosigners s) \<Longrightarrow> sc_pubkey p \<notin> sc_pubkey ` set (ms_partials s) \<Longrightarrow>
    hex_of_length 32 (sc_sig p) \<Longrightarrow> isMusig2PartialOf sdk s (sc_pubkey p) (sc_sig p) \<Longrightarrow>
    session_move sdk s (s\<lparr>ms_partials := ms_partials s @ [p], ms_updated := now\<rparr>)"
| PartialsDone: "ms_status s = CollectingSigs \<Longrightarrow> ms_scheme s = MuSig2 \<Longrightarrow> ms_threshold s \<le> int (length (ms_partials s)) \<Longrightarrow>
    ms_aggNonce s = Some agg \<Longrightarrow>
    aggregate_signatures sdk (ordered_partials s) (hexToBytes agg) (hexToBytes (ms_msgHash s))
      (map hexToBytes (ms_cosigners s)) = Some sig \<Longrightarrow>
    session_move sdk s (s\<lparr>ms_schnorr := Some (bytesToHex sig), ms_status := ReadyToFinalize, ms_updated := now\<rparr>)"
| AddSignature: "ms_scheme s \<noteq> MuSig2 \<Longrightarrow> ms_status s = CollectingSigs \<Longrightarrow>
    sc_pubkey p \<in> set (ms_cosigners s) \<Longrightarrow> sc_pubkey p \<notin> sc_pubkey ` set (ms_signatures s) \<Longrightarrow>
    lower_hex (sc_sig p) \<Longrightarrow> classical_valid sdk (sc_sig p) (ms_msgHash s) (sc_pubkey p) \<Longrightarrow>
    st = (if ms_threshold s \<le> int (length (ms_signatures s @ [p])) then ReadyToFinalize else CollectingSigs) \<Longrightarrow>
    session_move sdk s (s\<lparr>ms_signatures := ms_signatures s @ [p], ms_status := st, ms_updated := now\<rparr>)"
| Finalize: "ms_status s = ReadyToFinalize \<Longrightarrow> even_hex tx \<Longrightarrow>
    session_move sdk s (s\<lparr>ms_tx := Some (js_lower tx), ms_txid := t, ms_status := Finalized, ms_updated := now\<rparr>)"
| Broadcast: "ms_status s = Finalized \<Longrightarrow> signing_allowed sdk \<Longrightarrow> ms_tx s = Some tx \<Longrightarrow> tx_verifies sdk tx (ms_psbt s) \<Longrightarrow>
    session_move sdk s (s\<lparr>ms_txid := t, ms_status := session_status.Broadcast, ms_updated := now\<rparr>)"
| Cancel: "ms_status s \<notin> {Cancelled, session_status.Broadcast} \<Longrightarrow>
    session_move sdk s (s\<lparr>ms_status := Cancelled, ms_updated := now\<rparr>)"

inductive_cases session_moveE: "session_move sdk s t"

lemma hex_of_length_lower: "isHexLength v n \<Longrightarrow> hex_of_length n (js_lower v)"
  by (simp add: isHexLength_def hex_of_length_def)

lemma even_hex_lower: "even_hex v \<Longrightarrow> lower_hex (js_lower v)"
  by (simp add: even_hex_def lower_hex_def js_lower_def)

lemma nonce_refines: "(session_move sdk)\<^sup>*\<^sup>* s (snd (contributeMultisigNonce sdk now pk n s))"
proof (cases "snd (contributeMultisigNonce sdk now pk n s) = s")
  case False
  then have "session_move sdk s (snd (contributeMultisigNonce sdk now pk n s))"
    by (auto simp: contributeMultisigNonce_def musig2NonceProblem_def persist_def lowerHex_def hex_of_length_lower Let_def
        split: if_splits option.splits intro!: session_move.AddNonce)
  then show ?thesis by (rule r_into_rtranclp)
qed simp

lemma signature_refines: "(session_move sdk)\<^sup>*\<^sup>* s (snd (contributeMultisigSignature sdk now pk sig s))"
proof -
  let ?op = "snd (contributeMultisigSignature sdk now pk sig s)"
  let ?p = "\<lparr>sc_pubkey = js_lower pk, sc_sig = js_lower sig, sc_at = now\<rparr>"
  let ?G = "even_hex sig \<and> ms_status s = CollectingSigs \<and> js_lower pk \<in> set (ms_cosigners s)"
  let ?M = "length sig = 64 \<and> \<not> (\<exists>p \<in> set (ms_partials s). sc_pubkey p = js_lower pk) \<and> sdk_verifier sdk
      \<and> isMusig2PartialOf sdk s (js_lower pk) (js_lower sig)"
  let ?C = "16 \<le> length sig \<and> length sig \<le> 200 \<and> \<not> (\<exists>p \<in> set (ms_signatures s). sc_pubkey p = js_lower pk)
      \<and> classical_valid sdk (js_lower sig) (ms_msgHash s) (js_lower pk)"
  consider (musig) "?G" "ms_scheme s = MuSig2" "?M" | (classical) "?G" "ms_scheme s \<noteq> MuSig2" "?C"
    | (same) "\<not> ?G \<or> (ms_scheme s = MuSig2 \<and> \<not> ?M) \<or> (ms_scheme s \<noteq> MuSig2 \<and> \<not> ?C)" by blast
  then show ?thesis
  proof cases
    case musig
    then have e: "?op = s\<lparr>ms_partials := ms_partials s @ [?p], ms_updated := now\<rparr>"
      by (simp add: contributeMultisigSignature_def lowerHex_def persist_def)
    have "lower_hex (js_lower sig)" using musig by (simp add: even_hex_lower)
    with musig have "session_move sdk s ?op" unfolding e
      by (intro session_move.AddPartial) (auto simp: hex_of_length_def)
    then show ?thesis by (rule r_into_rtranclp)
  next
    case classical
    let ?st = "if ms_threshold s \<le> int (length (ms_signatures s @ [?p])) then ReadyToFinalize else CollectingSigs"
    from classical have e: "?op = s\<lparr>ms_signatures := ms_signatures s @ [?p], ms_status := ?st, ms_updated := now\<rparr>"
      by (simp add: contributeMultisigSignature_def lowerHex_def persist_def Let_def)
    have "lower_hex (js_lower sig)" using classical by (simp add: even_hex_lower)
    with classical have "session_move sdk s ?op" unfolding e
      by (intro session_move.AddSignature) auto
    then show ?thesis by (rule r_into_rtranclp)
  next
    case same
    then have "?op = s" by (auto simp: contributeMultisigSignature_def lowerHex_def Let_def)
    then show ?thesis by simp
  qed
qed

lemma round1_refines: "ms_scheme s = MuSig2 \<Longrightarrow> (session_move sdk)\<^sup>*\<^sup>* s (snd (aggregate_round1 sdk now s))"
  by (auto simp: aggregate_round1_def persist_def split: option.splits
      intro!: r_into_rtranclp [of "session_move sdk"] session_move.NoncesDone)

lemma round2_refines: "ms_scheme s = MuSig2 \<Longrightarrow> (session_move sdk)\<^sup>*\<^sup>* s (snd (aggregate_round2 sdk now s))"
  by (auto simp: aggregate_round2_def persist_def split: option.splits
      intro!: r_into_rtranclp [of "session_move sdk"] session_move.PartialsDone)

lemma round1_scheme: "ms_scheme (snd (aggregate_round1 sdk now s)) = ms_scheme s"
  by (simp add: aggregate_round1_def persist_def split: option.splits)

lemma aggregate_refines: "(session_move sdk)\<^sup>*\<^sup>* s (snd (aggregateMultisigSession sdk now s))"
proof (cases "ms_scheme s = MuSig2 \<and> sdk_musig2 sdk")
  case True
  obtain e s1 where r1: "aggregate_round1 sdk now s = (e, s1)" by fastforce
  have m1: "(session_move sdk)\<^sup>*\<^sup>* s s1" using round1_refines [of s sdk now] True r1 by simp
  have "ms_scheme s1 = MuSig2" using round1_scheme [of sdk now s] r1 True by simp
  from rtranclp_trans [OF m1 round2_refines [OF this, of sdk now]] m1 True r1 show ?thesis
    by (cases e) (auto simp: aggregateMultisigSession_def)
qed (auto simp: aggregateMultisigSession_def)

lemma finalize_supplied_refines: "(session_move sdk)\<^sup>*\<^sup>* s (snd (finalize_supplied now tx txid s))"
proof (cases "ms_status s = ReadyToFinalize \<and> even_hex tx")
  case True
  let ?t = "case opt_nonempty txid of Some t \<Rightarrow> Some t | None \<Rightarrow> ms_txid s"
  from True have e: "snd (finalize_supplied now tx txid s)
      = s\<lparr>ms_tx := Some (js_lower tx), ms_txid := ?t, ms_status := Finalized, ms_updated := now\<rparr>"
    by (simp add: finalize_supplied_def persist_def lowerHex_def)
  show ?thesis unfolding e using True by (intro r_into_rtranclp [of "session_move sdk"] session_move.Finalize) auto
next
  case False
  then have "snd (finalize_supplied now tx txid s) = s" by (simp add: finalize_supplied_def Let_def)
  then show ?thesis by simp
qed

lemma finalize_sdk_refines: "(session_move sdk)\<^sup>*\<^sup>* s (snd (finalize_with_sdk sdk now s))"
proof (cases "\<exists>v h. finalize_psbt sdk (ms_psbt s) = Some v \<and> js_get v ''txHex'' = JStr h \<and> even_hex h
    \<and> ms_status s = ReadyToFinalize \<and> sdk_finalizer sdk")
  case True
  then obtain v h where v: "finalize_psbt sdk (ms_psbt s) = Some v" "js_get v ''txHex'' = JStr h" "even_hex h"
    "ms_status s = ReadyToFinalize" "sdk_finalizer sdk" by blast
  let ?t = "case js_get v ''txid'' of JStr t \<Rightarrow> (if t = [] then ms_txid s else Some t) | _ \<Rightarrow> ms_txid s"
  from v have e: "snd (finalize_with_sdk sdk now s)
      = s\<lparr>ms_tx := Some (js_lower h), ms_txid := ?t, ms_status := Finalized, ms_updated := now\<rparr>"
    by (simp add: finalize_with_sdk_def persist_def lowerHex_def)
  show ?thesis unfolding e using v by (intro r_into_rtranclp [of "session_move sdk"] session_move.Finalize) auto
next
  case False
  then have "snd (finalize_with_sdk sdk now s) = s" by (auto simp: finalize_with_sdk_def split: option.splits js.splits)
  then show ?thesis by simp
qed

lemma broadcast_refines: "(session_move sdk)\<^sup>*\<^sup>* s (snd (broadcast_session sdk now answer s))"
proof -
  let ?op = "snd (broadcast_session sdk now answer s)"
  let ?to = "\<lambda>t. s\<lparr>ms_txid := t, ms_status := session_status.Broadcast, ms_updated := now\<rparr>"
  show ?thesis
  proof (cases "ms_status s = Finalized \<and> sdk_broadcaster sdk \<and> signing_allowed sdk
      \<and> (\<exists>tx. ms_tx s = Some tx \<and> tx_verifies sdk tx (ms_psbt s))")
    case True
    then obtain tx where tx: "ms_status s = Finalized" "sdk_broadcaster sdk" "signing_allowed sdk" "ms_tx s = Some tx"
      "tx_verifies sdk tx (ms_psbt s)" by blast
    note B = session_move.Broadcast [OF tx(1,3,4,5)]
    have "?op = s \<or> (\<exists>t. ?op = ?to t)"
    proof (cases answer)
      case AlreadyOnNetwork
      have "?to (ms_txid s) = s\<lparr>ms_status := session_status.Broadcast, ms_updated := now\<rparr>" by simp
      moreover have "?op = s\<lparr>ms_status := session_status.Broadcast, ms_updated := now\<rparr>"
        using tx AlreadyOnNetwork by (simp add: broadcast_session_def persist_def)
      ultimately show ?thesis by metis
    next
      case BroadcastError
      with tx show ?thesis by (simp add: broadcast_session_def)
    next
      case (Reply v)
      show ?thesis
      proof (cases "reply_txid v")
        case (JStr u)
        with tx Reply have "?op = s \<or> ?op = ?to (Some (js_lower u))"
          by (simp add: broadcast_session_def persist_def)
        then show ?thesis by blast
      qed (use tx Reply in \<open>simp_all add: broadcast_session_def\<close>)
    qed
    then show ?thesis
    proof
      assume "\<exists>t. ?op = ?to t"
      then obtain t where "?op = ?to t" by blast
      then show ?thesis using B by (metis r_into_rtranclp)
    qed simp
  next
    case False
    then have "?op = s" by (auto simp: broadcast_session_def split: option.splits)
    then show ?thesis by simp
  qed
qed

lemma cancel_refines: "(session_move sdk)\<^sup>*\<^sup>* s (snd (cancelMultisigSigningSession now s))"
  by (auto simp: cancelMultisigSigningSession_def persist_def
      intro!: r_into_rtranclp [of "session_move sdk"] session_move.Cancel)

lemma op_refines: "(session_move sdk)\<^sup>*\<^sup>* s (snd (session_op sdk now ev s))"
  by (cases ev) (simp_all add: nonce_refines signature_refines aggregate_refines finalize_sdk_refines finalize_supplied_refines broadcast_refines
      cancel_refines)

text \<open>
  Property C29. The operations implement the session's protocol: whatever an operation is given and
  whatever the outside world answers, the record it leaves in the vault is reached from the one it
  read by moves of the specification, so a status is entered only under that move's conditions (a
  broadcast only from a finalized transaction whose signatures verify while signing is allowed), and
  other sessions are untouched.
\<close>

theorem operations_refine_protocol:
  "case on_session (session_op sdk now ev) i V of (err, V') \<Rightarrow>
     (case V i of
        None \<Rightarrow> err = Some SessionNotFound \<and> V' = V
      | Some s \<Rightarrow> \<exists>t. V' = V(i \<mapsto> t) \<and> (session_move sdk)\<^sup>*\<^sup>* s t)"
proof (cases "V i")
  case None
  then show ?thesis by (simp add: on_session_def)
next
  case (Some s)
  obtain err t where "session_op sdk now ev s = (err, t)" by fastforce
  with op_refines [of sdk s now ev] Some show ?thesis by (auto simp: on_session_def)
qed

section \<open>The invariant of a session\<close>

definition contributors_ok :: "string list \<Rightarrow> string list \<Rightarrow> bool" where
  "contributors_ok cosigners pks \<longleftrightarrow> distinct pks \<and> set pks \<subseteq> set cosigners"

definition replies_valid :: "multisig_sdk \<Rightarrow> session \<Rightarrow> bool" where
  "replies_valid sdk s \<longleftrightarrow>
     (\<forall>p \<in> set (ms_signatures s). classical_valid sdk (sc_sig p) (ms_msgHash s) (sc_pubkey p))
   \<and> (\<forall>p \<in> set (ms_partials s). isMusig2PartialOf sdk s (sc_pubkey p) (sc_sig p))"

definition phase_ok :: "session \<Rightarrow> bool" where
  "phase_ok s \<longleftrightarrow>
     (ms_status s = CollectingNonces \<longrightarrow> ms_scheme s = MuSig2 \<and> ms_partials s = [])
   \<and> (ms_status s \<in> {ReadyToFinalize, Finalized, session_status.Broadcast} \<longrightarrow>
        ms_threshold s \<le> int (length (if ms_scheme s = MuSig2 then ms_partials s else ms_signatures s)))
   \<and> (ms_status s \<in> {CollectingNonces, CollectingSigs, ReadyToFinalize} \<longrightarrow> ms_tx s = None)"

definition session_inv :: "multisig_sdk \<Rightarrow> session \<Rightarrow> bool" where
  "session_inv sdk s \<longleftrightarrow> contributors_ok (ms_cosigners s) (map nc_pubkey (ms_nonces s))
     \<and> contributors_ok (ms_cosigners s) (map sc_pubkey (ms_partials s))
     \<and> contributors_ok (ms_cosigners s) (map sc_pubkey (ms_signatures s))
     \<and> replies_valid sdk s \<and> phase_ok s"

lemma partial_of_cong:
  assumes "ms_aggNonce t = ms_aggNonce s" "ms_nonces t = ms_nonces s" "ms_msgHash t = ms_msgHash s"
    "ms_cosigners t = ms_cosigners s"
  shows "isMusig2PartialOf sdk t = isMusig2PartialOf sdk s"
  using assms by (simp only: isMusig2PartialOf_def fun_eq_iff) simp

lemma session_inv_move:
  assumes "session_move sdk s t" "session_inv sdk s"
  shows "session_inv sdk t"
  using assms(1)
proof cases
  case (AddNonce n now)
  with assms(2) have "ms_partials s = []" by (simp add: session_inv_def phase_ok_def)
  with AddNonce assms(2) show ?thesis
    by (auto simp: session_inv_def contributors_ok_def phase_ok_def replies_valid_def)
next
  case (NoncesDone agg now)
  with assms(2) have "ms_partials s = []" by (simp add: session_inv_def phase_ok_def)
  with NoncesDone assms(2) show ?thesis
    by (auto simp: session_inv_def contributors_ok_def phase_ok_def replies_valid_def)
next
  case (AddPartial p now)
  have "isMusig2PartialOf sdk t = isMusig2PartialOf sdk s" using AddPartial by (intro partial_of_cong) auto
  with AddPartial assms(2) show ?thesis
    by (auto simp: session_inv_def contributors_ok_def phase_ok_def replies_valid_def)
next
  case (PartialsDone agg sig now)
  have "isMusig2PartialOf sdk t = isMusig2PartialOf sdk s" using PartialsDone by (intro partial_of_cong) auto
  with PartialsDone assms(2) show ?thesis
    by (auto simp: session_inv_def contributors_ok_def phase_ok_def replies_valid_def)
next
  case (AddSignature p st now)
  have "isMusig2PartialOf sdk t = isMusig2PartialOf sdk s" using AddSignature by (intro partial_of_cong) auto
  with AddSignature assms(2) show ?thesis
    by (auto simp: session_inv_def contributors_ok_def phase_ok_def replies_valid_def)
next
  case (Finalize tx u now)
  have "isMusig2PartialOf sdk t = isMusig2PartialOf sdk s" using Finalize by (intro partial_of_cong) auto
  with Finalize assms(2) show ?thesis
    by (auto simp: session_inv_def contributors_ok_def phase_ok_def replies_valid_def)
next
  case (Broadcast tx u now)
  have "isMusig2PartialOf sdk t = isMusig2PartialOf sdk s" using Broadcast by (intro partial_of_cong) auto
  with Broadcast assms(2) show ?thesis
    by (auto simp: session_inv_def contributors_ok_def phase_ok_def replies_valid_def)
next
  case (Cancel now)
  have "isMusig2PartialOf sdk t = isMusig2PartialOf sdk s" using Cancel by (intro partial_of_cong) auto
  with Cancel assms(2) show ?thesis
    by (auto simp: session_inv_def contributors_ok_def phase_ok_def replies_valid_def)
qed

lemma session_inv_moves: "(session_move sdk)\<^sup>*\<^sup>* s t \<Longrightarrow> session_inv sdk s \<Longrightarrow> session_inv sdk t"
  by (induction rule: rtranclp_induct) (auto intro: session_inv_move)

text \<open>The order a session follows: statuses go forward, contributions only grow, terms and bytes stay.\<close>

definition session_le :: "session \<Rightarrow> session \<Rightarrow> bool" where
  "session_le s t \<longleftrightarrow> ms_status s \<le> ms_status t
     \<and> (ms_status s \<in> {session_status.Broadcast, Cancelled} \<longrightarrow> t = s)
     \<and> prefix (ms_nonces s) (ms_nonces t) \<and> prefix (ms_partials s) (ms_partials t)
     \<and> prefix (ms_signatures s) (ms_signatures t)
     \<and> (\<forall>tx. ms_tx s = Some tx \<longrightarrow> ms_tx t = Some tx)
     \<and> (ms_id t, ms_wallet t, ms_chain t, ms_scheme t, ms_threshold t, ms_cosigners t, ms_msgHash t, ms_psbt t)
       = (ms_id s, ms_wallet s, ms_chain s, ms_scheme s, ms_threshold s, ms_cosigners s, ms_msgHash s, ms_psbt s)"

lemma session_le_refl: "session_le s s"
  by (simp add: session_le_def)

lemma session_le_trans: "session_le s t \<Longrightarrow> session_le t u \<Longrightarrow> session_le s u"
  unfolding session_le_def by (auto intro: order_trans prefix_order.trans)

lemma session_le_move: "session_move sdk s t \<Longrightarrow> session_inv sdk s \<Longrightarrow> session_le s t"
  by (erule session_moveE) (auto simp: session_le_def status_order session_inv_def phase_ok_def split del: if_split,
    simp_all)

lemma session_le_moves: "(session_move sdk)\<^sup>*\<^sup>* s t \<Longrightarrow> session_inv sdk s \<Longrightarrow> session_le s t"
proof (induction rule: rtranclp_induct)
  case (step t u)
  then have "session_inv sdk t" by (auto intro: session_inv_moves)
  with step session_le_move [of sdk t u] show ?case by (blast intro: session_le_trans)
qed (rule session_le_refl)

interpretation multisig: progress_machine "\<lambda>s ev. True" "session_step sdk" "session_inv sdk" session_le for sdk
proof
  fix s ev
  assume "session_inv sdk s"
  with op_refines [of sdk s "fst ev" "snd ev"] show "session_inv sdk (session_step sdk s ev)" "session_le s (session_step sdk s ev)"
    by (auto simp: session_step_def intro: session_inv_moves session_le_moves)
qed (auto intro: session_le_refl session_le_trans)

lemma run_ok_True: "run_ok (\<lambda>s ev. True) step s evs"
  by (induction evs arbitrary: s) auto

lemma session_inv_create:
  "createMultisigSigningSession now uuid w ch c h psbt summary = Inr s \<Longrightarrow> session_inv sdk s"
  by (auto simp: createMultisigSigningSession_def session_inv_def contributors_ok_def replies_valid_def phase_ok_def
      split: if_splits)

section \<open>What a session guarantees\<close>

text \<open>The replies that count toward the threshold, with their check.\<close>

definition counted_replies :: "session \<Rightarrow> signature_contribution list" where
  "counted_replies s = (if ms_scheme s = MuSig2 then ms_partials s else ms_signatures s)"

definition reply_valid :: "multisig_sdk \<Rightarrow> session \<Rightarrow> signature_contribution \<Rightarrow> bool" where
  "reply_valid sdk s p = (if ms_scheme s = MuSig2 then isMusig2PartialOf sdk s (sc_pubkey p) (sc_sig p)
     else classical_valid sdk (sc_sig p) (ms_msgHash s) (sc_pubkey p))"

text \<open>
  Property C30. Ready means signed: after any sequence of operations on a created session, if it is
  ready to finalize, finalized or broadcast, then at least threshold different cosigners of the
  session have each contributed a signature that verifies for the session's message hash.
\<close>

theorem ready_means_signed:
  assumes "createMultisigSigningSession now uuid w ch c h psbt summary = Inr s0"
    and "s = foldl (session_step sdk) s0 evs"
    and "ms_status s \<in> {ReadyToFinalize, Finalized, session_status.Broadcast}"
  shows "ms_threshold s0 \<le> int (card (sc_pubkey ` set (counted_replies s)))
    \<and> sc_pubkey ` set (counted_replies s) \<subseteq> set (ms_cosigners s0) \<and> (\<forall>p \<in> set (counted_replies s). reply_valid sdk s p)"
proof -
  have inv: "session_inv sdk s" and le: "session_le s0 s"
    using multisig.inv_run [OF session_inv_create [OF assms(1)] run_ok_True, where es = evs]
      multisig.le_run [OF session_inv_create [OF assms(1)] run_ok_True, where es = evs] assms(2) by auto
  have same: "ms_threshold s = ms_threshold s0" "ms_cosigners s = ms_cosigners s0" using le by (auto simp: session_le_def)
  have parts: "contributors_ok (ms_cosigners s) (map sc_pubkey (counted_replies s))"
    using inv by (simp add: session_inv_def counted_replies_def)
  have reach: "ms_threshold s \<le> int (length (counted_replies s))"
    using inv assms(3) by (simp only: session_inv_def phase_ok_def counted_replies_def)
  have valid: "\<forall>p \<in> set (counted_replies s). reply_valid sdk s p"
    using inv by (simp add: session_inv_def replies_valid_def counted_replies_def reply_valid_def)
  have "distinct (map sc_pubkey (counted_replies s))" "set (map sc_pubkey (counted_replies s)) \<subseteq> set (ms_cosigners s)"
    "ms_threshold s \<le> int (length (counted_replies s))" "\<forall>p \<in> set (counted_replies s). reply_valid sdk s p"
    using parts reach valid by (simp_all add: contributors_ok_def)
  moreover from this(1) have "card (sc_pubkey ` set (counted_replies s)) = length (counted_replies s)"
    using distinct_card [of "map sc_pubkey (counted_replies s)"] by simp
  ultimately show ?thesis using same by simp
qed

definition demo_config :: config where
  "demo_config = \<lparr>cf_id = ''c'', cf_scheme = P2WSH, cf_threshold = 1, cf_pubkeys = [''02'', ''03'']\<rparr>"

definition demo_hash :: string where
  "demo_hash = replicate 64 CHR ''a''"

definition demo_sdk :: multisig_sdk where
  "demo_sdk = \<lparr>sdk_verifier = True, sdk_musig2 = True, classical_valid = (\<lambda>sig h pk. take 2 sig = ''30''),
     is_point = (\<lambda>p. True), partial_valid = (\<lambda>a h ks sg k n. True), aggregate_nonces = (\<lambda>ns. Some (concat ns)),
     aggregate_signatures = (\<lambda>ss a h ks. Some (concat ss)),
     finalize_psbt = (\<lambda>p. Some (JObj [(''txHex'', JStr ''00'')])), sdk_finalizer = True, sdk_broadcaster = True,
     signing_allowed = True, tx_verifies = (\<lambda>t p. True)\<rparr>"

definition demo_session :: session where
  "demo_session = \<lparr>ms_id = ''i'', ms_wallet = ''w'', ms_chain = ''b'', ms_scheme = P2WSH, ms_threshold = 1,
     ms_cosigners = [''02'', ''03''], ms_msgHash = demo_hash, ms_psbt = [], ms_summary = [], ms_nonces = [],
     ms_aggNonce = None, ms_partials = [], ms_schnorr = None, ms_signatures = [], ms_status = CollectingSigs,
     ms_tx = None, ms_txid = None, ms_created = ''t'', ms_updated = ''t''\<rparr>"

lemma demo_created: "createMultisigSigningSession ''t'' ''i'' ''w'' ''b'' demo_config demo_hash [] [] = Inr demo_session"
proof -
  have "js_lower ''02'' = ''02''" "js_lower ''03'' = ''03''" "js_lower demo_hash = demo_hash" by code_simp+
  moreover have "hex_of_length 32 demo_hash" by code_simp
  ultimately show ?thesis by (simp add: createMultisigSigningSession_def demo_config_def demo_session_def)
qed

definition demo_sig :: string where
  "demo_sig = ''30'' @ replicate 18 CHR ''0''"

lemma demo_signed:
  "session_step demo_sdk demo_session (''u'', SignatureEv ''02'' demo_sig)
   = demo_session\<lparr>ms_signatures := [\<lparr>sc_pubkey = ''02'', sc_sig = demo_sig, sc_at = ''u''\<rparr>], ms_status := ReadyToFinalize, ms_updated := ''u''\<rparr>"
proof -
  have "js_lower ''02'' = ''02''" "js_lower demo_sig = demo_sig" "even_hex demo_sig" "length demo_sig = 20" "take 2 demo_sig = ''30''"
    by code_simp+
  then show ?thesis
    by (simp add: session_step_def contributeMultisigSignature_def lowerHex_def persist_def demo_session_def demo_sdk_def Let_def)
qed

theorem ready_means_signed_witness:
  "ms_status (session_step demo_sdk demo_session (''u'', SignatureEv ''02'' demo_sig)) = ReadyToFinalize
   \<and> 1 \<le> int (card (sc_pubkey ` set (counted_replies (session_step demo_sdk demo_session (''u'', SignatureEv ''02'' demo_sig)))))"
proof -
  let ?s = "session_step demo_sdk demo_session (''u'', SignatureEv ''02'' demo_sig)"
  have r: "ms_status ?s = ReadyToFinalize" by (simp add: demo_signed)
  have "?s = foldl (session_step demo_sdk) demo_session [(''u'', SignatureEv ''02'' demo_sig)]" by simp
  from ready_means_signed [OF demo_created this] r show ?thesis by (simp add: demo_session_def)
qed

text \<open>
  A session only goes forward: over any sequence of operations its status never goes
  back, a broadcast or cancelled session never changes again, no contribution is dropped or altered,
  finalized bytes are never replaced, and the terms it was created with stay.
\<close>

lemma session_only_progresses:
  assumes "createMultisigSigningSession now uuid w ch c h psbt summary = Inr s0"
  shows "session_le (foldl (session_step sdk) s0 evs) (foldl (session_step sdk) s0 (evs @ evs'))"
  using multisig.le_run [OF multisig.inv_run [OF session_inv_create [OF assms] run_ok_True, where es = evs] run_ok_True, where es = evs']
  by simp

section \<open>Aggregation and acceptance\<close>

lemma find_distinct:
  assumes "distinct (map f xs)" "distinct (map f ys)" "set xs = set ys"
  shows "find (\<lambda>x. f x = k) xs = find (\<lambda>x. f x = k) ys"
proof -
  have *: "find (\<lambda>x. f x = k) zs = Some x \<longleftrightarrow> x \<in> set zs \<and> f x = k" if "distinct (map f zs)" for zs x
    using that by (induction zs) auto
  show ?thesis
  proof (cases "find (\<lambda>x. f x = k) xs")
    case None
    with assms(3) show ?thesis by (metis find_None_iff)
  next
    case (Some x)
    with * [OF assms(1)] * [OF assms(2)] assms(3) show ?thesis by (metis (no_types, lifting))
  qed
qed

text \<open>
  Replies may arrive in any order: two well-formed sessions with the same cosigners and
  threshold that hold the same contributions hand the SDK the same nonces and the same partial
  signatures, in the same order, whatever order the contributions came in.
\<close>

lemma aggregation_ignores_arrival_order:
  assumes "session_inv sdk s" "session_inv sdk t"
    and "ms_cosigners s = ms_cosigners t" "ms_threshold s = ms_threshold t"
    and "set (ms_nonces s) = set (ms_nonces t)" "set (ms_partials s) = set (ms_partials t)"
  shows "ordered_nonces s = ordered_nonces t \<and> ordered_partials s = ordered_partials t"
proof -
  have "find (\<lambda>n. nc_pubkey n = pk) (ms_nonces s) = find (\<lambda>n. nc_pubkey n = pk) (ms_nonces t)" for pk
    by (rule find_distinct) (use assms in \<open>auto simp: session_inv_def contributors_ok_def\<close>)
  moreover have "find (\<lambda>p. sc_pubkey p = pk) (ms_partials s) = find (\<lambda>p. sc_pubkey p = pk) (ms_partials t)" for pk
    by (rule find_distinct) (use assms in \<open>auto simp: session_inv_def contributors_ok_def\<close>)
  ultimately show ?thesis using assms(3,4) by (simp add: ordered_nonces_def ordered_partials_def)
qed

definition demo_musig :: "nonce_contribution list \<Rightarrow> session" where
  "demo_musig ns = demo_session\<lparr>ms_scheme := MuSig2, ms_status := CollectingNonces, ms_nonces := ns\<rparr>"

definition demo_nonce :: "string \<Rightarrow> string \<Rightarrow> nonce_contribution" where
  "demo_nonce pk n = \<lparr>nc_pubkey = pk, nc_nonce = n, nc_at = ''t''\<rparr>"

text \<open>
  Exactly the pending cosigners' valid replies are accepted: while signatures are being
  collected and the verifier is available, a reply is accepted if and only if it is hex of the
  scheme's length, names a cosigner still listed as pending, and verifies; an accepted reply is
  appended, and a refused one leaves the record as it was.
\<close>

lemma signature_accepted_iff:
  assumes "ms_status s = CollectingSigs" "sdk_verifier sdk"
  shows "(fst (contributeMultisigSignature sdk now pk sig s) = None \<longleftrightarrow>
            even_hex sig \<and> js_lower pk \<in> set (pendingCosignerPubkeys s)
            \<and> (if ms_scheme s = MuSig2 then length sig = 64 else 16 \<le> length sig \<and> length sig \<le> 200)
            \<and> reply_valid sdk s \<lparr>sc_pubkey = js_lower pk, sc_sig = js_lower sig, sc_at = now\<rparr>)
     \<and> (if fst (contributeMultisigSignature sdk now pk sig s) = None
        then counted_replies (snd (contributeMultisigSignature sdk now pk sig s))
               = counted_replies s @ [\<lparr>sc_pubkey = js_lower pk, sc_sig = js_lower sig, sc_at = now\<rparr>]
        else snd (contributeMultisigSignature sdk now pk sig s) = s)"
proof (cases "ms_scheme s = MuSig2")
  case True
  with assms show ?thesis
    by (auto simp: contributeMultisigSignature_def pendingCosignerPubkeys_def reply_valid_def counted_replies_def
        lowerHex_def persist_def Let_def image_iff; metis)
next
  case False
  with assms show ?thesis
    by (auto simp: contributeMultisigSignature_def pendingCosignerPubkeys_def reply_valid_def counted_replies_def
        lowerHex_def persist_def Let_def image_iff; metis)
qed

end
