(* ===== verification/Xcw_Frames.thy ===== *)
theory Xcw_Frames
  imports Qr_Codec
begin

text \<open>
  The wallet's own PSBT-over-QR transport, \<^verbatim>\<open>core/src/uri/psbtQr.js\<close>: the encoder, the
  parser of one frame, the progressive collector the scanner feeds, and the one-shot decoder.
  SHA-256 comes from a package and is the parameter \<open>sha256\<close>, with a 256-bit result that the code
  lays out in 32 bytes. A thrown \<^verbatim>\<open>XcwChunkError\<close>, and the collector's error message, is
  a value of \<open>xcw_error\<close>.
\<close>

section \<open>Encoding\<close>

datatype xcw_error =
    Chunk_bytes_invalid
  | Empty_psbt
  | Chunk_bytes_too_small
  | Too_many_frames nat
  | Frame_not_string
  | Frame_too_long nat
  | Malformed_frame
  | Bad_chunk_index nat nat
  | Frame_count_over_cap nat
  | Base64_failed
  | Crc_mismatch nat nat
  | Total_mismatch nat nat
  | Chunk1_too_short
  | Conflicting_chunk nat
  | Hash_mismatch
  | No_frames
  | Incomplete nat "nat option"
  | Bad_psbt_type
  | Bad_psbt_hex

definition DEFAULT_CHUNK_BYTES :: js where
  "DEFAULT_CHUNK_BYTES = JNum (Fin 180)"

definition XCW_MAX_FRAMES :: nat where
  "XCW_MAX_FRAMES = 4096"

definition XCW_MAX_FRAME_CHARS :: nat where
  "XCW_MAX_FRAME_CHARS = 8 * 1024"

definition SHA256_LEN :: nat where
  "SHA256_LEN = 32"

definition hash_bytes :: "256 word \<Rightarrow> byte list" where
  "hash_bytes h = map (\<lambda>i. ucast (drop_bit (8 * (31 - i)) h)) [0..<32]"

definition normalizePsbtInput :: "psbt_input \<Rightarrow> xcw_error + byte list" where
  "normalizePsbtInput psbt = (case psbt of
     Psbt_bytes bytes \<Rightarrow> Inr bytes
   | Psbt_value (JStr text) \<Rightarrow>
       (case psbt_hex_bytes text of None \<Rightarrow> Inl Bad_psbt_hex | Some bytes \<Rightarrow> Inr bytes)
   | Psbt_value _ \<Rightarrow> Inl Bad_psbt_type)"

fun rest_pieces :: "nat \<Rightarrow> byte list \<Rightarrow> byte list list" where
  "rest_pieces k bytes =
     (if bytes = [] \<or> k = 0 then [] else take k bytes # rest_pieces k (drop k bytes))"

declare rest_pieces.simps [simp del]

definition xcw_frame :: "nat \<Rightarrow> nat \<Rightarrow> byte list \<Rightarrow> string" where
  "xcw_frame n tot content =
     ''XCW:'' @ nat_text n @ CHR ''/'' # nat_text tot @ CHR '':'' # word_hex8 (crc32 content)
       @ CHR '':'' # bytesToBase64 content"

fun emit_frames :: "byte list \<Rightarrow> nat \<Rightarrow> nat \<Rightarrow> byte list list \<Rightarrow> xcw_error + string list" where
  "emit_frames hash tot i [] = Inr []"
| "emit_frames hash tot i (payload # pieces) =
     (let content = (if i = 0 then hash @ payload else payload);
          frame = xcw_frame (i + 1) tot content in
      if length frame > XCW_MAX_FRAME_CHARS then Inl (Frame_too_long (length frame))
      else (case emit_frames hash tot (Suc i) pieces of
              Inl e \<Rightarrow> Inl e
            | Inr frames \<Rightarrow> Inr (frame # frames)))"

definition encodeXcwChunks ::
    "(byte list \<Rightarrow> 256 word) \<Rightarrow> js \<Rightarrow> psbt_input \<Rightarrow> xcw_error + string list" where
  "encodeXcwChunks sha256 opt_chunkBytes psbt =
     (case normalizePsbtInput psbt of
        Inl e \<Rightarrow> Inl e
      | Inr bytes \<Rightarrow>
          (let chunkBytes = js_coalesce opt_chunkBytes DEFAULT_CHUNK_BYTES in
           if \<not> is_integer chunkBytes \<or> fin_val chunkBytes < 32 then Inl Chunk_bytes_invalid
           else if bytes = [] then Inl Empty_psbt
           else
             let k = nat \<lfloor>fin_val chunkBytes\<rfloor>;
                 hash = hash_bytes (sha256 bytes);
                 firstPayloadCapacity = k - SHA256_LEN in
             if firstPayloadCapacity < 1 then Inl Chunk_bytes_too_small
             else
               let pieces = take firstPayloadCapacity bytes # rest_pieces k (drop firstPayloadCapacity bytes);
                   tot = length pieces in
               if tot > XCW_MAX_FRAMES then Inl (Too_many_frames tot)
               else emit_frames hash tot 0 pieces))"

section \<open>Parsing one frame\<close>

definition chunk_re :: "string \<Rightarrow> (string \<times> string \<times> string \<times> string) option" where
  "chunk_re s =
     (if take 4 s \<noteq> ''XCW:'' then None else
      let n = takeWhile is_digit (drop 4 s); r1 = dropWhile is_digit (drop 4 s) in
      if n = [] \<or> take 1 r1 \<noteq> ''/'' then None else
      let tot = takeWhile is_digit (drop 1 r1); r2 = dropWhile is_digit (drop 1 r1) in
      if tot = [] \<or> take 1 r2 \<noteq> '':'' then None else
      let crc = take 8 (drop 1 r2); r3 = drop 9 r2 in
      if length crc \<noteq> 8 \<or> \<not> list_all is_lower_hex crc \<or> take 1 r3 \<noteq> '':'' then None else
      let rest = drop 1 r3 in
      if rest = [] \<or> \<not> list_all (\<lambda>c. of_char c \<notin> {10, 13 :: nat}) rest then None
      else Some (n, tot, crc, rest))"

definition parseXcwChunk :: "js \<Rightarrow> xcw_error + nat \<times> nat \<times> byte list" where
  "parseXcwChunk value = (case value of
     JStr frame \<Rightarrow>
       (if length frame > XCW_MAX_FRAME_CHARS then Inl (Frame_too_long (length frame))
        else (case chunk_re (js_trim frame) of
          None \<Rightarrow> Inl Malformed_frame
        | Some (n_text, total_text, crcHex, b64) \<Rightarrow>
            (let n = dec_nat n_text; tot = dec_nat total_text in
             if \<not> (n \<ge> 1 \<and> tot \<ge> 1 \<and> n \<le> tot) then Inl (Bad_chunk_index n tot)
             else if tot > XCW_MAX_FRAMES then Inl (Frame_count_over_cap tot)
             else (case base64ToBytes b64 of
               None \<Rightarrow> Inl Base64_failed
             | Some content \<Rightarrow>
                 if word_hex8 (crc32 content) \<noteq> crcHex then Inl (Crc_mismatch n tot)
                 else Inr (n, tot, content)))))
   | _ \<Rightarrow> Inl Frame_not_string)"

section \<open>The collector\<close>

record collector =
  xc_total :: "nat option"
  xc_received :: "byte list option list"
  xc_receivedCount :: nat
  xc_complete :: bool
  xc_expectedHash :: "byte list option"
  xc_psbt :: "byte list option"
  xc_error :: "xcw_error option"

definition createXcwCollector :: collector where
  "createXcwCollector = \<lparr> xc_total = None, xc_received = [], xc_receivedCount = 0,
     xc_complete = False, xc_expectedHash = None, xc_psbt = None, xc_error = None \<rparr>"

definition reassemble :: "(byte list \<Rightarrow> 256 word) \<Rightarrow> collector \<Rightarrow> collector" where
  "reassemble sha256 st =
     (if Some (xc_receivedCount st) = xc_total st then
        let out = concat (map (case_option [] id) (xc_received st)) in
        if xc_expectedHash st \<noteq> Some (hash_bytes (sha256 out)) then st\<lparr> xc_error := Some Hash_mismatch \<rparr>
        else st\<lparr> xc_psbt := Some out, xc_complete := True \<rparr>
      else st)"

definition place_chunk :: "(byte list \<Rightarrow> 256 word) \<Rightarrow> nat \<Rightarrow> byte list \<Rightarrow> collector \<Rightarrow> collector" where
  "place_chunk sha256 n content st =
     (if n = 1 then
        (if length content < SHA256_LEN then st\<lparr> xc_error := Some Chunk1_too_short \<rparr>
         else case xc_received st ! 0 of
           Some payload \<Rightarrow>
             (if xc_expectedHash st \<noteq> Some (take SHA256_LEN content) \<or> drop SHA256_LEN content \<noteq> payload
              then st\<lparr> xc_error := Some (Conflicting_chunk 1) \<rparr> else st)
         | None \<Rightarrow>
             reassemble sha256 (st\<lparr> xc_expectedHash := Some (take SHA256_LEN content),
               xc_received := (xc_received st)[0 := Some (drop SHA256_LEN content)],
               xc_receivedCount := xc_receivedCount st + 1 \<rparr>))
      else
        (case xc_received st ! (n - 1) of
           Some payload \<Rightarrow>
             (if content \<noteq> payload then st\<lparr> xc_error := Some (Conflicting_chunk n) \<rparr> else st)
         | None \<Rightarrow>
             reassemble sha256 (st\<lparr> xc_received := (xc_received st)[n - 1 := Some content],
               xc_receivedCount := xc_receivedCount st + 1 \<rparr>)))"

definition addChunkToCollector :: "(byte list \<Rightarrow> 256 word) \<Rightarrow> collector \<Rightarrow> js \<Rightarrow> collector" where
  "addChunkToCollector sha256 st frame =
     (if xc_complete st \<or> xc_error st \<noteq> None then st
      else (case parseXcwChunk frame of
        Inl e \<Rightarrow> st\<lparr> xc_error := Some e \<rparr>
      | Inr (n, tot, content) \<Rightarrow>
          (case xc_total st of
             None \<Rightarrow> place_chunk sha256 n content
               (st\<lparr> xc_total := Some tot, xc_received := replicate tot None \<rparr>)
           | Some t \<Rightarrow>
               if t \<noteq> tot then st\<lparr> xc_error := Some (Total_mismatch tot t) \<rparr>
               else place_chunk sha256 n content st)))"

fun collect_all :: "(byte list \<Rightarrow> 256 word) \<Rightarrow> collector \<Rightarrow> js list \<Rightarrow> xcw_error + collector" where
  "collect_all sha256 st [] = Inr st"
| "collect_all sha256 st (frame # frames) =
     (let st' = addChunkToCollector sha256 st frame in
      case xc_error st' of Some e \<Rightarrow> Inl e | None \<Rightarrow> collect_all sha256 st' frames)"

definition decodeXcwChunks :: "(byte list \<Rightarrow> 256 word) \<Rightarrow> js list \<Rightarrow> xcw_error + byte list \<times> string" where
  "decodeXcwChunks sha256 frames =
     (if frames = [] then Inl No_frames
      else (case collect_all sha256 createXcwCollector frames of
        Inl e \<Rightarrow> Inl e
      | Inr st \<Rightarrow>
          (case (xc_complete st, xc_psbt st) of
             (True, Some psbt) \<Rightarrow> Inr (psbt, bytesToHex psbt)
           | _ \<Rightarrow> Inl (Incomplete (xc_receivedCount st) (xc_total st)))))"

section \<open>A frame that was written is read back\<close>

lemma length_hash_bytes [simp]: "length (hash_bytes h) = 32"
  by (simp add: hash_bytes_def)

lemma takeWhile_digits: "list_all is_digit s \<Longrightarrow> \<not> is_digit c \<Longrightarrow> takeWhile is_digit (s @ c # t) = s"
  and dropWhile_digits: "list_all is_digit s \<Longrightarrow> \<not> is_digit c \<Longrightarrow> dropWhile is_digit (s @ c # t) = c # t"
  by (induction s) auto

lemma separators_not_digits: "\<not> is_digit CHR ''/''" "\<not> is_digit CHR '':''"
  by (simp_all add: is_digit_def)

lemma chunk_re_frame:
  assumes "list_all is_lower_hex crc" "length crc = 8" "rest \<noteq> []" "list_all (\<lambda>c. \<not> js_space c) rest"
  shows "chunk_re (''XCW:'' @ nat_text n @ CHR ''/'' # nat_text tot @ CHR '':'' # crc @ CHR '':'' # rest)
    = Some (nat_text n, nat_text tot, crc, rest)"
proof -
  have "list_all (\<lambda>c. of_char c \<notin> {10, 13 :: nat}) rest"
    using assms(4) by (auto simp: list_all_iff js_space_def)
  then show ?thesis
    using assms(1-3)
    by (simp add: chunk_re_def takeWhile_digits dropWhile_digits separators_not_digits Let_def)
qed

lemma digit_not_space: "is_digit c \<Longrightarrow> \<not> js_space c"
proof -
  have "list_all (\<lambda>c. \<not> js_space c) ''0123456789''" by code_simp
  then show "is_digit c \<Longrightarrow> \<not> js_space c" unfolding is_digit_def list_all_iff by blast
qed

lemma lower_hex_not_space: "is_lower_hex c \<Longrightarrow> \<not> js_space c"
proof -
  have "list_all (\<lambda>c. \<not> js_space c) ''0123456789abcdef''" by code_simp
  then show "is_lower_hex c \<Longrightarrow> \<not> js_space c" unfolding is_lower_hex_def list_all_iff by blast
qed

lemma nat_text_no_space [simp]: "list_all (\<lambda>c. \<not> js_space c) (nat_text n)"
  using nat_text_digits [of n] digit_not_space by (auto simp: list_all_iff)

lemma word_hex8_no_space [simp]: "list_all (\<lambda>c. \<not> js_space c) (word_hex8 w)"
  using word_hex8_digits(1) [of w] lower_hex_not_space by (auto simp: list_all_iff)

lemma base64_no_space [simp]: "list_all (\<lambda>c. \<not> js_space c) (bytesToBase64 bs)"
  using bytesToBase64_plain [of bs] by (simp add: list_all_iff)

lemma frame_text_trim:
  "js_trim (''XCW:'' @ nat_text n @ CHR ''/'' # nat_text tot @ CHR '':'' # word_hex8 w @ CHR '':'' # bytesToBase64 bs)
   = ''XCW:'' @ nat_text n @ CHR ''/'' # nat_text tot @ CHR '':'' # word_hex8 w @ CHR '':'' # bytesToBase64 bs"
proof (rule js_trim_no_space)
  have "\<not> js_space CHR ''X''" "\<not> js_space CHR ''C''" "\<not> js_space CHR ''W''" "\<not> js_space CHR '':''"
    "\<not> js_space CHR ''/''" by code_simp+
  then show "list_all (\<lambda>c. \<not> js_space c) (''XCW:'' @ nat_text n @ CHR ''/'' # nat_text tot @ CHR '':'' #
      word_hex8 w @ CHR '':'' # bytesToBase64 bs)"
    by simp
qed

lemma parse_frame_text:
  assumes "1 \<le> n" "n \<le> tot" "tot \<le> XCW_MAX_FRAMES" "content \<noteq> []"
    and "length (''XCW:'' @ nat_text n @ CHR ''/'' # nat_text tot @ CHR '':'' # word_hex8 w
      @ CHR '':'' # bytesToBase64 content) \<le> XCW_MAX_FRAME_CHARS"
  shows "parseXcwChunk (JStr (''XCW:'' @ nat_text n @ CHR ''/'' # nat_text tot @ CHR '':'' # word_hex8 w
      @ CHR '':'' # bytesToBase64 content)) =
    (if crc32 content = w then Inr (n, tot, content) else Inl (Crc_mismatch n tot))"
  using assms word_hex8_inj unfolding parseXcwChunk_def frame_text_trim
  by (auto simp: frame_text_trim chunk_re_frame Let_def simp del: append.simps)

section \<open>The collector over a complete set of frames\<close>

lemma length_xcw_frame: "length (xcw_frame n tot content) =
    15 + length (nat_text n) + length (nat_text tot) + (length content + 2) div 3 * 4"
  by (simp add: xcw_frame_def bytesToBase64_def length_b64_groups)

lemma parse_xcw_frame:
  assumes "1 \<le> n" "n \<le> tot" "tot \<le> XCW_MAX_FRAMES" "content \<noteq> []"
    and "length (xcw_frame n tot content) \<le> XCW_MAX_FRAME_CHARS"
  shows "parseXcwChunk (JStr (xcw_frame n tot content)) = Inr (n, tot, content)"
  using parse_frame_text [OF assms(1-4), of "crc32 content"] assms(5) unfolding xcw_frame_def by simp

definition piece_content :: "byte list \<Rightarrow> byte list list \<Rightarrow> nat \<Rightarrow> byte list" where
  "piece_content hash pieces i = (if i = 0 then hash @ pieces ! i else pieces ! i)"

lemma emit_frames_correct:
  "emit_frames hash tot i pieces = Inr frames \<Longrightarrow>
   length frames = length pieces \<and>
   (\<forall>j < length pieces. frames ! j =
      xcw_frame (i + j + 1) tot (if i + j = 0 then hash @ pieces ! j else pieces ! j)
    \<and> length (frames ! j) \<le> XCW_MAX_FRAME_CHARS)"
proof (induction pieces arbitrary: i frames)
  case (Cons payload pieces)
  then obtain fs where fs: "emit_frames hash tot (Suc i) pieces = Inr fs"
    "frames = xcw_frame (i + 1) tot (if i = 0 then hash @ payload else payload) # fs"
    "length (hd frames) \<le> XCW_MAX_FRAME_CHARS"
    by (auto simp: Let_def split: if_splits sum.splits)
  from Cons.IH [OF fs(1)] fs(2,3) show ?case
    by (auto simp: nth_Cons split: nat.split)
qed simp

lemma rest_pieces_concat: "0 < k \<Longrightarrow> concat (rest_pieces k bytes) = bytes"
  by (induction k bytes rule: rest_pieces.induct) (subst rest_pieces.simps, auto)

lemma rest_pieces_nonempty: "p \<in> set (rest_pieces k bytes) \<Longrightarrow> p \<noteq> [] \<and> length p \<le> k"
  by (induction k bytes rule: rest_pieces.induct)
     (subst (asm) (2) rest_pieces.simps, auto split: if_splits)

lemma length_rest_pieces: "0 < k \<Longrightarrow> length (rest_pieces k bytes) = (length bytes + k - 1) div k"
proof (induction k bytes rule: rest_pieces.induct)
  case (1 k bytes)
  show ?case
  proof (cases "bytes = []")
    case True
    with 1 show ?thesis by (subst rest_pieces.simps) simp
  next
    case False
    have "(length bytes + k - 1) div k = Suc ((length bytes - k + k - 1) div k)"
    proof (cases "k \<le> length bytes")
      case True
      with 1 show ?thesis by (subst le_div_geq) auto
    next
      case le: False
      then have "k \<le> length bytes + k - 1" "length bytes + k - 1 < 2 * k"
        using False by (cases bytes; simp)+
      then have "(length bytes + k - 1) div k = 1" by (intro div_nat_eqI) simp_all
      with le 1 show ?thesis by simp
    qed
    with False 1 show ?thesis by (subst rest_pieces.simps) simp
  qed
qed

definition shown :: "(byte list \<Rightarrow> 256 word) \<Rightarrow> byte list list \<Rightarrow> string list \<Rightarrow> bool" where
  "shown sha256 pieces frames \<longleftrightarrow>
     pieces \<noteq> [] \<and> (\<forall>p \<in> set (tl pieces). p \<noteq> []) \<and> length pieces \<le> XCW_MAX_FRAMES \<and>
     emit_frames (hash_bytes (sha256 (concat pieces))) (length pieces) 0 pieces = Inr frames"

definition collected :: "(byte list \<Rightarrow> 256 word) \<Rightarrow> byte list list \<Rightarrow> nat set \<Rightarrow> collector" where
  "collected sha256 pieces S = \<lparr> xc_total = (if S = {} then None else Some (length pieces)),
     xc_received = (if S = {} then []
       else map (\<lambda>i. if i \<in> S then Some (pieces ! i) else None) [0..<length pieces]),
     xc_receivedCount = card S,
     xc_complete = (S = {..<length pieces}),
     xc_expectedHash = (if 0 \<in> S then Some (hash_bytes (sha256 (concat pieces))) else None),
     xc_psbt = (if S = {..<length pieces} then Some (concat pieces) else None),
     xc_error = None \<rparr>"

lemma shown_frame_at:
  assumes "shown sha256 pieces frames" "i < length pieces"
  shows "parseXcwChunk (JStr (frames ! i)) =
    Inr (i + 1, length pieces, piece_content (hash_bytes (sha256 (concat pieces))) pieces i)"
proof -
  let ?c = "piece_content (hash_bytes (sha256 (concat pieces))) pieces i"
  have em: "emit_frames (hash_bytes (sha256 (concat pieces))) (length pieces) 0 pieces = Inr frames"
    using assms(1) by (simp add: shown_def)
  have e: "frames ! i = xcw_frame (i + 1) (length pieces) ?c" "length (frames ! i) \<le> XCW_MAX_FRAME_CHARS"
    using emit_frames_correct [THEN conjunct2, rule_format, OF em assms(2)]
    by (cases "i = 0"; simp add: piece_content_def)+
  have "?c \<noteq> []"
    using assms length_hash_bytes [of "sha256 (concat pieces)"] unfolding shown_def
    by (cases pieces; cases i) (auto simp: piece_content_def simp del: length_hash_bytes)
  with e assms show ?thesis by (simp add: parse_xcw_frame shown_def)
qed

lemma shown_count: "shown sha256 pieces frames \<Longrightarrow> length frames = length pieces"
  unfolding shown_def by (elim conjE) (rule emit_frames_correct [THEN conjunct1])

lemma shown_distinct:
  assumes "shown sha256 pieces frames" "i < length pieces" "j < length pieces" "frames ! i = frames ! j"
  shows "i = j"
  using shown_frame_at [OF assms(1,2)] unfolding assms(4) shown_frame_at [OF assms(1,3)] by simp

lemma received_insert:
  "i < length pieces \<Longrightarrow>
   (map (\<lambda>j. if j \<in> S then Some (pieces ! j) else None) [0..<length pieces])[i := Some (pieces ! i)]
   = map (\<lambda>j. if j = i \<or> j \<in> S then Some (pieces ! j) else None) [0..<length pieces]"
  by (rule nth_equalityI) (auto simp: nth_list_update)

lemma pieces_all: "map (case_option [] id)
    (map (\<lambda>j. if j \<in> {..<length pieces} then Some (pieces ! j) else None) [0..<length pieces]) = pieces"
  by (rule nth_equalityI) simp_all

lemma card_full: "S \<subseteq> {..<n} \<Longrightarrow> card S = n \<longleftrightarrow> S = {..<(n :: nat)}"
  using card_subset_eq [of "{..<n}" S] by auto

text \<open>The state between the slot's update and the check for completeness.\<close>

definition with_piece :: "(byte list \<Rightarrow> 256 word) \<Rightarrow> byte list list \<Rightarrow> nat \<Rightarrow> nat set \<Rightarrow> collector" where
  "with_piece sha256 pieces i S = (collected sha256 pieces (insert i S))\<lparr> xc_complete := False, xc_psbt := None \<rparr>"

lemma reassemble_with_piece:
  assumes "i < length pieces" "S \<subseteq> {..<length pieces}" "pieces \<noteq> []"
  shows "reassemble sha256 (with_piece sha256 pieces i S) = collected sha256 pieces (insert i S)"
proof (cases "insert i S = {..<length pieces}")
  case True
  then have z: "0 \<in> insert i S" using assms(3) by auto
  have "card (insert i S) = length pieces" using True by simp
  with True z show ?thesis
    using pieces_all [of pieces] unfolding reassemble_def with_piece_def collected_def
    by (simp add: Let_def lessThan_empty_iff del: map_map card_insert_disjoint)
next
  case False
  then have "card (insert i S) \<noteq> length pieces"
    using card_full [of "insert i S" "length pieces"] assms by blast
  with False show ?thesis
    unfolding reassemble_def with_piece_def collected_def by simp
qed

definition opened :: "(byte list \<Rightarrow> 256 word) \<Rightarrow> byte list list \<Rightarrow> nat set \<Rightarrow> collector" where
  "opened sha256 pieces S = (collected sha256 pieces S)\<lparr> xc_total := Some (length pieces),
     xc_received := map (\<lambda>i. if i \<in> S then Some (pieces ! i) else None) [0..<length pieces] \<rparr>"

lemma opened_again: "S \<noteq> {} \<Longrightarrow> opened sha256 pieces S = collected sha256 pieces S"
  by (simp add: opened_def collected_def)

lemma opened_first: "(collected sha256 pieces {})\<lparr> xc_total := Some (length pieces),
    xc_received := replicate (length pieces) None \<rparr> = opened sha256 pieces {}"
  by (simp add: opened_def map_replicate_const)

lemma place_new_piece:
  assumes "i < length pieces" "i \<notin> S" "S \<subseteq> {..<length pieces}"
  shows "with_piece sha256 pieces i S =
    (if i = 0 then (opened sha256 pieces S)\<lparr> xc_expectedHash := Some (hash_bytes (sha256 (concat pieces))),
        xc_received := (xc_received (opened sha256 pieces S))[0 := Some (pieces ! 0)],
        xc_receivedCount := xc_receivedCount (opened sha256 pieces S) + 1 \<rparr>
     else (opened sha256 pieces S)\<lparr> xc_received := (xc_received (opened sha256 pieces S))[i := Some (pieces ! i)],
        xc_receivedCount := xc_receivedCount (opened sha256 pieces S) + 1 \<rparr>)"
proof -
  have "finite S" using assms(3) finite_subset by blast
  then have "card (insert i S) = card S + 1" using assms(2) by simp
  moreover have "S \<noteq> {..<length pieces}" using assms(1,2) by auto
  ultimately show ?thesis
    using received_insert [OF assms(1), of S]
    by (cases "i = 0") (simp_all add: with_piece_def opened_def collected_def)
qed

lemma place_piece:
  assumes "i < length pieces" "S \<subseteq> {..<length pieces}" "pieces \<noteq> []"
  shows "place_chunk sha256 (i + 1) (piece_content (hash_bytes (sha256 (concat pieces))) pieces i)
    (opened sha256 pieces S) = collected sha256 pieces (insert i S)"
proof (cases "i \<in> S")
  case True
  then have o: "opened sha256 pieces S = collected sha256 pieces S" by (intro opened_again) blast
  have r: "xc_received (collected sha256 pieces S) ! i = Some (pieces ! i)"
    using True assms(1) by (auto simp: collected_def)
  show ?thesis
  proof (cases "i = 0")
    case zero: True
    have "xc_expectedHash (collected sha256 pieces S) = Some (hash_bytes (sha256 (concat pieces)))"
      using True zero by (simp add: collected_def)
    with True zero r show ?thesis
      by (simp add: place_chunk_def o piece_content_def SHA256_LEN_def insert_absorb)
  next
    case False
    with True r show ?thesis
      by (simp add: place_chunk_def o piece_content_def insert_absorb)
  qed
next
  case False
  have r: "xc_received (opened sha256 pieces S) ! i = None"
    using False assms(1) by (simp add: opened_def)
  show ?thesis
  proof (cases "i = 0")
    case zero: True
    then show ?thesis
      using r reassemble_with_piece [OF assms, of sha256] place_new_piece [OF assms(1) False assms(2), of sha256]
      by (simp add: place_chunk_def piece_content_def SHA256_LEN_def)
  next
    case pos: False
    then show ?thesis
      using r reassemble_with_piece [OF assms, of sha256] place_new_piece [OF assms(1) False assms(2), of sha256]
      by (simp add: place_chunk_def piece_content_def)
  qed
qed

lemma add_shown_frame:
  assumes "shown sha256 pieces frames" "i < length pieces" "S \<subseteq> {..<length pieces}"
  shows "addChunkToCollector sha256 (collected sha256 pieces S) (JStr (frames ! i)) =
    collected sha256 pieces (insert i S)"
proof (cases "S = {..<length pieces}")
  case True
  then have "insert i S = S" using assms(2) by auto
  with True show ?thesis by (simp add: addChunkToCollector_def collected_def)
next
  case False
  have ne: "pieces \<noteq> []" using assms(1) by (simp add: shown_def)
  have c: "\<not> xc_complete (collected sha256 pieces S)" "xc_error (collected sha256 pieces S) = None"
    using False by (simp_all add: collected_def)
  show ?thesis
  proof (cases "S = {}")
    case True
    then show ?thesis
      using c place_piece [OF assms(2,3) ne, of sha256] opened_first [of pieces sha256]
      by (simp add: addChunkToCollector_def shown_frame_at [OF assms(1,2)]) (simp add: collected_def)
  next
    case S: False
    then have "xc_total (collected sha256 pieces S) = Some (length pieces)" by (simp add: collected_def)
    with c S show ?thesis
      using place_piece [OF assms(2,3) ne, of sha256] opened_again [OF S, of sha256 pieces]
      by (simp add: addChunkToCollector_def shown_frame_at [OF assms(1,2)])
  qed
qed

lemma collect_shown:
  assumes "shown sha256 pieces frames"
  shows "\<forall>i \<in> set js. i < length pieces \<Longrightarrow> S \<subseteq> {..<length pieces} \<Longrightarrow>
    collect_all sha256 (collected sha256 pieces S) (map (\<lambda>i. JStr (frames ! i)) js) =
    Inr (collected sha256 pieces (set js \<union> S))"
proof (induction js arbitrary: S)
  case (Cons i js)
  have "xc_error (collected sha256 pieces (insert i S)) = None" by (simp add: collected_def)
  with Cons add_shown_frame [OF assms, of i S] show ?case
    by (simp add: Let_def)
qed simp

lemma decode_shown:
  assumes "shown sha256 pieces frames" "set scans = set frames"
  shows "decodeXcwChunks sha256 (map JStr scans) = Inr (concat pieces, bytesToHex (concat pieces))"
proof -
  have ne: "pieces \<noteq> []" using assms(1) by (simp add: shown_def)
  have len: "length frames = length pieces" by (rule shown_count [OF assms(1)])
  define at_frame where "at_frame s = (SOME i. i < length pieces \<and> frames ! i = s)" for s
  have at: "at_frame s < length pieces \<and> frames ! at_frame s = s" if "s \<in> set scans" for s
    unfolding at_frame_def by (rule someI_ex) (use that assms(2) len in \<open>auto simp: in_set_conv_nth\<close>)
  let ?js = "map at_frame scans"
  have scans: "map JStr scans = map (\<lambda>i. JStr (frames ! i)) ?js" using at by simp
  have full: "set ?js = {..<length pieces}"
  proof
    show "set ?js \<subseteq> {..<length pieces}" using at by auto
    show "{..<length pieces} \<subseteq> set ?js"
    proof
      fix i assume "i \<in> {..<length pieces}"
      then have i: "i < length pieces" "frames ! i \<in> set scans" using assms(2) len by auto
      with at [OF i(2)] have "at_frame (frames ! i) = i"
        by (intro shown_distinct [OF assms(1)]) auto
      with i(2) show "i \<in> set ?js" by (metis image_eqI set_map)
    qed
  qed
  have "createXcwCollector = collected sha256 pieces {}"
    using ne by (auto simp: createXcwCollector_def collected_def lessThan_empty_iff)
  then have "collect_all sha256 createXcwCollector (map JStr scans) =
      Inr (collected sha256 pieces {..<length pieces})"
    using collect_shown [OF assms(1), of ?js "{}"] at full unfolding scans by simp
  moreover have "scans \<noteq> []" using full ne by (auto simp: lessThan_empty_iff)
  ultimately show ?thesis by (simp add: decodeXcwChunks_def collected_def)
qed

lemma encode_shown:
  assumes "encodeXcwChunks sha256 cb psbt = Inr frames" "normalizePsbtInput psbt = Inr bytes"
  shows "\<exists>pieces. shown sha256 pieces frames \<and> concat pieces = bytes"
proof -
  let ?k = "nat \<lfloor>fin_val (js_coalesce cb DEFAULT_CHUNK_BYTES)\<rfloor>"
  let ?pieces = "take (?k - SHA256_LEN) bytes # rest_pieces ?k (drop (?k - SHA256_LEN) bytes)"
  have k: "0 < ?k" "length ?pieces \<le> XCW_MAX_FRAMES"
    and em: "emit_frames (hash_bytes (sha256 bytes)) (length ?pieces) 0 ?pieces = Inr frames"
    using assms unfolding encodeXcwChunks_def by (simp_all add: Let_def split: if_splits)
  have "concat ?pieces = bytes" using rest_pieces_concat [OF k(1)] by simp
  with k em rest_pieces_nonempty show ?thesis
    unfolding shown_def by (intro exI [of _ ?pieces]) fastforce
qed

lemma emit_frames_short:
  "\<forall>p \<in> set pieces. length p \<le> 5000 \<Longrightarrow> length hash = 32 \<Longrightarrow> i + length pieces \<le> 4096 \<Longrightarrow> tot \<le> 4096 \<Longrightarrow>
   \<exists>frames. emit_frames hash tot i pieces = Inr frames"
proof (induction pieces arbitrary: i)
  case (Cons p pieces)
  let ?c = "if i = 0 then hash @ p else p"
  have "i + 1 < 10 ^ 4" "tot < 10 ^ 4" using Cons.prems by simp_all
  then have t: "length (nat_text (i + 1)) \<le> 4" "length (nat_text tot) \<le> 4"
    by (auto intro: nat_text_length_upto)
  have "length ?c \<le> 5032" using Cons.prems by (simp split: if_splits)
  then have "(length ?c + 2) div 3 \<le> 1700" by simp
  with t have "length (xcw_frame (i + 1) tot ?c) \<le> XCW_MAX_FRAME_CHARS"
    unfolding length_xcw_frame XCW_MAX_FRAME_CHARS_def by simp
  moreover obtain frames where "emit_frames hash tot (Suc i) pieces = Inr frames"
    using Cons.IH [of "Suc i"] Cons.prems by auto
  ultimately show ?case by (simp add: Let_def)
qed simp

interpretation xcw: frame_transport
  "\<lambda>cb bytes. case encodeXcwChunks sha256 cb (Psbt_bytes bytes) of Inr frames \<Rightarrow> Some frames | Inl e \<Rightarrow> None"
  "\<lambda>scans. case decodeXcwChunks sha256 (map JStr scans) of Inr (psbt, text) \<Rightarrow> Some psbt | Inl e \<Rightarrow> None"
  for sha256
proof unfold_locales
  fix cb bytes frames scans
  assume a: "(case encodeXcwChunks sha256 cb (Psbt_bytes bytes) of Inr fs \<Rightarrow> Some fs | Inl e \<Rightarrow> None) = Some frames"
    and s: "set scans = set frames"
  then have "encodeXcwChunks sha256 cb (Psbt_bytes bytes) = Inr frames" by (simp split: sum.splits)
  then obtain pieces where p: "shown sha256 pieces frames" "concat pieces = bytes"
    using encode_shown [of sha256 cb "Psbt_bytes bytes" frames bytes] by (auto simp: normalizePsbtInput_def)
  from decode_shown [OF p(1) s] p(2)
  show "(case decodeXcwChunks sha256 (map JStr scans) of Inr (psbt, text) \<Rightarrow> Some psbt | Inl e \<Rightarrow> None) = Some bytes"
    by simp
qed

lemma encode_some:
  assumes "chunkBytes = JNum (Fin (of_nat k))" "normalizePsbtInput psbt = Inr bytes" "33 \<le> k" "k \<le> 5000"
    and "bytes \<noteq> []" "length bytes + 32 \<le> 4096 * k"
  shows "\<exists>frames. encodeXcwChunks sha256 chunkBytes psbt = Inr frames
    \<and> length frames = (length bytes + 32 + k - 1) div k"
proof -
  let ?rest = "rest_pieces k (drop (k - 32) bytes)"
  let ?pieces = "take (k - 32) bytes # ?rest"
  let ?hash = "hash_bytes (sha256 bytes)"
  have n: "length ?pieces = (length bytes + 32 + k - 1) div k"
  proof -
    have "length ?rest = (length bytes - (k - 32) + k - 1) div k"
      using assms(3) by (subst length_rest_pieces) simp_all
    moreover have "(length bytes + 32 + k - 1) div k = Suc ((length bytes - (k - 32) + k - 1) div k)"
    proof (cases "k - 32 \<le> length bytes")
      case True
      then have e: "length bytes + 32 + k - 1 = (length bytes - (k - 32) + k - 1) + k" using assms(3) by simp
      show ?thesis unfolding e using assms(3) by (subst div_add_self2) simp_all
    next
      case False
      then have "k \<le> length bytes + 32 + k - 1" "length bytes + 32 + k - 1 < 2 * k"
        using assms(3,5) by (cases bytes; simp)+
      then have "(length bytes + 32 + k - 1) div k = 1" by (intro div_nat_eqI) simp_all
      with False assms(3) show ?thesis by simp
    qed
    ultimately show ?thesis by simp
  qed
  have "length bytes + 32 + k - 1 < 4097 * k" using assms(3,6) by simp
  then have cap: "length ?pieces \<le> 4096"
    unfolding n using less_mult_imp_div_less [of "length bytes + 32 + k - 1" 4097 k] by simp
  have "\<forall>p \<in> set ?rest. length p \<le> 5000" using rest_pieces_nonempty assms(4) by fastforce
  then have "\<forall>p \<in> set ?pieces. length p \<le> 5000" using assms(4) by simp
  then obtain frames where em: "emit_frames ?hash (length ?pieces) 0 ?pieces = Inr frames"
    using emit_frames_short cap by (metis add_0 length_hash_bytes)
  have "encodeXcwChunks sha256 chunkBytes psbt = Inr frames"
  proof -
    have "js_coalesce chunkBytes DEFAULT_CHUNK_BYTES = JNum (Fin (of_nat k))"
      by (simp add: assms(1) js_coalesce_def)
    moreover have "\<not> (of_nat k :: rat) < 32" "\<not> k - 32 < 1" "nat \<lfloor>(of_nat k :: rat)\<rfloor> = k"
      using assms(3) by simp_all
    moreover have "\<not> length ?pieces > XCW_MAX_FRAMES" using cap by (simp add: XCW_MAX_FRAMES_def)
    ultimately show ?thesis
      unfolding encodeXcwChunks_def assms(2) sum.case Let_def SHA256_LEN_def
      by (simp only: is_integer.simps fin_val.simps floor_of_nat of_int_of_nat_eq assms(5) em if_False simp_thms)
  qed
  moreover have "length frames = length ?pieces" using emit_frames_correct [OF em] by blast
  ultimately show ?thesis using n by simp
qed

text \<open>Property C22. For every chunk size from 33 to 5000 bytes, a non-empty PSBT that fits in 4096 chunks with
  its hash is encoded, into as few frames as the size allows, and whatever the order in which the scanner
  sees those frames, and however often each, the decoder returns exactly the PSBT's bytes and their hex.\<close>

theorem xcw_transport:
  assumes "chunkBytes = JNum (Fin (of_nat k))" "33 \<le> k" "k \<le> 5000"
    and "normalizePsbtInput psbt = Inr bytes" "bytes \<noteq> []" "length bytes + 32 \<le> 4096 * k"
  shows "\<exists>frames. encodeXcwChunks sha256 chunkBytes psbt = Inr frames
    \<and> length frames = (length bytes + 32 + k - 1) div k
    \<and> (\<forall>scans. set scans = set frames \<longrightarrow>
          decodeXcwChunks sha256 (map JStr scans) = Inr (bytes, bytesToHex bytes))"
  using encode_some [OF assms(1,4,2,3,5,6), of sha256] encode_shown [OF _ assms(4)] decode_shown
  by blast

theorem xcw_transport_witness:
  "\<exists>frames. encodeXcwChunks (\<lambda>bs. 7) (JNum (Fin 180)) (Psbt_bytes [112, 115, 98, 116, 255]) = Inr frames
    \<and> length frames = 1
    \<and> (\<forall>scans. set scans = set frames \<longrightarrow>
          decodeXcwChunks (\<lambda>bs. 7) (map JStr scans) = Inr ([112, 115, 98, 116, 255], ''70736274ff''))"
proof -
  have "bytesToHex [112, 115, 98, 116, 255] = ''70736274ff''" by code_simp
  then show ?thesis
    using xcw_transport [of "JNum (Fin 180)" 180 "Psbt_bytes [112, 115, 98, 116, 255]" "[112, 115, 98, 116, 255]" "\<lambda>bs. 7"]
    by (simp add: normalizePsbtInput_def)
qed

text \<open>A chunk whose decoded bytes differ from what was sent within any four consecutive bytes is
  refused: its checksum text no longer matches, so the parser reports the mismatch and returns no content.\<close>

lemma xcw_burst_refused:
  assumes "length sent = length got" "length sent \<le> 4" "sent \<noteq> got"
    and "1 \<le> n" "n \<le> tot" "tot \<le> XCW_MAX_FRAMES"
    and "frame = ''XCW:'' @ nat_text n @ CHR ''/'' # nat_text tot @ CHR '':'' # word_hex8 (crc32 (u @ sent @ v))
      @ CHR '':'' # bytesToBase64 (u @ got @ v)"
    and "length frame \<le> XCW_MAX_FRAME_CHARS"
  shows "parseXcwChunk (JStr frame) = Inl (Crc_mismatch n tot)"
proof -
  have "u @ got @ v \<noteq> []" using assms(1,3) by auto
  with crc32_burst_detected [OF assms(1-3)] show ?thesis
    using parse_frame_text [OF assms(4-6)] assms(8) unfolding assms(7) by metis
qed

section \<open>What a decoded PSBT is made of\<close>

definition filled :: "'a option list \<Rightarrow> nat" where
  "filled rs = length (List.filter (\<lambda>r. r \<noteq> None) rs)"

lemma filled_empty [simp]: "filled (replicate n None) = 0" "filled [] = 0"
  by (simp_all add: filled_def)

definition slot_ok :: "js list \<Rightarrow> byte list option \<Rightarrow> nat \<Rightarrow> nat \<Rightarrow> byte list \<Rightarrow> bool" where
  "slot_ok scans hash t i p \<longleftrightarrow> (\<exists>g \<in> set scans.
     parseXcwChunk g = Inr (i + 1, t, if i = 0 then the hash @ p else p))"

definition collector_ok :: "(byte list \<Rightarrow> 256 word) \<Rightarrow> js list \<Rightarrow> collector \<Rightarrow> bool" where
  "collector_ok sha256 scans st \<longleftrightarrow>
     (case xc_total st of None \<Rightarrow> xc_received st = [] \<and> xc_receivedCount st = 0
      | Some t \<Rightarrow> 0 < t \<and> length (xc_received st) = t
          \<and> (\<forall>i < t. \<forall>p. xc_received st ! i = Some p \<longrightarrow> slot_ok scans (xc_expectedHash st) t i p))
     \<and> xc_receivedCount st = filled (xc_received st)
     \<and> (xc_complete st \<longrightarrow> xc_total st = Some (xc_receivedCount st)
          \<and> xc_psbt st = Some (concat (map (case_option [] id) (xc_received st)))
          \<and> xc_expectedHash st = Some (hash_bytes (sha256 (the (xc_psbt st)))))"

lemma parse_bounds: "parseXcwChunk g = Inr (n, t, content) \<Longrightarrow> 1 \<le> n \<and> n \<le> t \<and> t \<le> XCW_MAX_FRAMES"
  unfolding parseXcwChunk_def
  by (auto simp: Let_def split: js.splits option.splits if_splits)

lemma count_update:
  "i < length rs \<Longrightarrow> rs ! i = None \<Longrightarrow>
   filled (rs[i := Some p]) = filled rs + 1"
proof (induction rs arbitrary: i)
  case (Cons r rs)
  then show ?case by (cases i) (auto simp: filled_def)
qed simp

lemma count_all: "filled rs = length rs \<Longrightarrow> i < length rs \<Longrightarrow> \<exists>p. rs ! i = Some p"
proof -
  assume f: "filled rs = length rs" and i: "i < length rs"
  have "rs ! i \<noteq> None"
  proof
    assume "rs ! i = None"
    with i nth_mem [OF i] have "length (List.filter (\<lambda>r. r \<noteq> None) rs) < length rs"
      by (intro length_filter_less [of "rs ! i"]) simp_all
    with f show False by (simp add: filled_def)
  qed
  then show ?thesis by simp
qed

lemma collector_ok_error:
  "collector_ok sha256 scans st \<Longrightarrow> collector_ok sha256 scans (st\<lparr> xc_error := e \<rparr>)"
  unfolding collector_ok_def by (cases "xc_total st") simp_all

lemma reassemble_ok:
  assumes "collector_ok sha256 scans st" "\<not> xc_complete st"
  shows "collector_ok sha256 scans (reassemble sha256 st)"
proof (cases "Some (xc_receivedCount st) = xc_total st")
  case True
  let ?out = "concat (map (case_option [] id) (xc_received st))"
  show ?thesis
  proof (cases "xc_expectedHash st = Some (hash_bytes (sha256 ?out))")
    case h: True
    have "xc_total st = Some (xc_receivedCount st)" using True by simp
    with assms h show ?thesis by (auto simp: reassemble_def collector_ok_def)
  next
    case h: False
    then show ?thesis
      using collector_ok_error [OF assms(1)] True by (simp add: reassemble_def)
  qed
next
  case False
  with assms(1) show ?thesis by (simp add: reassemble_def)
qed

lemma collector_ok_more:
  assumes "collector_ok sha256 scans st" shows "collector_ok sha256 (scans @ [g]) st"
proof -
  have "slot_ok scans h t i p \<Longrightarrow> slot_ok (scans @ [g]) h t i p" for h t i p
    unfolding slot_ok_def by auto
  with assms show ?thesis unfolding collector_ok_def by (cases "xc_total st") simp_all
qed

lemma place_chunk_ok:
  assumes st: "collector_ok sha256 scans st" "\<not> xc_complete st" "xc_total st = Some t"
    and g: "parseXcwChunk g = Inr (n, t, content)" "g \<in> set scans"
  shows "collector_ok sha256 scans (place_chunk sha256 n content st)"
proof -
  have n: "1 \<le> n" "n \<le> t" using parse_bounds [OF g(1)] by auto
  have len: "length (xc_received st) = t" and slots: "\<And>i p. i < t \<Longrightarrow> xc_received st ! i = Some p \<Longrightarrow> slot_ok scans (xc_expectedHash st) t i p"
    and cnt: "xc_receivedCount st = filled (xc_received st)"
    using st by (simp_all add: collector_ok_def)
  have err: "collector_ok sha256 scans (st\<lparr> xc_error := e \<rparr>)" for e
    by (rule collector_ok_error [OF st(1)])
  show ?thesis
  proof (cases "xc_received st ! (n - 1)")
    case (Some p)
    then show ?thesis using err st(1) by (auto simp: place_chunk_def)
  next
    case None
    let ?p = "if n = 1 then drop SHA256_LEN content else content"
    let ?h = "if n = 1 then Some (take SHA256_LEN content) else xc_expectedHash st"
    let ?st = "st\<lparr> xc_expectedHash := ?h, xc_received := (xc_received st)[n - 1 := Some ?p],
      xc_receivedCount := xc_receivedCount st + 1 \<rparr>"
    have "slot_ok scans ?h t i p" if "i < t" "xc_received ?st ! i = Some p" for i p
    proof (cases "i = n - 1")
      case True
      with that len n have "p = ?p" by simp
      with True g n show ?thesis unfolding slot_ok_def by (intro bexI [of _ g]) auto
    next
      case False
      with that have "slot_ok scans (xc_expectedHash st) t i p" by (intro slots) simp_all
      with False show ?thesis unfolding slot_ok_def by auto
    qed
    then have "collector_ok sha256 scans ?st"
      using n len cnt st(2,3) None count_update [of "n - 1" "xc_received st" ?p]
      by (simp add: collector_ok_def)
    then have "collector_ok sha256 scans (reassemble sha256 ?st)"
      by (rule reassemble_ok) (simp add: st(2))
    then show ?thesis using None err by (cases "n = 1") (simp_all add: place_chunk_def)
  qed
qed

lemma add_chunk_ok:
  assumes "collector_ok sha256 scans st"
  shows "collector_ok sha256 (scans @ [g]) (addChunkToCollector sha256 st g)"
proof (cases "xc_complete st \<or> xc_error st \<noteq> None")
  case True
  then show ?thesis using collector_ok_more [OF assms] by (auto simp: addChunkToCollector_def)
next
  case False
  have more: "collector_ok sha256 (scans @ [g]) st" by (rule collector_ok_more [OF assms])
  have err: "collector_ok sha256 (scans @ [g]) (st\<lparr> xc_error := e \<rparr>)" for e
    by (rule collector_ok_error [OF more])
  show ?thesis
  proof (cases "parseXcwChunk g")
    case (Inl e)
    with False err show ?thesis by (simp add: addChunkToCollector_def)
  next
    case (Inr r)
    obtain n t content where r: "r = (n, t, content)" by (cases r)
    with Inr have p: "parseXcwChunk g = Inr (n, t, content)" by simp
    let ?st = "st\<lparr> xc_total := Some t, xc_received := replicate t None \<rparr>"
    have open_ok: "collector_ok sha256 (scans @ [g]) ?st" if "xc_total st = None"
      using more that False parse_bounds [OF p] by (simp add: collector_ok_def)
    show ?thesis
    proof (cases "xc_total st")
      case None
      with False p show ?thesis
        using place_chunk_ok [OF open_ok [OF None] _ _ p] by (simp add: addChunkToCollector_def)
    next
      case (Some t')
      with False p err show ?thesis
        using place_chunk_ok [OF more _ _ p] by (simp add: addChunkToCollector_def)
    qed
  qed
qed

lemma collect_all_ok:
  "collector_ok sha256 seen st \<Longrightarrow> collect_all sha256 st scans = Inr st' \<Longrightarrow> collector_ok sha256 (seen @ scans) st'"
proof (induction scans arbitrary: seen st)
  case (Cons g scans)
  then show ?case
    using Cons.IH [of "seen @ [g]" "addChunkToCollector sha256 st g"] add_chunk_ok
    by (simp add: Let_def split: option.splits)
qed simp

text \<open>Property C26. A PSBT that decodes is made only of accepted frames: it is the concatenation of one piece
  for each index of the announced total, each piece is the content of a scanned frame with that index and
  that total, and chunk 1's content starts with the SHA-256 of exactly the bytes returned.\<close>

theorem xcw_decode_integrity:
  assumes "decodeXcwChunks sha256 scans = Inr (psbt, text)"
  shows "\<exists>pieces. pieces \<noteq> [] \<and> psbt = concat pieces \<and> text = bytesToHex psbt
    \<and> (\<forall>i < length pieces. \<exists>g \<in> set scans. parseXcwChunk g =
          Inr (i + 1, length pieces, piece_content (hash_bytes (sha256 psbt)) pieces i))"
proof -
  obtain st where st: "collect_all sha256 createXcwCollector scans = Inr st" "xc_complete st"
    "xc_psbt st = Some psbt" "text = bytesToHex psbt"
    using assms by (auto simp: decodeXcwChunks_def split: if_splits sum.splits option.splits bool.splits)
  have "collector_ok sha256 [] createXcwCollector"
    by (simp add: collector_ok_def createXcwCollector_def)
  then have ok: "collector_ok sha256 scans st" using collect_all_ok st(1) by fastforce
  let ?rs = "xc_received st"
  have t: "xc_total st = Some (xc_receivedCount st)" "psbt = concat (map (case_option [] id) ?rs)"
    "xc_expectedHash st = Some (hash_bytes (sha256 psbt))"
    and c: "xc_receivedCount st = filled ?rs"
    using ok st(2,3) by (simp_all add: collector_ok_def)
  then have len: "length ?rs = xc_receivedCount st" "0 < xc_receivedCount st"
    and slots: "\<And>i p. i < length ?rs \<Longrightarrow> ?rs ! i = Some p \<Longrightarrow> slot_ok scans (xc_expectedHash st) (length ?rs) i p"
    using ok by (simp_all add: collector_ok_def)
  let ?pieces = "map (case_option [] id) ?rs"
  have "\<exists>g \<in> set scans. parseXcwChunk g =
      Inr (i + 1, length ?pieces, piece_content (hash_bytes (sha256 psbt)) ?pieces i)"
    if "i < length ?pieces" for i
  proof -
    from that obtain p where p: "?rs ! i = Some p" using count_all [of ?rs i] len c by auto
    with slots [of i p] that show ?thesis
      by (auto simp: slot_ok_def t(3) piece_content_def)
  qed
  with t(2) st(4) len show ?thesis by (intro exI [of _ ?pieces]) auto
qed

theorem xcw_decode_integrity_witness:
  "\<exists>frames. decodeXcwChunks (\<lambda>bs. 7) (map JStr frames) = Inr ([112, 115], ''7073'') \<and>
    (\<exists>pieces. pieces \<noteq> [] \<and> [112, 115] = concat pieces \<and> ''7073'' = bytesToHex [112, 115]
    \<and> (\<forall>i < length pieces. \<exists>g \<in> set (map JStr frames). parseXcwChunk g =
          Inr (i + 1, length pieces, piece_content (hash_bytes 7) pieces i)))"
proof -
  have h: "bytesToHex [112, 115] = ''7073''" by code_simp
  obtain frames where f: "encodeXcwChunks (\<lambda>bs. 7) (JNum (Fin (of_nat 180))) (Psbt_bytes [112, 115]) = Inr frames"
    using encode_some [of "JNum (Fin (of_nat 180))" 180 "Psbt_bytes [112, 115]" "[112, 115]" "\<lambda>bs. 7"]
    by (auto simp: normalizePsbtInput_def)
  then have "decodeXcwChunks (\<lambda>bs. 7) (map JStr frames) = Inr ([112, 115], ''7073'')"
    using encode_shown [of "\<lambda>bs. 7" "JNum (Fin (of_nat 180))" "Psbt_bytes [112, 115]"] decode_shown h
    by (fastforce simp: normalizePsbtInput_def)
  with xcw_decode_integrity [OF this] show ?thesis by blast
qed

end
