(* ===== verification/Bbqr_Frames.thy ===== *)
theory Bbqr_Frames
  imports Qr_Codec
begin

text \<open>
  The BBQr transport of \<^verbatim>\<open>core/src/uri/bbqrPsbt.js\<close>, shared with hardware wallets: the
  hex encoder, the frame parser, the decoder for its three encodings, and the format detector of
  \<^verbatim>\<open>qrPsbtFormat.js\<close>. The base32 decoder and the two inflate functions come from packages
  and are parameters (\<open>None\<close> when they throw).
\<close>

section \<open>Base-36 header fields\<close>

datatype bbqr_error =
    Bbqr_empty
  | Bbqr_payload_bytes
  | Bbqr_too_large nat
  | Bbqr_not_string
  | Bbqr_frame_too_short nat
  | Bbqr_bad_magic
  | Bbqr_bad_encoding char
  | Bbqr_bad_file_type char
  | Bbqr_bad_total nat
  | Bbqr_bad_index nat nat
  | Bbqr_no_frames
  | Bbqr_total_mismatch nat nat
  | Bbqr_encoding_mismatch char char
  | Bbqr_type_mismatch char char
  | Bbqr_payload_mismatch nat
  | Bbqr_missing_frame nat
  | Bbqr_not_psbt char
  | Bbqr_base36_length
  | Bbqr_base36_char char
  | Bbqr_base36_range nat
  | Bbqr_hex_payload
  | Bbqr_base32_payload
  | Bbqr_base32_failed
  | Bbqr_inflate_failed
  | Bbqr_bad_psbt_type
  | Bbqr_bad_psbt_hex

definition BBQR_BASE36_ALPHABET :: string where
  "BBQR_BASE36_ALPHABET = ''0123456789ABCDEFGHIJKLMNOPQRSTUVWXYZ''"

definition BBQR_MAX_FRAMES :: nat where
  "BBQR_MAX_FRAMES = 1295"

definition BBQR_ENCODINGS :: string where
  "BBQR_ENCODINGS = ''HBZ''"

definition BBQR_FILE_TYPES :: string where
  "BBQR_FILE_TYPES = ''PTRCUJX''"

definition base36_index :: "char \<Rightarrow> nat option" where
  "base36_index c = (let i = length (takeWhile (\<lambda>d. d \<noteq> up_char c) BBQR_BASE36_ALPHABET) in
     if i < 36 then Some i else None)"

fun base36_digits :: "nat \<Rightarrow> string \<Rightarrow> bbqr_error + nat" where
  "base36_digits n [] = Inr n"
| "base36_digits n (c # s) = (case base36_index c of
     None \<Rightarrow> Inl (Bbqr_base36_char c) | Some i \<Rightarrow> base36_digits (n * 36 + i) s)"

definition parseBase36 :: "string \<Rightarrow> bbqr_error + nat" where
  "parseBase36 s = (if length s \<noteq> 2 then Inl Bbqr_base36_length else base36_digits 0 s)"

definition formatBase36 :: "nat \<Rightarrow> bbqr_error + string" where
  "formatBase36 n = (if n > BBQR_MAX_FRAMES then Inl (Bbqr_base36_range n)
     else Inr [BBQR_BASE36_ALPHABET ! (n div 36 mod 36), BBQR_BASE36_ALPHABET ! (n mod 36)])"

section \<open>Encoding\<close>

definition bytesToHexUpper :: "byte list \<Rightarrow> string" where
  "bytesToHexUpper bytes = js_upper (bytesToHex bytes)"

definition normalizePsbtBytes :: "psbt_input \<Rightarrow> bbqr_error + byte list" where
  "normalizePsbtBytes psbt = (case psbt of
     Psbt_bytes bytes \<Rightarrow> Inr bytes
   | Psbt_value (JStr text) \<Rightarrow>
       (case psbt_hex_bytes text of None \<Rightarrow> Inl Bbqr_bad_psbt_hex | Some bytes \<Rightarrow> Inr bytes)
   | Psbt_value _ \<Rightarrow> Inl Bbqr_bad_psbt_type)"

fun emit_bbqr :: "byte list \<Rightarrow> nat \<Rightarrow> nat \<Rightarrow> nat list \<Rightarrow> bbqr_error + string list" where
  "emit_bbqr bytes k tot [] = Inr []"
| "emit_bbqr bytes k tot (i # is) =
     (case formatBase36 tot of Inl e \<Rightarrow> Inl e | Inr totalStr \<Rightarrow>
      case formatBase36 i of Inl e \<Rightarrow> Inl e | Inr indexStr \<Rightarrow>
      case emit_bbqr bytes k tot is of Inl e \<Rightarrow> Inl e | Inr frames \<Rightarrow>
        Inr ((''B$HP'' @ totalStr @ indexStr @ bytesToHexUpper (take k (drop (i * k) bytes))) # frames))"

definition encodeBbqrPsbtFrames :: "js \<Rightarrow> psbt_input \<Rightarrow> bbqr_error + string list" where
  "encodeBbqrPsbtFrames opt_payloadBytes psbt =
     (case normalizePsbtBytes psbt of
        Inl e \<Rightarrow> Inl e
      | Inr bytes \<Rightarrow>
          if bytes = [] then Inl Bbqr_empty
          else
            let payloadBytes = js_coalesce opt_payloadBytes (JNum (Fin 200)) in
            if \<not> is_integer payloadBytes \<or> fin_val payloadBytes < 1 then Inl Bbqr_payload_bytes
            else
              let k = nat \<lfloor>fin_val payloadBytes\<rfloor>; tot = (length bytes + k - 1) div k in
              if tot > BBQR_MAX_FRAMES then Inl (Bbqr_too_large tot)
              else emit_bbqr bytes k tot [0..<tot])"

section \<open>Parsing and decoding\<close>

record bbqr_frame =
  bq_encoding :: char
  bq_fileType :: char
  bq_total :: nat
  bq_index :: nat
  bq_payload :: string

definition parseBbqrFrame :: "js \<Rightarrow> bbqr_error + bbqr_frame" where
  "parseBbqrFrame value = (case value of
     JStr frame \<Rightarrow>
       (let trimmed = js_trim frame in
        if length trimmed < 8 then Inl (Bbqr_frame_too_short (length trimmed))
        else if take 2 trimmed \<noteq> ''B$'' then Inl Bbqr_bad_magic
        else if trimmed ! 2 \<notin> set BBQR_ENCODINGS then Inl (Bbqr_bad_encoding (trimmed ! 2))
        else if trimmed ! 3 \<notin> set BBQR_FILE_TYPES then Inl (Bbqr_bad_file_type (trimmed ! 3))
        else (case parseBase36 (take 2 (drop 4 trimmed)) of Inl e \<Rightarrow> Inl e | Inr tot \<Rightarrow>
              case parseBase36 (take 2 (drop 6 trimmed)) of Inl e \<Rightarrow> Inl e | Inr index \<Rightarrow>
                if tot < 1 \<or> tot > 1295 then Inl (Bbqr_bad_total tot)
                else if index \<ge> tot then Inl (Bbqr_bad_index index tot)
                else Inr \<lparr> bq_encoding = trimmed ! 2, bq_fileType = trimmed ! 3, bq_total = tot,
                  bq_index = index, bq_payload = drop 8 trimmed \<rparr>))
   | _ \<Rightarrow> Inl Bbqr_not_string)"

type_synonym bbqr_head = "nat \<times> char \<times> char"

fun fill_slots :: "bbqr_head option \<Rightarrow> string option list \<Rightarrow> js list
    \<Rightarrow> bbqr_error + bbqr_head option \<times> string option list" where
  "fill_slots head slots [] = Inr (head, slots)"
| "fill_slots head slots (raw # frames) =
     (case parseBbqrFrame raw of Inl e \<Rightarrow> Inl e | Inr parsed \<Rightarrow>
      case (case head of
          None \<Rightarrow> Inr ((bq_total parsed, bq_encoding parsed, bq_fileType parsed), replicate (bq_total parsed) None)
        | Some (tot, encoding, fileType) \<Rightarrow>
            if bq_total parsed \<noteq> tot then Inl (Bbqr_total_mismatch (bq_total parsed) tot)
            else if bq_encoding parsed \<noteq> encoding then Inl (Bbqr_encoding_mismatch (bq_encoding parsed) encoding)
            else if bq_fileType parsed \<noteq> fileType then Inl (Bbqr_type_mismatch (bq_fileType parsed) fileType)
            else Inr ((tot, encoding, fileType), slots)) of
        Inl e \<Rightarrow> Inl e
      | Inr (head', slots') \<Rightarrow>
          if slots' ! bq_index parsed \<noteq> None \<and> slots' ! bq_index parsed \<noteq> Some (bq_payload parsed)
          then Inl (Bbqr_payload_mismatch (bq_index parsed))
          else fill_slots (Some head') (slots'[bq_index parsed := Some (bq_payload parsed)]) frames)"

fun missing_slot :: "nat \<Rightarrow> string option list \<Rightarrow> nat option" where
  "missing_slot i [] = None"
| "missing_slot i (slot # slots) = (if slot = None then Some i else missing_slot (Suc i) slots)"

definition decodeHexUpper :: "string \<Rightarrow> bbqr_error + byte list" where
  "decodeHexUpper s = (let clean = js_upper s in
     if \<not> list_all (\<lambda>c. c \<in> set ''0123456789ABCDEF'') clean \<or> length clean mod 2 \<noteq> 0 then Inl Bbqr_hex_payload
     else Inr (hexToBytes clean))"

definition decodeBase32NoPad :: "(string \<Rightarrow> byte list option) \<Rightarrow> string \<Rightarrow> bbqr_error + byte list" where
  "decodeBase32NoPad base32_decode s = (let clean = js_upper s in
     if \<not> list_all (\<lambda>c. c \<in> set ''ABCDEFGHIJKLMNOPQRSTUVWXYZ234567'') clean then Inl Bbqr_base32_payload
     else (case base32_decode (clean @ replicate ((8 - length clean mod 8) mod 8) CHR ''='') of
             None \<Rightarrow> Inl Bbqr_base32_failed | Some bytes \<Rightarrow> Inr bytes))"

definition inflateZlib ::
    "(byte list \<Rightarrow> byte list option) \<Rightarrow> (byte list \<Rightarrow> byte list option) \<Rightarrow> byte list \<Rightarrow> bbqr_error + byte list" where
  "inflateZlib pakoInflate pakoInflateRaw compressed =
     (case pakoInflate compressed of Some bytes \<Rightarrow> Inr bytes | None \<Rightarrow>
      case pakoInflateRaw compressed of Some bytes \<Rightarrow> Inr bytes | None \<Rightarrow> Inl Bbqr_inflate_failed)"

record bbqr_packages =
  pk_base32 :: "string \<Rightarrow> byte list option"
  pk_inflate :: "byte list \<Rightarrow> byte list option"
  pk_inflateRaw :: "byte list \<Rightarrow> byte list option"

definition decode_payload :: "bbqr_packages \<Rightarrow> char \<Rightarrow> string \<Rightarrow> bbqr_error + byte list" where
  "decode_payload pk encoding joined =
     (if encoding = CHR ''H'' then decodeHexUpper joined
      else if encoding = CHR ''B'' then decodeBase32NoPad (pk_base32 pk) joined
      else if encoding = CHR ''Z'' then
        (case decodeBase32NoPad (pk_base32 pk) joined of Inl e \<Rightarrow> Inl e
         | Inr compressed \<Rightarrow> inflateZlib (pk_inflate pk) (pk_inflateRaw pk) compressed)
      else Inl (Bbqr_bad_encoding encoding))"

definition decodeBbqrFrames :: "bbqr_packages \<Rightarrow> js list \<Rightarrow> bbqr_error + byte list \<times> char \<times> char" where
  "decodeBbqrFrames pk frames =
     (if frames = [] then Inl Bbqr_no_frames
      else (case fill_slots None [] frames of
        Inl e \<Rightarrow> Inl e
      | Inr (None, slots) \<Rightarrow> Inl Bbqr_no_frames
      | Inr (Some (tot, encoding, fileType), slots) \<Rightarrow>
          (case missing_slot 0 slots of
             Some i \<Rightarrow> Inl (Bbqr_missing_frame i)
           | None \<Rightarrow>
               (case decode_payload pk encoding (concat (map (case_option [] id) slots)) of
                  Inl e \<Rightarrow> Inl e
                | Inr bytes \<Rightarrow> Inr (bytes, fileType, encoding)))))"

definition decodeBbqrPsbt :: "bbqr_packages \<Rightarrow> js list \<Rightarrow> bbqr_error + byte list \<times> string" where
  "decodeBbqrPsbt pk frames = (case decodeBbqrFrames pk frames of
     Inl e \<Rightarrow> Inl e
   | Inr (bytes, fileType, encoding) \<Rightarrow>
       if fileType \<noteq> CHR ''P'' then Inl (Bbqr_not_psbt fileType) else Inr (bytes, bytesToHex bytes))"

section \<open>Telling the formats apart\<close>

datatype qr_format = Fmt_xcw | Fmt_bbqr | Fmt_ur

definition detectQrFrameFormat :: "js \<Rightarrow> qr_format option" where
  "detectQrFrameFormat value = (case value of
     JStr frame \<Rightarrow>
       (let trimmed = js_trim frame in
        if trimmed = [] then None
        else if take 4 trimmed = ''XCW:'' then Some Fmt_xcw
        else if take 2 trimmed = ''B$'' \<and> length trimmed \<ge> 8 then Some Fmt_bbqr
        else if js_lower (take 3 trimmed) = ''ur:'' then Some Fmt_ur
        else None)
   | _ \<Rightarrow> None)"

section \<open>Base 36 and hex read back what was written\<close>

lemma base36_alphabet: "distinct BBQR_BASE36_ALPHABET" "length BBQR_BASE36_ALPHABET = 36"
    "list_all (\<lambda>c. up_char c = c \<and> \<not> js_space c) BBQR_BASE36_ALPHABET"
  by code_simp+

lemma takeWhile_index: "distinct xs \<Longrightarrow> n < length xs \<Longrightarrow> length (takeWhile (\<lambda>d. d \<noteq> xs ! n) xs) = n"
  by (induction xs arbitrary: n) (auto simp: nth_Cons split: nat.split)

lemma base36_index_nth [simp]: "n < 36 \<Longrightarrow> base36_index (BBQR_BASE36_ALPHABET ! n) = Some n"
  and base36_not_space [simp]: "n < 36 \<Longrightarrow> \<not> js_space (BBQR_BASE36_ALPHABET ! n)"
  using base36_alphabet takeWhile_index [OF base36_alphabet(1), of n]
  by (simp_all add: base36_index_def list_all_length)

lemma formatBase36_parse:
  assumes "formatBase36 n = Inr s"
  shows "length s = 2" "parseBase36 s = Inr n" "list_all (\<lambda>c. \<not> js_space c) s"
proof -
  have n: "n < 36 * 36" "s = [BBQR_BASE36_ALPHABET ! (n div 36 mod 36), BBQR_BASE36_ALPHABET ! (n mod 36)]"
    using assms unfolding formatBase36_def BBQR_MAX_FRAMES_def by (simp_all split: if_splits)
  then have "n div 36 mod 36 = n div 36" by (simp add: less_mult_imp_div_less)
  then show "length s = 2" "parseBase36 s = Inr n" "list_all (\<lambda>c. \<not> js_space c) s"
    unfolding n(2) parseBase36_def by simp_all
qed

lemma upper_hex_digits: "list_all (\<lambda>c. up_char c \<in> set ''0123456789ABCDEF'' \<and> up_char (up_char c) = up_char c
    \<and> hex_val (up_char c) = hex_val c \<and> \<not> js_space (up_char c)) ''0123456789abcdef''"
  by code_simp

lemma upper_hex_digit:
  assumes "is_lower_hex c"
  shows "up_char c \<in> set ''0123456789ABCDEF''" "up_char (up_char c) = up_char c"
    "hex_val (up_char c) = hex_val c" "\<not> js_space (up_char c)"
  using upper_hex_digits assms unfolding is_lower_hex_def list_all_iff by blast+

lemma hexToBytes_upper: "list_all is_lower_hex s \<Longrightarrow> hexToBytes (map up_char s) = hexToBytes s"
  by (induction s rule: hexToBytes.induct) (simp_all add: upper_hex_digit)

lemma js_upper_upper: "list_all is_lower_hex s \<Longrightarrow> js_upper (js_upper s) = js_upper s"
  by (induction s) (simp_all add: js_upper_def upper_hex_digit)

lemma decodeHexUpper_bytes [simp]: "decodeHexUpper (bytesToHexUpper bytes) = Inr bytes"
proof -
  have d: "list_all is_lower_hex (bytesToHex bytes)" by simp
  then have "list_all (\<lambda>c. c \<in> set ''0123456789ABCDEF'') (js_upper (bytesToHex bytes))"
    using upper_hex_digit(1) unfolding js_upper_def by (simp only: list_all_iff set_map ball_simps) blast
  with d show ?thesis
    by (simp add: decodeHexUpper_def bytesToHexUpper_def js_upper_upper Let_def)
       (simp add: js_upper_def hexToBytes_upper)
qed

lemma bytesToHexUpper_append: "bytesToHexUpper (xs @ ys) = bytesToHexUpper xs @ bytesToHexUpper ys"
  by (simp add: bytesToHexUpper_def bytesToHex_def js_upper_def)

lemma concat_hex_upper: "concat (map bytesToHexUpper pieces) = bytesToHexUpper (concat pieces)"
  by (induction pieces) (simp_all add: bytesToHexUpper_append, simp add: bytesToHexUpper_def js_upper_def)

lemma bytesToHexUpper_no_space: "list_all (\<lambda>c. \<not> js_space c) (bytesToHexUpper bytes)"
  using upper_hex_digit(4) bytesToHex_digits [of bytes]
  by (auto simp: bytesToHexUpper_def js_upper_def list_all_iff)

section \<open>Filling the slots\<close>

definition bbqr_head_of :: "bbqr_frame \<Rightarrow> bbqr_head" where
  "bbqr_head_of f = (bq_total f, bq_encoding f, bq_fileType f)"

lemma parse_index: "parseBbqrFrame g = Inr f \<Longrightarrow> bq_index f < bq_total f"
  unfolding parseBbqrFrame_def by (auto simp: Let_def split: js.splits if_splits sum.splits)

lemma fill_slots_Some:
  "fill_slots (Some (tot, e, ft)) slots gs = Inr (h, slots') \<Longrightarrow> length slots = tot \<Longrightarrow>
   h = Some (tot, e, ft) \<and> length slots' = tot
   \<and> (\<forall>i < tot. \<forall>p. slots ! i = Some p \<longrightarrow> slots' ! i = Some p)
   \<and> (\<forall>g \<in> set gs. \<exists>f. parseBbqrFrame g = Inr f \<and> bbqr_head_of f = (tot, e, ft)
        \<and> slots' ! bq_index f = Some (bq_payload f))
   \<and> (\<forall>i < tot. \<forall>p. slots' ! i = Some p \<longrightarrow> slots ! i = Some p
        \<or> (\<exists>g \<in> set gs. \<exists>f. parseBbqrFrame g = Inr f \<and> bq_index f = i \<and> bq_payload f = p))"
proof (induction gs arbitrary: slots)
  case (Cons g gs)
  obtain f where f: "parseBbqrFrame g = Inr f" "bbqr_head_of f = (tot, e, ft)"
    "slots ! bq_index f = None \<or> slots ! bq_index f = Some (bq_payload f)"
    "fill_slots (Some (tot, e, ft)) (slots[bq_index f := Some (bq_payload f)]) gs = Inr (h, slots')"
    using Cons.prems(1) by (auto simp: bbqr_head_of_def split: sum.splits if_splits)
  have i: "bq_index f < tot" using parse_index [OF f(1)] f(2) by (simp add: bbqr_head_of_def)
  note IH = Cons.IH [OF f(4)]
  have l: "length (slots[bq_index f := Some (bq_payload f)]) = tot" using Cons.prems(2) by simp
  have a: "slots' ! bq_index f = Some (bq_payload f)"
    using IH [OF l] i Cons.prems(2) by simp
  have b: "slots' ! j = Some p" if "j < tot" "slots ! j = Some p" for j p
    using IH [OF l] i Cons.prems(2) f(3) that by (cases "j = bq_index f") auto
  have c: "slots ! j = Some p \<or> (\<exists>g \<in> set (g # gs). \<exists>f. parseBbqrFrame g = Inr f \<and> bq_index f = j \<and> bq_payload f = p)"
    if "j < tot" "slots' ! j = Some p" for j p
  proof (cases "j = bq_index f")
    case True
    with a that f(1) show ?thesis by auto
  next
    case False
    with IH [OF l] that show ?thesis by fastforce
  qed
  from IH [OF l] a b c f(1,2) show ?case by auto
qed simp

lemma fill_slots_ok:
  "\<forall>g \<in> set gs. \<exists>f. parseBbqrFrame g = Inr f \<and> bbqr_head_of f = (tot, e, ft)
      \<and> bq_payload f = payload (bq_index f) \<Longrightarrow>
   \<forall>i < tot. slots ! i = None \<or> slots ! i = Some (payload i) \<Longrightarrow> length slots = tot \<Longrightarrow>
   \<exists>r. fill_slots (Some (tot, e, ft)) slots gs = Inr r"
proof (induction gs arbitrary: slots)
  case (Cons g gs)
  then obtain f where f: "parseBbqrFrame g = Inr f" "bbqr_head_of f = (tot, e, ft)"
    "bq_payload f = payload (bq_index f)" by auto
  have i: "bq_index f < tot" using parse_index [OF f(1)] f(2) by (simp add: bbqr_head_of_def)
  have "\<exists>r. fill_slots (Some (tot, e, ft)) (slots[bq_index f := Some (bq_payload f)]) gs = Inr r"
    using Cons f i by (intro Cons.IH) (auto simp: nth_list_update)
  then show ?case
    using f i Cons.prems(2) by (auto simp: bbqr_head_of_def)
qed simp

lemma fill_slots_first:
  "fill_slots None [] (g # gs) = (case parseBbqrFrame g of Inl e \<Rightarrow> Inl e
     | Inr f \<Rightarrow> fill_slots (Some (bbqr_head_of f)) (replicate (bq_total f) None) (g # gs))"
  using parse_index by (auto simp: bbqr_head_of_def split: sum.splits)

lemma missing_slot_None: "missing_slot i slots = None \<longleftrightarrow> (\<forall>s \<in> set slots. s \<noteq> None)"
  by (induction slots arbitrary: i) auto

section \<open>The transport is faithful\<close>

definition bbqr_piece :: "byte list \<Rightarrow> nat \<Rightarrow> nat \<Rightarrow> byte list" where
  "bbqr_piece bytes k i = take k (drop (i * k) bytes)"

lemma concat_bbqr_pieces: "concat (map (bbqr_piece bytes k) [0..<n]) = take (n * k) bytes"
proof (induction n)
  case (Suc n)
  have "take (Suc n * k) bytes = take (n * k) bytes @ take k (drop (n * k) bytes)"
    using take_add [of "n * k" k bytes] by (simp add: add.commute)
  with Suc show ?case by (simp only: upt_Suc_append map_append concat_append zero_le) (simp add: bbqr_piece_def)
qed simp

lemma formatBase36_defined: "n \<le> BBQR_MAX_FRAMES \<Longrightarrow> \<exists>s. formatBase36 n = Inr s"
  by (simp add: formatBase36_def)

lemma emit_bbqr_defined:
  "tot \<le> BBQR_MAX_FRAMES \<Longrightarrow> \<forall>i \<in> set is. i < tot \<Longrightarrow> \<exists>frames. emit_bbqr bytes k tot is = Inr frames \<and> length frames = length is
    \<and> (\<forall>g. g \<in> set frames \<longleftrightarrow> (\<exists>i \<in> set is. \<exists>ts js. formatBase36 tot = Inr ts \<and> formatBase36 i = Inr js
         \<and> g = ''B$HP'' @ ts @ js @ bytesToHexUpper (bbqr_piece bytes k i)))"
proof (induction "is")
  case (Cons i "is")
  obtain ts where ts: "formatBase36 tot = Inr ts" using Cons.prems formatBase36_defined by blast
  have "i \<le> BBQR_MAX_FRAMES" using Cons.prems by simp
  then obtain js where js: "formatBase36 i = Inr js" using formatBase36_defined by blast
  from Cons ts js show ?case by (auto simp: bbqr_piece_def)
qed simp

lemma parse_emitted:
  assumes "formatBase36 tot = Inr ts" "formatBase36 i = Inr js" "i < tot" "tot \<le> BBQR_MAX_FRAMES"
  shows "parseBbqrFrame (JStr (''B$HP'' @ ts @ js @ bytesToHexUpper bs)) =
    Inr \<lparr> bq_encoding = CHR ''H'', bq_fileType = CHR ''P'', bq_total = tot, bq_index = i, bq_payload = bytesToHexUpper bs \<rparr>"
    "js_trim (''B$HP'' @ ts @ js @ bytesToHexUpper bs) = ''B$HP'' @ ts @ js @ bytesToHexUpper bs"
proof -
  note t = formatBase36_parse [OF assms(1)]
  note j = formatBase36_parse [OF assms(2)]
  have "\<not> js_space CHR ''B''" "\<not> js_space CHR ''$''" "\<not> js_space CHR ''H''" "\<not> js_space CHR ''P''"
    by code_simp+
  then show trim: "js_trim (''B$HP'' @ ts @ js @ bytesToHexUpper bs) = ''B$HP'' @ ts @ js @ bytesToHexUpper bs"
    using t(3) j(3) bytesToHexUpper_no_space [of bs] by (intro js_trim_no_space) simp
  obtain a b c d where "ts = [a, b]" "js = [c, d]"
    using t(1) j(1) by (auto simp: numeral_2_eq_2 length_Suc_conv)
  with t(2) j(2) assms(3,4) show "parseBbqrFrame (JStr (''B$HP'' @ ts @ js @ bytesToHexUpper bs)) =
    Inr \<lparr> bq_encoding = CHR ''H'', bq_fileType = CHR ''P'', bq_total = tot, bq_index = i, bq_payload = bytesToHexUpper bs \<rparr>"
    unfolding parseBbqrFrame_def js.case trim
    by (simp add: Let_def BBQR_ENCODINGS_def BBQR_FILE_TYPES_def BBQR_MAX_FRAMES_def)
qed

lemma ceil_div_bounds:
  assumes "0 < k" "0 < (n :: nat)"
  shows "n \<le> (n + k - 1) div k * k" "0 < (n + k - 1) div k"
proof -
  have "(n + k - 1) mod k < k" using assms(1) by simp
  moreover have "(n + k - 1) div k * k + (n + k - 1) mod k = n + k - 1" by simp
  ultimately show "n \<le> (n + k - 1) div k * k" by linarith
  then show "0 < (n + k - 1) div k" using assms(2) by (cases "(n + k - 1) div k") auto
qed

lemma bbqr_decode_emitted:
  assumes em: "\<And>g. g \<in> set frames \<longleftrightarrow> (\<exists>i < tot. \<exists>ts js. formatBase36 tot = Inr ts \<and> formatBase36 i = Inr js
         \<and> g = ''B$HP'' @ ts @ js @ bytesToHexUpper (bbqr_piece bytes k i))"
    and tot: "0 < tot" "tot \<le> BBQR_MAX_FRAMES" "length bytes \<le> tot * k" and scans: "set scans = set frames"
  shows "decodeBbqrPsbt pk (map JStr scans) = Inr (bytes, bytesToHex bytes)"
proof -
  let ?payload = "\<lambda>i. bytesToHexUpper (bbqr_piece bytes k i)"
  let ?h = "(tot, CHR ''H'', CHR ''P'')"
  let ?none = "replicate tot None :: string option list"
  let ?gs = "map JStr scans"
  have every: "\<exists>f. parseBbqrFrame g = Inr f \<and> bbqr_head_of f = ?h \<and> bq_payload f = ?payload (bq_index f)"
    if "g \<in> set ?gs" for g
    using that em parse_emitted(1) [OF _ _ _ tot(2)] unfolding scans set_map
    by (auto simp: bbqr_head_of_def)
  have index: "\<exists>g \<in> set ?gs. \<exists>f. parseBbqrFrame g = Inr f \<and> bq_index f = i \<and> bq_payload f = ?payload i"
    if i: "i < tot" for i
  proof -
    obtain ts js where f: "formatBase36 tot = Inr ts" "formatBase36 i = Inr js"
      using formatBase36_defined [of tot] formatBase36_defined [of i] i tot(2) by auto
    with em i have "JStr (''B$HP'' @ ts @ js @ ?payload i) \<in> set ?gs" unfolding set_map scans by blast
    with parse_emitted(1) [OF f i tot(2)] show ?thesis by force
  qed
  obtain r where r: "fill_slots (Some ?h) ?none ?gs = Inr r"
    using fill_slots_ok [of ?gs tot "CHR ''H''" "CHR ''P''" ?payload ?none] every by auto
  obtain h slots where hs: "r = (h, slots)" by (cases r)
  note fs = fill_slots_Some [OF r [unfolded hs], simplified]
  have nth: "slots ! i = Some (?payload i)" if i: "i < tot" for i
  proof -
    from index [OF i] obtain g f where "g \<in> set ?gs" "parseBbqrFrame g = Inr f" "bq_index f = i" "bq_payload f = ?payload i"
      by blast
    with fs show ?thesis by fastforce
  qed
  with fs have slots: "slots = map (\<lambda>i. Some (?payload i)) [0..<tot]" by (intro nth_equalityI) auto
  have joined: "concat (map (case_option [] id) slots) = bytesToHexUpper bytes"
  proof -
    have "map (case_option [] id) slots = map bytesToHexUpper (map (bbqr_piece bytes k) [0..<tot])"
      by (simp add: slots)
    then show ?thesis using tot(3) by (simp only: concat_hex_upper concat_bbqr_pieces) simp
  qed
  obtain g gs where gs: "?gs = g # gs" using index [OF tot(1)] by (cases ?gs) auto
  with every obtain f where "parseBbqrFrame g = Inr f" "bbqr_head_of f = ?h" by auto
  then have "fill_slots None [] ?gs = fill_slots (Some ?h) ?none ?gs"
    unfolding gs fill_slots_first by (simp add: bbqr_head_of_def)
  moreover have "missing_slot 0 slots = None" by (simp add: missing_slot_None slots)
  ultimately show ?thesis
    using fs gs r hs joined unfolding decodeBbqrPsbt_def decodeBbqrFrames_def
    by (simp add: decode_payload_def del: fill_slots.simps)
qed

lemma emit_bbqr_upt:
  "tot \<le> BBQR_MAX_FRAMES \<Longrightarrow> \<exists>frames. emit_bbqr bytes k tot [0..<tot] = Inr frames \<and> length frames = tot
    \<and> (\<forall>g. g \<in> set frames \<longleftrightarrow> (\<exists>i < tot. \<exists>ts js. formatBase36 tot = Inr ts \<and> formatBase36 i = Inr js
         \<and> g = ''B$HP'' @ ts @ js @ bytesToHexUpper (bbqr_piece bytes k i)))"
  using emit_bbqr_defined [of tot "[0..<tot]" bytes k]
  unfolding Bex_def Ball_def set_upt atLeastLessThan_iff by simp

lemma bbqr_encode_spec:
  assumes "payloadBytes = JNum (Fin (of_nat k))" "0 < k" "normalizePsbtBytes psbt = Inr bytes"
    "bytes \<noteq> []" "length bytes \<le> 1295 * k"
  shows "\<exists>frames. encodeBbqrPsbtFrames payloadBytes psbt = Inr frames \<and> length frames = (length bytes + k - 1) div k
    \<and> (\<forall>g. g \<in> set frames \<longleftrightarrow> (\<exists>i < (length bytes + k - 1) div k. \<exists>ts js.
          formatBase36 ((length bytes + k - 1) div k) = Inr ts \<and> formatBase36 i = Inr js
         \<and> g = ''B$HP'' @ ts @ js @ bytesToHexUpper (bbqr_piece bytes k i)))"
proof -
  let ?tot = "(length bytes + k - 1) div k"
  have "length bytes + k - 1 < 1296 * k" using assms(2,5) by simp
  then have tot: "?tot \<le> BBQR_MAX_FRAMES"
    using less_mult_imp_div_less [of "length bytes + k - 1" 1296 k] by (simp add: BBQR_MAX_FRAMES_def)
  have "js_coalesce payloadBytes (JNum (Fin 200)) = JNum (Fin (of_nat k))"
    by (simp add: assms(1) js_coalesce_def)
  moreover have "\<not> (of_nat k :: rat) < 1" "\<not> BBQR_MAX_FRAMES < ?tot" "nat \<lfloor>(of_nat k :: rat)\<rfloor> = k" using assms(2) tot by simp_all
  ultimately have "encodeBbqrPsbtFrames payloadBytes psbt = emit_bbqr bytes k ?tot [0..<?tot]"
    unfolding encodeBbqrPsbtFrames_def assms(3) sum.case Let_def
    by (simp only: is_integer.simps fin_val.simps floor_of_nat of_int_of_nat_eq assms(4) if_False simp_thms)
  with emit_bbqr_upt [OF tot, of bytes k] show ?thesis by simp
qed

lemma bbqr_encode_bounds:
  assumes "encodeBbqrPsbtFrames cb psbt = Inr frames" "normalizePsbtBytes psbt = Inr bytes"
  obtains k tot where "0 < tot" "tot \<le> BBQR_MAX_FRAMES" "length bytes \<le> tot * k"
    "emit_bbqr bytes k tot [0..<tot] = Inr frames"
proof -
  let ?k = "nat \<lfloor>fin_val (js_coalesce cb (JNum (Fin 200)))\<rfloor>"
  let ?tot = "(length bytes + ?k - 1) div ?k"
  have a: "bytes \<noteq> []" "\<not> fin_val (js_coalesce cb (JNum (Fin 200))) < 1" "?tot \<le> BBQR_MAX_FRAMES"
    "emit_bbqr bytes ?k ?tot [0..<?tot] = Inr frames"
    using assms unfolding encodeBbqrPsbtFrames_def by (simp_all add: Let_def split: if_splits)
  have k: "0 < ?k" using a(2) by simp
  show thesis
    using that [of ?tot ?k] a ceil_div_bounds [OF k, of "length bytes"] by simp
qed

interpretation bbqr: frame_transport
  "\<lambda>cb bytes. case encodeBbqrPsbtFrames cb (Psbt_bytes bytes) of Inr frames \<Rightarrow> Some frames | Inl e \<Rightarrow> None"
  "\<lambda>scans. case decodeBbqrPsbt pk (map JStr scans) of Inr (psbt, text) \<Rightarrow> Some psbt | Inl e \<Rightarrow> None"
  for pk
proof unfold_locales
  fix cb bytes frames scans
  assume a: "(case encodeBbqrPsbtFrames cb (Psbt_bytes bytes) of Inr fs \<Rightarrow> Some fs | Inl e \<Rightarrow> None) = Some frames"
    and s: "set scans = set frames"
  then have e: "encodeBbqrPsbtFrames cb (Psbt_bytes bytes) = Inr frames" by (simp split: sum.splits)
  obtain k tot where t: "0 < tot" "tot \<le> BBQR_MAX_FRAMES" "length bytes \<le> tot * k"
    "emit_bbqr bytes k tot [0..<tot] = Inr frames"
    by (rule bbqr_encode_bounds [OF e, of bytes]) (simp_all add: normalizePsbtBytes_def)
  have "decodeBbqrPsbt pk (map JStr scans) = Inr (bytes, bytesToHex bytes)"
    by (rule bbqr_decode_emitted [OF _ t(1-3) s])
       (use emit_bbqr_upt [OF t(2), of bytes k] t(4) in \<open>simp only: sum.inject\<close>, metis)
  then show "(case decodeBbqrPsbt pk (map JStr scans) of Inr (psbt, text) \<Rightarrow> Some psbt | Inl e \<Rightarrow> None) = Some bytes"
    by simp
qed

text \<open>A non-empty PSBT that fits in 1295 frames of the chosen payload size is encoded, into as few
  frames as the size allows; every frame is recognised as BBQr; and whatever the order in which the frames are
  scanned, and however often each, the decoder returns exactly the PSBT's bytes and their hex.\<close>

lemma bbqr_transport:
  assumes "payloadBytes = JNum (Fin (of_nat k))" "0 < k" "normalizePsbtBytes psbt = Inr bytes"
    and "bytes \<noteq> []" "length bytes \<le> 1295 * k"
  shows "\<exists>frames. encodeBbqrPsbtFrames payloadBytes psbt = Inr frames
    \<and> length frames = (length bytes + k - 1) div k
    \<and> (\<forall>frame \<in> set frames. detectQrFrameFormat (JStr frame) = Some Fmt_bbqr)
    \<and> (\<forall>scans. set scans = set frames \<longrightarrow>
          decodeBbqrPsbt pk (map JStr scans) = Inr (bytes, bytesToHex bytes))"
proof -
  let ?tot = "(length bytes + k - 1) div k"
  have tot: "0 < ?tot" "length bytes \<le> ?tot * k" using ceil_div_bounds assms(2,4) by simp_all
  have "length bytes + k - 1 < 1296 * k" using assms(2,5) by simp
  then have max: "?tot \<le> BBQR_MAX_FRAMES"
    using less_mult_imp_div_less [of "length bytes + k - 1" 1296 k] by (simp add: BBQR_MAX_FRAMES_def)
  obtain frames where f: "encodeBbqrPsbtFrames payloadBytes psbt = Inr frames" "length frames = ?tot"
    "\<And>g. g \<in> set frames \<longleftrightarrow> (\<exists>i < ?tot. \<exists>ts js. formatBase36 ?tot = Inr ts \<and> formatBase36 i = Inr js
         \<and> g = ''B$HP'' @ ts @ js @ bytesToHexUpper (bbqr_piece bytes k i))"
    using bbqr_encode_spec [OF assms] by auto
  have "detectQrFrameFormat (JStr g) = Some Fmt_bbqr" if "g \<in> set frames" for g
  proof -
    from that f(3) obtain i ts js where g: "i < ?tot" "formatBase36 ?tot = Inr ts" "formatBase36 i = Inr js"
      "g = ''B$HP'' @ ts @ js @ bytesToHexUpper (bbqr_piece bytes k i)" by blast
    from parse_emitted(2) [OF g(2,3,1) max] have "js_trim g = g" unfolding g(4) .
    with g(4) formatBase36_parse(1) [OF g(2)] formatBase36_parse(1) [OF g(3)] show ?thesis
      by (simp add: detectQrFrameFormat_def)
  qed
  with f bbqr_decode_emitted [OF f(3) tot(1) max tot(2)] show ?thesis by blast
qed

text \<open>Bytes that decode come from one consistent transmission: every scanned frame parses with the
  same total, encoding and file type and agrees with the slot of its index, every index of the total was
  scanned, and the bytes are the decoding of the payloads joined in index order.\<close>

lemma bbqr_decode_consistent:
  assumes "decodeBbqrFrames pk scans = Inr (bytes, fileType, encoding)"
  shows "\<exists>payloads. payloads \<noteq> []
    \<and> (\<forall>g \<in> set scans. \<exists>f. parseBbqrFrame g = Inr f \<and> bq_total f = length payloads
          \<and> bq_encoding f = encoding \<and> bq_fileType f = fileType
          \<and> bq_index f < length payloads \<and> bq_payload f = payloads ! bq_index f)
    \<and> (\<forall>i < length payloads. \<exists>g \<in> set scans. \<exists>f. parseBbqrFrame g = Inr f \<and> bq_index f = i)
    \<and> decode_payload pk encoding (concat payloads) = Inr bytes"
proof -
  obtain tot slots where s: "scans \<noteq> []" "fill_slots None [] scans = Inr (Some (tot, encoding, fileType), slots)"
    "missing_slot 0 slots = None" "decode_payload pk encoding (concat (map (case_option [] id) slots)) = Inr bytes"
    using assms unfolding decodeBbqrFrames_def
    by (auto simp del: fill_slots.simps split: if_splits sum.splits option.splits)
  obtain g gs where gs: "scans = g # gs" using s(1) by (cases scans) auto
  obtain f where f: "parseBbqrFrame g = Inr f"
    "fill_slots (Some (bbqr_head_of f)) (replicate (bq_total f) None) scans = Inr (Some (tot, encoding, fileType), slots)"
    using s(2) unfolding gs fill_slots_first by (auto simp del: fill_slots.simps split: sum.splits)
  have fs: "length slots = tot" "0 < tot"
    and all: "\<forall>g \<in> set scans. \<exists>f. parseBbqrFrame g = Inr f \<and> bbqr_head_of f = (tot, encoding, fileType)
        \<and> slots ! bq_index f = Some (bq_payload f)"
    and each: "\<forall>i < tot. \<forall>p. slots ! i = Some p \<longrightarrow>
        (\<exists>g \<in> set scans. \<exists>f. parseBbqrFrame g = Inr f \<and> bq_index f = i \<and> bq_payload f = p)"
    using fill_slots_Some [OF f(2) [unfolded bbqr_head_of_def]] parse_index [OF f(1)]
    by (simp_all del: fill_slots.simps) 
  let ?ps = "map (case_option [] id) slots"
  have filled: "\<exists>p. slots ! i = Some p" if "i < tot" for i
    using s(3) that fs(1) unfolding missing_slot_None by (metis nth_mem option.exhaust)
  have one: "\<exists>f. parseBbqrFrame g = Inr f \<and> bq_total f = length ?ps \<and> bq_encoding f = encoding
      \<and> bq_fileType f = fileType \<and> bq_index f < length ?ps \<and> bq_payload f = ?ps ! bq_index f"
    if gin: "g \<in> set scans" for g
  proof -
    obtain f where f: "parseBbqrFrame g = Inr f" "bbqr_head_of f = (tot, encoding, fileType)"
      "slots ! bq_index f = Some (bq_payload f)"
      using bspec [OF all gin] by blast
    moreover from f have "bq_index f < tot" using parse_index [OF f(1)] by (simp add: bbqr_head_of_def)
    ultimately show ?thesis using fs(1) by (intro exI [of _ f]) (simp add: bbqr_head_of_def)
  qed
  have two: "\<exists>g \<in> set scans. \<exists>f. parseBbqrFrame g = Inr f \<and> bq_index f = i" if "i < length ?ps" for i
    using each filled [of i] that fs(1) by fastforce
  show ?thesis using one two s(4) fs by (intro exI [of _ ?ps]) auto
qed

end
