(* ===== verification/Raw_Tx.thy ===== *)
theory Raw_Tx
  imports Byte_Codec
begin

text \<open>
  The reader of raw Bitcoin transactions in \<^verbatim>\<open>core/src/signers/verifySignedTx.js\<close> and its
  specification, the serialisation of a transaction. The cursor is the list of the bytes still to be
  read; the parsed fields are the code's, with byte strings kept as lower-case hex. SHA-256 is a
  parameter.
\<close>

section \<open>The cursor\<close>

datatype tx_error =
    Not_hex_text
  | Truncated
  | Absurd_varint
  | No_inputs
  | Trailing_bytes nat

type_synonym 'a reader = "byte list \<Rightarrow> tx_error + 'a \<times> byte list"

definition cursor :: "js \<Rightarrow> tx_error + byte list" where
  "cursor txHex = (case txHex of
     JStr hex \<Rightarrow>
       (if hex = [] \<or> length hex mod 2 \<noteq> 0 \<or> \<not> list_all is_hex hex then Inl Not_hex_text
        else Inr (hexToBytes (js_lower hex)))
   | _ \<Rightarrow> Inl Not_hex_text)"

definition cursor_take :: "nat \<Rightarrow> byte list reader" where
  "cursor_take n bs = (if n > length bs then Inl Truncated else Inr (take n bs, drop n bs))"

fun le_nat :: "byte list \<Rightarrow> nat" where
  "le_nat [] = 0"
| "le_nat (b # bs) = unat b + 256 * le_nat bs"

definition uintLE :: "nat \<Rightarrow> nat reader" where
  "uintLE n bs = (case cursor_take n bs of Inl e \<Rightarrow> Inl e | Inr (x, r) \<Rightarrow> Inr (le_nat x, r))"

definition varint :: "nat reader" where
  "varint bs = (case uintLE 1 bs of Inl e \<Rightarrow> Inl e | Inr (first, r) \<Rightarrow>
     if first < 0xfd then Inr (first, r)
     else if first = 0xfd then uintLE 2 r
     else if first = 0xfe then uintLE 4 r
     else (case uintLE 8 r of Inl e \<Rightarrow> Inl e | Inr (v, r') \<Rightarrow>
             if v > 2 ^ 53 - 1 then Inl Absurd_varint else Inr (v, r')))"

definition varSlice :: "string reader" where
  "varSlice bs = (case varint bs of Inl e \<Rightarrow> Inl e | Inr (n, r) \<Rightarrow>
     (case cursor_take n r of Inl e \<Rightarrow> Inl e | Inr (x, r') \<Rightarrow> Inr (bytesToHex x, r')))"

fun read_times :: "nat \<Rightarrow> 'a reader \<Rightarrow> 'a list reader" where
  "read_times 0 read bs = Inr ([], bs)"
| "read_times (Suc n) read bs = (case read bs of Inl e \<Rightarrow> Inl e | Inr (x, r) \<Rightarrow>
     (case read_times n read r of Inl e \<Rightarrow> Inl e | Inr (xs, r') \<Rightarrow> Inr (x # xs, r')))"

section \<open>The parser\<close>

record tx_input =
  ti_prevTxHash :: string
  ti_prevTxIndex :: nat
  ti_sequence :: nat

record tx_output =
  to_valueSat :: nat
  to_scriptPubKeyHex :: string

record raw_tx =
  rt_version :: int
  rt_locktime :: nat
  rt_inputs :: "tx_input list"
  rt_outputs :: "tx_output list"

record input_signature =
  is_scriptSigHex :: string
  is_witness :: "string list"

definition scriptSigBytes :: "input_signature \<Rightarrow> nat" where
  "scriptSigBytes s = length (is_scriptSigHex s) div 2"

definition witnessItems :: "input_signature \<Rightarrow> nat" where
  "witnessItems s = length (List.filter (\<lambda>item. item \<noteq> []) (is_witness s))"

definition asInt32 :: "nat \<Rightarrow> int" where
  "asInt32 v = (let m = int v mod 2 ^ 32 in if m \<ge> 2 ^ 31 then m - 2 ^ 32 else m)"

definition read_input :: "(tx_input \<times> string) reader" where
  "read_input bs =
     (case cursor_take 32 bs of Inl e \<Rightarrow> Inl e | Inr (hash, r1) \<Rightarrow>
      case uintLE 4 r1 of Inl e \<Rightarrow> Inl e | Inr (index, r2) \<Rightarrow>
      case varSlice r2 of Inl e \<Rightarrow> Inl e | Inr (scriptSig, r3) \<Rightarrow>
      case uintLE 4 r3 of Inl e \<Rightarrow> Inl e | Inr (seq, r4) \<Rightarrow>
        Inr ((\<lparr> ti_prevTxHash = bytesToHex (rev hash), ti_prevTxIndex = index, ti_sequence = seq \<rparr>, scriptSig), r4))"

definition read_output :: "tx_output reader" where
  "read_output bs =
     (case uintLE 8 bs of Inl e \<Rightarrow> Inl e | Inr (sats, r1) \<Rightarrow>
      case varSlice r1 of Inl e \<Rightarrow> Inl e | Inr (script, r2) \<Rightarrow>
        Inr (\<lparr> to_valueSat = sats, to_scriptPubKeyHex = script \<rparr>, r2))"

definition read_stack :: "string list reader" where
  "read_stack bs = (case varint bs of Inl e \<Rightarrow> Inl e | Inr (items, r) \<Rightarrow> read_times items varSlice r)"

definition walk_bytes :: "byte list \<Rightarrow> tx_error + raw_tx \<times> string \<times> input_signature list" where
  "walk_bytes bytes =
     (case uintLE 4 bytes of Inl e \<Rightarrow> Inl e | Inr (version, r0) \<Rightarrow>
      let segwit = (take 2 r0 = [0x00, 0x01]); r1 = (if segwit then drop 2 r0 else r0) in
      case varint r1 of Inl e \<Rightarrow> Inl e | Inr (inputCount, r2) \<Rightarrow>
      if inputCount = 0 then Inl No_inputs else
      case read_times inputCount read_input r2 of Inl e \<Rightarrow> Inl e | Inr (ins, r3) \<Rightarrow>
      case varint r3 of Inl e \<Rightarrow> Inl e | Inr (outputCount, r4) \<Rightarrow>
      case read_times outputCount read_output r4 of Inl e \<Rightarrow> Inl e | Inr (outs, r5) \<Rightarrow>
      case (if segwit then read_times inputCount read_stack r5 else Inr (replicate inputCount [], r5)) of
        Inl e \<Rightarrow> Inl e | Inr (stacks, r6) \<Rightarrow>
      case uintLE 4 r6 of Inl e \<Rightarrow> Inl e | Inr (locktime, r7) \<Rightarrow>
      if r7 \<noteq> [] then Inl (Trailing_bytes (length r7)) else
      let body = take (length r1 - length r5) r1;
          legacy = take 4 bytes @ body @ drop (length bytes - 4) bytes in
      Inr (\<lparr> rt_version = asInt32 version, rt_locktime = locktime, rt_inputs = map fst ins, rt_outputs = outs \<rparr>,
           bytesToHex legacy,
           map2 (\<lambda>input stack. \<lparr> is_scriptSigHex = snd input, is_witness = stack \<rparr>) ins stacks))"

definition walkRawTx :: "js \<Rightarrow> tx_error + raw_tx \<times> string \<times> input_signature list" where
  "walkRawTx txHex = (case cursor txHex of Inl e \<Rightarrow> Inl e | Inr bytes \<Rightarrow> walk_bytes bytes)"

definition parseRawTx :: "js \<Rightarrow> tx_error + raw_tx" where
  "parseRawTx txHex = map_sum id fst (walkRawTx txHex)"

definition readSignedRawTx :: "js \<Rightarrow> tx_error + raw_tx \<times> input_signature list" where
  "readSignedRawTx txHex = map_sum id (\<lambda>(tx, legacyHex, signatures). (tx, signatures)) (walkRawTx txHex)"

definition rawTxid :: "(byte list \<Rightarrow> byte list) \<Rightarrow> js \<Rightarrow> tx_error + string" where
  "rawTxid sha256 txHex = map_sum id
     (\<lambda>(tx, legacyHex, signatures). bytesToHex (rev (sha256 (sha256 (hexToBytes legacyHex))))) (walkRawTx txHex)"

section \<open>Serialisation: the specification of the format\<close>

definition hex_text :: "string \<Rightarrow> bool" where
  "hex_text s \<longleftrightarrow> list_all is_lower_hex s \<and> even (length s)"

fun le_bytes :: "nat \<Rightarrow> nat \<Rightarrow> byte list" where
  "le_bytes 0 v = []"
| "le_bytes (Suc n) v = word_of_nat (v mod 256) # le_bytes n (v div 256)"

definition write_varint :: "nat \<Rightarrow> byte list" where
  "write_varint n =
     (if n < 0xfd then le_bytes 1 n
      else if n < 2 ^ 16 then 0xfd # le_bytes 2 n
      else if n < 2 ^ 32 then 0xfe # le_bytes 4 n
      else 0xff # le_bytes 8 n)"

definition write_slice :: "string \<Rightarrow> byte list" where
  "write_slice s = write_varint (length s div 2) @ hexToBytes s"

definition slice_ok :: "string \<Rightarrow> bool" where
  "slice_ok s \<longleftrightarrow> hex_text s \<and> length s div 2 < 2 ^ 53"

definition write_input :: "tx_input \<times> string \<Rightarrow> byte list" where
  "write_input input = (case input of (i, scriptSig) \<Rightarrow>
     rev (hexToBytes (ti_prevTxHash i)) @ le_bytes 4 (ti_prevTxIndex i) @ write_slice scriptSig
       @ le_bytes 4 (ti_sequence i))"

definition input_ok :: "tx_input \<times> string \<Rightarrow> bool" where
  "input_ok input = (case input of (i, scriptSig) \<Rightarrow>
     hex_text (ti_prevTxHash i) \<and> length (ti_prevTxHash i) = 64 \<and> ti_prevTxIndex i < 2 ^ 32
     \<and> slice_ok scriptSig \<and> ti_sequence i < 2 ^ 32)"

definition write_output :: "tx_output \<Rightarrow> byte list" where
  "write_output out = le_bytes 8 (to_valueSat out) @ write_slice (to_scriptPubKeyHex out)"

definition output_ok :: "tx_output \<Rightarrow> bool" where
  "output_ok out \<longleftrightarrow> to_valueSat out < 2 ^ 64 \<and> slice_ok (to_scriptPubKeyHex out)"

definition write_stack :: "string list \<Rightarrow> byte list" where
  "write_stack items = write_varint (length items) @ concat (map write_slice items)"

definition stack_ok :: "string list \<Rightarrow> bool" where
  "stack_ok items \<longleftrightarrow> length items < 2 ^ 53 \<and> list_all slice_ok items"

definition write_tx :: "bool \<Rightarrow> raw_tx \<Rightarrow> input_signature list \<Rightarrow> byte list" where
  "write_tx segwit tx sigs =
     le_bytes 4 (nat (rt_version tx mod 2 ^ 32)) @ (if segwit then [0x00, 0x01] else [])
     @ write_varint (length (rt_inputs tx)) @ concat (map write_input (zip (rt_inputs tx) (map is_scriptSigHex sigs)))
     @ write_varint (length (rt_outputs tx)) @ concat (map write_output (rt_outputs tx))
     @ (if segwit then concat (map write_stack (map is_witness sigs)) else [])
     @ le_bytes 4 (rt_locktime tx)"

definition tx_ok :: "bool \<Rightarrow> raw_tx \<Rightarrow> input_signature list \<Rightarrow> bool" where
  "tx_ok segwit tx sigs \<longleftrightarrow>
     - (2 ^ 31) \<le> rt_version tx \<and> rt_version tx < 2 ^ 31 \<and> rt_locktime tx < 2 ^ 32
     \<and> rt_inputs tx \<noteq> [] \<and> length (rt_inputs tx) < 2 ^ 53 \<and> length (rt_outputs tx) < 2 ^ 53
     \<and> length sigs = length (rt_inputs tx)
     \<and> list_all input_ok (zip (rt_inputs tx) (map is_scriptSigHex sigs))
     \<and> list_all output_ok (rt_outputs tx)
     \<and> (if segwit then list_all (\<lambda>s. stack_ok (is_witness s)) sigs else list_all (\<lambda>s. is_witness s = []) sigs)"

section \<open>Codecs of fields\<close>

text \<open>
  What a repeated field promises: its reader undoes its writer whatever follows, and never takes fewer
  than \<open>size\<close> bytes.
\<close>

locale field_codec =
  fixes size :: nat and rd :: "'a reader" and wr :: "'a \<Rightarrow> byte list" and ok :: "'a \<Rightarrow> bool"
  assumes reads_back: "ok x \<Longrightarrow> rd (wr x @ rest) = Inr (x, rest)"
    and consumes: "rd bs = Inr (x, rest) \<Longrightarrow> \<exists>used. bs = used @ rest \<and> size \<le> length used"
begin

lemma many_read_back: "list_all ok xs \<Longrightarrow> read_times (length xs) rd (concat (map wr xs) @ rest) = Inr (xs, rest)"
  by (induction xs) (simp_all add: reads_back)

lemma many_consume:
  "read_times n rd bs = Inr (xs, rest) \<Longrightarrow> length xs = n \<and> (\<exists>used. bs = used @ rest \<and> n * size \<le> length used)"
proof (induction n arbitrary: bs xs)
  case (Suc n)
  then obtain x r ys where r: "rd bs = Inr (x, r)" "read_times n rd r = Inr (ys, rest)" "xs = x # ys"
    by (auto split: sum.splits)
  from consumes [OF r(1)] obtain u where u: "bs = u @ r" "size \<le> length u" by blast
  from Suc.IH [OF r(2)] obtain v where "length ys = n" "r = v @ rest" "n * size \<le> length v" by blast
  with u r(3) show ?case by (intro conjI exI [of _ "u @ v"]) simp_all
qed simp

end

lemma length_le_bytes [simp]: "length (le_bytes n v) = n"
  by (induction n arbitrary: v) simp_all

lemma le_nat_bytes [simp]: "v < 256 ^ n \<Longrightarrow> le_nat (le_bytes n v) = v"
proof (induction n arbitrary: v)
  case (Suc n)
  have "v div 256 < 256 ^ n" using Suc.prems by (simp add: less_mult_imp_div_less mult.commute)
  moreover have "unat (word_of_nat (v mod 256) :: byte) = v mod 256"
    unfolding unsigned_of_nat by (simp add: take_bit_eq_mod)
  ultimately show ?case by (simp add: Suc.IH)
qed simp

lemma cursor_take_append: "length x = n \<Longrightarrow> cursor_take n (x @ rest) = Inr (x, rest)"
  by (auto simp: cursor_take_def)

lemma uintLE_append: "v < 256 ^ n \<Longrightarrow> uintLE n (le_bytes n v @ rest) = Inr (v, rest)"
  by (simp add: uintLE_def cursor_take_append)

lemma uintLE_1: "uintLE (Suc 0) (b # rest) = Inr (unat b, rest)"
  by (simp add: uintLE_def cursor_take_def)

lemma varint_append:
  assumes "n < 2 ^ 53" shows "varint (write_varint n @ rest) = Inr (n, rest)"
proof -
  consider "n < 0xfd" | "0xfd \<le> n" "n < 2 ^ 16" | "2 ^ 16 \<le> n" "n < 2 ^ 32" | "2 ^ 32 \<le> n" by linarith
  then show ?thesis
  proof cases
    case 1
    then have "uintLE 1 (le_bytes 1 n @ rest) = Inr (n, rest)" by (intro uintLE_append) simp
    with 1 show ?thesis by (simp add: varint_def write_varint_def)
  next
    case 2
    then have "uintLE 2 (le_bytes 2 n @ rest) = Inr (n, rest)" by (intro uintLE_append) simp
    with 2 show ?thesis by (simp add: varint_def write_varint_def uintLE_1)
  next
    case 3
    then have "uintLE 4 (le_bytes 4 n @ rest) = Inr (n, rest)" by (intro uintLE_append) simp
    with 3 show ?thesis by (simp add: varint_def write_varint_def uintLE_1)
  next
    case 4
    then have "uintLE 8 (le_bytes 8 n @ rest) = Inr (n, rest)" using assms by (intro uintLE_append) simp
    with 4 assms show ?thesis by (simp add: varint_def write_varint_def uintLE_1)
  qed
qed

lemma cursor_take_consumes: "cursor_take n bs = Inr (x, r) \<Longrightarrow> bs = x @ r \<and> length x = n"
  by (auto simp: cursor_take_def split: if_splits)

lemma uintLE_consumes: "uintLE n bs = Inr (v, r) \<Longrightarrow> \<exists>x. bs = x @ r \<and> length x = n"
  by (auto simp: uintLE_def dest!: cursor_take_consumes split: sum.splits)

lemma varint_consumes:
  assumes "varint bs = Inr (v, r)" shows "\<exists>x. bs = x @ r \<and> 1 \<le> length x"
proof -
  obtain first r1 where f: "uintLE 1 bs = Inr (first, r1)"
    using assms by (auto simp: varint_def split: sum.splits)
  have r: "r1 = r \<or> (\<exists>n. uintLE n r1 = Inr (v, r))"
    using assms f unfolding varint_def by (force split: sum.splits if_splits)
  from uintLE_consumes [OF f] obtain x where x: "bs = x @ r1" "length x = 1" by blast
  from r show ?thesis
  proof
    assume "\<exists>n. uintLE n r1 = Inr (v, r)"
    then obtain y where "r1 = y @ r" using uintLE_consumes by blast
    with x show ?thesis by (intro exI [of _ "x @ y"]) simp
  qed (use x in auto)
qed

lemma varSlice_consumes:
  assumes "varSlice bs = Inr (s, r)" shows "\<exists>x. bs = x @ r \<and> 1 \<le> length x"
proof -
  obtain n r1 y where n: "varint bs = Inr (n, r1)" and y: "cursor_take n r1 = Inr (y, r)"
    using assms by (auto simp: varSlice_def split: sum.splits)
  from varint_consumes [OF n] cursor_take_consumes [OF y] obtain x where "bs = (x @ y) @ r" "1 \<le> length x" by auto
  then show ?thesis by (intro exI [of _ "x @ y"]) simp
qed

lemma hex_text_bytes: "hex_text s \<Longrightarrow> bytesToHex (hexToBytes s) = s"
  by (simp add: hex_text_def bytesToHex_hexToBytes)

lemma length_hexToBytes: "length (hexToBytes s) = length s div 2"
  by (induction s rule: hexToBytes.induct) simp_all

interpretation slice: field_codec 1 varSlice write_slice slice_ok
proof unfold_locales
  fix s rest assume s: "slice_ok s"
  have "cursor_take (length s div 2) (hexToBytes s @ rest) = Inr (hexToBytes s, rest)"
    by (rule cursor_take_append) (rule length_hexToBytes)
  with s show "varSlice (write_slice s @ rest) = Inr (s, rest)"
    by (simp add: varSlice_def write_slice_def slice_ok_def varint_append hex_text_bytes)
qed (use varSlice_consumes in blast)

interpretation inputs: field_codec 41 read_input write_input input_ok
proof unfold_locales
  fix x rest assume x: "input_ok x"
  obtain i scriptSig where i: "x = (i, scriptSig)" by (cases x)
  have "cursor_take 32 (rev (hexToBytes (ti_prevTxHash i)) @ t) = Inr (rev (hexToBytes (ti_prevTxHash i)), t)" for t
    using x i by (intro cursor_take_append) (simp add: input_ok_def length_hexToBytes)
  moreover have "uintLE 4 (le_bytes 4 (ti_prevTxIndex i) @ t) = Inr (ti_prevTxIndex i, t)"
    "uintLE 4 (le_bytes 4 (ti_sequence i) @ t) = Inr (ti_sequence i, t)" for t
    using x i by (simp_all add: input_ok_def uintLE_append)
  moreover have "varSlice (write_slice scriptSig @ t) = Inr (scriptSig, t)" for t
    using x i by (intro slice.reads_back) (simp add: input_ok_def)
  ultimately show "read_input (write_input x @ rest) = Inr (x, rest)"
    using x i by (simp add: read_input_def write_input_def input_ok_def hex_text_bytes)
next
  fix bs x rest assume "read_input bs = Inr (x, rest)"
  then obtain hash r1 idx r2 s r3 sq where r: "cursor_take 32 bs = Inr (hash, r1)" "uintLE 4 r1 = Inr (idx, r2)"
    "varSlice r2 = Inr (s, r3)" "uintLE 4 r3 = Inr (sq, rest)"
    by (auto simp: read_input_def split: sum.splits)
  from uintLE_consumes [OF r(2)] uintLE_consumes [OF r(4)] slice.consumes [OF r(3)]
  obtain a b c where "r1 = a @ r2" "length a = 4" "r3 = b @ rest" "length b = 4" "r2 = c @ r3" "1 \<le> length c"
    by blast
  with cursor_take_consumes [OF r(1)] show "\<exists>used. bs = used @ rest \<and> 41 \<le> length used"
    by (intro exI [of _ "hash @ a @ c @ b"]) simp
qed

interpretation outputs: field_codec 9 read_output write_output output_ok
proof unfold_locales
  fix x rest assume x: "output_ok x"
  have "uintLE 8 (le_bytes 8 (to_valueSat x) @ t) = Inr (to_valueSat x, t)" for t
    using x by (simp add: output_ok_def uintLE_append)
  moreover have "varSlice (write_slice (to_scriptPubKeyHex x) @ t) = Inr (to_scriptPubKeyHex x, t)" for t
    using x by (intro slice.reads_back) (simp add: output_ok_def)
  ultimately show "read_output (write_output x @ rest) = Inr (x, rest)"
    by (simp add: read_output_def write_output_def)
next
  fix bs x rest assume "read_output bs = Inr (x, rest)"
  then obtain v r1 s where r: "uintLE 8 bs = Inr (v, r1)" "varSlice r1 = Inr (s, rest)"
    by (auto simp: read_output_def split: sum.splits)
  from uintLE_consumes [OF r(1)] slice.consumes [OF r(2)]
  obtain a b where "bs = a @ r1" "length a = 8" "r1 = b @ rest" "1 \<le> length b" by blast
  then show "\<exists>used. bs = used @ rest \<and> 9 \<le> length used" by (intro exI [of _ "a @ b"]) simp
qed

interpretation stacks: field_codec 1 read_stack write_stack stack_ok
proof unfold_locales
  fix x rest assume x: "stack_ok x"
  then show "read_stack (write_stack x @ rest) = Inr (x, rest)"
    by (simp add: read_stack_def write_stack_def stack_ok_def varint_append slice.many_read_back)
next
  fix bs x rest assume "read_stack bs = Inr (x, rest)"
  then obtain n r1 where r: "varint bs = Inr (n, r1)" "read_times n varSlice r1 = Inr (x, rest)"
    by (auto simp: read_stack_def split: sum.splits)
  from varint_consumes [OF r(1)] slice.many_consume [OF r(2)]
  obtain a b where "bs = a @ r1" "1 \<le> length a" "r1 = b @ rest" by blast
  then show "\<exists>used. bs = used @ rest \<and> 1 \<le> length used" by (intro exI [of _ "a @ b"]) simp
qed

section \<open>The parser against the format\<close>

lemma write_varint_hd: "0 < n \<Longrightarrow> \<exists>b bs. write_varint n = b # bs \<and> b \<noteq> 0"
proof -
  assume n: "0 < n"
  have one: "le_bytes 1 n = [word_of_nat (n mod 256)]" by (simp only: One_nat_def le_bytes.simps)
  have "(word_of_nat n :: byte) \<noteq> 0" if "n < 0xfd"
  proof
    assume "(word_of_nat n :: byte) = 0"
    then have "unat (word_of_nat n :: byte) = 0" by simp
    with that n show False unfolding unsigned_of_nat by (simp add: take_bit_eq_mod)
  qed
  with one show ?thesis by (simp add: write_varint_def)
qed

lemma write_varint_not_marker: "0 < n \<Longrightarrow> take 2 (write_varint n @ rest) \<noteq> [0x00, 0x01]"
  using write_varint_hd [of n] by (auto simp: take_Cons')

lemma asInt32_roundtrip: "- (2 ^ 31) \<le> v \<Longrightarrow> v < 2 ^ 31 \<Longrightarrow> asInt32 (nat (v mod 2 ^ 32)) = v"
proof (cases "0 \<le> v")
  case False
  assume b: "- (2 ^ 31) \<le> v"
  have "v mod 2 ^ 32 = (v + 2 ^ 32) mod 2 ^ 32" by simp
  also have "\<dots> = v + 2 ^ 32" using False b by (intro mod_pos_pos_trivial) auto
  finally show ?thesis using False b by (simp add: asInt32_def)
next
  case True
  assume b: "v < 2 ^ 31"
  with True have "v mod 2 ^ 32 = v" by (intro mod_pos_pos_trivial) auto
  with True b show ?thesis by (simp add: asInt32_def)
qed

lemma cursor_of_hex: "bs \<noteq> [] \<Longrightarrow> cursor (JStr (bytesToHex bs)) = Inr bs"
proof -
  assume b: "bs \<noteq> []"
  have l: "list_all (\<lambda>c. low_char c = c \<and> is_hex c) ''0123456789abcdef''" by code_simp
  then have c: "low_char c = c \<and> is_hex c" if "is_lower_hex c" for c
    using that unfolding is_lower_hex_def list_all_iff by blast
  have "list_all is_hex (bytesToHex bs)" "js_lower (bytesToHex bs) = bytesToHex bs"
    using bytesToHex_digits [of bs] c unfolding js_lower_def by (auto simp: list_all_iff intro!: map_idI)
  moreover have "bytesToHex bs \<noteq> []" using b by (cases bs) (simp_all add: bytesToHex_Cons byte_hex_def)
  ultimately show ?thesis by (simp add: cursor_def)
qed

lemma zip_sigs: "length sigs = length ins \<Longrightarrow>
    map2 (\<lambda>input stack. \<lparr> is_scriptSigHex = snd input, is_witness = stack \<rparr>)
      (zip ins (map is_scriptSigHex sigs)) (map is_witness sigs) = sigs"
  by (rule nth_equalityI) simp_all

lemma zip_fst: "length sigs = length ins \<Longrightarrow> map fst (zip ins (map f sigs)) = ins"
  by (simp add: map_fst_zip)

lemma walk_written:
  assumes ok: "tx_ok segwit tx sigs"
  shows "walk_bytes (write_tx segwit tx sigs) = Inr (tx, bytesToHex (write_tx False tx sigs), sigs)"
proof -
  let ?ins = "zip (rt_inputs tx) (map is_scriptSigHex sigs)"
  let ?n = "length (rt_inputs tx)" and ?m = "length (rt_outputs tx)"
  let ?lock = "le_bytes 4 (rt_locktime tx)"
  let ?wit = "if segwit then concat (map write_stack (map is_witness sigs)) else []"
  let ?outs = "concat (map write_output (rt_outputs tx))"
  let ?body = "write_varint ?n @ concat (map write_input ?ins) @ write_varint ?m @ ?outs"
  let ?v = "nat (rt_version tx mod 2 ^ 32)"
  let ?r1 = "?body @ ?wit @ ?lock"
  let ?r0 = "(if segwit then [0x00, 0x01] else []) @ ?r1"
  have len: "length sigs = ?n" "length ?ins = ?n" "0 < ?n"
    using ok by (auto simp: tx_ok_def)
  have w: "write_tx s tx sigs = le_bytes 4 ?v @ (if s then [0x00, 0x01] else []) @ ?body
      @ (if s then concat (map write_stack (map is_witness sigs)) else []) @ ?lock" for s
    by (simp add: write_tx_def)
  have version: "uintLE 4 (le_bytes 4 ?v @ t) = Inr (?v, t)" for t
    by (rule uintLE_append) (simp add: nat_less_iff)
  have seg: "(take 2 ?r0 = [0x00, 0x01]) = segwit" "(if segwit then drop 2 ?r0 else ?r0) = ?r1"
  proof -
    have "(take 2 ?r0 = [0x00, 0x01]) = segwit \<and> (if segwit then drop 2 ?r0 else ?r0) = ?r1"
    proof (cases segwit)
      case False
      then show ?thesis
        using write_varint_not_marker [OF len(3)] by (simp only: append_assoc if_False append_Nil simp_thms)
    qed simp
    then show "(take 2 ?r0 = [0x00, 0x01]) = segwit" "(if segwit then drop 2 ?r0 else ?r0) = ?r1" by blast+
  qed
  have counts: "varint (write_varint ?n @ t) = Inr (?n, t)" "varint (write_varint ?m @ t) = Inr (?m, t)" for t
    using ok by (simp_all add: tx_ok_def varint_append)
  have ins: "read_times ?n read_input (concat (map write_input ?ins) @ t) = Inr (?ins, t)" for t
    using inputs.many_read_back [of ?ins t] ok len by (simp add: tx_ok_def)
  have outs: "read_times ?m read_output (?outs @ t) = Inr (rt_outputs tx, t)" for t
    using outputs.many_read_back ok by (simp add: tx_ok_def)
  have stacks: "(if segwit then read_times ?n read_stack (?wit @ t) else Inr (replicate ?n [], ?wit @ t))
      = Inr (map is_witness sigs, t)" for t
  proof (cases segwit)
    case True
    then have "list_all stack_ok (map is_witness sigs)" using ok by (simp add: tx_ok_def list_all_iff)
    from stacks.many_read_back [OF this, of t] True len show ?thesis by simp
  next
    case False
    then have "map is_witness sigs = replicate ?n []"
      using ok len by (auto simp: tx_ok_def list_all_iff intro!: nth_equalityI)
    with False show ?thesis by simp
  qed
  have lock: "uintLE 4 ?lock = Inr (rt_locktime tx, [])"
    using uintLE_append [of "rt_locktime tx" 4 "[]"] ok by (simp add: tx_ok_def)
  have legacy: "take 4 (write_tx segwit tx sigs) @ take (length ?r1 - length (?wit @ ?lock)) ?r1
      @ drop (length (write_tx segwit tx sigs) - 4) (write_tx segwit tx sigs) = write_tx False tx sigs"
  proof -
    have "take (length ?r1 - length (?wit @ ?lock)) ?r1 = ?body" by simp
    moreover have "take 4 (write_tx segwit tx sigs) = le_bytes 4 ?v" unfolding w by simp
    moreover have "drop (length (write_tx segwit tx sigs) - 4) (write_tx segwit tx sigs) = ?lock"
    proof -
      have "drop (length (a @ ?lock) - 4) (a @ ?lock) = ?lock" for a by simp
      from this [of "le_bytes 4 ?v @ (if segwit then [0x00, 0x01] else []) @ ?body @ ?wit"]
      show ?thesis unfolding w by simp
    qed
    ultimately show ?thesis unfolding w [of False] by simp
  qed
  have ver: "asInt32 ?v = rt_version tx" using ok by (intro asInt32_roundtrip) (simp_all add: tx_ok_def)
  have v0: "uintLE 4 (write_tx segwit tx sigs) = Inr (?v, ?r0)"
    using version [of ?r0] unfolding w by simp
  have c1: "varint ?r1 = Inr (?n, concat (map write_input ?ins) @ write_varint ?m @ ?outs @ ?wit @ ?lock)"
    by (simp only: append_assoc counts)
  have n0: "?n \<noteq> 0" using len(3) by simp
  have tx: "\<lparr> rt_version = rt_version tx, rt_locktime = rt_locktime tx, rt_inputs = map fst ?ins,
      rt_outputs = rt_outputs tx \<rparr> = tx"
    using len by (simp add: zip_fst)
  show ?thesis
    unfolding walk_bytes_def v0 sum.case prod.case Let_def seg c1 ins counts outs stacks lock ver tx
      zip_sigs [OF len(1)] legacy
    using n0 by simp
qed

lemma walkRawTx_written:
  assumes "tx_ok segwit tx sigs"
  shows "walkRawTx (JStr (bytesToHex (write_tx segwit tx sigs))) = Inr (tx, bytesToHex (write_tx False tx sigs), sigs)"
proof -
  have "write_tx segwit tx sigs \<noteq> []"
    using length_le_bytes [of 4 "rt_locktime tx"] by (auto simp: write_tx_def simp del: length_le_bytes)
  then show ?thesis using walk_written [OF assms] by (simp add: walkRawTx_def cursor_of_hex)
qed

lemma write_tx_inj:
  assumes "tx_ok s tx sigs" "tx_ok s' tx' sigs'" "write_tx s tx sigs = write_tx s' tx' sigs'"
  shows "tx = tx' \<and> sigs = sigs'"
  using walk_written [OF assms(1)] walk_written [OF assms(2)] assms(3) by simp

section \<open>What the parser guarantees of any reply\<close>

lemma walk_bytes_sizes:
  assumes "walk_bytes bytes = Inr (tx, legacy, sigs)"
  shows "length sigs = length (rt_inputs tx) \<and> rt_inputs tx \<noteq> []
    \<and> 10 + 41 * length (rt_inputs tx) + 9 * length (rt_outputs tx) \<le> length bytes"
proof -
  obtain v r0 where v: "uintLE 4 bytes = Inr (v, r0)"
    using assms by (auto simp: walk_bytes_def split: sum.splits)
  define seg where "seg = (take 2 r0 = [0x00, 0x01])"
  define r1 where "r1 = (if seg then drop 2 r0 else r0)"
  obtain n r2 where n: "varint r1 = Inr (n, r2)" "n \<noteq> 0"
    using assms v by (auto simp: walk_bytes_def Let_def seg_def r1_def split: sum.splits if_splits)
  obtain ins r3 where ins: "read_times n read_input r2 = Inr (ins, r3)"
    using assms v n by (auto simp: walk_bytes_def Let_def seg_def r1_def split: sum.splits if_splits)
  obtain m r4 where m: "varint r3 = Inr (m, r4)"
    using assms v n ins by (auto simp: walk_bytes_def Let_def seg_def r1_def split: sum.splits if_splits)
  obtain outs r5 where outs: "read_times m read_output r4 = Inr (outs, r5)"
    using assms v n ins m by (auto simp: walk_bytes_def Let_def seg_def r1_def split: sum.splits if_splits)
  obtain stacks r6 where st: "(if seg then read_times n read_stack r5 else Inr (replicate n [], r5)) = Inr (stacks, r6)"
    using assms v n ins m outs by (auto simp: walk_bytes_def Let_def seg_def r1_def split: sum.splits if_splits)
  obtain lock where lock: "uintLE 4 r6 = Inr (lock, [])"
    using assms v n ins m outs st by (auto simp: walk_bytes_def Let_def seg_def r1_def split: sum.splits if_splits)
  have res: "rt_inputs tx = map fst ins" "rt_outputs tx = outs"
    "sigs = map2 (\<lambda>input stack. \<lparr> is_scriptSigHex = snd input, is_witness = stack \<rparr>) ins stacks"
    using assms v n ins m outs st lock
    by (auto simp: walk_bytes_def Let_def seg_def [symmetric] r1_def [symmetric])
  have l: "length ins = n" "length outs = m" "length stacks = n"
    using inputs.many_consume [OF ins] outputs.many_consume [OF outs] st stacks.many_consume [of n r5 stacks r6]
    by (auto split: if_splits)
  have s: "length r6 \<le> length r5"
    using st stacks.many_consume [of n r5 stacks r6] by (auto split: if_splits)
  have "length r1 \<le> length r0" by (simp add: r1_def)
  moreover have "length bytes = 4 + length r0" using uintLE_consumes [OF v] by auto
  moreover have "1 + length r2 \<le> length r1" "1 + length r4 \<le> length r3"
    using varint_consumes [OF n(1)] varint_consumes [OF m] by auto
  moreover have "n * 41 + length r3 \<le> length r2" "m * 9 + length r5 \<le> length r4"
    using inputs.many_consume [OF ins] outputs.many_consume [OF outs] by auto
  moreover have "length r6 = 4" using uintLE_consumes [OF lock] by auto
  ultimately show ?thesis using res l s n(2) by auto
qed

text \<open>Property C19. The parser reads back every transaction the format can write, legacy or segwit: version,
  outpoints, sequences, amounts, scripts, locktime, and each input's signature material; and the serialisation
  it returns for the txid is the one without witness data.\<close>

theorem parse_reads_back:
  assumes "tx_ok segwit tx sigs"
  shows "walkRawTx (JStr (bytesToHex (write_tx segwit tx sigs))) = Inr (tx, bytesToHex (write_tx False tx sigs), sigs)
    \<and> parseRawTx (JStr (bytesToHex (write_tx segwit tx sigs))) = Inr tx
    \<and> readSignedRawTx (JStr (bytesToHex (write_tx segwit tx sigs))) = Inr (tx, sigs)
    \<and> rawTxid sha256 (JStr (bytesToHex (write_tx segwit tx sigs)))
      = Inr (bytesToHex (rev (sha256 (sha256 (write_tx False tx sigs)))))"
  using walkRawTx_written [OF assms] by (simp_all add: parseRawTx_def readSignedRawTx_def rawTxid_def)

definition sample_input :: tx_input where
  "sample_input = \<lparr> ti_prevTxHash = ''00112233445566778899aabbccddeeff00112233445566778899aabbccddeeff'',
     ti_prevTxIndex = 1, ti_sequence = 4294967293 \<rparr>"

definition sample_tx :: raw_tx where
  "sample_tx = \<lparr> rt_version = 2, rt_locktime = 840000, rt_inputs = [sample_input],
     rt_outputs = [\<lparr> to_valueSat = 5000000000, to_scriptPubKeyHex = ''0014aa'' \<rparr>] \<rparr>"

definition sample_sigs :: "input_signature list" where
  "sample_sigs = [\<lparr> is_scriptSigHex = '''', is_witness = [''30'', ''02ab''] \<rparr>]"

lemma sample_ok: "tx_ok True sample_tx sample_sigs"
proof -
  have "hex_text ''00112233445566778899aabbccddeeff00112233445566778899aabbccddeeff''" "hex_text ''0014aa''"
    "hex_text ''30''" "hex_text ''02ab''" "hex_text ''''" by code_simp+
  then show ?thesis
    by (simp add: tx_ok_def sample_tx_def sample_sigs_def sample_input_def input_ok_def output_ok_def
        stack_ok_def slice_ok_def)
qed

theorem parse_reads_back_witness:
  "parseRawTx (JStr (bytesToHex (write_tx True sample_tx sample_sigs))) = Inr sample_tx
   \<and> readSignedRawTx (JStr (bytesToHex (write_tx True sample_tx sample_sigs))) = Inr (sample_tx, sample_sigs)"
  using parse_reads_back [OF sample_ok, of "\<lambda>b. b"] by blast

text \<open>Whatever hex a device or a user hands back, a transaction that parses has an input, one
  signature entry for each input, and never more inputs and outputs than its bytes can hold, so no count read
  from the reply can make the wallet allocate more than the reply itself.\<close>

lemma parse_is_bounded_by_reply:
  assumes "walkRawTx (JStr hex) = Inr (tx, legacyHex, signatures)"
  shows "length signatures = length (rt_inputs tx) \<and> rt_inputs tx \<noteq> []
    \<and> 20 + 82 * length (rt_inputs tx) + 18 * length (rt_outputs tx) \<le> length hex"
proof -
  obtain bytes where b: "cursor (JStr hex) = Inr bytes" "walk_bytes bytes = Inr (tx, legacyHex, signatures)"
    using assms by (auto simp: walkRawTx_def split: sum.splits)
  have "2 * length bytes \<le> length hex"
    using b(1) by (auto simp: cursor_def length_hexToBytes split: if_splits)
  with walk_bytes_sizes [OF b(2)] show ?thesis by linarith
qed

end
