(* ===== verification/Signed_Tx_Check.thy ===== *)
theory Signed_Tx_Check
  imports Raw_Tx
begin

text \<open>
  The check that a hardware signer's reply still spends and pays what the approved PSBT said:
  \<^verbatim>\<open>assertSignedTxMatchesPsbt\<close> of \<^verbatim>\<open>core/src/signers/verifySignedTx.js\<close>. The
  decomposed PSBT comes from the chain SDK, so its fields are arbitrary JavaScript values. A thrown
  \<^verbatim>\<open>SignerStatusError\<close> is a \<open>refusal\<close>, \<open>Inr ()\<close> a return.
\<close>

record decomposed_input =
  di_prevTxHash :: js
  di_prevTxIndex :: js
  di_sequence :: js
  di_scriptType :: js
  di_scriptPubKeyHex :: js
  di_witnessUtxoScriptHex :: js
  di_value :: js
  di_sighashType :: js

record decomposed_output =
  do_scriptPubKeyHex :: js
  do_value :: js

record decomposed_psbt =
  dp_inputs :: "decomposed_input list option"
  dp_outputs :: "decomposed_output list option"
  dp_locktime :: js
  dp_txVersion :: js

datatype refusal =
    No_decomposition
  | Undecodable tx_error
  | Output_count nat nat
  | Output_script nat
  | Output_inexact nat
  | Output_amount nat
  | Input_count nat nat
  | Input_outpoint nat
  | Psbt_sequence nat
  | Input_sequence nat
  | Input_unsigned nat
  | Input_no_witness nat
  | Psbt_locktime
  | Locktime_differs
  | Psbt_version
  | Version_differs
  | Version_relative_lock nat

definition exactSats :: "js \<Rightarrow> int option" where
  "exactSats value = (case value of
     JBig i \<Rightarrow> Some i
   | JStr s \<Rightarrow> (if s \<noteq> [] \<and> list_all is_digit s then Some (int (dec_nat s)) else None)
   | JNum (Fin r) \<Rightarrow> (if js_is_int r \<and> \<bar>r\<bar> \<le> 2 ^ 53 - 1 \<and> 0 \<le> r then Some \<lfloor>r\<rfloor> else None)
   | _ \<Rightarrow> None)"

definition SEGWIT_SCRIPT_TYPES :: "string list" where
  "SEGWIT_SCRIPT_TYPES = [''p2wpkh'', ''p2sh-p2wpkh'', ''p2wsh'', ''p2sh-p2wsh'']"

definition isValidSequence :: "js \<Rightarrow> bool" where
  "isValidSequence sequence \<longleftrightarrow> is_integer sequence \<and> 0 \<le> fin_val sequence \<and> fin_val sequence \<le> 0xffffffff"

definition enablesRelativeLock :: "js \<Rightarrow> bool" where
  "enablesRelativeLock sequence \<longleftrightarrow> num_lt (js_number sequence) (Fin 0x80000000)"

definition isDeviceTxVersion :: "int \<Rightarrow> bool" where
  "isDeviceTxVersion version \<longleftrightarrow> version = 1 \<or> version = 2"

definition lower_text :: "js \<Rightarrow> string" where
  "lower_text v = js_lower (js_text (js_or v (JStr '''')))"

fun check_outputs :: "nat \<Rightarrow> tx_output list \<Rightarrow> decomposed_output list \<Rightarrow> refusal option" where
  "check_outputs i (got # gots) (want # wants) =
     (if lower_text (do_scriptPubKeyHex want) \<noteq> to_scriptPubKeyHex got then Some (Output_script i)
      else case exactSats (do_value want) of
        None \<Rightarrow> Some (Output_inexact i)
      | Some sats \<Rightarrow>
          if sats \<noteq> int (to_valueSat got) then Some (Output_amount i)
          else check_outputs (Suc i) gots wants)"
| "check_outputs i _ _ = None"

definition outpoint_text :: "string \<Rightarrow> js \<Rightarrow> string" where
  "outpoint_text hash index = hash @ CHR '':'' # js_text index"

fun check_inputs :: "nat \<Rightarrow> tx_input list \<Rightarrow> input_signature list \<Rightarrow> decomposed_input list \<Rightarrow> refusal option" where
  "check_inputs i (got # gots) (sig # sigs) (want # wants) =
     (if outpoint_text (lower_text (di_prevTxHash want)) (di_prevTxIndex want)
          \<noteq> outpoint_text (ti_prevTxHash got) (JNum (Fin (of_nat (ti_prevTxIndex got)))) then Some (Input_outpoint i)
      else if \<not> isValidSequence (di_sequence want) then Some (Psbt_sequence i)
      else if of_nat (ti_sequence got) \<noteq> fin_val (di_sequence want) then Some (Input_sequence i)
      else if scriptSigBytes sig = 0 \<and> witnessItems sig = 0 then Some (Input_unsigned i)
      else if (\<exists>t \<in> set SEGWIT_SCRIPT_TYPES. di_scriptType want = JStr t) \<and> witnessItems sig = 0
      then Some (Input_no_witness i)
      else check_inputs (Suc i) gots sigs wants)"
| "check_inputs i _ _ _ = None"

fun find_relative_lock :: "nat \<Rightarrow> decomposed_input list \<Rightarrow> nat option" where
  "find_relative_lock i [] = None"
| "find_relative_lock i (inp # inps) =
     (if enablesRelativeLock (di_sequence inp) then Some i else find_relative_lock (Suc i) inps)"

definition check_locktime :: "raw_tx \<Rightarrow> decomposed_psbt \<Rightarrow> refusal option" where
  "check_locktime tx decomposed = (case js_number (js_or (dp_locktime decomposed) (JNum (Fin 0))) of
     Fin want \<Rightarrow> (if of_nat (rt_locktime tx) \<noteq> want then Some Locktime_differs else None)
   | _ \<Rightarrow> Some Psbt_locktime)"

definition check_version :: "raw_tx \<Rightarrow> decomposed_psbt \<Rightarrow> decomposed_input list \<Rightarrow> refusal option" where
  "check_version tx decomposed inputs =
     (if \<not> is_integer (dp_txVersion decomposed) then Some Psbt_version
      else let want = \<lfloor>fin_val (dp_txVersion decomposed)\<rfloor> in
        if rt_version tx = want then None
        else if \<not> isDeviceTxVersion want \<or> \<not> isDeviceTxVersion (rt_version tx) then Some Version_differs
        else map_option Version_relative_lock (find_relative_lock 0 inputs))"

definition assertSignedTxMatchesPsbt :: "js \<Rightarrow> decomposed_psbt option \<Rightarrow> refusal + unit" where
  "assertSignedTxMatchesPsbt txHex decomposed =
     (case decomposed of
        None \<Rightarrow> Inl No_decomposition
      | Some d \<Rightarrow>
          (case (dp_outputs d, dp_inputs d) of
             (Some outputs, Some inputs) \<Rightarrow>
               (case walkRawTx txHex of
                  Inl e \<Rightarrow> Inl (Undecodable e)
                | Inr (tx, legacyHex, signatures) \<Rightarrow>
                    if length (rt_outputs tx) \<noteq> length outputs
                    then Inl (Output_count (length (rt_outputs tx)) (length outputs))
                    else (case check_outputs 0 (rt_outputs tx) outputs of Some r \<Rightarrow> Inl r | None \<Rightarrow>
                    if length (rt_inputs tx) \<noteq> length inputs
                    then Inl (Input_count (length (rt_inputs tx)) (length inputs))
                    else (case check_inputs 0 (rt_inputs tx) signatures inputs of Some r \<Rightarrow> Inl r | None \<Rightarrow>
                    case check_locktime tx d of Some r \<Rightarrow> Inl r | None \<Rightarrow>
                    case check_version tx d inputs of Some r \<Rightarrow> Inl r | None \<Rightarrow> Inr ())))
           | _ \<Rightarrow> Inl No_decomposition))"

section \<open>What acceptance means\<close>

definition signature_present :: "js \<Rightarrow> input_signature \<Rightarrow> bool" where
  "signature_present scriptType sig \<longleftrightarrow>
     (if \<exists>t \<in> set SEGWIT_SCRIPT_TYPES. scriptType = JStr t then \<exists>item \<in> set (is_witness sig). item \<noteq> []
      else 2 \<le> length (is_scriptSigHex sig) \<or> (\<exists>item \<in> set (is_witness sig). item \<noteq> []))"

text \<open>The decomposition an SDK reports for a transaction it holds unsigned.\<close>

definition approved_input :: "tx_input \<Rightarrow> string \<Rightarrow> decomposed_input" where
  "approved_input i scriptType = \<lparr> di_prevTxHash = JStr (ti_prevTxHash i),
     di_prevTxIndex = JNum (Fin (of_nat (ti_prevTxIndex i))), di_sequence = JNum (Fin (of_nat (ti_sequence i))),
     di_scriptType = JStr scriptType, di_scriptPubKeyHex = Undef, di_witnessUtxoScriptHex = Undef,
     di_value = Undef, di_sighashType = Undef \<rparr>"

definition approved_psbt :: "raw_tx \<Rightarrow> string list \<Rightarrow> decomposed_psbt" where
  "approved_psbt tx scriptTypes = \<lparr> dp_inputs = Some (map2 approved_input (rt_inputs tx) scriptTypes),
     dp_outputs = Some (map (\<lambda>out. \<lparr> do_scriptPubKeyHex = JStr (to_scriptPubKeyHex out),
       do_value = JBig (int (to_valueSat out)) \<rparr>) (rt_outputs tx)),
     dp_locktime = JNum (Fin (of_nat (rt_locktime tx))), dp_txVersion = JNum (Fin (of_int (rt_version tx))) \<rparr>"

definition same_version_or_swap :: "raw_tx \<Rightarrow> raw_tx \<Rightarrow> bool" where
  "same_version_or_swap psbt tx \<longleftrightarrow> rt_version tx = rt_version psbt
     \<or> rt_version tx \<in> {1, 2} \<and> rt_version psbt \<in> {1, 2} \<and> (\<forall>i \<in> set (rt_inputs psbt). 2 ^ 31 \<le> ti_sequence i)"

lemma outpoint_text_inj:
  assumes "length h = length h'" "n < 2 ^ 32" "n' < 2 ^ 32"
  shows "outpoint_text h (JNum (Fin (of_nat n))) = outpoint_text h' (JNum (Fin (of_nat n'))) \<longleftrightarrow> h = h' \<and> n = n'"
proof -
  have "num_text (Fin (of_nat n)) = nat_text n" "num_text (Fin (of_nat n')) = nat_text n'"
    using assms by (simp_all add: num_text_nat)
  then show ?thesis using assms(1) nat_text_inj by (auto simp: outpoint_text_def)
qed

lemma lower_text_hex: "list_all is_lower_hex s \<Longrightarrow> lower_text (JStr s) = s"
proof -
  have "list_all (\<lambda>c. low_char c = c) ''0123456789abcdef''" by code_simp
  then have "low_char c = c" if "is_lower_hex c" for c
    using that unfolding is_lower_hex_def list_all_iff by blast
  then show "list_all is_lower_hex s \<Longrightarrow> lower_text (JStr s) = s"
    by (auto simp: lower_text_def js_or_def js_lower_def list_all_iff intro!: map_idI)
qed

lemma check_outputs_None:
  "length gots = length wants \<Longrightarrow> check_outputs i gots wants = None \<longleftrightarrow>
   list_all2 (\<lambda>got want. lower_text (do_scriptPubKeyHex want) = to_scriptPubKeyHex got
     \<and> exactSats (do_value want) = Some (int (to_valueSat got))) gots wants"
  by (induction i gots wants rule: check_outputs.induct) (auto split: option.splits)

definition input_matches :: "tx_input \<Rightarrow> input_signature \<Rightarrow> decomposed_input \<Rightarrow> bool" where
  "input_matches got sig want \<longleftrightarrow>
     outpoint_text (lower_text (di_prevTxHash want)) (di_prevTxIndex want)
       = outpoint_text (ti_prevTxHash got) (JNum (Fin (of_nat (ti_prevTxIndex got))))
     \<and> isValidSequence (di_sequence want) \<and> of_nat (ti_sequence got) = fin_val (di_sequence want)
     \<and> signature_present (di_scriptType want) sig"

lemma signature_checks:
  "signature_present t sig \<longleftrightarrow> \<not> (scriptSigBytes sig = 0 \<and> witnessItems sig = 0)
     \<and> \<not> ((\<exists>s \<in> set SEGWIT_SCRIPT_TYPES. t = JStr s) \<and> witnessItems sig = 0)"
  unfolding signature_present_def scriptSigBytes_def witnessItems_def
  by (auto simp: filter_empty_conv)

lemma check_inputs_None:
  "length sigs = length gots \<Longrightarrow> length wants = length gots \<Longrightarrow> check_inputs i gots sigs wants = None \<longleftrightarrow>
   (\<forall>j < length gots. input_matches (gots ! j) (sigs ! j) (wants ! j))"
proof (induction gots arbitrary: i sigs wants)
  case (Cons got gots)
  obtain sig sigs' want wants' where c: "sigs = sig # sigs'" "wants = want # wants'"
    using Cons.prems by (cases sigs; cases wants) auto
  have split: "(\<forall>j < length (got # gots). input_matches ((got # gots) ! j) (sigs ! j) (wants ! j)) \<longleftrightarrow>
      input_matches got sig want \<and> (\<forall>j < length gots. input_matches (gots ! j) (sigs' ! j) (wants' ! j))"
    by (simp add: c All_less_Suc2)
  show ?case
  proof (cases "input_matches got sig want")
    case True
    then have "check_inputs i (got # gots) sigs wants = check_inputs (Suc i) gots sigs' wants'"
      unfolding c by (auto simp: input_matches_def signature_checks)
    with True Cons show ?thesis unfolding split by (simp add: c)
  next
    case False
    then have "check_inputs i (got # gots) sigs wants \<noteq> None"
      unfolding c input_matches_def signature_checks by auto
    with False show ?thesis unfolding split by simp
  qed
qed simp

lemma find_relative_lock_None: "find_relative_lock i inps = None \<longleftrightarrow> list_all (\<lambda>inp. \<not> enablesRelativeLock (di_sequence inp)) inps"
  by (induction inps arbitrary: i) auto

lemma list_all2_map_eq: "(\<And>x y. x \<in> set xs \<Longrightarrow> y \<in> set ys \<Longrightarrow> P x (f y) \<longleftrightarrow> x = y) \<Longrightarrow> list_all2 P xs (map f ys) \<longleftrightarrow> xs = ys"
proof (induction xs arbitrary: ys)
  case (Cons x xs)
  then show ?case by (cases ys) auto
qed auto

lemma outputs_accepted:
  assumes "list_all output_ok outs" "list_all output_ok approved"
  shows "length outs = length approved \<and> check_outputs 0 outs (map (\<lambda>out. \<lparr> do_scriptPubKeyHex = JStr (to_scriptPubKeyHex out),
       do_value = JBig (int (to_valueSat out)) \<rparr>) approved) = None \<longleftrightarrow> outs = approved"
    (is "?l \<and> check_outputs 0 outs ?w = None \<longleftrightarrow> _")
proof (cases ?l)
  case True
  have "check_outputs 0 outs ?w = None \<longleftrightarrow> list_all2 (\<lambda>got want. lower_text (do_scriptPubKeyHex want) = to_scriptPubKeyHex got
     \<and> exactSats (do_value want) = Some (int (to_valueSat got))) outs ?w"
    by (rule check_outputs_None) (simp add: True)
  also have "\<dots> \<longleftrightarrow> outs = approved"
  proof (rule list_all2_map_eq)
    fix x y assume "x \<in> set outs" "y \<in> set approved"
    then have "list_all is_lower_hex (to_scriptPubKeyHex y)"
      using assms(2) by (auto simp: list_all_iff output_ok_def slice_ok_def hex_text_def)
    then show "lower_text (do_scriptPubKeyHex \<lparr> do_scriptPubKeyHex = JStr (to_scriptPubKeyHex y), do_value = JBig (int (to_valueSat y)) \<rparr>)
        = to_scriptPubKeyHex x \<and> exactSats (do_value \<lparr> do_scriptPubKeyHex = JStr (to_scriptPubKeyHex y),
          do_value = JBig (int (to_valueSat y)) \<rparr>) = Some (int (to_valueSat x)) \<longleftrightarrow> x = y"
      by (cases x; cases y) (auto simp: lower_text_hex exactSats_def)
  qed
  finally show ?thesis using True by simp
qed auto

lemma input_matches_approved:
  assumes "input_ok (got, s)" "input_ok (want, s')"
  shows "input_matches got sig (approved_input want t) \<longleftrightarrow> got = want \<and> signature_present (JStr t) sig"
proof -
  have h: "list_all is_lower_hex (ti_prevTxHash want)" "length (ti_prevTxHash want) = length (ti_prevTxHash got)"
    "ti_prevTxIndex want < 2 ^ 32" "ti_prevTxIndex got < 2 ^ 32" "ti_sequence want < 2 ^ 32"
    using assms by (auto simp: input_ok_def hex_text_def)
  have "(of_nat (ti_sequence want) :: rat) \<le> of_nat (2 ^ 32 - 1)"
    using h(5) unfolding of_nat_le_iff by simp
  then have v: "isValidSequence (JNum (Fin (of_nat (ti_sequence want))))"
    by (simp add: isValidSequence_def)
  have "input_matches got sig (approved_input want t) \<longleftrightarrow> (ti_prevTxHash want = ti_prevTxHash got
      \<and> ti_prevTxIndex want = ti_prevTxIndex got) \<and> ti_sequence got = ti_sequence want \<and> signature_present (JStr t) sig"
    using v by (simp add: input_matches_def approved_input_def lower_text_hex [OF h(1)] outpoint_text_inj [OF h(2-4)])
  then show ?thesis by (cases got; cases want) auto
qed

lemma inputs_accepted:
  assumes "list_all input_ok (zip ins (map is_scriptSigHex sigs))" "length sigs = length ins"
    and "\<forall>i \<in> set approved. \<exists>s. input_ok (i, s)" "length types = length approved"
  shows "length ins = length approved \<and> check_inputs 0 ins sigs (map2 approved_input approved types) = None \<longleftrightarrow>
    ins = approved \<and> (\<forall>j < length ins. signature_present (JStr (types ! j)) (sigs ! j))"
proof (cases "length ins = length approved")
  case True
  have ok: "input_ok (ins ! j, is_scriptSigHex (sigs ! j))" if "j < length ins" for j
    using assms(1,2) that by (simp add: list_all_length)
  have m: "input_matches (ins ! j) (sigs ! j) (map2 approved_input approved types ! j) \<longleftrightarrow>
      ins ! j = approved ! j \<and> signature_present (JStr (types ! j)) (sigs ! j)" if j: "j < length ins" for j
  proof -
    obtain s where "input_ok (approved ! j, s)" using assms(3) j True nth_mem by metis
    from input_matches_approved [OF ok [OF j] this] show ?thesis using j True assms(4) by simp
  qed
  have "check_inputs 0 ins sigs (map2 approved_input approved types) = None \<longleftrightarrow>
      (\<forall>j < length ins. ins ! j = approved ! j \<and> signature_present (JStr (types ! j)) (sigs ! j))"
    using check_inputs_None [of sigs ins "map2 approved_input approved types" 0] m True assms(2,4) by simp
  with True show ?thesis by (auto simp: list_eq_iff_nth_eq)
qed auto

lemma relative_lock_approved:
  "length types = length ins \<Longrightarrow> find_relative_lock i (map2 approved_input ins types) = None \<longleftrightarrow>
   (\<forall>inp \<in> set ins. 2 ^ 31 \<le> ti_sequence inp)"
proof -
  assume l: "length types = length ins"
  have e: "enablesRelativeLock (di_sequence (approved_input inp t)) \<longleftrightarrow> \<not> 2 ^ 31 \<le> ti_sequence inp" for inp t
  proof -
    have "(of_nat (ti_sequence inp) :: rat) < of_nat (2 ^ 31) \<longleftrightarrow> ti_sequence inp < 2 ^ 31" unfolding of_nat_less_iff ..
    then show ?thesis by (auto simp: enablesRelativeLock_def approved_input_def)
  qed
  have "set ins = fst ` set (zip ins types)" using l by (metis length_map map_fst_zip set_map)
  then show ?thesis
    unfolding find_relative_lock_None by (auto simp: list_all_iff e)
qed

lemma version_accepted:
  "length types = length (rt_inputs psbt) \<Longrightarrow>
   check_version tx (approved_psbt psbt types) (map2 approved_input (rt_inputs psbt) types) = None \<longleftrightarrow>
   same_version_or_swap psbt tx"
  using relative_lock_approved [of types "rt_inputs psbt" 0]
  by (auto simp: check_version_def approved_psbt_def same_version_or_swap_def isDeviceTxVersion_def Let_def)

lemma locktime_accepted: "check_locktime tx (approved_psbt psbt types) = None \<longleftrightarrow> rt_locktime tx = rt_locktime psbt"
  by (auto simp: check_locktime_def approved_psbt_def js_or_def)

definition approvable :: "raw_tx \<Rightarrow> string list \<Rightarrow> bool" where
  "approvable psbt types \<longleftrightarrow> list_all output_ok (rt_outputs psbt)
     \<and> (\<forall>i \<in> set (rt_inputs psbt). \<exists>s. input_ok (i, s)) \<and> length types = length (rt_inputs psbt)"

text \<open>Property C7. A signed reply passes exactly when it pays the approved outputs in order, spends the approved
  outpoints with the approved sequences in order, keeps the locktime, keeps the version or swaps 1 and 2 while
  no input enables a relative timelock, and carries signature material on every input, in the witness where
  the input's script type is a segwit one. Anything else, in whatever serialisation, is refused.\<close>

theorem signed_reply_accepted_iff:
  assumes reply: "tx_ok segwit tx sigs" and psbt: "approvable psbt types"
  shows "assertSignedTxMatchesPsbt (JStr (bytesToHex (write_tx segwit tx sigs))) (Some (approved_psbt psbt types)) = Inr ()
    \<longleftrightarrow> rt_outputs tx = rt_outputs psbt \<and> rt_inputs tx = rt_inputs psbt \<and> rt_locktime tx = rt_locktime psbt
      \<and> same_version_or_swap psbt tx
      \<and> (\<forall>j < length (rt_inputs tx). signature_present (JStr (types ! j)) (sigs ! j))"
    (is "?accepted \<longleftrightarrow> ?same")
proof -
  let ?outs = "map (\<lambda>out. \<lparr> do_scriptPubKeyHex = JStr (to_scriptPubKeyHex out), do_value = JBig (int (to_valueSat out)) \<rparr>) (rt_outputs psbt)"
  let ?ins = "map2 approved_input (rt_inputs psbt) types"
  have d: "dp_outputs (approved_psbt psbt types) = Some ?outs" "dp_inputs (approved_psbt psbt types) = Some ?ins"
    by (simp_all add: approved_psbt_def)
  have types: "length types = length (rt_inputs psbt)" using psbt by (simp add: approvable_def)
  have "?accepted \<longleftrightarrow> (length (rt_outputs tx) = length (rt_outputs psbt) \<and> check_outputs 0 (rt_outputs tx) ?outs = None)
      \<and> (length (rt_inputs tx) = length (rt_inputs psbt) \<and> check_inputs 0 (rt_inputs tx) sigs ?ins = None)
      \<and> check_locktime tx (approved_psbt psbt types) = None
      \<and> check_version tx (approved_psbt psbt types) ?ins = None"
    unfolding assertSignedTxMatchesPsbt_def option.case d prod.case walkRawTx_written [OF reply] sum.case
    using types by (simp split: option.splits)
  also have "\<dots> \<longleftrightarrow> rt_outputs tx = rt_outputs psbt
      \<and> (rt_inputs tx = rt_inputs psbt \<and> (\<forall>j < length (rt_inputs tx). signature_present (JStr (types ! j)) (sigs ! j)))
      \<and> rt_locktime tx = rt_locktime psbt \<and> same_version_or_swap psbt tx"
    using outputs_accepted [of "rt_outputs tx" "rt_outputs psbt"]
      inputs_accepted [of "rt_inputs tx" sigs "rt_inputs psbt" types] reply psbt
    by (simp add: tx_ok_def approvable_def locktime_accepted version_accepted)
  finally show ?thesis by blast
qed

theorem signed_reply_accepted_iff_witness:
  "assertSignedTxMatchesPsbt (JStr (bytesToHex (write_tx True sample_tx sample_sigs)))
      (Some (approved_psbt sample_tx [''p2wpkh''])) = Inr ()
   \<and> assertSignedTxMatchesPsbt (JStr (bytesToHex (write_tx True sample_tx sample_sigs)))
      (Some (approved_psbt (sample_tx\<lparr> rt_locktime := 0 \<rparr>) [''p2wpkh''])) \<noteq> Inr ()"
proof -
  have o: "list_all output_ok (rt_outputs sample_tx)" "input_ok (sample_input, '''')"
    "length (rt_inputs sample_tx) = 1" "rt_inputs sample_tx = [sample_input]"
    using sample_ok by (auto simp: tx_ok_def sample_tx_def sample_sigs_def)
  then have a: "approvable sample_tx [''p2wpkh'']" "approvable (sample_tx\<lparr> rt_locktime := 0 \<rparr>) [''p2wpkh'']"
    by (auto simp: approvable_def)
  show ?thesis
    using signed_reply_accepted_iff [OF sample_ok a(1)] signed_reply_accepted_iff [OF sample_ok a(2)]
    by (simp add: sample_tx_def sample_sigs_def same_version_or_swap_def signature_present_def)
qed

end
