(* ===== verification/Tx_Signatures.thy ===== *)
theory Tx_Signatures
  imports Signed_Tx_Check "HOL-Library.Sublist"
begin

text \<open>
  The signature checks run before a broadcast: \<^verbatim>\<open>core/src/signers/verifyInputSignatures.js\<close>
  for a device's reply and \<^verbatim>\<open>verifyTxSignatures.js\<close> for signed bytes from any other route.
  Hashes, ECDSA, DER and BIP340 verification and the address codecs come from packages and are the
  fields of \<open>crypto\<close> (\<open>None\<close> when the call throws); script parsing, the signature hashes' preimages,
  the multisig matching and every refusal are the code's. A check returns \<open>None\<close> when it passes.
\<close>

section \<open>Hashes and text\<close>

record crypto =
  cr_sha256 :: "byte list \<Rightarrow> byte list"
  cr_ripemd160 :: "byte list \<Rightarrow> byte list"
  cr_der :: "byte list \<Rightarrow> byte list option"
  cr_ecdsa :: "byte list \<Rightarrow> byte list \<Rightarrow> byte list \<Rightarrow> bool option"
  cr_schnorr :: "byte list \<Rightarrow> byte list \<Rightarrow> byte list \<Rightarrow> bool option"

definition uintLE_hex :: "nat \<Rightarrow> nat \<Rightarrow> string" where
  "uintLE_hex value n = bytesToHex (le_bytes n value)"

definition varint_hex :: "nat \<Rightarrow> string" where
  "varint_hex n = (if n < 0xfd then uintLE_hex n 1
     else if n \<le> 0xffff then ''fd'' @ uintLE_hex n 2
     else if n \<le> 0xffffffff then ''fe'' @ uintLE_hex n 4
     else ''ff'' @ uintLE_hex n 8)"

definition varSlice_hex :: "string \<Rightarrow> string" where
  "varSlice_hex hex = varint_hex (length hex div 2) @ hex"

fun reverseHex :: "string \<Rightarrow> string" where
  "reverseHex (c # d # s) = reverseHex s @ [c, d]"
| "reverseHex _ = []"

definition hash256 :: "crypto \<Rightarrow> string \<Rightarrow> byte list" where
  "hash256 cr hex = cr_sha256 cr (cr_sha256 cr (hexToBytes hex))"

definition hash160 :: "crypto \<Rightarrow> string \<Rightarrow> string" where
  "hash160 cr hex = bytesToHex (cr_ripemd160 cr (cr_sha256 cr (hexToBytes hex)))"

definition sha256Hex :: "crypto \<Rightarrow> string \<Rightarrow> string" where
  "sha256Hex cr hex = bytesToHex (cr_sha256 cr (hexToBytes hex))"

definition taggedHash :: "crypto \<Rightarrow> string \<Rightarrow> string \<Rightarrow> byte list" where
  "taggedHash cr tag hex = (let tagHash = bytesToHex (cr_sha256 cr (map of_char tag)) in
     cr_sha256 cr (hexToBytes (tagHash @ tagHash @ hex)))"

definition exactSatsOrNull :: "js \<Rightarrow> nat option" where
  "exactSatsOrNull value = (case value of
     JBig i \<Rightarrow> (if i \<ge> 0 then Some (nat i) else None)
   | JStr s \<Rightarrow> (if s \<noteq> [] \<and> list_all is_digit s then Some (dec_nat s) else None)
   | JNum (Fin r) \<Rightarrow> (if js_is_int r \<and> \<bar>r\<bar> \<le> 2 ^ 53 - 1 \<and> 0 \<le> r then Some (nat \<lfloor>r\<rfloor>) else None)
   | _ \<Rightarrow> None)"

section \<open>Scripts\<close>

definition push_size :: "bool \<Rightarrow> byte \<Rightarrow> byte list \<Rightarrow> (nat \<times> byte list) option" where
  "push_size op0 op r =
     (if op = 0 \<and> op0 then Some (0, r)
      else if 1 \<le> op \<and> op \<le> 0x4b then Some (unat op, r)
      else if op = 0x4c then (case r of n # r' \<Rightarrow> Some (unat n, r') | _ \<Rightarrow> None)
      else if op = 0x4d then (case r of a # b # r' \<Rightarrow> Some (unat a + 256 * unat b, r') | _ \<Rightarrow> None)
      else None)"

lemma push_size_shrinks: "push_size op0 op r = Some (n, r') \<Longrightarrow> length r' \<le> length r"
  by (auto simp: push_size_def split: if_splits list.splits)

function read_pushes :: "bool \<Rightarrow> byte list \<Rightarrow> string list option" where
  "read_pushes op0 [] = Some []"
| "read_pushes op0 (op # r) = (case push_size op0 op r of None \<Rightarrow> None
     | Some (n, r') \<Rightarrow> if n > length r' then None
         else map_option (\<lambda>items. bytesToHex (take n r') # items) (read_pushes op0 (drop n r')))"
  by pat_completeness auto
termination
  by (relation "measure (length \<circ> snd)") (auto dest!: push_size_shrinks)

definition scriptPushes :: "string \<Rightarrow> string list option" where
  "scriptPushes hex = read_pushes False (hexToBytes hex)"

definition pushItems :: "string \<Rightarrow> string list option" where
  "pushItems hex = read_pushes True (hexToBytes hex)"

definition isPubkey :: "string \<Rightarrow> bool" where
  "isPubkey hex \<longleftrightarrow> length hex = 66 \<and> (take 2 hex = ''02'' \<or> take 2 hex = ''03'')
     \<or> length hex = 130 \<and> take 2 hex = ''04''"

definition parseMultisigScript :: "string \<Rightarrow> (nat \<times> string list) option" where
  "parseMultisigScript hex = (let bs = hexToBytes hex; len = length bs in
     if len < 3 \<or> last bs \<noteq> 0xae then None
     else let m = int (unat (bs ! 0)) - 0x50; n = int (unat (bs ! (len - 2))) - 0x50 in
       if m < 1 \<or> m > 16 \<or> n < m \<or> n > 16 then None
       else (case read_pushes True (take (len - 3) (drop 1 bs)) of
         None \<Rightarrow> None
       | Some keys \<Rightarrow> if int (length keys) \<noteq> n \<or> \<not> list_all isPubkey keys then None else Some (nat m, keys)))"

definition framed :: "string \<Rightarrow> nat \<Rightarrow> string \<Rightarrow> string \<Rightarrow> string option" where
  "framed pre n post s = (let mid = take n (drop (length pre) s) in
     if s = pre @ mid @ post \<and> length mid = n \<and> list_all is_lower_hex mid then Some mid else None)"

definition p2pkhScript :: "string \<Rightarrow> string" where
  "p2pkhScript keyHash = ''76a914'' @ keyHash @ ''88ac''"

section \<open>Signature hashes\<close>

definition serializeOutputs :: "tx_output list \<Rightarrow> string" where
  "serializeOutputs outs = concat (map (\<lambda>out. uintLE_hex (to_valueSat out) 8 @ varSlice_hex (to_scriptPubKeyHex out)) outs)"

definition outpoint :: "tx_input \<Rightarrow> string" where
  "outpoint input = reverseHex (ti_prevTxHash input) @ uintLE_hex (ti_prevTxIndex input) 4"

definition version_hex :: "raw_tx \<Rightarrow> string" where
  "version_hex tx = uintLE_hex (nat (rt_version tx mod 2 ^ 32)) 4"

definition legacy_preimage :: "raw_tx \<Rightarrow> nat \<Rightarrow> string \<Rightarrow> string" where
  "legacy_preimage tx index scriptCode =
     version_hex tx @ varint_hex (length (rt_inputs tx))
     @ concat (map (\<lambda>(i, input). outpoint input @ (if i = index then varSlice_hex scriptCode else ''00'')
         @ uintLE_hex (ti_sequence input) 4) (enumerate 0 (rt_inputs tx)))
     @ varint_hex (length (rt_outputs tx)) @ serializeOutputs (rt_outputs tx)
     @ uintLE_hex (rt_locktime tx) 4 @ uintLE_hex 1 4"

definition legacyDigest :: "crypto \<Rightarrow> raw_tx \<Rightarrow> nat \<Rightarrow> string \<Rightarrow> byte list" where
  "legacyDigest cr tx index scriptCode = hash256 cr (legacy_preimage tx index scriptCode)"

definition bip143Digest :: "crypto \<Rightarrow> raw_tx \<Rightarrow> nat \<Rightarrow> string \<Rightarrow> nat \<Rightarrow> byte list" where
  "bip143Digest cr tx index scriptCode amount =
     (let hashPrevouts = bytesToHex (hash256 cr (concat (map outpoint (rt_inputs tx))));
          hashSequence = bytesToHex (hash256 cr (concat (map (\<lambda>input. uintLE_hex (ti_sequence input) 4) (rt_inputs tx))));
          hashOutputs = bytesToHex (hash256 cr (serializeOutputs (rt_outputs tx)));
          input = rt_inputs tx ! index in
      hash256 cr (version_hex tx @ hashPrevouts @ hashSequence @ outpoint input
        @ varSlice_hex scriptCode @ uintLE_hex amount 8 @ uintLE_hex (ti_sequence input) 4
        @ hashOutputs @ uintLE_hex (rt_locktime tx) 4 @ uintLE_hex 1 4))"

definition bip341Digest :: "crypto \<Rightarrow> raw_tx \<Rightarrow> nat list \<Rightarrow> string list \<Rightarrow> nat \<Rightarrow> nat \<Rightarrow> byte list" where
  "bip341Digest cr tx amounts scripts index hashType =
     taggedHash cr ''TapSighash'' (''00'' @ uintLE_hex hashType 1 @ version_hex tx @ uintLE_hex (rt_locktime tx) 4
       @ sha256Hex cr (concat (map outpoint (rt_inputs tx)))
       @ sha256Hex cr (concat (map (\<lambda>a. uintLE_hex a 8) amounts))
       @ sha256Hex cr (concat (map varSlice_hex scripts))
       @ sha256Hex cr (concat (map (\<lambda>input. uintLE_hex (ti_sequence input) 4) (rt_inputs tx)))
       @ sha256Hex cr (serializeOutputs (rt_outputs tx))
       @ ''00'' @ uintLE_hex index 4)"

section \<open>One signature\<close>

datatype sig_reason =
    Sig_empty
  | Sig_sighash nat
  | Sig_uncheckable
  | Sig_not_der
  | Sig_not_strict
  | Sig_does_not_verify
  | No_key_left
  | Not_multisig_script
  | Wrong_item_count nat
  | Dummy_not_empty
  | Unmatched nat sig_reason
  | Wrong_prevout
  | No_exact_amount
  | Bad_scriptSig_shape
  | Unexpected_witness
  | Unexpected_scriptSig
  | Bad_witness_shape
  | Key_not_owner
  | Script_mismatch
  | Annex_or_script_path
  | Bad_schnorr_length
  | Incomplete_prevouts
  | Wrong_prevout_script
  | Not_verifiable

definition hex_byte :: "string \<Rightarrow> nat" where
  "hex_byte s = base_nat 16 s"

definition checkSignature :: "crypto \<Rightarrow> string \<Rightarrow> string \<Rightarrow> byte list \<Rightarrow> jnum \<Rightarrow> sig_reason option" where
  "checkSignature cr sigHex pubkeyHex digest wantSighash =
     (if length sigHex < 4 then Some Sig_empty
      else let sighashType = hex_byte (drop (length sigHex - 2) sigHex) in
        if Fin (of_nat sighashType) \<noteq> wantSighash then Some (Sig_sighash sighashType)
        else if wantSighash \<noteq> Fin 1 then Some Sig_uncheckable
        else let der = hexToBytes (take (length sigHex - 2) sigHex) in
          case cr_der cr der of
            None \<Rightarrow> Some Sig_not_der
          | Some canonical \<Rightarrow>
              if bytesToHex canonical \<noteq> bytesToHex der then Some Sig_not_strict
              else if cr_ecdsa cr der digest (hexToBytes pubkeyHex) = Some True then None
              else Some Sig_does_not_verify)"

section \<open>Multisig matching\<close>

fun match_key :: "(string \<Rightarrow> string \<Rightarrow> sig_reason option) \<Rightarrow> sig_reason \<Rightarrow> string \<Rightarrow> string list \<Rightarrow> sig_reason + string list" where
  "match_key check reason sig [] = Inl reason"
| "match_key check reason sig (key # keys) =
     (case check sig key of None \<Rightarrow> Inr keys | Some r \<Rightarrow> match_key check r sig keys)"

fun match_signatures :: "(string \<Rightarrow> string \<Rightarrow> sig_reason option) \<Rightarrow> nat \<Rightarrow> string list \<Rightarrow> string list \<Rightarrow> sig_reason option" where
  "match_signatures check s [] keys = None"
| "match_signatures check s (sig # sigs) keys =
     (case match_key check No_key_left sig keys of
        Inl r \<Rightarrow> Some (Unmatched s r)
      | Inr keys' \<Rightarrow> match_signatures check (Suc s) sigs keys')"

definition checkMultisig :: "crypto \<Rightarrow> string list \<Rightarrow> string \<Rightarrow> byte list \<Rightarrow> jnum \<Rightarrow> sig_reason option" where
  "checkMultisig cr items script digest wantSighash =
     (case parseMultisigScript script of
        None \<Rightarrow> Some Not_multisig_script
      | Some (m, keys) \<Rightarrow>
          if length items \<noteq> m + 1 then Some (Wrong_item_count m)
          else if items ! 0 \<noteq> [] then Some Dummy_not_empty
          else match_signatures (\<lambda>sig key. checkSignature cr sig key digest wantSighash) 1 (drop 1 items) keys)"

section \<open>One input of a transaction from any route\<close>

record prevout =
  pv_prevTxHash :: js
  pv_prevTxIndex :: js
  pv_scriptPubKeyHex :: js
  pv_value :: js
  pv_sighashType :: js

definition requested_sighash :: "js \<Rightarrow> jnum option" where
  "requested_sighash v = (if is_nullish v then None else Some (js_number v))"

definition ecdsa_sighash :: "js \<Rightarrow> jnum" where
  "ecdsa_sighash v = (case requested_sighash v of None \<Rightarrow> Fin 1 | Some n \<Rightarrow> n)"

definition segwit_check :: "nat option \<Rightarrow> (nat \<Rightarrow> sig_reason option) \<Rightarrow> sig_reason option" where
  "segwit_check amount check = (case amount of None \<Rightarrow> Some No_exact_amount | Some a \<Rightarrow> check a)"

definition checkWitnessKey ::
    "crypto \<Rightarrow> raw_tx \<Rightarrow> nat \<Rightarrow> nat option \<Rightarrow> jnum \<Rightarrow> string list \<Rightarrow> string \<Rightarrow> sig_reason option" where
  "checkWitnessKey cr tx i amount want wit keyHash =
     (if length wit \<noteq> 2 then Some Bad_witness_shape
      else let sigHex = wit ! 0; pubkeyHex = wit ! 1 in
        if length pubkeyHex \<noteq> 66 \<or> \<not> isPubkey pubkeyHex \<or> hash160 cr pubkeyHex \<noteq> keyHash then Some Key_not_owner
        else segwit_check amount (\<lambda>a.
          checkSignature cr sigHex pubkeyHex (bip143Digest cr tx i (p2pkhScript keyHash) a) want))"

definition checkWitnessMultisig ::
    "crypto \<Rightarrow> raw_tx \<Rightarrow> nat \<Rightarrow> nat option \<Rightarrow> jnum \<Rightarrow> string list \<Rightarrow> string \<Rightarrow> sig_reason option" where
  "checkWitnessMultisig cr tx i amount want wit witnessScript =
     (if length wit < 2 then Some Bad_witness_shape
      else if last wit \<noteq> witnessScript then Some Script_mismatch
      else segwit_check amount (\<lambda>a.
        checkMultisig cr (butlast wit) witnessScript (bip143Digest cr tx i witnessScript a) want))"

definition last_item :: "string list \<Rightarrow> string" where
  "last_item wit = (if wit = [] then [] else last wit)"

definition checkLegacyKey ::
    "crypto \<Rightarrow> raw_tx \<Rightarrow> nat \<Rightarrow> jnum \<Rightarrow> input_signature \<Rightarrow> string \<Rightarrow> string \<Rightarrow> sig_reason option" where
  "checkLegacyKey cr tx i want sig script keyHash =
     (case pushItems (is_scriptSigHex sig) of
        Some [sigHex, pubkeyHex] \<Rightarrow>
          if \<exists>item \<in> set (is_witness sig). item \<noteq> [] then Some Unexpected_witness
          else if \<not> isPubkey pubkeyHex \<or> hash160 cr pubkeyHex \<noteq> keyHash then Some Key_not_owner
          else checkSignature cr sigHex pubkeyHex (legacyDigest cr tx i script) want
      | _ \<Rightarrow> Some Bad_scriptSig_shape)"

definition checkScriptHash ::
    "crypto \<Rightarrow> raw_tx \<Rightarrow> nat \<Rightarrow> nat option \<Rightarrow> jnum \<Rightarrow> input_signature \<Rightarrow> string \<Rightarrow> sig_reason option" where
  "checkScriptHash cr tx i amount want sig scriptHash =
     (case pushItems (is_scriptSigHex sig) of
        None \<Rightarrow> Some Bad_scriptSig_shape
      | Some pushes \<Rightarrow>
          if pushes = [] then Some Bad_scriptSig_shape
          else let redeem = last pushes in
            if hash160 cr redeem \<noteq> scriptHash then Some Script_mismatch
            else (case framed ''0014'' 40 [] redeem of
              Some keyHash \<Rightarrow>
                if length pushes \<noteq> 1 then Some Bad_scriptSig_shape
                else checkWitnessKey cr tx i amount want (is_witness sig) keyHash
            | None \<Rightarrow> (case framed ''0020'' 64 [] redeem of
                Some program \<Rightarrow>
                  if length pushes \<noteq> 1 then Some Bad_scriptSig_shape
                  else let witnessScript = last_item (is_witness sig) in
                    if sha256Hex cr witnessScript \<noteq> program then Some Script_mismatch
                    else checkWitnessMultisig cr tx i amount want (is_witness sig) witnessScript
              | None \<Rightarrow>
                  if \<exists>item \<in> set (is_witness sig). item \<noteq> [] then Some Unexpected_witness
                  else checkMultisig cr (butlast pushes) redeem (legacyDigest cr tx i redeem) want)))"

definition checkTaproot ::
    "crypto \<Rightarrow> raw_tx \<Rightarrow> nat \<Rightarrow> nat option list \<Rightarrow> string list \<Rightarrow> jnum option \<Rightarrow> input_signature \<Rightarrow> string
     \<Rightarrow> sig_reason option" where
  "checkTaproot cr tx i amounts scripts requested sig outputKey =
     (if is_scriptSigHex sig \<noteq> [] then Some Unexpected_scriptSig
      else if length (is_witness sig) \<noteq> 1 then Some Annex_or_script_path
      else let sigHex = is_witness sig ! 0 in
        if length sigHex \<noteq> 128 \<and> length sigHex \<noteq> 130 then Some Bad_schnorr_length
        else let hashType = (if length sigHex = 130 then hex_byte (drop 128 sigHex) else 0) in
          if length sigHex = 130 \<and> hashType \<noteq> 1 then Some (Sig_sighash hashType)
          else if requested \<noteq> None \<and> requested \<noteq> Some (Fin 0) \<and> requested \<noteq> Some (Fin 1) then Some Sig_uncheckable
          else if (\<exists>a \<in> set amounts. a = None) \<or> (\<exists>s \<in> set scripts. s = []) then Some Incomplete_prevouts
          else if cr_schnorr cr (hexToBytes (take 128 sigHex))
              (bip341Digest cr tx (map the amounts) scripts i hashType) (hexToBytes outputKey) = Some True then None
          else Some Sig_does_not_verify)"

datatype script_kind = P2pkh string | P2wpkh string | P2wsh string | P2sh string | P2tr string | Other_script

definition classify :: "string \<Rightarrow> script_kind" where
  "classify script =
     (case framed ''76a914'' 40 ''88ac'' script of Some h \<Rightarrow> P2pkh h | None \<Rightarrow>
      case framed ''0014'' 40 [] script of Some h \<Rightarrow> P2wpkh h | None \<Rightarrow>
      case framed ''0020'' 64 [] script of Some h \<Rightarrow> P2wsh h | None \<Rightarrow>
      case framed ''a914'' 40 ''87'' script of Some h \<Rightarrow> P2sh h | None \<Rightarrow>
      case framed ''5120'' 64 [] script of Some x \<Rightarrow> P2tr x | None \<Rightarrow> Other_script)"

definition check_tx_input ::
    "crypto \<Rightarrow> raw_tx \<Rightarrow> string list \<Rightarrow> nat option list \<Rightarrow> nat \<Rightarrow> prevout \<Rightarrow> input_signature \<Rightarrow> sig_reason option" where
  "check_tx_input cr tx scripts amounts i want sig =
     (let got = rt_inputs tx ! i; script = scripts ! i; amount = amounts ! i;
          requested = requested_sighash (pv_sighashType want); sighash = ecdsa_sighash (pv_sighashType want) in
      if lower_text (pv_prevTxHash want) \<noteq> ti_prevTxHash got
          \<or> js_number (pv_prevTxIndex want) \<noteq> Fin (of_nat (ti_prevTxIndex got)) then Some Wrong_prevout
      else (case classify script of
        P2pkh keyHash \<Rightarrow> checkLegacyKey cr tx i sighash sig script keyHash
      | P2wpkh keyHash \<Rightarrow>
          if is_scriptSigHex sig \<noteq> [] then Some Unexpected_scriptSig
          else checkWitnessKey cr tx i amount sighash (is_witness sig) keyHash
      | P2wsh program \<Rightarrow>
          if is_scriptSigHex sig \<noteq> [] then Some Unexpected_scriptSig
          else let witnessScript = last_item (is_witness sig) in
            if sha256Hex cr witnessScript \<noteq> program then Some Script_mismatch
            else checkWitnessMultisig cr tx i amount sighash (is_witness sig) witnessScript
      | P2sh scriptHash \<Rightarrow> checkScriptHash cr tx i amount sighash sig scriptHash
      | P2tr outputKey \<Rightarrow> checkTaproot cr tx i amounts scripts requested sig outputKey
      | Other_script \<Rightarrow> Some Not_verifiable))"

datatype sig_failure =
    Tx_undecodable tx_error
  | Prevouts_do_not_cover
  | Input_fails nat sig_reason
  | No_utxo_source
  | No_lookup_address nat
  | Coins_unread string
  | Coin_not_listed nat
  | Tracker_script nat
  | Tracker_amount nat

fun first_failure :: "(nat \<Rightarrow> sig_reason option) \<Rightarrow> nat list \<Rightarrow> sig_failure + unit" where
  "first_failure check [] = Inr ()"
| "first_failure check (i # is) = (case check i of Some r \<Rightarrow> Inl (Input_fails i r) | None \<Rightarrow> first_failure check is)"

definition assertTxSignaturesVerify :: "crypto \<Rightarrow> js \<Rightarrow> prevout list option \<Rightarrow> sig_failure + unit" where
  "assertTxSignaturesVerify cr txHex prevouts =
     (case readSignedRawTx txHex of
        Inl e \<Rightarrow> Inl (Tx_undecodable e)
      | Inr (tx, signatures) \<Rightarrow>
          (case prevouts of None \<Rightarrow> Inl Prevouts_do_not_cover | Some pvs \<Rightarrow>
             if length pvs \<noteq> length (rt_inputs tx) then Inl Prevouts_do_not_cover
             else let scripts = map (lower_text \<circ> pv_scriptPubKeyHex) pvs;
                      amounts = map (exactSatsOrNull \<circ> pv_value) pvs in
               first_failure (\<lambda>i. check_tx_input cr tx scripts amounts i (pvs ! i) (signatures ! i))
                 [0..<length (rt_inputs tx)]))"

section \<open>A device's reply\<close>

definition device_script :: "decomposed_input \<Rightarrow> string" where
  "device_script want = lower_text (js_or (di_scriptPubKeyHex want) (di_witnessUtxoScriptHex want))"

definition check_device_input :: "crypto \<Rightarrow> raw_tx \<Rightarrow> nat \<Rightarrow> decomposed_input \<Rightarrow> input_signature \<Rightarrow> sig_reason option" where
  "check_device_input cr tx i want sig =
     (let prevScript = device_script want; wantSighash = ecdsa_sighash (di_sighashType want) in
      if di_scriptType want = JStr ''p2pkh'' then
        (case framed ''76a914'' 40 ''88ac'' prevScript of
           None \<Rightarrow> Some Wrong_prevout_script
         | Some keyHash \<Rightarrow>
             (case scriptPushes (is_scriptSigHex sig) of
                Some [sigHex, pubkeyHex] \<Rightarrow>
                  if \<exists>item \<in> set (is_witness sig). item \<noteq> [] then Some Unexpected_witness
                  else if \<not> isPubkey pubkeyHex \<or> hash160 cr pubkeyHex \<noteq> keyHash then Some Key_not_owner
                  else checkSignature cr sigHex pubkeyHex (legacyDigest cr tx i prevScript) wantSighash
              | _ \<Rightarrow> Some Bad_scriptSig_shape))
      else if di_scriptType want = JStr ''p2wpkh'' \<or> di_scriptType want = JStr ''p2sh-p2wpkh'' then
        (case (if di_scriptType want = JStr ''p2wpkh'' then
                 (if is_scriptSigHex sig \<noteq> [] then Inl Unexpected_scriptSig else Inr prevScript)
               else (case framed ''a914'' 40 ''87'' prevScript of
                   None \<Rightarrow> Inl Wrong_prevout_script
                 | Some scriptHash \<Rightarrow>
                     (case scriptPushes (is_scriptSigHex sig) of
                        Some [program] \<Rightarrow>
                          (if hash160 cr program \<noteq> scriptHash then Inl Script_mismatch else Inr program)
                      | _ \<Rightarrow> Inl Bad_scriptSig_shape))) of
           Inl reason \<Rightarrow> Some reason
         | Inr program \<Rightarrow>
             (case framed ''0014'' 40 [] program of
                None \<Rightarrow> Some Wrong_prevout_script
              | Some keyHash \<Rightarrow>
                  checkWitnessKey cr tx i (exactSatsOrNull (di_value want)) wantSighash (is_witness sig) keyHash))
      else Some Not_verifiable)"

definition assertInputSignaturesVerify :: "crypto \<Rightarrow> js \<Rightarrow> decomposed_psbt option \<Rightarrow> sig_failure + unit" where
  "assertInputSignaturesVerify cr txHex decomposed =
     (case readSignedRawTx txHex of
        Inl e \<Rightarrow> Inl (Tx_undecodable e)
      | Inr (tx, signatures) \<Rightarrow>
          (case Option.bind decomposed dp_inputs of None \<Rightarrow> Inl Prevouts_do_not_cover | Some wants \<Rightarrow>
             if length wants \<noteq> length (rt_inputs tx) then Inl Prevouts_do_not_cover
             else first_failure (\<lambda>i. check_device_input cr tx i (wants ! i) (signatures ! i))
               [0..<length (rt_inputs tx)]))"

section \<open>Establishing the prevouts\<close>

definition prevoutsFromPsbt :: "decomposed_psbt option \<Rightarrow> prevout list" where
  "prevoutsFromPsbt decomposed = map (\<lambda>input. \<lparr> pv_prevTxHash = di_prevTxHash input,
       pv_prevTxIndex = di_prevTxIndex input,
       pv_scriptPubKeyHex = js_or (js_or (di_scriptPubKeyHex input) (di_witnessUtxoScriptHex input)) (JStr ''''),
       pv_value = di_value input, pv_sighashType = di_sighashType input \<rparr>)
     (case Option.bind decomposed dp_inputs of None \<Rightarrow> [] | Some inputs \<Rightarrow> inputs)"

datatype address_kind = Base58_pubKeyHash | Base58_scriptHash | Bech32_v0

record spent_script =
  sp_script :: string
  sp_kind :: address_kind
  sp_program :: string

definition p2sh_spent :: "crypto \<Rightarrow> string \<Rightarrow> spent_script" where
  "p2sh_spent cr redeem = (let h = hash160 cr redeem in
     \<lparr> sp_script = ''a914'' @ h @ ''87'', sp_kind = Base58_scriptHash, sp_program = h \<rparr>)"

definition spentScriptOf :: "crypto \<Rightarrow> string \<Rightarrow> string list \<Rightarrow> spent_script option" where
  "spentScriptOf cr scriptSigHex wit =
     (case pushItems scriptSigHex of
        None \<Rightarrow> None
      | Some pushes \<Rightarrow>
          if wit = [] \<and> length pushes = 2 \<and> isPubkey (pushes ! 1) then
            (let h = hash160 cr (pushes ! 1) in
             Some \<lparr> sp_script = p2pkhScript h, sp_kind = Base58_pubKeyHash, sp_program = h \<rparr>)
          else if wit = [] \<and> length pushes \<ge> 3 \<and> pushes ! 0 = [] \<and> parseMultisigScript (last pushes) \<noteq> None then
            Some (p2sh_spent cr (last pushes))
          else let keyWitness = (length wit = 2 \<and> length (wit ! 1) = 66 \<and> isPubkey (wit ! 1));
                   scriptWitness = (length wit \<ge> 3 \<and> wit ! 0 = [] \<and> parseMultisigScript (last wit) \<noteq> None);
                   program = (if keyWitness then Some (''0014'' @ hash160 cr (wit ! 1))
                     else if scriptWitness then Some (''0020'' @ sha256Hex cr (last wit)) else None) in
            (case program of
               None \<Rightarrow> None
             | Some p \<Rightarrow>
                 if pushes = [] then Some \<lparr> sp_script = p, sp_kind = Bech32_v0, sp_program = drop 4 p \<rparr>
                 else if pushes = [p] then Some (p2sh_spent cr p)
                 else None))"

record network =
  nw_bech32 :: js
  nw_pubKeyHash :: js
  nw_scriptHash :: js

record address_codecs =
  ac_bech32 :: "string \<Rightarrow> byte list \<Rightarrow> string"
  ac_base58check :: "byte list \<Rightarrow> string"

definition addressOf :: "address_codecs \<Rightarrow> spent_script \<Rightarrow> network option \<Rightarrow> string option" where
  "addressOf ac spent net =
     (case net of None \<Rightarrow> None | Some nw \<Rightarrow>
        (case sp_kind spent of
           Bech32_v0 \<Rightarrow>
             (case nw_bech32 nw of
                JStr hrp \<Rightarrow> (if hrp = [] then None else Some (ac_bech32 ac hrp (hexToBytes (sp_program spent))))
              | _ \<Rightarrow> None)
         | kind \<Rightarrow>
             (let version = (if kind = Base58_pubKeyHash then nw_pubKeyHash nw else nw_scriptHash nw) in
              if \<not> is_integer version \<or> fin_val version < 0 \<or> fin_val version > 0xff then None
              else Some (ac_base58check ac (hexToBytes (uintLE_hex (nat \<lfloor>fin_val version\<rfloor>) 1 @ sp_program spent))))))"

record utxo_row =
  ur_txid :: js
  ur_vout :: js
  ur_scriptPubKey :: js
  ur_value :: js

fun lookup_plan :: "crypto \<Rightarrow> address_codecs \<Rightarrow> network option \<Rightarrow> nat \<Rightarrow> tx_input list \<Rightarrow> input_signature list
    \<Rightarrow> sig_failure + (tx_input \<times> spent_script \<times> string) list" where
  "lookup_plan cr ac net i (input # inputs) (sig # sigs) =
     (case Option.bind (spentScriptOf cr (is_scriptSigHex sig) (is_witness sig))
         (\<lambda>spent. map_option (\<lambda>address. (spent, address)) (addressOf ac spent net)) of
        None \<Rightarrow> Inl (No_lookup_address i)
      | Some (spent, address) \<Rightarrow>
          if address = [] then Inl (No_lookup_address i)
          else (case lookup_plan cr ac net (Suc i) inputs sigs of
                  Inl e \<Rightarrow> Inl e
                | Inr plan \<Rightarrow> Inr ((input, spent, address) # plan)))"
| "lookup_plan cr ac net i _ _ = Inr []"

fun fetch_coins :: "(string \<Rightarrow> utxo_row list option) \<Rightarrow> (string \<rightharpoonup> utxo_row list) \<Rightarrow> string list
    \<Rightarrow> sig_failure + (string \<rightharpoonup> utxo_row list)" where
  "fetch_coins getUtxos seen [] = Inr seen"
| "fetch_coins getUtxos seen (address # addresses) =
     (if seen address \<noteq> None then fetch_coins getUtxos seen addresses
      else (case getUtxos address of
              None \<Rightarrow> Inl (Coins_unread address)
            | Some rows \<Rightarrow> fetch_coins getUtxos (seen(address \<mapsto> rows)) addresses))"

definition find_row :: "utxo_row list \<Rightarrow> tx_input \<Rightarrow> utxo_row option" where
  "find_row rows input = find (\<lambda>r. lower_text (ur_txid r) = ti_prevTxHash input
     \<and> js_number (ur_vout r) = Fin (of_nat (ti_prevTxIndex input))) rows"

fun prevouts_of_plan :: "(string \<rightharpoonup> utxo_row list) \<Rightarrow> nat \<Rightarrow> (tx_input \<times> spent_script \<times> string) list
    \<Rightarrow> sig_failure + prevout list" where
  "prevouts_of_plan coins i [] = Inr []"
| "prevouts_of_plan coins i ((input, spent, address) # plan) =
     (case find_row (case coins address of None \<Rightarrow> [] | Some rows \<Rightarrow> rows) input of
        None \<Rightarrow> Inl (Coin_not_listed i)
      | Some row \<Rightarrow>
          if lower_text (ur_scriptPubKey row) \<noteq> sp_script spent then Inl (Tracker_script i)
          else (case exactSatsOrNull (ur_value row) of
                  None \<Rightarrow> Inl (Tracker_amount i)
                | Some sats \<Rightarrow>
                    (case prevouts_of_plan coins (Suc i) plan of
                       Inl e \<Rightarrow> Inl e
                     | Inr pvs \<Rightarrow> Inr (\<lparr> pv_prevTxHash = JStr (ti_prevTxHash input),
                         pv_prevTxIndex = JNum (Fin (of_nat (ti_prevTxIndex input))),
                         pv_scriptPubKeyHex = JStr (lower_text (ur_scriptPubKey row)),
                         pv_value = JBig (int sats), pv_sighashType = Null \<rparr> # pvs))))"

definition prevoutsFromTracker ::
    "crypto \<Rightarrow> address_codecs \<Rightarrow> js \<Rightarrow> (string \<Rightarrow> utxo_row list option) option \<Rightarrow> network option
     \<Rightarrow> sig_failure + prevout list" where
  "prevoutsFromTracker cr ac txHex getUtxos net =
     (case readSignedRawTx txHex of
        Inl e \<Rightarrow> Inl (Tx_undecodable e)
      | Inr (tx, signatures) \<Rightarrow>
          (case getUtxos of None \<Rightarrow> Inl No_utxo_source | Some get_utxos \<Rightarrow>
           case lookup_plan cr ac net 0 (rt_inputs tx) signatures of Inl e \<Rightarrow> Inl e | Inr plan \<Rightarrow>
           case fetch_coins get_utxos Map.empty (map (\<lambda>(input, spent, address). address) plan) of
             Inl e \<Rightarrow> Inl e
           | Inr coins \<Rightarrow> prevouts_of_plan coins 0 plan))"

record chain_sdk =
  sdk_decomposePsbt :: "(string \<Rightarrow> decomposed_psbt option) option"
  sdk_getUTXOs :: "(string \<Rightarrow> utxo_row list option) option"
  sdk_network :: "network option"

definition held_psbt :: "chain_sdk \<Rightarrow> js \<Rightarrow> decomposed_psbt option" where
  "held_psbt sdk psbtHex =
     (case (psbtHex, sdk_decomposePsbt sdk) of
        (JStr hex, Some decompose) \<Rightarrow> if hex = [] then None else decompose hex
      | _ \<Rightarrow> None)"

definition broadcast_prevouts :: "crypto \<Rightarrow> address_codecs \<Rightarrow> chain_sdk \<Rightarrow> js \<Rightarrow> js \<Rightarrow> sig_failure + prevout list" where
  "broadcast_prevouts cr ac sdk txHex psbtHex =
     (if Option.bind (held_psbt sdk psbtHex) dp_inputs \<noteq> None
      then Inr (prevoutsFromPsbt (held_psbt sdk psbtHex))
      else prevoutsFromTracker cr ac txHex (sdk_getUTXOs sdk) (sdk_network sdk))"

definition assertBroadcastSignaturesVerify :: "crypto \<Rightarrow> address_codecs \<Rightarrow> chain_sdk \<Rightarrow> js \<Rightarrow> js \<Rightarrow> sig_failure + unit" where
  "assertBroadcastSignaturesVerify cr ac sdk txHex psbtHex =
     (case broadcast_prevouts cr ac sdk txHex psbtHex of
        Inl e \<Rightarrow> Inl e
      | Inr prevouts \<Rightarrow> assertTxSignaturesVerify cr txHex (Some prevouts))"

section \<open>The multisig matching\<close>

lemma match_key_Inr:
  "match_key check r sig keys = Inr rest \<Longrightarrow>
   \<exists>pre k. keys = pre @ k # rest \<and> check sig k = None \<and> (\<forall>p \<in> set pre. check sig p \<noteq> None)"
proof (induction keys arbitrary: r)
  case (Cons key keys)
  show ?case
  proof (cases "check sig key")
    case None
    with Cons.prems have "key # keys = [] @ key # rest \<and> check sig key = None \<and> (\<forall>p \<in> set []. check sig p \<noteq> None)"
      by simp
    then show ?thesis by blast
  next
    case (Some r')
    with Cons.prems Cons.IH [of r'] obtain pre k where "keys = pre @ k # rest" "check sig k = None"
      "\<forall>p \<in> set pre. check sig p \<noteq> None" by auto
    with Some show ?thesis by (intro exI [of _ "key # pre"] exI [of _ k]) auto
  qed
qed simp

lemma match_key_Inl: "match_key check r sig keys = Inl r' \<Longrightarrow> k \<in> set keys \<Longrightarrow> check sig k \<noteq> None"
  by (induction keys arbitrary: r) (auto split: option.splits)

lemma subseq_after: "subseq (k # ks) (pre @ k' # rest) \<Longrightarrow> k \<notin> set pre \<Longrightarrow> subseq ks rest"
proof (induction pre)
  case Nil
  then show ?case by (cases "k = k'") (auto dest: subseq_Cons')
next
  case (Cons p pre)
  then show ?case by auto
qed

lemma match_signatures_None:
  "match_signatures check s sigs keys = None \<longleftrightarrow>
   (\<exists>ks. subseq ks keys \<and> list_all2 (\<lambda>sig k. check sig k = None) sigs ks)"
proof (induction sigs arbitrary: s keys)
  case (Cons sig sigs)
  show ?case
  proof (cases "match_key check No_key_left sig keys")
    case (Inl r)
    have "\<not> (\<exists>ks. subseq ks keys \<and> list_all2 (\<lambda>sig k. check sig k = None) (sig # sigs) ks)"
    proof
      assume "\<exists>ks. subseq ks keys \<and> list_all2 (\<lambda>sig k. check sig k = None) (sig # sigs) ks"
      then obtain k ks where "subseq (k # ks) keys" "check sig k = None" by (auto simp: list_all2_Cons1)
      then show False using match_key_Inl [OF Inl, of k] list_emb_set by fastforce
    qed
    with Inl show ?thesis by simp
  next
    case (Inr rest)
    obtain pre k where m: "keys = pre @ k # rest" "check sig k = None" "\<forall>p \<in> set pre. check sig p \<noteq> None"
      using match_key_Inr [OF Inr] by blast
    have "(\<exists>ks. subseq ks keys \<and> list_all2 (\<lambda>sig k. check sig k = None) (sig # sigs) ks) \<longleftrightarrow>
        (\<exists>ks. subseq ks rest \<and> list_all2 (\<lambda>sig k. check sig k = None) sigs ks)"
    proof
      assume "\<exists>ks. subseq ks keys \<and> list_all2 (\<lambda>sig k. check sig k = None) (sig # sigs) ks"
      then obtain k' ks where k': "subseq (k' # ks) keys" "check sig k' = None"
        "list_all2 (\<lambda>sig k. check sig k = None) sigs ks" by (auto simp: list_all2_Cons1)
      then have "k' \<notin> set pre" using m(3) by auto
      with k' subseq_after [of k' ks pre k rest] m(1)
      show "\<exists>ks. subseq ks rest \<and> list_all2 (\<lambda>sig k. check sig k = None) sigs ks" by auto
    next
      assume "\<exists>ks. subseq ks rest \<and> list_all2 (\<lambda>sig k. check sig k = None) sigs ks"
      then obtain ks where "subseq ks rest" "list_all2 (\<lambda>sig k. check sig k = None) sigs ks" by blast
      with m(1,2) show "\<exists>ks. subseq ks keys \<and> list_all2 (\<lambda>sig k. check sig k = None) (sig # sigs) ks"
        by (intro exI [of _ "k # ks"]) (auto simp: list_emb_append2)
    qed
    with Inr Cons.IH show ?thesis by simp
  qed
qed simp

lemma checkMultisig_None:
  "checkMultisig cr items script digest want = None \<longleftrightarrow>
   (\<exists>m keys ks sigs. parseMultisigScript script = Some (m, keys) \<and> items = [] # sigs \<and> length sigs = m
      \<and> subseq ks keys \<and> list_all2 (\<lambda>sig k. checkSignature cr sig k digest want = None) sigs ks)"
proof (cases "parseMultisigScript script")
  case (Some mk)
  obtain m keys where mk: "mk = (m, keys)" by (cases mk)
  show ?thesis
  proof (cases items)
    case (Cons item sigs)
    then show ?thesis
      unfolding checkMultisig_def Some mk by (auto simp: match_signatures_None)
  qed (simp add: checkMultisig_def Some mk)
qed (simp add: checkMultisig_def)

text \<open>Property C12. The multisig check's single pass over the keys finds signers whenever there are any: it
  passes exactly when the items are the empty dummy and as many signatures as the script's threshold, and the
  signatures verify, one each and in order, against some selection of the script's keys in script order.\<close>

theorem multisig_pass_iff_signers_exist:
  "checkMultisig cr items script digest want = None \<longleftrightarrow>
   (\<exists>m keys ks sigs. parseMultisigScript script = Some (m, keys) \<and> items = [] # sigs \<and> length sigs = m
      \<and> subseq ks keys \<and> list_all2 (\<lambda>sig k. checkSignature cr sig k digest want = None) sigs ks)"
  by (rule checkMultisig_None)

section \<open>What a signature hash commits to\<close>

lemma reverseHex_bytes: "even (length s) \<Longrightarrow> list_all is_lower_hex s \<Longrightarrow> reverseHex s = bytesToHex (rev (hexToBytes s))"
proof (induction s rule: reverseHex.induct)
  case (1 c d s)
  then have "bytesToHex (hexToBytes [c, d]) = [c, d]" by (intro bytesToHex_hexToBytes) simp_all
  with 1 show ?case by (simp add: bytesToHex_def)
qed (auto simp: bytesToHex_def)

lemma bytesToHex_append: "bytesToHex (xs @ ys) = bytesToHex xs @ bytesToHex ys"
  by (simp add: bytesToHex_def)

lemma bytesToHex_inj: "bytesToHex xs = bytesToHex ys \<longleftrightarrow> xs = ys"
  using hexToBytes_bytesToHex by metis

lemma varint_hex_bytes: "varint_hex n = bytesToHex (write_varint n)"
proof -
  have "byte_hex 0xfd = ''fd''" "byte_hex 0xfe = ''fe''" "byte_hex 0xff = ''ff''" by code_simp+
  then have "bytesToHex (0xfd # bs) = ''fd'' @ bytesToHex bs" "bytesToHex (0xfe # bs) = ''fe'' @ bytesToHex bs"
    "bytesToHex (0xff # bs) = ''ff'' @ bytesToHex bs" for bs
    by (simp_all only: bytesToHex_Cons)
  then show ?thesis by (simp add: varint_hex_def write_varint_def uintLE_hex_def)
qed

lemma varSlice_hex_bytes: "hex_text s \<Longrightarrow> varSlice_hex s = bytesToHex (write_slice s)"
  by (simp add: varSlice_hex_def write_slice_def varint_hex_bytes bytesToHex_append hex_text_bytes)

lemma serializeOutputs_bytes:
  "list_all output_ok outs \<Longrightarrow> serializeOutputs outs = bytesToHex (concat (map write_output outs))"
  by (induction outs)
     (simp_all add: serializeOutputs_def bytesToHex_append write_output_def uintLE_hex_def varSlice_hex_bytes
       output_ok_def slice_ok_def)

definition blank_sigs :: "nat \<Rightarrow> string \<Rightarrow> nat \<Rightarrow> input_signature list" where
  "blank_sigs index scriptCode n =
     map (\<lambda>i. \<lparr> is_scriptSigHex = if i = index then scriptCode else [], is_witness = [] \<rparr>) [0..<n]"

definition preimage_ok :: "raw_tx \<Rightarrow> nat \<Rightarrow> string \<Rightarrow> bool" where
  "preimage_ok tx index scriptCode \<longleftrightarrow> index < length (rt_inputs tx) \<and> scriptCode \<noteq> []
     \<and> tx_ok False tx (blank_sigs index scriptCode (length (rt_inputs tx)))"

lemma legacy_inputs_bytes:
  "\<forall>p \<in> set (zip ins (map is_scriptSigHex sigs)). input_ok p \<Longrightarrow> length sigs = length ins \<Longrightarrow>
   \<forall>j < length ins. is_scriptSigHex (sigs ! j) = (if k + j = index then code else []) \<Longrightarrow>
   concat (map (\<lambda>(i, input). outpoint input @ (if i = index then varSlice_hex code else ''00'')
         @ uintLE_hex (ti_sequence input) 4) (enumerate k ins))
   = bytesToHex (concat (map write_input (zip ins (map is_scriptSigHex sigs))))"
proof (induction ins arbitrary: k sigs)
  case (Cons i ins)
  obtain sg sigs' where sg: "sigs = sg # sigs'" using Cons.prems(2) by (cases sigs) auto
  have s0: "is_scriptSigHex sg = (if k = index then code else [])" using Cons.prems(3) unfolding sg by fastforce
  have tl: "\<forall>j < length ins. is_scriptSigHex (sigs' ! j) = (if Suc k + j = index then code else [])"
    using Cons.prems(3) unfolding sg by fastforce
  have ok: "input_ok (i, is_scriptSigHex sg)" using Cons.prems(1) sg by simp
  have zero: "varSlice_hex [] = ''00''" by code_simp
  have "outpoint i @ (if k = index then varSlice_hex code else ''00'') @ uintLE_hex (ti_sequence i) 4
      = bytesToHex (write_input (i, is_scriptSigHex sg))"
  proof -
    have "(if k = index then varSlice_hex code else ''00'') = varSlice_hex (is_scriptSigHex sg)"
      using s0 zero by simp
    also have "\<dots> = bytesToHex (write_slice (is_scriptSigHex sg))"
      using ok by (intro varSlice_hex_bytes) (simp add: input_ok_def slice_ok_def)
    finally show ?thesis
      using ok by (simp add: write_input_def bytesToHex_append outpoint_def uintLE_hex_def reverseHex_bytes
          input_ok_def hex_text_def)
  qed
  with Cons.IH [of sigs' "Suc k"] Cons.prems(1,2) tl sg show ?case
    by (simp add: bytesToHex_append)
qed (simp add: bytesToHex_def)

lemma legacy_preimage_bytes:
  assumes "preimage_ok tx index code"
  shows "legacy_preimage tx index code =
    bytesToHex (write_tx False tx (blank_sigs index code (length (rt_inputs tx))) @ le_bytes 4 1)"
proof -
  let ?sigs = "blank_sigs index code (length (rt_inputs tx))"
  have ok: "tx_ok False tx ?sigs" using assms by (simp add: preimage_ok_def)
  have ins: "concat (map (\<lambda>(i, input). outpoint input @ (if i = index then varSlice_hex code else ''00'')
         @ uintLE_hex (ti_sequence input) 4) (enumerate 0 (rt_inputs tx)))
     = bytesToHex (concat (map write_input (zip (rt_inputs tx) (map is_scriptSigHex ?sigs))))"
    by (rule legacy_inputs_bytes) (use ok in \<open>auto simp: tx_ok_def list_all_iff blank_sigs_def\<close>)
  have outs: "serializeOutputs (rt_outputs tx) = bytesToHex (concat (map write_output (rt_outputs tx)))"
    using ok by (intro serializeOutputs_bytes) (simp add: tx_ok_def)
  show ?thesis
    unfolding legacy_preimage_def ins outs varint_hex_bytes write_tx_def
    by (simp add: bytesToHex_append version_hex_def uintLE_hex_def)
qed

text \<open>Property C31. The legacy signature hash is taken over a text that determines the spend: equal preimages
  come from the same transaction (version, outpoints, sequences, outputs, amounts, locktime), the same input
  and the same script code, so a signature made for one cannot verify for another without a hash collision.\<close>

theorem legacy_preimage_commits:
  assumes "preimage_ok tx index code" "preimage_ok tx' index' code'"
    and "legacy_preimage tx index code = legacy_preimage tx' index' code'"
  shows "tx = tx' \<and> index = index' \<and> code = code'"
proof -
  let ?s = "blank_sigs index code (length (rt_inputs tx))"
  let ?s' = "blank_sigs index' code' (length (rt_inputs tx'))"
  have "write_tx False tx ?s = write_tx False tx' ?s'"
    using assms(3) unfolding legacy_preimage_bytes [OF assms(1)] legacy_preimage_bytes [OF assms(2)] bytesToHex_inj
    by simp
  then have t: "tx = tx'" "?s = ?s'"
    using write_tx_inj assms(1,2) unfolding preimage_ok_def by blast+
  let ?at = "\<lambda>s. is_scriptSigHex (s ! index)"
  have i: "index < length (rt_inputs tx)" "code \<noteq> []" using assms(1) by (simp_all add: preimage_ok_def)
  have "code = ?at ?s" using i by (simp add: blank_sigs_def)
  also have "\<dots> = ?at ?s'" using t(2) by simp
  also have "\<dots> = (if index = index' then code' else [])" using i t(1) by (simp add: blank_sigs_def)
  finally show ?thesis using t(1) i(2) by (auto split: if_splits)
qed

theorem legacy_preimage_commits_witness:
  "preimage_ok sample_tx 0 ''76'' \<and> preimage_ok (sample_tx\<lparr> rt_locktime := 0 \<rparr>) 0 ''76''
   \<and> legacy_preimage sample_tx 0 ''76'' \<noteq> legacy_preimage (sample_tx\<lparr> rt_locktime := 0 \<rparr>) 0 ''76''"
proof -
  have h: "hex_text ''76''" by code_simp
  have p: "preimage_ok sample_tx 0 ''76''" "preimage_ok (sample_tx\<lparr> rt_locktime := 0 \<rparr>) 0 ''76''"
    using sample_ok h by (auto simp: preimage_ok_def tx_ok_def blank_sigs_def sample_tx_def sample_sigs_def
        input_ok_def slice_ok_def)
  have "sample_tx \<noteq> sample_tx\<lparr> rt_locktime := 0 \<rparr>" by (simp add: sample_tx_def)
  with p legacy_preimage_commits [OF p(1) p(1)] legacy_preimage_commits [OF p(1) p(2)] show ?thesis by blast
qed

section \<open>What passes is authorised\<close>

definition ecdsa_valid :: "crypto \<Rightarrow> string \<Rightarrow> string \<Rightarrow> byte list \<Rightarrow> bool" where
  "ecdsa_valid cr sig key digest \<longleftrightarrow> 4 \<le> length sig \<and> hex_byte (drop (length sig - 2) sig) = 1
     \<and> cr_ecdsa cr (hexToBytes (take (length sig - 2) sig)) digest (hexToBytes key) = Some True"

definition multisig_valid :: "crypto \<Rightarrow> string list \<Rightarrow> string \<Rightarrow> byte list \<Rightarrow> bool" where
  "multisig_valid cr items script digest \<longleftrightarrow> (\<exists>m keys ks sigs. parseMultisigScript script = Some (m, keys)
     \<and> items = [] # sigs \<and> length sigs = m \<and> subseq ks keys \<and> list_all2 (\<lambda>sig k. ecdsa_valid cr sig k digest) sigs ks)"

definition schnorr_valid :: "crypto \<Rightarrow> string \<Rightarrow> byte list \<Rightarrow> string \<Rightarrow> bool" where
  "schnorr_valid cr sig digest key \<longleftrightarrow>
     cr_schnorr cr (hexToBytes (take 128 sig)) digest (hexToBytes key) = Some True"

inductive authorised :: "crypto \<Rightarrow> raw_tx \<Rightarrow> nat \<Rightarrow> string list \<Rightarrow> nat option list \<Rightarrow> input_signature \<Rightarrow> bool"
  for cr tx i scripts amounts sig where
  legacy_key: "scripts ! i = p2pkhScript (hash160 cr key) \<Longrightarrow> pushItems (is_scriptSigHex sig) = Some [s, key] \<Longrightarrow>
     ecdsa_valid cr s key (legacyDigest cr tx i (scripts ! i)) \<Longrightarrow> authorised cr tx i scripts amounts sig"
| legacy_multisig: "scripts ! i = ''a914'' @ hash160 cr redeem @ ''87'' \<Longrightarrow>
     pushItems (is_scriptSigHex sig) = Some (items @ [redeem]) \<Longrightarrow>
     multisig_valid cr items redeem (legacyDigest cr tx i redeem) \<Longrightarrow> authorised cr tx i scripts amounts sig"
| witness_key: "scripts ! i \<in> {''0014'' @ hash160 cr key, ''a914'' @ hash160 cr (''0014'' @ hash160 cr key) @ ''87''} \<Longrightarrow>
     is_witness sig = [s, key] \<Longrightarrow> amounts ! i = Some a \<Longrightarrow>
     ecdsa_valid cr s key (bip143Digest cr tx i (p2pkhScript (hash160 cr key)) a) \<Longrightarrow>
     authorised cr tx i scripts amounts sig"
| witness_multisig: "scripts ! i \<in> {''0020'' @ sha256Hex cr ws, ''a914'' @ hash160 cr (''0020'' @ sha256Hex cr ws) @ ''87''} \<Longrightarrow>
     is_witness sig = items @ [ws] \<Longrightarrow> amounts ! i = Some a \<Longrightarrow>
     multisig_valid cr items ws (bip143Digest cr tx i ws a) \<Longrightarrow> authorised cr tx i scripts amounts sig"
| taproot_key: "scripts ! i = ''5120'' @ key \<Longrightarrow> is_witness sig = [s] \<Longrightarrow> hashType \<in> {0, 1} \<Longrightarrow>
     None \<notin> set amounts \<Longrightarrow>
     schnorr_valid cr s (bip341Digest cr tx (map the amounts) scripts i hashType) key \<Longrightarrow>
     authorised cr tx i scripts amounts sig"

lemma checkSignature_valid: "checkSignature cr s key d want = None \<Longrightarrow> ecdsa_valid cr s key d"
  unfolding checkSignature_def ecdsa_valid_def Let_def
  by (auto split: if_splits option.splits)

lemma checkMultisig_valid: "checkMultisig cr items script d want = None \<Longrightarrow> multisig_valid cr items script d"
proof -
  assume "checkMultisig cr items script d want = None"
  then obtain m keys ks sigs where k: "parseMultisigScript script = Some (m, keys)" "items = [] # sigs"
    "length sigs = m" "subseq ks keys" "list_all2 (\<lambda>sig k. checkSignature cr sig k d want = None) sigs ks"
    unfolding checkMultisig_None by blast
  from k(5) have "list_all2 (\<lambda>sig k. ecdsa_valid cr sig k d) sigs ks"
    by (rule list_all2_mono) (rule checkSignature_valid)
  with k show ?thesis unfolding multisig_valid_def by blast
qed

lemma framed_eq: "framed pre n post s = Some mid \<Longrightarrow> s = pre @ mid @ post"
  by (simp add: framed_def Let_def split: if_splits)

lemma checkWitnessKey_valid:
  assumes "checkWitnessKey cr tx i amount want wit h = None"
  shows "\<exists>s key a. wit = [s, key] \<and> hash160 cr key = h \<and> amount = Some a
    \<and> ecdsa_valid cr s key (bip143Digest cr tx i (p2pkhScript h) a)"
proof -
  have l: "length wit = 2" using assms by (auto simp: checkWitnessKey_def split: if_splits)
  then obtain s key where "wit = [s, key]" by (auto simp: numeral_2_eq_2 length_Suc_conv)
  then show ?thesis
    using assms by (auto simp: checkWitnessKey_def segwit_check_def Let_def dest: checkSignature_valid
        split: if_splits option.splits)
qed

lemma checkWitnessMultisig_valid:
  assumes "checkWitnessMultisig cr tx i amount want wit ws = None"
  shows "\<exists>items a. wit = items @ [ws] \<and> amount = Some a \<and> multisig_valid cr items ws (bip143Digest cr tx i ws a)"
proof -
  have "wit \<noteq> []" "last wit = ws" using assms by (auto simp: checkWitnessMultisig_def split: if_splits)
  then have "wit = butlast wit @ [ws]" by auto
  with assms show ?thesis
    by (auto simp: checkWitnessMultisig_def segwit_check_def dest: checkMultisig_valid split: if_splits option.splits)
qed

lemma checkLegacyKey_authorised:
  assumes "checkLegacyKey cr tx i want sig (scripts ! i) h = None" "scripts ! i = p2pkhScript h"
  shows "authorised cr tx i scripts amounts sig"
proof -
  obtain s key where "pushItems (is_scriptSigHex sig) = Some [s, key]" "hash160 cr key = h"
    "checkSignature cr s key (legacyDigest cr tx i (scripts ! i)) want = None"
    using assms(1) by (auto simp: checkLegacyKey_def split: option.splits list.splits if_splits)
  then show ?thesis using assms(2) checkSignature_valid by (intro legacy_key) auto
qed

lemma checkScriptHash_authorised:
  assumes "checkScriptHash cr tx i (amounts ! i) want sig h = None" "scripts ! i = ''a914'' @ h @ ''87''"
  shows "authorised cr tx i scripts amounts sig"
proof -
  obtain pushes where p: "pushItems (is_scriptSigHex sig) = Some pushes" "pushes \<noteq> []"
    "hash160 cr (last pushes) = h"
    using assms(1) by (auto simp: checkScriptHash_def Let_def split: option.splits if_splits)
  let ?redeem = "last pushes"
  show ?thesis
  proof (cases "framed ''0014'' 40 [] ?redeem")
    case (Some keyHash)
    then have "checkWitnessKey cr tx i (amounts ! i) want (is_witness sig) keyHash = None"
      using assms(1) p by (auto simp: checkScriptHash_def Let_def split: if_splits)
    from checkWitnessKey_valid [OF this] obtain s key a where k: "is_witness sig = [s, key]" "hash160 cr key = keyHash"
      "amounts ! i = Some a" "ecdsa_valid cr s key (bip143Digest cr tx i (p2pkhScript keyHash) a)" by blast
    have "scripts ! i = ''a914'' @ hash160 cr (''0014'' @ hash160 cr key) @ ''87''"
      using assms(2) p(3) framed_eq [OF Some] k(2) by simp
    with k show ?thesis by (intro witness_key [of scripts i cr key sig s amounts a]) simp_all
  next
    case none: None
    show ?thesis
    proof (cases "framed ''0020'' 64 [] ?redeem")
      case (Some program)
      let ?ws = "last_item (is_witness sig)"
      have "checkWitnessMultisig cr tx i (amounts ! i) want (is_witness sig) ?ws = None" "sha256Hex cr ?ws = program"
        using assms(1) p none Some by (auto simp: checkScriptHash_def Let_def split: if_splits)
      moreover from this(1) obtain items a where "is_witness sig = items @ [?ws]" "amounts ! i = Some a"
        "multisig_valid cr items ?ws (bip143Digest cr tx i ?ws a)" using checkWitnessMultisig_valid by blast
      moreover have "scripts ! i = ''a914'' @ hash160 cr (''0020'' @ program) @ ''87''"
        using assms(2) p(3) framed_eq [OF Some] by simp
      ultimately show ?thesis by (intro witness_multisig [of scripts i cr ?ws sig items amounts a]) simp_all
    next
      case None
      then have "checkMultisig cr (butlast pushes) ?redeem (legacyDigest cr tx i ?redeem) want = None"
        using assms(1) p none by (auto simp: checkScriptHash_def Let_def split: if_splits)
      then show ?thesis
        using assms(2) p by (intro legacy_multisig [of scripts i cr ?redeem sig "butlast pushes"])
          (auto dest: checkMultisig_valid)
    qed
  qed
qed

lemma checkTaproot_authorised:
  assumes "checkTaproot cr tx i amounts scripts requested sig key = None" "scripts ! i = ''5120'' @ key"
  shows "authorised cr tx i scripts amounts sig"
proof -
  have "length (is_witness sig) = 1" using assms(1) by (auto simp: checkTaproot_def split: if_splits)
  then obtain s where s: "is_witness sig = [s]" by (auto simp: length_Suc_conv)
  let ?h = "if length s = 130 then hex_byte (drop 128 s) else 0"
  have "?h \<in> {0, 1}" "None \<notin> set amounts"
    "schnorr_valid cr s (bip341Digest cr tx (map the amounts) scripts i ?h) key"
    using assms(1) s by (auto simp: checkTaproot_def schnorr_valid_def Let_def split: if_splits)
  with s assms(2) show ?thesis by (intro taproot_key)
qed

lemma classify_eq:
  "classify s = P2pkh h \<Longrightarrow> s = p2pkhScript h" "classify s = P2wpkh h \<Longrightarrow> s = ''0014'' @ h"
  "classify s = P2wsh h \<Longrightarrow> s = ''0020'' @ h" "classify s = P2sh h \<Longrightarrow> s = ''a914'' @ h @ ''87''"
  "classify s = P2tr h \<Longrightarrow> s = ''5120'' @ h"
  unfolding classify_def p2pkhScript_def by (auto split: option.splits dest: framed_eq)

lemma check_tx_input_authorised:
  assumes "check_tx_input cr tx scripts amounts i want sig = None"
  shows "lower_text (pv_prevTxHash want) = ti_prevTxHash (rt_inputs tx ! i)
    \<and> js_number (pv_prevTxIndex want) = Fin (of_nat (ti_prevTxIndex (rt_inputs tx ! i)))
    \<and> authorised cr tx i scripts amounts sig"
proof (intro conjI)
  show "lower_text (pv_prevTxHash want) = ti_prevTxHash (rt_inputs tx ! i)"
    "js_number (pv_prevTxIndex want) = Fin (of_nat (ti_prevTxIndex (rt_inputs tx ! i)))"
    using assms by (auto simp: check_tx_input_def Let_def split: if_splits)
  show "authorised cr tx i scripts amounts sig"
  proof (cases "classify (scripts ! i)")
    case (P2pkh h)
    with assms show ?thesis
      by (intro checkLegacyKey_authorised) (auto simp: check_tx_input_def Let_def dest: classify_eq split: if_splits)
  next
    case (P2wpkh h)
    with assms have "checkWitnessKey cr tx i (amounts ! i) (ecdsa_sighash (pv_sighashType want)) (is_witness sig) h = None"
      by (auto simp: check_tx_input_def Let_def split: if_splits)
    from checkWitnessKey_valid [OF this] classify_eq(2) [OF P2wpkh] show ?thesis by (auto intro: witness_key)
  next
    case (P2wsh h)
    with assms have "checkWitnessMultisig cr tx i (amounts ! i) (ecdsa_sighash (pv_sighashType want)) (is_witness sig)
        (last_item (is_witness sig)) = None" "sha256Hex cr (last_item (is_witness sig)) = h"
      by (auto simp: check_tx_input_def Let_def split: if_splits)
    with checkWitnessMultisig_valid [OF this(1)] classify_eq(3) [OF P2wsh] show ?thesis
      by (auto intro: witness_multisig)
  next
    case (P2sh h)
    with assms show ?thesis
      by (intro checkScriptHash_authorised) (auto simp: check_tx_input_def Let_def dest: classify_eq split: if_splits)
  next
    case (P2tr h)
    with assms show ?thesis
      by (intro checkTaproot_authorised) (auto simp: check_tx_input_def Let_def dest: classify_eq split: if_splits)
  next
    case Other_script
    with assms show ?thesis by (auto simp: check_tx_input_def Let_def split: if_splits)
  qed
qed

lemma first_failure_ok: "first_failure check is = Inr () \<longleftrightarrow> (\<forall>i \<in> set is. check i = None)"
  by (induction "is") (auto split: option.splits)

lemma scriptPushes_pushItems: "scriptPushes hex = Some items \<Longrightarrow> pushItems hex = Some items"
proof -
  have size: "push_size False op r = Some p \<Longrightarrow> push_size True op r = Some p" for op r p
    by (auto simp: push_size_def split: if_splits)
  have "read_pushes False bs = Some xs \<Longrightarrow> read_pushes True bs = Some xs" for bs xs
  proof (induction "False" bs arbitrary: xs rule: read_pushes.induct)
    case (2 op r)
    then obtain n r' where p: "push_size False op r = Some (n, r')" "n \<le> length r'"
      by (auto split: option.splits prod.splits if_splits)
    then obtain ys where "read_pushes False (drop n r') = Some ys" "xs = bytesToHex (take n r') # ys"
      using 2 by auto
    with 2 p size [OF p(1)] show ?case by auto
  qed simp
  then show "scriptPushes hex = Some items \<Longrightarrow> pushItems hex = Some items"
    by (simp add: scriptPushes_def pushItems_def)
qed

lemma check_device_input_authorised:
  assumes "check_device_input cr tx i want sig = None" "scripts ! i = device_script want"
    "amounts ! i = exactSatsOrNull (di_value want)"
  shows "authorised cr tx i scripts amounts sig"
proof -
  let ?want = "ecdsa_sighash (di_sighashType want)"
  consider "di_scriptType want = JStr ''p2pkh''" | "di_scriptType want = JStr ''p2wpkh''"
    | "di_scriptType want = JStr ''p2sh-p2wpkh''"
    using assms(1) by (auto simp: check_device_input_def Let_def split: if_splits)
  then show ?thesis
  proof cases
    case 1
    then obtain h s key where h: "framed ''76a914'' 40 ''88ac'' (device_script want) = Some h"
      "scriptPushes (is_scriptSigHex sig) = Some [s, key]" "hash160 cr key = h"
      "checkSignature cr s key (legacyDigest cr tx i (device_script want)) ?want = None"
      using assms(1) by (auto simp: check_device_input_def Let_def split: option.splits list.splits if_splits)
    with assms(2) framed_eq [OF h(1)] scriptPushes_pushItems [OF h(2)] checkSignature_valid [OF h(4)] show ?thesis
      by (intro legacy_key) (auto simp: p2pkhScript_def)
  next
    case 2
    then obtain h where h: "framed ''0014'' 40 [] (device_script want) = Some h"
      "checkWitnessKey cr tx i (exactSatsOrNull (di_value want)) ?want (is_witness sig) h = None"
      using assms(1) by (auto simp: check_device_input_def Let_def split: option.splits if_splits sum.splits)
    from checkWitnessKey_valid [OF h(2)] framed_eq [OF h(1)] assms(2,3) show ?thesis
      by (auto intro: witness_key)
  next
    case 3
    then obtain sh program h where h: "framed ''a914'' 40 ''87'' (device_script want) = Some sh"
      "hash160 cr program = sh" "framed ''0014'' 40 [] program = Some h"
      "checkWitnessKey cr tx i (exactSatsOrNull (di_value want)) ?want (is_witness sig) h = None"
      using assms(1) by (auto simp: check_device_input_def Let_def split: option.splits list.splits if_splits sum.splits)
    from checkWitnessKey_valid [OF h(4)] framed_eq [OF h(1)] framed_eq [OF h(3)] h(2) assms(2,3) show ?thesis
      by (auto intro: witness_key)
  qed
qed

text \<open>Property C2. A transaction the pre-broadcast check passes spends only coins it is entitled to: the
  prevouts were established from the held PSBT or the tracker, each names the input's own outpoint, and each
  input carries a signature that verifies, under the committed key or enough of the committed multisig keys
  in order, over the hash of this very transaction for that script and amount.\<close>

theorem broadcast_only_authorised:
  assumes "assertBroadcastSignaturesVerify cr ac sdk txHex psbtHex = Inr ()"
  shows "\<exists>tx signatures prevouts. readSignedRawTx txHex = Inr (tx, signatures)
    \<and> broadcast_prevouts cr ac sdk txHex psbtHex = Inr prevouts \<and> length prevouts = length (rt_inputs tx)
    \<and> (\<forall>i < length (rt_inputs tx).
          lower_text (pv_prevTxHash (prevouts ! i)) = ti_prevTxHash (rt_inputs tx ! i)
        \<and> js_number (pv_prevTxIndex (prevouts ! i)) = Fin (of_nat (ti_prevTxIndex (rt_inputs tx ! i)))
        \<and> authorised cr tx i (map (lower_text \<circ> pv_scriptPubKeyHex) prevouts)
            (map (exactSatsOrNull \<circ> pv_value) prevouts) (signatures ! i))"
proof -
  obtain pvs where p: "broadcast_prevouts cr ac sdk txHex psbtHex = Inr pvs"
    "assertTxSignaturesVerify cr txHex (Some pvs) = Inr ()"
    using assms by (auto simp: assertBroadcastSignaturesVerify_def split: sum.splits)
  then obtain tx sigs where t: "readSignedRawTx txHex = Inr (tx, sigs)" "length pvs = length (rt_inputs tx)"
    "first_failure (\<lambda>i. check_tx_input cr tx (map (lower_text \<circ> pv_scriptPubKeyHex) pvs)
      (map (exactSatsOrNull \<circ> pv_value) pvs) i (pvs ! i) (sigs ! i)) [0..<length (rt_inputs tx)] = Inr ()"
    by (auto simp: assertTxSignaturesVerify_def Let_def split: sum.splits if_splits)
  from t(3) have "\<forall>i < length (rt_inputs tx). check_tx_input cr tx (map (lower_text \<circ> pv_scriptPubKeyHex) pvs)
      (map (exactSatsOrNull \<circ> pv_value) pvs) i (pvs ! i) (sigs ! i) = None"
    unfolding first_failure_ok by auto
  with check_tx_input_authorised p(1) t(1,2) show ?thesis by (intro exI [of _ tx] exI [of _ sigs] exI [of _ pvs]) blast
qed

lemma replicate_hex [simp]: "list_all is_lower_hex (replicate n c) \<longleftrightarrow> n = 0 \<or> is_lower_hex c"
  by (induction n) auto

definition sample_crypto :: crypto where
  "sample_crypto = \<lparr> cr_sha256 = (\<lambda>bs. replicate 32 7), cr_ripemd160 = (\<lambda>bs. replicate 20 0), cr_der = Some,
     cr_ecdsa = (\<lambda>der digest key. Some (der = [0x30, 0x06])), cr_schnorr = (\<lambda>sig digest key. None) \<rparr>"

definition sample_key :: string where
  "sample_key = ''02'' @ replicate 64 CHR ''a''"

definition keyed_sigs :: "input_signature list" where
  "keyed_sigs = [\<lparr> is_scriptSigHex = [], is_witness = [''300601'', sample_key] \<rparr>]"

definition sample_decomposed :: decomposed_psbt where
  "sample_decomposed = (let p = approved_psbt sample_tx [''p2wpkh''] in p\<lparr> dp_inputs := map_option
     (map (\<lambda>inp. inp\<lparr> di_scriptPubKeyHex := JStr (''0014'' @ replicate 40 CHR ''0''), di_value := JNum (Fin 5000) \<rparr>)) (dp_inputs p) \<rparr>)"

lemma keyed_ok: "tx_ok True sample_tx keyed_sigs"
proof -
  have "hex_text ''300601''" "hex_text []" by code_simp+
  moreover have "list_all is_lower_hex sample_key" "length sample_key = 66" by (simp_all add: sample_key_def is_lower_hex_def)
  ultimately show ?thesis
    using sample_ok by (auto simp: tx_ok_def sample_tx_def sample_sigs_def keyed_sigs_def input_ok_def
        stack_ok_def slice_ok_def hex_text_def)
qed

lemma sample_hash160: "hash160 sample_crypto key = replicate 40 CHR ''0''"
proof -
  have "bytesToHex (replicate 20 0) = replicate 40 CHR ''0''" by code_simp
  then show ?thesis by (simp add: hash160_def sample_crypto_def)
qed

lemma sample_witness_check:
  "checkWitnessKey sample_crypto tx i (Some a) (Fin 1) [''300601'', sample_key] (replicate 40 CHR ''0'') = None"
proof -
  have "hex_byte ''01'' = 1" "hexToBytes ''3006'' = [0x30, 0x06]" by code_simp+
  then show ?thesis
    by (simp add: checkWitnessKey_def segwit_check_def sample_hash160 isPubkey_def sample_key_def checkSignature_def)
       (simp add: sample_crypto_def)
qed

lemma sample_lower: "lower_text (JStr (''0014'' @ replicate 40 CHR ''0'')) = ''0014'' @ replicate 40 CHR ''0''"
  by (rule lower_text_hex) (simp add: is_lower_hex_def)

lemma sample_framed: "framed ''0014'' 40 [] (''0014'' @ replicate 40 CHR ''0'') = Some (replicate 40 CHR ''0'')"
  "framed ''76a914'' 40 ''88ac'' (''0014'' @ replicate 40 CHR ''0'') = None"
  by (simp_all add: framed_def is_lower_hex_def Let_def)

theorem broadcast_only_authorised_witness:
  "\<exists>tx signatures prevouts. readSignedRawTx (JStr (bytesToHex (write_tx True sample_tx keyed_sigs))) = Inr (tx, signatures)
    \<and> broadcast_prevouts sample_crypto \<lparr> ac_bech32 = (\<lambda>h p. h), ac_base58check = (\<lambda>p. []) \<rparr>
        \<lparr> sdk_decomposePsbt = Some (\<lambda>hex. Some sample_decomposed), sdk_getUTXOs = None, sdk_network = None \<rparr>
        (JStr (bytesToHex (write_tx True sample_tx keyed_sigs))) (JStr ''70'') = Inr prevouts
    \<and> length prevouts = length (rt_inputs tx)
    \<and> (\<forall>i < length (rt_inputs tx).
          lower_text (pv_prevTxHash (prevouts ! i)) = ti_prevTxHash (rt_inputs tx ! i)
        \<and> js_number (pv_prevTxIndex (prevouts ! i)) = Fin (of_nat (ti_prevTxIndex (rt_inputs tx ! i)))
        \<and> authorised sample_crypto tx i (map (lower_text \<circ> pv_scriptPubKeyHex) prevouts)
            (map (exactSatsOrNull \<circ> pv_value) prevouts) (signatures ! i))"
proof -
  have r: "readSignedRawTx (JStr (bytesToHex (write_tx True sample_tx keyed_sigs))) = Inr (sample_tx, keyed_sigs)"
    unfolding readSignedRawTx_def walkRawTx_written [OF keyed_ok] by simp
  have h: "lower_text (JStr (ti_prevTxHash sample_input)) = ti_prevTxHash sample_input"
    by (rule lower_text_hex) (simp add: sample_input_def is_lower_hex_def)
  have "assertBroadcastSignaturesVerify sample_crypto \<lparr> ac_bech32 = (\<lambda>h p. h), ac_base58check = (\<lambda>p. []) \<rparr>
        \<lparr> sdk_decomposePsbt = Some (\<lambda>hex. Some sample_decomposed), sdk_getUTXOs = None, sdk_network = None \<rparr>
        (JStr (bytesToHex (write_tx True sample_tx keyed_sigs))) (JStr ''70'') = Inr ()"
    by (simp add: assertBroadcastSignaturesVerify_def broadcast_prevouts_def held_psbt_def sample_decomposed_def
        approved_psbt_def Let_def prevoutsFromPsbt_def assertTxSignaturesVerify_def r)
      (simp add: sample_tx_def approved_input_def js_or_def check_tx_input_def h sample_lower [simplified]
        classify_def sample_framed [simplified] keyed_sigs_def sample_witness_check [simplified]
        requested_sighash_def ecdsa_sighash_def exactSatsOrNull_def js_is_int_def)
  from broadcast_only_authorised [OF this] show ?thesis .
qed

text \<open>Property C5. On the hardware lane, a reply that passes both checks pays exactly the approved outputs in
  order, spends exactly the approved outpoints with the approved sequences, and carries on every input a
  signature that verifies under the key the approved prevout commits to, over the reply's own hash.\<close>

theorem device_reply_safe:
  assumes "assertSignedTxMatchesPsbt txHex (Some d) = Inr ()" "assertInputSignaturesVerify cr txHex (Some d) = Inr ()"
  shows "\<exists>tx signatures outs ins. readSignedRawTx txHex = Inr (tx, signatures)
    \<and> dp_outputs d = Some outs \<and> dp_inputs d = Some ins \<and> length ins = length (rt_inputs tx)
    \<and> list_all2 (\<lambda>got want. lower_text (do_scriptPubKeyHex want) = to_scriptPubKeyHex got
         \<and> exactSats (do_value want) = Some (int (to_valueSat got))) (rt_outputs tx) outs
    \<and> (\<forall>i < length (rt_inputs tx). input_matches (rt_inputs tx ! i) (signatures ! i) (ins ! i)
         \<and> authorised cr tx i (map device_script ins) (map (exactSatsOrNull \<circ> di_value) ins) (signatures ! i))"
proof -
  obtain outs ins where o: "dp_outputs d = Some outs" "dp_inputs d = Some ins"
    using assms(1) by (auto simp: assertSignedTxMatchesPsbt_def split: option.splits)
  obtain tx legacy sigs where w: "walkRawTx txHex = Inr (tx, legacy, sigs)"
    using assms(1) o by (auto simp: assertSignedTxMatchesPsbt_def split: sum.splits)
  then have r: "readSignedRawTx txHex = Inr (tx, sigs)" by (simp add: readSignedRawTx_def)
  have c: "length (rt_outputs tx) = length outs" "check_outputs 0 (rt_outputs tx) outs = None"
    "length (rt_inputs tx) = length ins" "check_inputs 0 (rt_inputs tx) sigs ins = None"
    using assms(1) o w by (auto simp: assertSignedTxMatchesPsbt_def split: if_splits option.splits)
  have n: "length sigs = length (rt_inputs tx)"
    using w walk_bytes_sizes by (auto simp: walkRawTx_def split: sum.splits)
  have "\<forall>i < length (rt_inputs tx). check_device_input cr tx i (ins ! i) (sigs ! i) = None"
    using assms(2) o c(3) by (simp add: assertInputSignaturesVerify_def r first_failure_ok)
  then have a: "\<forall>i < length (rt_inputs tx).
      authorised cr tx i (map device_script ins) (map (exactSatsOrNull \<circ> di_value) ins) (sigs ! i)"
    using c(3) by (auto intro!: check_device_input_authorised)
  have "\<forall>i < length (rt_inputs tx). input_matches (rt_inputs tx ! i) (sigs ! i) (ins ! i)"
    using check_inputs_None [OF n c(3) [symmetric]] c(4) by blast
  moreover have "list_all2 (\<lambda>got want. lower_text (do_scriptPubKeyHex want) = to_scriptPubKeyHex got
         \<and> exactSats (do_value want) = Some (int (to_valueSat got))) (rt_outputs tx) outs"
    using check_outputs_None [OF c(1)] c(2) by blast
  ultimately show ?thesis using r o a c(3) by (intro exI [of _ tx] exI [of _ sigs] exI [of _ outs] exI [of _ ins]) simp
qed

theorem device_reply_safe_witness:
  "\<exists>tx signatures outs ins. readSignedRawTx (JStr (bytesToHex (write_tx True sample_tx keyed_sigs))) = Inr (tx, signatures)
    \<and> dp_outputs sample_decomposed = Some outs \<and> dp_inputs sample_decomposed = Some ins \<and> length ins = length (rt_inputs tx)
    \<and> list_all2 (\<lambda>got want. lower_text (do_scriptPubKeyHex want) = to_scriptPubKeyHex got
         \<and> exactSats (do_value want) = Some (int (to_valueSat got))) (rt_outputs tx) outs
    \<and> (\<forall>i < length (rt_inputs tx). input_matches (rt_inputs tx ! i) (signatures ! i) (ins ! i)
         \<and> authorised sample_crypto tx i (map device_script ins) (map (exactSatsOrNull \<circ> di_value) ins) (signatures ! i))"
proof -
  let ?hex = "JStr (bytesToHex (write_tx True sample_tx keyed_sigs))"
  have w: "walkRawTx ?hex = Inr (sample_tx, bytesToHex (write_tx False sample_tx keyed_sigs), keyed_sigs)"
    by (rule walkRawTx_written [OF keyed_ok])
  have h: "lower_text (JStr (ti_prevTxHash sample_input)) = ti_prevTxHash sample_input"
    by (rule lower_text_hex) (simp add: sample_input_def is_lower_hex_def)
  have o: "lower_text (JStr ''0014aa'') = ''0014aa''" by (rule lower_text_hex) (simp add: is_lower_hex_def)
  have v: "isValidSequence (JNum (Fin (of_nat (ti_sequence sample_input))))"
    by (simp add: isValidSequence_def sample_input_def)
  have m: "assertSignedTxMatchesPsbt ?hex (Some sample_decomposed) = Inr ()"
    unfolding assertSignedTxMatchesPsbt_def w
    by (simp add: sample_decomposed_def approved_psbt_def sample_tx_def keyed_sigs_def approved_input_def
        exactSats_def check_locktime_def check_version_def js_or_def h v o witnessItems_def SEGWIT_SCRIPT_TYPES_def
        scriptSigBytes_def sample_key_def)
  have "assertInputSignaturesVerify sample_crypto ?hex (Some sample_decomposed) = Inr ()"
    unfolding assertInputSignaturesVerify_def readSignedRawTx_def w
    by (simp add: sample_decomposed_def approved_psbt_def sample_tx_def keyed_sigs_def approved_input_def
        check_device_input_def device_script_def js_or_def sample_lower [simplified] sample_framed [simplified]
        requested_sighash_def ecdsa_sighash_def exactSatsOrNull_def js_is_int_def sample_witness_check [simplified])
  from device_reply_safe [OF m this] show ?thesis .
qed

end
