(* ===== verification/Fee_Plans.thy ===== *)
theory Fee_Plans
  imports Double_Round Byte_Codec "HOL-Library.AList"
begin

text \<open>
  The planners that speed up or cancel a pending send: \<^verbatim>\<open>core/src/flows/rbfPlan.js\<close> (BIP-125
  replacement), \<^verbatim>\<open>cpfpPlan.js\<close> (child pays for parent) and \<^verbatim>\<open>rbfCap.js\<close>. The
  transactions they read are decompositions made elsewhere, so they are arbitrary JavaScript values.
  Satoshi amounts are BigInts, hence naturals once checked; a fee rate is a double, and its product with a
  size is rounded as the language rounds it (\<open>double_round\<close>).
\<close>

section \<open>Amounts and rates\<close>

text \<open>A rate given as a number is used as it is; anything else is trimmed text read as a number.\<close>

definition fee_rate :: "js \<Rightarrow> rat option" where
  "fee_rate v = (case to_double (case v of JNum x \<Rightarrow> x | _ \<Rightarrow> js_number (JStr (js_trim (js_text v)))) of
     Fin r \<Rightarrow> (if 0 < r then Some r else None) | _ \<Rightarrow> None)"

definition sats :: "js \<Rightarrow> nat option" where
  "sats value = (case value of
     JBig i \<Rightarrow> (if i \<ge> 0 then Some (nat i) else None)
   | JNum (Fin r) \<Rightarrow> (if is_safe_integer (Fin r) \<and> 0 \<le> r then Some (nat \<lfloor>r\<rfloor>) else None)
   | JStr s \<Rightarrow> (if s \<noteq> [] \<and> list_all is_digit s then Some (dec_nat s) else None)
   | _ \<Rightarrow> None)"

definition wireAmount :: "nat \<Rightarrow> js" where
  "wireAmount value = (if value \<le> 2 ^ 53 - 1 then JNum (Fin (of_nat value)) else JStr (nat_text value))"

section \<open>The shape of a transaction\<close>

datatype plan_error =
    Bad_shape
  | Bad_txid nat
  | Bad_vout nat
  | Bad_script nat
  | Duplicate_outpoint nat
  | Inexact_amount
  | Unknown_strategy
  | No_source_address
  | Not_replaceable
  | Different_inputs
  | No_positive_fee
  | Bad_fee_rate
  | Bytes_required
  | Rate_inexact
  | Rate_not_higher
  | Fee_consumes_inputs
  | No_change_output
  | Output_not_reproducible nat
  | Change_cannot_cover
  | Bad_parent_txid
  | Bad_child_bytes
  | No_owned_output
  | Owned_output_script
  | Cannot_size_child
  | Unknown_dust
  | No_segwit
  | Output_cannot_cover

record plan_input =
  pi_txid :: string
  pi_vout :: nat
  pi_value :: nat
  pi_scriptPubKey :: string
  pi_sequence :: jnum

record plan_output =
  po_address :: "string option"
  po_value :: nat
  po_scriptType :: string
  po_scriptPubKey :: string

definition js_items :: "js \<Rightarrow> js list option" where
  "js_items v = (case v of JArr xs \<Rightarrow> Some xs | _ \<Rightarrow> None)"

definition or_text :: "js \<Rightarrow> js \<Rightarrow> string" where
  "or_text a b = js_text (js_or (js_or a b) (JStr ''''))"

definition even_hex_text :: "string \<Rightarrow> bool" where
  "even_hex_text s \<longleftrightarrow> s \<noteq> [] \<and> even (length s) \<and> list_all is_hex s"

fun shape_inputs :: "nat \<Rightarrow> (string \<times> nat) list \<Rightarrow> js list \<Rightarrow> plan_error + plan_input list" where
  "shape_inputs i seen [] = Inr []"
| "shape_inputs i seen (input # inputs) =
     (let txid = js_lower (or_text (js_get input ''prevTxHash'') (js_get input ''txid''));
          vout = js_Number (js_coalesce (js_get input ''prevTxIndex'') (js_get input ''vout''));
          script = or_text (js_get input ''scriptPubKeyHex'') (js_get input ''scriptPubKey'') in
      if length txid \<noteq> 64 \<or> \<not> list_all is_lower_hex txid then Inl (Bad_txid i)
      else if \<not> is_integer (JNum vout) \<or> fin_val (JNum vout) < 0 \<or> fin_val (JNum vout) > 0xffffffff then Inl (Bad_vout i)
      else if \<not> even_hex_text script then Inl (Bad_script i)
      else let n = nat \<lfloor>fin_val (JNum vout)\<rfloor> in
        if (txid, n) \<in> set seen then Inl (Duplicate_outpoint i)
        else (case sats (js_get input ''value'') of
          None \<Rightarrow> Inl Inexact_amount
        | Some v \<Rightarrow>
            (case shape_inputs (Suc i) (seen @ [(txid, n)]) inputs of
               Inl e \<Rightarrow> Inl e
             | Inr rows \<Rightarrow> Inr (\<lparr> pi_txid = txid, pi_vout = n, pi_value = v, pi_scriptPubKey = js_lower script,
                 pi_sequence = js_Number (js_get input ''sequence'') \<rparr> # rows))))"

definition text_or_empty :: "js \<Rightarrow> string" where
  "text_or_empty v = js_lower (js_text (js_or v (JStr '''')))"

definition output_address :: "js \<Rightarrow> string option" where
  "output_address output = (case js_get output ''address'' of JStr s \<Rightarrow> (if s = [] then None else Some s) | _ \<Rightarrow> None)"

fun shape_outputs :: "js list \<Rightarrow> plan_error + plan_output list" where
  "shape_outputs [] = Inr []"
| "shape_outputs (output # outputs) =
     (case sats (js_get output ''value'') of
        None \<Rightarrow> Inl Inexact_amount
      | Some v \<Rightarrow>
          (case shape_outputs outputs of Inl e \<Rightarrow> Inl e
           | Inr rows \<Rightarrow> Inr (\<lparr> po_address = output_address output, po_value = v,
               po_scriptType = text_or_empty (js_get output ''scriptType''),
               po_scriptPubKey = text_or_empty (js_get output ''scriptPubKeyHex'') \<rparr> # rows)))"

definition txShape :: "js \<Rightarrow> plan_error + plan_input list \<times> plan_output list" where
  "txShape value =
     (case (js_items (js_get value ''inputs''), js_items (js_get value ''outputs'')) of
        (Some ins, Some outs) \<Rightarrow>
          if \<not> js_truthy value \<or> ins = [] \<or> outs = [] then Inl Bad_shape
          else (case shape_inputs 0 [] ins of Inl e \<Rightarrow> Inl e | Inr inputs \<Rightarrow>
                case shape_outputs outs of Inl e \<Rightarrow> Inl e | Inr outputs \<Rightarrow> Inr (inputs, outputs))
      | _ \<Rightarrow> Inl Bad_shape)"

definition sum_inputs :: "plan_input list \<Rightarrow> nat" where
  "sum_inputs rows = sum_list (map pi_value rows)"

definition sum_outputs :: "plan_output list \<Rightarrow> nat" where
  "sum_outputs rows = sum_list (map po_value rows)"

definition sameOutpoints :: "plan_input list \<Rightarrow> plan_input list \<Rightarrow> bool" where
  "sameOutpoints left right \<longleftrightarrow> map (\<lambda>r. (pi_txid r, pi_vout r)) left = map (\<lambda>r. (pi_txid r, pi_vout r)) right"

section \<open>The replacement\<close>

definition RBF_SEQUENCE_LIMIT :: rat where
  "RBF_SEQUENCE_LIMIT = 0xfffffffe"

definition DEFAULT_INCREMENT_SATS :: nat where
  "DEFAULT_INCREMENT_SATS = 1000"

definition signals_rbf :: "jnum \<Rightarrow> bool" where
  "signals_rbf seq \<longleftrightarrow> is_integer (JNum seq) \<and> fin_val (JNum seq) < RBF_SEQUENCE_LIMIT"

definition minimum_fee :: "nat \<Rightarrow> js \<Rightarrow> nat" where
  "minimum_fee originalFee transactionBytes =
     (let byteIncrement = (case safe_positive transactionBytes of Some n \<Rightarrow> n | None \<Rightarrow> 0);
          proportional = originalFee div 4;
          increment = (if proportional > DEFAULT_INCREMENT_SATS
            then (if proportional > byteIncrement then proportional else byteIncrement)
            else (if DEFAULT_INCREMENT_SATS > byteIncrement then DEFAULT_INCREMENT_SATS else byteIncrement)) in
      originalFee + increment)"

definition replacementFee :: "nat \<Rightarrow> js \<Rightarrow> js \<Rightarrow> plan_error + nat" where
  "replacementFee originalFee feeRate transactionBytes =
     (let minimum = minimum_fee originalFee transactionBytes in
      if is_nullish feeRate \<or> feeRate = JStr '''' then Inr minimum
      else (case fee_rate feeRate of
        None \<Rightarrow> Inl Bad_fee_rate
      | Some rate \<Rightarrow>
          (case safe_positive transactionBytes of
             None \<Rightarrow> Inl Bytes_required
           | Some bytes \<Rightarrow>
               (let rounded = ceil_product rate (of_nat bytes) in
                if \<not> safe_int rounded then Inl Rate_inexact
                else if rounded \<le> int originalFee then Inl Rate_not_higher
                else Inr (if nat rounded > minimum then nat rounded else minimum)))))"

datatype strategy = Speedup | Cancel | Restore

definition strategy_of :: "js \<Rightarrow> strategy option" where
  "strategy_of v = (if v = JStr ''speedup'' then Some Speedup else if v = JStr ''cancel'' then Some Cancel
     else if v = JStr ''restore'' then Some Restore else None)"

record encoder_utxo =
  eu_txid :: string
  eu_vout :: nat
  eu_value :: js
  eu_scriptPubKey :: string
  eu_confirmations :: nat

record encoder_opts =
  eo_change :: string
  eo_utxos :: "encoder_utxo list"
  eo_customOutputs :: "(string \<times> js) list"
  eo_fee :: js
  eo_rbf :: bool
  eo_unconfirmed :: bool
  eo_exactInputs :: bool

record rbf_plan =
  rp_encoderOpts :: encoder_opts
  rp_originalFeeSats :: string
  rp_replacementFeeSats :: string
  rp_feeIncreaseSats :: string

definition owned_set :: "js \<Rightarrow> string \<Rightarrow> string list" where
  "owned_set ownAddresses sourceAddress =
     sourceAddress # (case ownAddresses of
        JArr vs \<Rightarrow> List.map_filter (\<lambda>v. case v of JStr s \<Rightarrow> (if s = [] then None else Some s) | _ \<Rightarrow> None) vs
      | _ \<Rightarrow> [])"

definition last_owned :: "string list \<Rightarrow> plan_output list \<Rightarrow> nat option" where
  "last_owned owned outputs = (case List.filter (\<lambda>i. case po_address (outputs ! i) of None \<Rightarrow> False | Some a \<Rightarrow> a \<in> set owned)
     [0..<length outputs] of [] \<Rightarrow> None | is \<Rightarrow> Some (last is))"

definition data_output :: "plan_output \<Rightarrow> bool" where
  "data_output output \<longleftrightarrow> po_value output = 0
     \<and> (po_scriptType output = ''nulldata'' \<or> take 2 (po_scriptPubKey output) = ''6a'')"

fun custom_outputs :: "nat \<Rightarrow> nat \<Rightarrow> plan_output list \<Rightarrow> plan_error + (string \<times> nat) list" where
  "custom_outputs changeIndex i [] = Inr []"
| "custom_outputs changeIndex i (output # outputs) =
     (if i = changeIndex then custom_outputs changeIndex (Suc i) outputs
      else (case po_address output of
        Some a \<Rightarrow> (case custom_outputs changeIndex (Suc i) outputs of
            Inl e \<Rightarrow> Inl e | Inr rows \<Rightarrow> Inr ((a, po_value output) # rows))
      | None \<Rightarrow> if data_output output then custom_outputs changeIndex (Suc i) outputs
          else Inl (Output_not_reproducible i)))"

definition fixed_outputs :: "nat \<Rightarrow> plan_output list \<Rightarrow> nat" where
  "fixed_outputs changeIndex outputs = sum_outputs (take changeIndex outputs @ drop (Suc changeIndex) outputs)"

definition rbf_payment :: "strategy \<Rightarrow> plan_output list \<Rightarrow> string \<Rightarrow> js \<Rightarrow> nat \<Rightarrow> nat
    \<Rightarrow> plan_error + string \<times> (string \<times> nat) list" where
  "rbf_payment strat outputs sourceAddress ownAddresses inputTotal fee =
     (if strat = Cancel then Inr (sourceAddress, [(sourceAddress, inputTotal - fee)])
      else (case last_owned (owned_set ownAddresses sourceAddress) outputs of
        None \<Rightarrow> Inl No_change_output
      | Some changeIndex \<Rightarrow>
          (case custom_outputs changeIndex 0 outputs of
             Inl e \<Rightarrow> Inl e
           | Inr rows \<Rightarrow>
               if fixed_outputs changeIndex outputs + fee > inputTotal then Inl Change_cannot_cover
               else Inr (the (po_address (outputs ! changeIndex)), rows))))"

definition replacement_plan :: "plan_input list \<Rightarrow> string \<Rightarrow> (string \<times> nat) list \<Rightarrow> nat \<Rightarrow> nat \<Rightarrow> rbf_plan" where
  "replacement_plan ins change outs originalFee fee =
     \<lparr> rp_encoderOpts = \<lparr> eo_change = change,
         eo_utxos = map (\<lambda>r. \<lparr> eu_txid = pi_txid r, eu_vout = pi_vout r, eu_value = wireAmount (pi_value r),
           eu_scriptPubKey = pi_scriptPubKey r, eu_confirmations = 0 \<rparr>) ins,
         eo_customOutputs = map (\<lambda>(a, v). (a, wireAmount v)) outs,
         eo_fee = wireAmount fee, eo_rbf = True, eo_unconfirmed = True, eo_exactInputs = True \<rparr>,
       rp_originalFeeSats = nat_text originalFee, rp_replacementFeeSats = nat_text fee,
       rp_feeIncreaseSats = nat_text (fee - originalFee) \<rparr>"

definition planRbfReplacement :: "js \<Rightarrow> js \<Rightarrow> js \<Rightarrow> js \<Rightarrow> js \<Rightarrow> js \<Rightarrow> js \<Rightarrow> plan_error + rbf_plan" where
  "planRbfReplacement strat_v conflict template_opt source own_opt feeRate transactionBytes =
     (let template = js_default template_opt conflict; own = js_default own_opt (JArr [source]) in
      case strategy_of strat_v of None \<Rightarrow> Inl Unknown_strategy | Some strat \<Rightarrow>
      case source of
        JStr sourceAddress \<Rightarrow>
          if sourceAddress = [] then Inl No_source_address
          else (case txShape conflict of Inl e \<Rightarrow> Inl e | Inr (conflict_ins, conflict_outs) \<Rightarrow>
            case txShape template of Inl e \<Rightarrow> Inl e | Inr (template_ins, template_outs) \<Rightarrow>
            if \<not> (\<exists>i \<in> set conflict_ins. signals_rbf (pi_sequence i)) then Inl Not_replaceable
            else if strat = Restore \<and> \<not> sameOutpoints conflict_ins template_ins then Inl Different_inputs
            else let inputTotal = sum_inputs conflict_ins; outputTotal = sum_outputs conflict_outs in
              if outputTotal \<ge> inputTotal then Inl No_positive_fee
              else let originalFee = inputTotal - outputTotal in
                (case replacementFee originalFee feeRate transactionBytes of Inl e \<Rightarrow> Inl e | Inr fee \<Rightarrow>
                 if fee \<ge> inputTotal then Inl Fee_consumes_inputs
                 else (case rbf_payment strat template_outs sourceAddress own inputTotal fee of
                   Inl e \<Rightarrow> Inl e
                 | Inr (change, outs) \<Rightarrow>
                     Inr (replacement_plan conflict_ins change outs originalFee fee))))
      | _ \<Rightarrow> Inl No_source_address)"

section \<open>The child that pays for its parent\<close>

definition script_form :: "string \<Rightarrow> nat \<Rightarrow> string \<Rightarrow> string \<Rightarrow> bool" where
  "script_form prefix digits suffix s \<longleftrightarrow>
     length s = length prefix + digits + length suffix \<and> list_all is_lower_hex s
     \<and> take (length prefix) s = prefix \<and> drop (length prefix + digits) s = suffix"

record script_kind =
  sk_name :: string
  sk_test :: "string \<Rightarrow> bool"
  sk_vbytes :: nat
  sk_segwit :: bool

definition CHILD_VBYTES_BY_SCRIPT :: "script_kind list" where
  "CHILD_VBYTES_BY_SCRIPT =
     [\<lparr> sk_name = ''p2pkh'', sk_test = script_form ''76a914'' 40 ''88ac'', sk_vbytes = 192, sk_segwit = False \<rparr>,
      \<lparr> sk_name = ''p2wpkh'', sk_test = script_form ''0014'' 40 '''', sk_vbytes = 110, sk_segwit = True \<rparr>,
      \<lparr> sk_name = ''p2sh-p2wpkh'', sk_test = script_form ''a914'' 40 ''87'', sk_vbytes = 134, sk_segwit = True \<rparr>,
      \<lparr> sk_name = ''p2tr'', sk_test = script_form ''5120'' 64 '''', sk_vbytes = 111, sk_segwit = True \<rparr>]"

definition isWitnessProgram :: "string \<Rightarrow> bool" where
  "isWitnessProgram s \<longleftrightarrow>
     (take 2 s = ''00'' \<or> take 1 s = ''5'' \<and> take 2 s \<noteq> ''50'' \<or> take 2 s = ''60'')
     \<and> (script_form (take 2 s @ ''14'') 40 '''' s \<or> script_form (take 2 s @ ''20'') 64 '''' s)"

definition networkRules :: "js \<Rightarrow> (nat \<times> bool) option" where
  "networkRules network = (case safe_positive (js_get network ''dustThreshold'') of
     None \<Rightarrow> None | Some dust \<Rightarrow> Some (dust, js_get network ''supportsSegwit'' \<noteq> JBool False))"

fun total_sats :: "js list \<Rightarrow> plan_error + nat" where
  "total_sats [] = Inr 0"
| "total_sats (input # inputs) =
     (case sats (js_get input ''value'') of None \<Rightarrow> Inl Inexact_amount
      | Some v \<Rightarrow> (case total_sats inputs of Inl e \<Rightarrow> Inl e | Inr t \<Rightarrow> Inr (v + t)))"

fun parent_outputs :: "js list \<Rightarrow> plan_error + plan_output list" where
  "parent_outputs [] = Inr []"
| "parent_outputs (output # outputs) =
     (case sats (js_get output ''value'') of None \<Rightarrow> Inl Inexact_amount
      | Some v \<Rightarrow>
          (case parent_outputs outputs of Inl e \<Rightarrow> Inl e
           | Inr rows \<Rightarrow> Inr (\<lparr> po_address = output_address output, po_value = v, po_scriptType = [],
               po_scriptPubKey = js_lower (or_text (js_get output ''scriptPubKeyHex'') (js_get output ''scriptPubKey'')) \<rparr> # rows)))"

record cpfp_plan =
  cp_encoderOpts :: encoder_opts
  cp_parentFeeSats :: string
  cp_childFeeSats :: string
  cp_packageFeeSats :: string
  cp_packageVbytes :: rat

text \<open>The fee of the child: what the package is short of, never less than the rate for the child alone.\<close>

definition child_fee :: "rat \<Rightarrow> nat \<Rightarrow> nat \<Rightarrow> nat \<Rightarrow> (rat \<times> nat) option" where
  "child_fee rate pBytes cBytes parentFee =
     (let packageBytes = double_round (of_nat pBytes + of_nat cBytes);
          roundedPackageFee = ceil_product rate packageBytes;
          roundedChildFee = ceil_product rate (of_nat cBytes) in
      if \<not> safe_int roundedPackageFee \<or> \<not> safe_int roundedChildFee then None
      else let packageFloor = nat roundedPackageFee; childFloor = nat roundedChildFee;
               shortfall = (if packageFloor > parentFee then packageFloor - parentFee else 0) in
        Some (packageBytes, if shortfall > childFloor then shortfall else childFloor))"

definition child_plan :: "string \<Rightarrow> nat \<Rightarrow> plan_output \<Rightarrow> string \<Rightarrow> nat \<Rightarrow> nat \<Rightarrow> rat \<Rightarrow> cpfp_plan" where
  "child_plan txid vout spend sourceAddress parentFee childFee packageBytes =
     \<lparr> cp_encoderOpts = \<lparr> eo_change = sourceAddress,
         eo_utxos = [\<lparr> eu_txid = txid, eu_vout = vout, eu_value = wireAmount (po_value spend),
           eu_scriptPubKey = po_scriptPubKey spend, eu_confirmations = 0 \<rparr>],
         eo_customOutputs = [(sourceAddress, wireAmount (po_value spend - childFee))],
         eo_fee = wireAmount childFee, eo_rbf = True, eo_unconfirmed = True, eo_exactInputs = True \<rparr>,
       cp_parentFeeSats = nat_text parentFee, cp_childFeeSats = nat_text childFee,
       cp_packageFeeSats = nat_text (parentFee + childFee), cp_packageVbytes = packageBytes \<rparr>"

text \<open>The size of the child: the one given, or the one of the spent script; with it the script's segwit flag.\<close>

definition child_size :: "js \<Rightarrow> string \<Rightarrow> nat option \<times> bool" where
  "child_size childVbytes script =
     (let scriptKind = List.find (\<lambda>k. sk_test k script) CHILD_VBYTES_BY_SCRIPT in
      (if is_nullish childVbytes then map_option sk_vbytes scriptKind else safe_positive childVbytes,
       case scriptKind of None \<Rightarrow> False | Some k \<Rightarrow> sk_segwit k))"

definition plan_child :: "string \<Rightarrow> js list \<Rightarrow> js list \<Rightarrow> string \<Rightarrow> js \<Rightarrow> rat \<Rightarrow> nat \<Rightarrow> js \<Rightarrow> js
    \<Rightarrow> plan_error + cpfp_plan" where
  "plan_child txid ins outs sourceAddress own rate pBytes childVbytes network =
     (case total_sats ins of Inl e \<Rightarrow> Inl e | Inr inputTotal \<Rightarrow>
      case parent_outputs outs of Inl e \<Rightarrow> Inl e | Inr outputs \<Rightarrow>
      let outputTotal = sum_outputs outputs in
      if outputTotal \<ge> inputTotal then Inl No_positive_fee
      else let parentFee = inputTotal - outputTotal in
      (case last_owned (owned_set own sourceAddress) outputs of None \<Rightarrow> Inl No_owned_output | Some vout \<Rightarrow>
       let spend = outputs ! vout; script = po_scriptPubKey spend in
       if \<not> (even_hex_text script \<and> list_all is_lower_hex script) then Inl Owned_output_script
       else (case child_size childVbytes script of
          (None, _) \<Rightarrow> Inl Cannot_size_child
        | (Some cBytes, segwit) \<Rightarrow>
            (case child_fee rate pBytes cBytes parentFee of None \<Rightarrow> Inl Rate_inexact
             | Some (packageBytes, childFee) \<Rightarrow>
                 (case networkRules network of None \<Rightarrow> Inl Unknown_dust | Some (dust, supportsSegwit) \<Rightarrow>
                  if \<not> supportsSegwit \<and> (segwit \<or> isWitnessProgram script) then Inl No_segwit
                  else if po_value spend < childFee + dust then Inl Output_cannot_cover
                  else Inr (child_plan txid vout spend sourceAddress parentFee childFee packageBytes))))))"

definition planCpfpChild :: "js \<Rightarrow> js \<Rightarrow> js \<Rightarrow> js \<Rightarrow> js \<Rightarrow> js \<Rightarrow> js \<Rightarrow> js \<Rightarrow> plan_error + cpfp_plan" where
  "planCpfpChild parentTxid parent source own_opt feeRate parentVbytes childVbytes network =
     (let own = js_default own_opt (JArr [source]); txid = text_or_empty parentTxid in
      if length txid \<noteq> 64 \<or> \<not> list_all is_lower_hex txid then Inl Bad_parent_txid
      else (case source of
        JStr sourceAddress \<Rightarrow>
          if sourceAddress = [] then Inl No_source_address
          else (case (js_items (js_get parent ''inputs''), js_items (js_get parent ''outputs'')) of
              (Some ins, Some outs) \<Rightarrow>
                if \<not> js_truthy parent \<or> ins = [] \<or> outs = [] then Inl Bad_shape
                else (case fee_rate feeRate of None \<Rightarrow> Inl Bad_fee_rate | Some rate \<Rightarrow>
                  case safe_positive parentVbytes of None \<Rightarrow> Inl Bytes_required | Some pBytes \<Rightarrow>
                  if \<not> is_nullish childVbytes \<and> safe_positive childVbytes = None then Inl Bad_child_bytes
                  else plan_child txid ins outs sourceAddress own rate pBytes childVbytes network)
            | _ \<Rightarrow> Inl Bad_shape)
      | _ \<Rightarrow> Inl No_source_address))"

section \<open>Speeding up, and the chain's cap\<close>

definition signalsReplaceability :: "js \<Rightarrow> bool" where
  "signalsReplaceability tx = (case js_items (js_get tx ''inputs'') of
     None \<Rightarrow> False
   | Some ins \<Rightarrow> ins \<noteq> [] \<and> (\<exists>input \<in> set ins. signals_rbf (js_Number (js_get input ''sequence''))))"

datatype speed_up = By_rbf rbf_plan | By_cpfp cpfp_plan

definition planSpeedUp :: "js \<Rightarrow> js \<Rightarrow> js \<Rightarrow> js \<Rightarrow> js \<Rightarrow> js \<Rightarrow> js \<Rightarrow> js \<Rightarrow> plan_error + speed_up" where
  "planSpeedUp conflict parentTxid source own feeRate transactionBytes childVbytes network =
     (if signalsReplaceability conflict
      then map_sum id By_rbf (planRbfReplacement (JStr ''speedup'') conflict Undef source own feeRate transactionBytes)
      else map_sum id By_cpfp (planCpfpChild parentTxid conflict source own feeRate transactionBytes childVbytes network))"

definition capRbfToDescriptor :: "js \<Rightarrow> js \<Rightarrow> js" where
  "capRbfToDescriptor descriptor encoderOpts =
     (if js_get encoderOpts ''rbf'' \<noteq> JBool True then encoderOpts
      else if js_get (js_get descriptor ''feeStrategy'') ''rbfSupported'' = JBool True then encoderOpts
      else (case encoderOpts of JObj kvs \<Rightarrow> JObj (AList.update ''rbf'' (JBool False) kvs) | v \<Rightarrow> v))"


section \<open>Amounts on the wire\<close>

lemma sats_wire [simp]: "sats (wireAmount n) = Some n"
proof (cases "n \<le> 2 ^ 53 - 1")
  case True
  hence "safe_int (int n)" by (simp add: safe_int_def)
  with True show ?thesis by (simp add: wireAmount_def sats_def is_safe_integer_def)
next
  case False
  thus ?thesis by (simp add: wireAmount_def sats_def)
qed

text \<open>What a plan pays to its explicit outputs, and the fee it states, read back from the wire.\<close>

definition paid_out :: "encoder_opts \<Rightarrow> nat" where
  "paid_out opts = sum_list (map (\<lambda>(a, v). the (sats v)) (eo_customOutputs opts))"

definition stated_fee :: "encoder_opts \<Rightarrow> nat" where
  "stated_fee opts = the (sats (eo_fee opts))"

section \<open>Facts about the parts of a plan\<close>

lemma shape_inputs_distinct:
  "shape_inputs i seen rows = Inr ins \<Longrightarrow>
     distinct (map (\<lambda>r. (pi_txid r, pi_vout r)) ins) \<and> set (map (\<lambda>r. (pi_txid r, pi_vout r)) ins) \<inter> set seen = {}"
  by (induction i seen rows arbitrary: ins rule: shape_inputs.induct)
     (fastforce simp: Let_def split: if_splits option.splits sum.splits)+

lemma shape_inputs_sequences:
  "shape_inputs i seen rows = Inr ins \<Longrightarrow> map pi_sequence ins = map (\<lambda>v. js_Number (js_get v ''sequence'')) rows"
  by (induction i seen rows arbitrary: ins rule: shape_inputs.induct)
     (fastforce simp: Let_def split: if_splits option.splits sum.splits)+

lemma txShape_inputs:
  assumes "txShape v = Inr (ins, outs)"
  obtains rows where "js_items (js_get v ''inputs'') = Some rows" "shape_inputs 0 [] rows = Inr ins" "rows \<noteq> []"
  using assms by (auto simp: txShape_def split: if_splits option.splits sum.splits)

lemma txShape_distinct: "txShape v = Inr (ins, outs) \<Longrightarrow> distinct (map (\<lambda>r. (pi_txid r, pi_vout r)) ins)"
  by (erule txShape_inputs) (simp add: shape_inputs_distinct)

lemma last_owned_spec:
  assumes "last_owned owned outputs = Some i"
  shows "i < length outputs \<and> (\<exists>a. po_address (outputs ! i) = Some a \<and> a \<in> set owned)"
proof -
  let ?is = "List.filter (\<lambda>i. case po_address (outputs ! i) of None \<Rightarrow> False | Some a \<Rightarrow> a \<in> set owned) [0..<length outputs]"
  have "?is \<noteq> []" and "i = last ?is"
    using assms by (auto simp: last_owned_def split: list.splits)
  hence "i \<in> set ?is" using last_in_set by blast
  thus ?thesis by (auto split: option.splits)
qed

lemma custom_outputs_sum_all:
  "changeIndex < i \<Longrightarrow> custom_outputs changeIndex i outs = Inr rows \<Longrightarrow> sum_list (map snd rows) = sum_outputs outs"
  by (induction changeIndex i outs arbitrary: rows rule: custom_outputs.induct)
     (auto simp: sum_outputs_def data_output_def split: if_splits option.splits sum.splits)

lemma custom_outputs_sum:
  "i \<le> changeIndex \<Longrightarrow> custom_outputs changeIndex i outs = Inr rows \<Longrightarrow>
     sum_list (map snd rows) = fixed_outputs (changeIndex - i) outs"
proof (induction changeIndex i outs arbitrary: rows rule: custom_outputs.induct)
  case (2 c i out outs)
  show ?case
  proof (cases "i = c")
    case True
    with 2(5) show ?thesis
      by (simp add: fixed_outputs_def custom_outputs_sum_all [of c "Suc i"])
  next
    case False
    with 2(4) have c: "c - i = Suc (c - Suc i)" "Suc i \<le> c" by auto
    show ?thesis using 2 False c(2) unfolding c(1)
      by (auto simp: fixed_outputs_def sum_outputs_def data_output_def split: if_splits option.splits sum.splits)
  qed
qed (simp add: fixed_outputs_def sum_outputs_def)

lemma minimum_fee_bound: "old + max 1000 (old div 4) \<le> minimum_fee old bytes"
  "safe_positive bytes = Some n \<Longrightarrow> old + n \<le> minimum_fee old bytes"
  by (auto simp: minimum_fee_def Let_def DEFAULT_INCREMENT_SATS_def)

lemma replacementFee_spec:
  assumes "replacementFee old rate bytes = Inr fee"
  shows "minimum_fee old bytes \<le> fee"
    "\<not> is_nullish rate \<Longrightarrow> rate \<noteq> JStr '''' \<Longrightarrow>
       \<exists>r n. fee_rate rate = Some r \<and> safe_positive bytes = Some n \<and> r * of_nat n < of_nat fee + 1"
proof -
  show "minimum_fee old bytes \<le> fee"
    using assms by (auto simp: replacementFee_def Let_def split: if_splits option.splits)
  assume rate: "\<not> is_nullish rate" "rate \<noteq> JStr ''''"
  then obtain r n where rn: "fee_rate rate = Some r" "safe_positive bytes = Some n"
    "safe_int (ceil_product r (of_nat n))" "nat (ceil_product r (of_nat n)) \<le> fee"
    using assms by (auto simp: replacementFee_def Let_def split: if_splits option.splits)
  have "of_int (ceil_product r (of_nat n)) = (of_nat (nat (ceil_product r (of_nat n))) :: rat)"
    using ceil_product_nonneg [of r "of_nat n"] by simp
  also have "\<dots> \<le> of_nat fee" using rn(4) by (simp only: of_nat_le_iff)
  finally have "r * of_nat n < of_nat fee + 1" using ceil_product_covers [OF rn(3)] by linarith
  with rn show "\<exists>r n. fee_rate rate = Some r \<and> safe_positive bytes = Some n \<and> r * of_nat n < of_nat fee + 1" by blast
qed

lemma rbf_payment_spec:
  assumes "rbf_payment strat outputs src own funds fee = Inr (change, rows)" and "fee < funds"
  shows "change \<in> set (owned_set own src) \<and> sum_list (map snd rows) + fee \<le> funds
     \<and> (strat = Cancel \<longrightarrow> rows = [(src, funds - fee)])
     \<and> (strat \<noteq> Cancel \<longrightarrow> (\<exists>i. last_owned (owned_set own src) outputs = Some i
          \<and> po_address (outputs ! i) = Some change \<and> custom_outputs i 0 outputs = Inr rows))"
proof (cases "strat = Cancel")
  case True
  with assms show ?thesis by (auto simp: rbf_payment_def owned_set_def)
next
  case False
  with assms(1) obtain i where i: "last_owned (owned_set own src) outputs = Some i"
    "custom_outputs i 0 outputs = Inr rows" "fixed_outputs i outputs + fee \<le> funds"
    "change = the (po_address (outputs ! i))"
    by (auto simp: rbf_payment_def split: if_splits option.splits sum.splits)
  have "sum_list (map snd rows) = fixed_outputs i outputs" using custom_outputs_sum [OF _ i(2)] by simp
  with last_owned_spec [OF i(1)] i False show ?thesis by auto
qed

lemma paid_out_wire: "paid_out opts = sum_list (map snd rows)"
  if "eo_customOutputs opts = map (\<lambda>(a, v). (a, wireAmount v)) rows"
  using that by (simp add: paid_out_def comp_def case_prod_beta)

lemma fee_rate_pos: "fee_rate v = Some r \<Longrightarrow> 0 < r"
  by (auto simp: fee_rate_def split: jnum.splits if_splits)

lemma fee_rate_given: "fee_rate v = Some r \<Longrightarrow> \<not> is_nullish v \<and> v \<noteq> JStr ''''"
proof -
  have "fee_rate Undef = None" "fee_rate Null = None" "fee_rate (JStr '''') = None"
    by (simp_all add: fee_rate_def string_number_def js_trim_def js_space_def decimal_number_def split_sign_def
        list_all_iff is_digit_def)
  thus "fee_rate v = Some r \<Longrightarrow> ?thesis" by (cases v) auto
qed

text \<open>The parts a successful replacement went through.\<close>

lemma rbf_plan_parts:
  assumes "planRbfReplacement strat conflict template source own rate bytes = Inr plan"
  shows "\<exists>strategy src ins outs t_ins t_outs fee change rows.
     strategy_of strat = Some strategy \<and> source = JStr src \<and> txShape conflict = Inr (ins, outs)
     \<and> txShape (js_default template conflict) = Inr (t_ins, t_outs)
     \<and> (\<exists>i \<in> set ins. signals_rbf (pi_sequence i)) \<and> (strategy = Restore \<longrightarrow> sameOutpoints ins t_ins)
     \<and> sum_outputs outs < sum_inputs ins \<and> fee < sum_inputs ins
     \<and> replacementFee (sum_inputs ins - sum_outputs outs) rate bytes = Inr fee
     \<and> rbf_payment strategy t_outs src (js_default own (JArr [source])) (sum_inputs ins) fee = Inr (change, rows)
     \<and> plan = replacement_plan ins change rows (sum_inputs ins - sum_outputs outs) fee"
proof -
  obtain strategy src where src: "strategy_of strat = Some strategy" "source = JStr src" "src \<noteq> []"
    using assms by (auto simp: planRbfReplacement_def Let_def split: option.splits js.splits if_splits)
  obtain ins outs t_ins t_outs where shapes: "txShape conflict = Inr (ins, outs)"
    "txShape (js_default template conflict) = Inr (t_ins, t_outs)"
    using assms src by (auto simp: planRbfReplacement_def Let_def split: sum.splits if_splits)
  have guards: "(\<exists>i \<in> set ins. signals_rbf (pi_sequence i)) \<and> (strategy = Restore \<longrightarrow> sameOutpoints ins t_ins)
     \<and> sum_outputs outs < sum_inputs ins"
    using assms src shapes by (auto simp: planRbfReplacement_def Let_def not_le split: if_splits)
  obtain fee change rows where rest: "replacementFee (sum_inputs ins - sum_outputs outs) rate bytes = Inr fee"
    "fee < sum_inputs ins"
    "rbf_payment strategy t_outs src (js_default own (JArr [source])) (sum_inputs ins) fee = Inr (change, rows)"
    "plan = replacement_plan ins change rows (sum_inputs ins - sum_outputs outs) fee"
    using assms src shapes guards
    by (auto simp: planRbfReplacement_def Let_def not_le split: sum.splits if_splits)
  show ?thesis using src shapes guards rest by blast
qed

text \<open>A pending payment of 50000 to bob with 40000 of change to alice, for the witnesses.\<close>

definition sample_pending :: js where
  "sample_pending = JObj
     [(''inputs'', JArr [JObj [(''prevTxHash'', JStr (replicate 64 CHR ''a'')), (''prevTxIndex'', JNum (Fin 1)),
        (''scriptPubKeyHex'', JStr ''51''), (''value'', JNum (Fin 100000)), (''sequence'', JNum (Fin 0))]]),
      (''outputs'', JArr [JObj [(''address'', JStr ''bob''), (''value'', JNum (Fin 50000))],
        JObj [(''address'', JStr ''alice''), (''value'', JNum (Fin 40000)),
          (''scriptPubKeyHex'', JStr (''0014'' @ replicate 40 CHR ''b''))]])]"

lemma sample_shape:
  "txShape sample_pending = Inr
     ([\<lparr> pi_txid = replicate 64 CHR ''a'', pi_vout = 1, pi_value = 100000, pi_scriptPubKey = ''51'', pi_sequence = Fin 0 \<rparr>],
      [\<lparr> po_address = Some ''bob'', po_value = 50000, po_scriptType = [], po_scriptPubKey = [] \<rparr>,
       \<lparr> po_address = Some ''alice'', po_value = 40000, po_scriptType = [],
         po_scriptPubKey = ''0014'' @ replicate 40 CHR ''b'' \<rparr>])"
  by (simp add: txShape_def sample_pending_def js_items_def or_text_def js_or_def js_lower_def Let_def
      js_coalesce_def js_Number_def sats_def is_safe_integer_def safe_int_def output_address_def text_or_empty_def
      even_hex_text_def map_replicate list_all_iff low_char_def is_lower_hex_def is_hex_def is_digit_def)

lemma sample_replacement:
  "planRbfReplacement (JStr ''speedup'') sample_pending Undef (JStr ''alice'') Undef (JNum (Fin 50)) (JNum (Fin 250))
     = Inr (replacement_plan
         [\<lparr> pi_txid = replicate 64 CHR ''a'', pi_vout = 1, pi_value = 100000, pi_scriptPubKey = ''51'', pi_sequence = Fin 0 \<rparr>]
         ''alice'' [(''bob'', 50000)] 10000 12500)"
proof -
  have fee: "replacementFee 10000 (JNum (Fin 50)) (JNum (Fin 250)) = Inr 12500"
    by (simp add: replacementFee_def minimum_fee_def fee_rate_def safe_positive_def js_Number_def is_safe_integer_def
        safe_int_def Let_def DEFAULT_INCREMENT_SATS_def)
  let ?outs = "[\<lparr> po_address = Some ''bob'', po_value = 50000, po_scriptType = [], po_scriptPubKey = [] \<rparr>,
    \<lparr> po_address = Some ''alice'', po_value = 40000, po_scriptType = [], po_scriptPubKey = ''0014'' @ replicate 40 CHR ''b'' \<rparr>]"
  have "last_owned (owned_set (JArr [JStr ''alice'']) ''alice'') ?outs = Some 1"
    by (simp add: last_owned_def owned_set_def upt_rec map_filter_simps)
  hence pay: "rbf_payment Speedup ?outs ''alice'' (JArr [JStr ''alice'']) 100000 12500 = Inr (''alice'', [(''bob'', 50000)])"
    by (simp add: rbf_payment_def fixed_outputs_def sum_outputs_def)
  show ?thesis
    by (simp add: planRbfReplacement_def js_default_def strategy_of_def sample_shape signals_rbf_def
        RBF_SEQUENCE_LIMIT_def sum_inputs_def sum_outputs_def fee pay [simplified])
qed

text \<open>
  Property C15. A replacement plan spends exactly the inputs of the transaction it evicts, each once and
  at its own value, and states a fee above the old one by at least 1000 satoshis, a quarter of it and one
  satoshi per byte of a known size; when a rate is asked for, the fee reaches rate times size up to less
  than one satoshi of rounding. What it pays explicitly and the fee fit in the inputs (a cancel uses them
  up, back to the source), and the change goes to an address of the wallet.
\<close>

theorem rbf_plan_outbids:
  assumes "planRbfReplacement strat conflict template source own rate bytes = Inr plan"
  shows "\<exists>ins outs. txShape conflict = Inr (ins, outs) \<and> distinct (map (\<lambda>r. (pi_txid r, pi_vout r)) ins)
     \<and> (let opts = rp_encoderOpts plan; fee = stated_fee opts; old = sum_inputs ins - sum_outputs outs in
        map (\<lambda>u. (eu_txid u, eu_vout u, sats (eu_value u))) (eo_utxos opts)
          = map (\<lambda>r. (pi_txid r, pi_vout r, Some (pi_value r))) ins
        \<and> 0 < old \<and> old + max 1000 (old div 4) \<le> fee
        \<and> (\<forall>n. safe_positive bytes = Some n \<longrightarrow> old + n \<le> fee)
        \<and> (\<forall>r n. fee_rate rate = Some r \<and> safe_positive bytes = Some n \<longrightarrow> r * of_nat n < of_nat fee + 1)
        \<and> paid_out opts + fee \<le> sum_inputs ins
        \<and> (strat = JStr ''cancel'' \<longrightarrow> paid_out opts + fee = sum_inputs ins)
        \<and> (\<exists>src. source = JStr src \<and> eo_change opts \<in> set (owned_set (js_default own (JArr [source])) src)))"
proof -
  from rbf_plan_parts [OF assms] obtain strategy src ins outs t_outs fee change rows where
    parts: "strategy_of strat = Some strategy" "source = JStr src" "txShape conflict = Inr (ins, outs)"
    "sum_outputs outs < sum_inputs ins" "fee < sum_inputs ins"
    "replacementFee (sum_inputs ins - sum_outputs outs) rate bytes = Inr fee"
    and pay: "rbf_payment strategy t_outs src (js_default own (JArr [source])) (sum_inputs ins) fee = Inr (change, rows)"
    and plan: "plan = replacement_plan ins change rows (sum_inputs ins - sum_outputs outs) fee"
    by blast
  have opts: "eo_change (rp_encoderOpts plan) = change"
    "eo_customOutputs (rp_encoderOpts plan) = map (\<lambda>(a, v). (a, wireAmount v)) rows"
    "eo_fee (rp_encoderOpts plan) = wireAmount fee"
    "map (\<lambda>u. (eu_txid u, eu_vout u, sats (eu_value u))) (eo_utxos (rp_encoderOpts plan))
       = map (\<lambda>r. (pi_txid r, pi_vout r, Some (pi_value r))) ins"
    by (simp_all add: plan replacement_plan_def comp_def)
  note payment = rbf_payment_spec [OF pay parts(5)]
  have fee: "stated_fee (rp_encoderOpts plan) = fee" by (simp add: stated_fee_def opts)
  have paid: "paid_out (rp_encoderOpts plan) = sum_list (map snd rows)" by (rule paid_out_wire [OF opts(2)])
  let ?old = "sum_inputs ins - sum_outputs outs"
  have rate: "r * of_nat n < of_nat fee + 1" if "fee_rate rate = Some r" "safe_positive bytes = Some n" for r n
    using replacementFee_spec(2) [OF parts(6)] that fee_rate_given [OF that(1)] by fastforce
  have cancel: "strategy = Cancel" if "strat = JStr ''cancel''" using parts(1) that by (simp add: strategy_of_def)
  show ?thesis
    using parts(2,3,4) txShape_distinct [OF parts(3)] payment rate cancel parts(5)
      order_trans [OF minimum_fee_bound(1) [of ?old bytes] replacementFee_spec(1) [OF parts(6)]]
      order_trans [OF minimum_fee_bound(2) [of bytes _ ?old] replacementFee_spec(1) [OF parts(6)]]
    by (intro exI [of _ ins] exI [of _ outs]) (simp add: Let_def fee paid opts(1,4) comp_def)
qed

theorem rbf_plan_outbids_witness:
  "\<exists>plan. planRbfReplacement (JStr ''speedup'') sample_pending Undef (JStr ''alice'') Undef (JNum (Fin 50)) (JNum (Fin 250)) = Inr plan
     \<and> 12500 \<le> stated_fee (rp_encoderOpts plan) \<and> paid_out (rp_encoderOpts plan) + stated_fee (rp_encoderOpts plan) \<le> 100000"
  using rbf_plan_outbids [OF sample_replacement] sample_replacement
  by (auto simp: sample_shape Let_def sum_inputs_def sum_outputs_def)

lemma child_fee_spec:
  assumes "child_fee rate p c parentFee = Some (packageBytes, fee)"
  shows "rate * packageBytes < of_nat (parentFee + fee) + 1" "rate * of_nat c < of_nat fee + 1"
    "packageBytes = double_round (of_nat p + of_nat c)"
proof -
  let ?pk = "ceil_product rate packageBytes" and ?ch = "ceil_product rate (of_nat c)"
  have pb: "packageBytes = double_round (of_nat p + of_nat c)" and safe: "safe_int ?pk" "safe_int ?ch"
    and le: "nat ?pk \<le> parentFee + fee" "nat ?ch \<le> fee"
    using assms by (auto simp: child_fee_def Let_def split: if_splits)
  have up: "of_int z \<le> (of_nat n :: rat)" if "nat z \<le> n" for z n
    using that by (metis nat_le_iff of_int_le_iff of_int_of_nat_eq)
  show "packageBytes = double_round (of_nat p + of_nat c)" by (rule pb)
  show "rate * packageBytes < of_nat (parentFee + fee) + 1" "rate * of_nat c < of_nat fee + 1"
    using ceil_product_covers [OF safe(1)] ceil_product_covers [OF safe(2)] up [OF le(1)] up [OF le(2)] by linarith+
qed

text \<open>The parts a successful child plan went through.\<close>

lemma plan_child_parts:
  assumes "plan_child txid ins outs src own rate p childVbytes network = Inr plan"
  shows "\<exists>funds outputs vout c segwit fee packageBytes dust supports.
     total_sats ins = Inr funds \<and> parent_outputs outs = Inr outputs \<and> sum_outputs outputs < funds
     \<and> last_owned (owned_set own src) outputs = Some vout
     \<and> child_size childVbytes (po_scriptPubKey (outputs ! vout)) = (Some c, segwit)
     \<and> child_fee rate p c (funds - sum_outputs outputs) = Some (packageBytes, fee)
     \<and> networkRules network = Some (dust, supports)
     \<and> (supports \<or> \<not> segwit \<and> \<not> isWitnessProgram (po_scriptPubKey (outputs ! vout)))
     \<and> fee + dust \<le> po_value (outputs ! vout)
     \<and> plan = child_plan txid vout (outputs ! vout) src (funds - sum_outputs outputs) fee packageBytes"
proof -
  obtain funds outputs where tot: "total_sats ins = Inr funds" "parent_outputs outs = Inr outputs"
    "sum_outputs outputs < funds"
    using assms by (auto simp: plan_child_def Let_def not_le split: sum.splits if_splits)
  obtain vout where own: "last_owned (owned_set own src) outputs = Some vout"
    using assms tot by (auto simp: plan_child_def Let_def not_le split: option.splits if_splits)
  obtain c segwit where size: "child_size childVbytes (po_scriptPubKey (outputs ! vout)) = (Some c, segwit)"
    using assms tot own by (auto simp: plan_child_def Let_def not_le split: option.splits if_splits prod.splits)
  show ?thesis
    using assms tot own size
    by (auto simp: plan_child_def Let_def not_le not_less split: option.splits if_splits prod.splits)
qed

lemma cpfp_plan_parts:
  assumes "planCpfpChild parentTxid parent source own feeRate parentVbytes childVbytes network = Inr plan"
  shows "\<exists>txid src ins outs rate p. txid = text_or_empty parentTxid \<and> source = JStr src
     \<and> js_items (js_get parent ''inputs'') = Some ins \<and> js_items (js_get parent ''outputs'') = Some outs
     \<and> fee_rate feeRate = Some rate \<and> safe_positive parentVbytes = Some p
     \<and> plan_child txid ins outs src (js_default own (JArr [source])) rate p childVbytes network = Inr plan"
  using assms by (auto simp: planCpfpChild_def Let_def split: if_splits option.splits js.splits)

lemma sample_child:
  "planCpfpChild (JStr (replicate 64 CHR ''c'')) sample_pending (JStr ''alice'') Undef (JNum (Fin 50)) (JNum (Fin 250)) Undef
       (JObj [(''dustThreshold'', JNum (Fin 546))])
     = Inr (child_plan (replicate 64 CHR ''c'') 1
         \<lparr> po_address = Some ''alice'', po_value = 40000, po_scriptType = [], po_scriptPubKey = ''0014'' @ replicate 40 CHR ''b'' \<rparr>
         ''alice'' 10000 8000 360)"
proof -
  have outs: "js_items (js_get sample_pending ''outputs'') = Some [JObj [(''address'', JStr ''bob''), (''value'', JNum (Fin 50000))],
        JObj [(''address'', JStr ''alice''), (''value'', JNum (Fin 40000)),
          (''scriptPubKeyHex'', JStr (''0014'' @ replicate 40 CHR ''b''))]]"
    and ins: "js_items (js_get sample_pending ''inputs'') = Some [JObj [(''prevTxHash'', JStr (replicate 64 CHR ''a'')), (''prevTxIndex'', JNum (Fin 1)),
        (''scriptPubKeyHex'', JStr ''51''), (''value'', JNum (Fin 100000)), (''sequence'', JNum (Fin 0))]]"
    and truthy: "js_truthy sample_pending" by (simp_all add: sample_pending_def js_items_def)
  have size: "child_size Undef (''0014'' @ replicate 40 CHR ''b'') = (Some 110, True)"
    by (simp add: child_size_def CHILD_VBYTES_BY_SCRIPT_def script_form_def list_all_iff is_lower_hex_def Let_def)
  have fee: "child_fee 50 250 110 10000 = Some (360, 8000)"
    by (simp add: child_fee_def Let_def safe_int_def)
  have num: "sats (JNum (Fin (numeral n))) = Some (numeral n)" if "(numeral n :: int) \<le> 2 ^ 53 - 1" for n
    using that by (simp add: sats_def is_safe_integer_def safe_int_def)
  show ?thesis
    by (simp add: planCpfpChild_def plan_child_def ins outs truthy size [simplified] fee num Let_def js_default_def text_or_empty_def js_or_def
        js_lower_def map_replicate low_char_def list_all_iff is_lower_hex_def fee_rate_def safe_positive_def js_Number_def
        is_safe_integer_def safe_int_def output_address_def or_text_def sum_outputs_def last_owned_def owned_set_def upt_rec
        map_filter_simps even_hex_text_def is_hex_def is_digit_def networkRules_def)
qed

text \<open>
  Property C27. A child plan spends one output of the parent that pays an address of the wallet, at its own
  value, and pays the source what is left after its fee, no less than the chain's dust floor. The fees of
  parent and child together reach the rate over both sizes, and the child's fee the rate over its own,
  up to less than one satoshi of rounding; a segwit output is not spent on a chain without segwit.
\<close>

theorem cpfp_child_pays_for_both:
  assumes "planCpfpChild parentTxid parent source own feeRate parentVbytes childVbytes network = Inr plan"
  shows "\<exists>src ins outs funds outputs rate p c dust supports. source = JStr src
     \<and> js_items (js_get parent ''inputs'') = Some ins \<and> js_items (js_get parent ''outputs'') = Some outs
     \<and> total_sats ins = Inr funds \<and> parent_outputs outs = Inr outputs
     \<and> fee_rate feeRate = Some rate \<and> safe_positive parentVbytes = Some p
     \<and> networkRules network = Some (dust, supports)
     \<and> (let opts = cp_encoderOpts plan; fee = stated_fee opts; parentFee = funds - sum_outputs outputs;
            vout = eu_vout (hd (eo_utxos opts)); spend = outputs ! vout in
        0 < parentFee \<and> length (eo_utxos opts) = 1 \<and> eu_txid (hd (eo_utxos opts)) = text_or_empty parentTxid
        \<and> vout < length outputs \<and> sats (eu_value (hd (eo_utxos opts))) = Some (po_value spend)
        \<and> (\<exists>a \<in> set (owned_set (js_default own (JArr [source])) src). po_address spend = Some a)
        \<and> fst (child_size childVbytes (po_scriptPubKey spend)) = Some c
        \<and> map fst (eo_customOutputs opts) = [src] \<and> paid_out opts + fee = po_value spend \<and> dust \<le> paid_out opts
        \<and> rate * double_round (of_nat p + of_nat c) < of_nat (parentFee + fee) + 1
        \<and> rate * of_nat c < of_nat fee + 1
        \<and> (supports \<or> \<not> isWitnessProgram (po_scriptPubKey spend)))"
proof -
  from cpfp_plan_parts [OF assms] obtain src ins outs rate p where
    pre: "source = JStr src" "js_items (js_get parent ''inputs'') = Some ins"
    "js_items (js_get parent ''outputs'') = Some outs" "fee_rate feeRate = Some rate" "safe_positive parentVbytes = Some p"
    and run: "plan_child (text_or_empty parentTxid) ins outs src (js_default own (JArr [source])) rate p childVbytes network = Inr plan"
    by blast
  from plan_child_parts [OF run] obtain funds outputs vout c segwit fee packageBytes dust supports where
    parts: "total_sats ins = Inr funds" "parent_outputs outs = Inr outputs" "sum_outputs outputs < funds"
    "child_size childVbytes (po_scriptPubKey (outputs ! vout)) = (Some c, segwit)"
    "networkRules network = Some (dust, supports)"
    "supports \<or> \<not> segwit \<and> \<not> isWitnessProgram (po_scriptPubKey (outputs ! vout))"
    "fee + dust \<le> po_value (outputs ! vout)"
    and own: "last_owned (owned_set (js_default own (JArr [source])) src) outputs = Some vout"
    and fee: "child_fee rate p c (funds - sum_outputs outputs) = Some (packageBytes, fee)"
    and plan: "plan = child_plan (text_or_empty parentTxid) vout (outputs ! vout) src (funds - sum_outputs outputs) fee packageBytes"
    by blast
  have opts: "eo_utxos (cp_encoderOpts plan) = [\<lparr> eu_txid = text_or_empty parentTxid, eu_vout = vout,
       eu_value = wireAmount (po_value (outputs ! vout)), eu_scriptPubKey = po_scriptPubKey (outputs ! vout), eu_confirmations = 0 \<rparr>]"
    "eo_customOutputs (cp_encoderOpts plan) = [(src, wireAmount (po_value (outputs ! vout) - fee))]"
    "stated_fee (cp_encoderOpts plan) = fee" "paid_out (cp_encoderOpts plan) = po_value (outputs ! vout) - fee"
    by (simp_all add: plan child_plan_def stated_fee_def paid_out_def)
  from last_owned_spec [OF own] have owned: "vout < length outputs"
    "\<exists>a \<in> set (owned_set (js_default own (JArr [source])) src). po_address (outputs ! vout) = Some a" by auto
  from child_fee_spec [OF fee] have rates:
    "rate * double_round (of_nat p + of_nat c) < of_nat (funds - sum_outputs outputs + fee) + 1"
    "rate * of_nat c < of_nat fee + 1" by simp_all
  show ?thesis
    apply (rule exI [of _ src], rule exI [of _ ins], rule exI [of _ outs], rule exI [of _ funds])
    apply (rule exI [of _ outputs], rule exI [of _ rate], rule exI [of _ p], rule exI [of _ c],
        rule exI [of _ dust], rule exI [of _ supports])
    apply (unfold Let_def opts list.sel encoder_utxo.simps)
    apply (intro conjI pre parts(1,2,5) owned rates)
    using parts(3,4,6,7) by auto
qed

theorem cpfp_child_pays_for_both_witness:
  "\<exists>plan. planCpfpChild (JStr (replicate 64 CHR ''c'')) sample_pending (JStr ''alice'') Undef (JNum (Fin 50)) (JNum (Fin 250)) Undef
       (JObj [(''dustThreshold'', JNum (Fin 546))]) = Inr plan
     \<and> length (eo_utxos (cp_encoderOpts plan)) = 1 \<and> map fst (eo_customOutputs (cp_encoderOpts plan)) = [''alice'']"
  using cpfp_child_pays_for_both [OF sample_child] sample_child by (auto simp: Let_def)

lemma total_sats_error: "total_sats rows = Inl e \<Longrightarrow> e = Inexact_amount"
  by (induction rows rule: total_sats.induct) (auto split: option.splits sum.splits)

lemma parent_outputs_error: "parent_outputs rows = Inl e \<Longrightarrow> e = Inexact_amount"
  by (induction rows rule: parent_outputs.induct) (auto split: option.splits sum.splits)

lemma plan_child_error:
  "plan_child txid ins outs src own rate p childVbytes network = Inl e \<Longrightarrow>
     e \<in> {Inexact_amount, No_positive_fee, No_owned_output, Owned_output_script, Cannot_size_child, Rate_inexact,
       Unknown_dust, No_segwit, Output_cannot_cover}"
  by (auto simp: plan_child_def Let_def dest: total_sats_error parent_outputs_error
      split: sum.splits if_splits option.splits prod.splits)

lemma planCpfpChild_error:
  "planCpfpChild parentTxid parent source own feeRate parentVbytes childVbytes network = Inl e \<Longrightarrow>
     e \<notin> {Not_replaceable, Unknown_strategy, Different_inputs}"
  by (auto simp: planCpfpChild_def Let_def dest: plan_child_error split: if_splits option.splits js.splits)

lemma shape_inputs_error: "shape_inputs i seen rows = Inl e \<Longrightarrow> e \<notin> {Not_replaceable, Unknown_strategy, Different_inputs}"
  by (induction i seen rows arbitrary: e rule: shape_inputs.induct)
     (fastforce simp: Let_def split: if_splits option.splits sum.splits)+

lemma shape_outputs_error: "shape_outputs rows = Inl e \<Longrightarrow> e = Inexact_amount"
  by (induction rows rule: shape_outputs.induct) (auto split: option.splits sum.splits)

lemma txShape_error: "txShape v = Inl e \<Longrightarrow> e \<notin> {Not_replaceable, Unknown_strategy, Different_inputs}"
  by (auto simp: txShape_def dest: shape_inputs_error shape_outputs_error split: if_splits option.splits sum.splits)

lemma replacementFee_error:
  "replacementFee old rate bytes = Inl e \<Longrightarrow> e \<in> {Bad_fee_rate, Bytes_required, Rate_inexact, Rate_not_higher}"
  by (auto simp: replacementFee_def Let_def split: if_splits option.splits)

lemma custom_outputs_error: "custom_outputs c i outs = Inl e \<Longrightarrow> e \<notin> {Not_replaceable, Unknown_strategy, Different_inputs}"
  by (induction c i outs arbitrary: e rule: custom_outputs.induct) (auto split: if_splits option.splits sum.splits)

lemma rbf_payment_error:
  "rbf_payment strat outs src own funds fee = Inl e \<Longrightarrow> e \<notin> {Not_replaceable, Unknown_strategy, Different_inputs}"
  by (auto simp: rbf_payment_def dest: custom_outputs_error split: if_splits option.splits sum.splits)

lemma signals_after_shape:
  assumes "txShape conflict = Inr (ins, outs)"
  shows "signalsReplaceability conflict \<longleftrightarrow> (\<exists>i \<in> set ins. signals_rbf (pi_sequence i))"
proof -
  from assms obtain rows where rows: "js_items (js_get conflict ''inputs'') = Some rows" "rows \<noteq> []"
    "shape_inputs 0 [] rows = Inr ins" by (rule txShape_inputs)
  have "(\<exists>i \<in> set ins. signals_rbf (pi_sequence i)) \<longleftrightarrow> (\<exists>s \<in> set (map pi_sequence ins). signals_rbf s)" by simp
  thus ?thesis unfolding shape_inputs_sequences [OF rows(3)] using rows by (simp add: signalsReplaceability_def)
qed

lemma speedup_replacement_error:
  assumes "signalsReplaceability conflict"
    and "planRbfReplacement (JStr ''speedup'') conflict Undef source own rate bytes = Inl e"
  shows "e \<notin> {Not_replaceable, Unknown_strategy, Different_inputs}"
proof -
  have "strategy_of (JStr ''speedup'') = Some Speedup" by (simp add: strategy_of_def)
  with assms show ?thesis
    by (auto simp: planRbfReplacement_def js_default_def Let_def signals_after_shape
        dest: txShape_error replacementFee_error rbf_payment_error
        split: if_splits js.splits sum.splits)
qed

text \<open>
  Speeding up never fails because the pending transaction does not signal replaceability (nor
  with an error of the other strategies): it is replaced exactly when one of its inputs signals, and
  otherwise gets a child, so every refusal names a defect of the amounts, addresses or rate.
\<close>

lemma speed_up_route:
  "case planSpeedUp conflict parentTxid source own rate bytes childVbytes network of
     Inl e \<Rightarrow> e \<notin> {Not_replaceable, Unknown_strategy, Different_inputs}
   | Inr (By_rbf plan) \<Rightarrow> (case txShape conflict of Inr (ins, outs) \<Rightarrow> \<exists>i \<in> set ins. signals_rbf (pi_sequence i) | Inl e \<Rightarrow> False)
   | Inr (By_cpfp plan) \<Rightarrow> (case js_items (js_get conflict ''inputs'') of None \<Rightarrow> False
       | Some ins \<Rightarrow> \<not> (\<exists>input \<in> set ins. signals_rbf (js_Number (js_get input ''sequence''))))"
proof (cases "signalsReplaceability conflict")
  case True
  show ?thesis
  proof (cases "planRbfReplacement (JStr ''speedup'') conflict Undef source own rate bytes")
    case (Inl e)
    from speedup_replacement_error [OF True this] Inl show ?thesis by (simp add: planSpeedUp_def True)
  next
    case (Inr plan)
    from rbf_plan_parts [OF this] Inr show ?thesis by (auto simp: planSpeedUp_def True)
  qed
next
  case False
  show ?thesis
  proof (cases "planCpfpChild parentTxid conflict source own rate bytes childVbytes network")
    case (Inl e)
    from planCpfpChild_error [OF this] Inl show ?thesis by (simp add: planSpeedUp_def False)
  next
    case (Inr plan)
    from cpfp_plan_parts [OF this] False Inr show ?thesis
      by (auto simp: planSpeedUp_def signalsReplaceability_def)
  qed
qed

section \<open>The cap of the chain's descriptor\<close>

text \<open>Options that ask for replaceability lose the request, and only that, on a chain that does not declare it.\<close>

lemma capped_rbf:
  "js_get (capRbfToDescriptor descriptor opts) ''rbf'' = JBool True \<Longrightarrow>
     js_get (js_get descriptor ''feeStrategy'') ''rbfSupported'' = JBool True"
  by (cases opts) (auto simp: capRbfToDescriptor_def AList.update_conv split: if_splits)

lemma cap_keeps_other_options:
  "k \<noteq> ''rbf'' \<Longrightarrow> js_get (capRbfToDescriptor descriptor opts) k = js_get opts k"
  by (cases opts) (auto simp: capRbfToDescriptor_def AList.update_conv)

end
