(* ===== verification/Spec2Isabelle.thy ===== *)
theory Spec2Isabelle
  imports Coinpay_Payment Autopay_Watcher Queue_Route Decimal_Strings Window_Store Reservation_Ledger Unlock_Guards Auto_Lock Sign_Throttle
    Approval_Broker Multisig_Session Xcw_Frames Bbqr_Frames Tx_Signatures
    Fee_Plans
begin

text \<open>
  XChain Wallet: a model of the code that decides about money and keys.

  The repository is a JavaScript wallet: one shared package (\<^verbatim>\<open>packages/core\<close>) with the
  flows, the signers, the schemas and the transports, and shells around it (extension, desktop, web,
  mobile). Its shells paint and store; the code modelled here is the part of the shared package and of the
  extension's background worker that a wrong line would turn into lost money or an exposed key. All paths
  below are relative to \<^verbatim>\<open>src/packages\<close>.

  How the parts meet. A site asks the background to sign. \<^verbatim>\<open>signThrottle\<close> limits how often one
  origin may ask, \<^verbatim>\<open>approvalBroker\<close> opens the prompt and settles it once, and the passive
  co-signer, which signs without a prompt, must first fit its amount into \<^verbatim>\<open>vaultWindowStore\<close>.
  An approved spend is held in \<^verbatim>\<open>reservationLedger\<close> until the chain shows it. The key is behind
  the unlock throttles and the auto-lock. A spend that other devices sign travels as a PSBT over QR frames
  (\<^verbatim>\<open>psbtQr\<close>, \<^verbatim>\<open>bbqrPsbt\<close>) or collects its signatures in a multisig session; what
  comes back is read as a raw transaction, compared with the approved PSBT and its signatures are checked
  before it is broadcast. A pending send can be replaced or bumped by the fee planners. A send whose broadcast
  failed waits, signed, in a queue: \<^verbatim>\<open>broadcastPermanence\<close> says whether its bytes can still confirm,
  \<^verbatim>\<open>queuedBroadcast\<close> and the host's queue routes send it again, and the writes to its record that a locked
  vault refuses are owed by a journal. Records live in the \<^verbatim>\<open>Vault\<close>, one sealed document over a
  compare-and-swap backend shared by every context. The CoinPay flow pays a matched order's obligation, by
  hand or by the unattended engine, which needs a recorded consent, a lease and the policy's approval.
  Amounts are decimal strings throughout, so the exact decimal arithmetic is under all of them.

  Theories, in the order of their imports, with the code they model.

  \<^item> \<^verbatim>\<open>Wallet_Prelude\<close>: JavaScript values (\<open>js\<close>), numbers (\<open>jnum\<close>: NaN, the infinities and
    rationals), strings as lists of code units, \<^verbatim>\<open>Number\<close>, \<^verbatim>\<open>String\<close>, truthiness,
    padding, digits; \<open>run_ok\<close> and the locale of event-driven machines whose invariants the components use.
  \<^item> \<^verbatim>\<open>Double_Round\<close>: rounding of an exact result to the nearest double, with its error bound, for the
    code that multiplies two numbers.
  \<^item> \<^verbatim>\<open>Decimal_Strings\<close>: \<^verbatim>\<open>core/src/shared/utils/amountFormat.js\<close> (the exact core),
    \<^verbatim>\<open>core/src/market/orderMath.js\<close>, the scaled integers of \<^verbatim>\<open>vaultWindowStore.js\<close> and
    \<^verbatim>\<open>toPlainDecimal\<close> of \<^verbatim>\<open>reservationLedger.js\<close>. The lemmas read each operation as
    exact arithmetic on rationals, with the rounding direction of those that round, and its refusals.
  \<^item> \<^verbatim>\<open>Window_Store\<close>: \<^verbatim>\<open>core/src/cosigner/vaultWindowStore.js\<close>. State: the value of the
    persistence port and the clock. Load, prune, tally, record and the budget check; the budget is kept over
    every window, a snapshot is the exact sum of the live entries, the log stays clean, loading fails closed.
  \<^item> \<^verbatim>\<open>Reservation_Ledger\<close>: \<^verbatim>\<open>core/src/flows/reservationLedger.js\<close>. State: memory,
    backing store, hydration, and where each call waits; the awaits of different calls interleave, loads and
    saves may fail or answer late, the worker may be killed. A hold made after hydration is netted until it is
    released or expires, and the deltas are exact; two lemmas show what overlapping and failed loads lose.
  \<^item> \<^verbatim>\<open>Unlock_Guards\<close>: \<^verbatim>\<open>core/src/flows/lockoutTracking.js\<close> and
    \<^verbatim>\<open>extension/src/background/unlockThrottle.js\<close>. The delays grow and are capped, guessing is slowed, the two
    implementations agree.
  \<^item> \<^verbatim>\<open>Auto_Lock\<close>: \<^verbatim>\<open>extension/src/background/autoLockState.js\<close>,
    \<^verbatim>\<open>walletLock.js\<close>, \<^verbatim>\<open>core/src/shared/hooks/autoLockGuard.js\<close>. An armed session locks; a
    lock that is due finishes or is retried.
  \<^item> \<^verbatim>\<open>Sign_Throttle\<close>: \<^verbatim>\<open>core/src/flows/signThrottle.js\<close>. The number of requests admitted in any
    window is bounded.
  \<^item> \<^verbatim>\<open>Approval_Broker\<close>: \<^verbatim>\<open>extension/src/background/approvalBroker.js\<close> as an inductive
    step relation over what Chrome answers. Each request settles once, only the popup approves, cancelling ends
    every prompt, prompts are shared and tracked.
  \<^item> \<^verbatim>\<open>Multisig_Session\<close>: \<^verbatim>\<open>core/src/schemas/multisigSigningSession.js\<close> and
    \<^verbatim>\<open>core/src/flows/multisigSigning.js\<close>. An abstract two-round protocol, refined by the operations; a session
    only progresses, is ready only when signed, and does not depend on the order of arrival.
  \<^item> \<^verbatim>\<open>Byte_Codec\<close>, \<^verbatim>\<open>Qr_Codec\<close>: hexadecimal, base64 and CRC-32 on 32-bit words
    (\<^verbatim>\<open>core/src/uri/psbtQr.js\<close>, \<^verbatim>\<open>core/src/crypto/kdf.js\<close>), and the locale
    \<open>frame_transport\<close>, interpreted by both QR transports.
  \<^item> \<^verbatim>\<open>Xcw_Frames\<close>: \<^verbatim>\<open>core/src/uri/psbtQr.js\<close>; \<^verbatim>\<open>Bbqr_Frames\<close>:
    \<^verbatim>\<open>core/src/uri/bbqrPsbt.js\<close> and \<^verbatim>\<open>qrPsbtFormat.js\<close>. Any scan order, with repeats, gives
    back the bytes; bytes that decode come from one consistent transmission; conflicts are refused.
  \<^item> \<^verbatim>\<open>Raw_Tx\<close>: the reader of raw transactions in \<^verbatim>\<open>core/src/signers/verifySignedTx.js\<close>,
    against a serialisation of the format (locale \<open>field_codec\<close>, interpreted for each repeated field).
  \<^item> \<^verbatim>\<open>Signed_Tx_Check\<close>: \<^verbatim>\<open>assertSignedTxMatchesPsbt\<close> of the same file, with the exact set of
    replies it accepts.
  \<^item> \<^verbatim>\<open>Tx_Signatures\<close>: \<^verbatim>\<open>core/src/signers/verifyInputSignatures.js\<close> and
    \<^verbatim>\<open>verifyTxSignatures.js\<close>: signature hashes, key, multisig and taproot checks, and what a transaction
    that passes is entitled to spend (\<open>authorised\<close>, an inductive predicate).
  \<^item> \<^verbatim>\<open>Fee_Plans\<close>: \<^verbatim>\<open>core/src/flows/rbfPlan.js\<close>, \<^verbatim>\<open>cpfpPlan.js\<close>,
    \<^verbatim>\<open>rbfCap.js\<close>. A plan spends what it says, outbids what it must, and pays the rate asked for.
  \<^item> \<^verbatim>\<open>Address_Validation\<close>: \<^verbatim>\<open>core/src/shared/utils/addressValidation.js\<close> with its tables. An address
    that passes for one chain is refused by every other, except where test networks share their prefixes.
  \<^item> \<^verbatim>\<open>Vault_Backend\<close>: the three compare-and-swap backends behind the locale \<open>cas_backend\<close>;
    \<^verbatim>\<open>Vault_Store\<close>: \<^verbatim>\<open>core/src/storage/Vault.js\<close> and \<^verbatim>\<open>codec.js\<close> over it (locale
    \<open>vault_world\<close>). Every wait of a write is a step of a handle, and handles share the backend. A stored write
    is exactly one that its handle started, on the document it had seen or replayed on the one it finds; a
    failed write leaves nothing, a replay keeps what others stored, and every write ends.
  \<^item> \<^verbatim>\<open>Autopay_Policy\<close>: \<^verbatim>\<open>core/src/market/autopayPolicy.js\<close> and \<^verbatim>\<open>obligationStatus.js\<close>;
    \<^verbatim>\<open>Autopay_Consent\<close>: the consent records, their schemas and \<^verbatim>\<open>core/src/flows/autopayConsent.js\<close>.
    A payment is within the consent's terms, and the stored consents stay well formed.
  \<^item> \<^verbatim>\<open>Coinpay_Pending\<close>, \<^verbatim>\<open>Native_Payment\<close>, \<^verbatim>\<open>Coinpay_Payment\<close>:
    \<^verbatim>\<open>core/src/market/coinpayPending.js\<close>, \<^verbatim>\<open>core/src/flows/nativePayment.js\<close>,
    \<^verbatim>\<open>coinpayQueries.js\<close> and \<^verbatim>\<open>coinpayAction.js\<close>. A payment is the debt that the explorer lists, to its
    payee, and the label it records refuses a second one.
  \<^item> \<^verbatim>\<open>Autopay_Watcher\<close>: \<^verbatim>\<open>core/src/notifications/CoinpayAutopayWatcher.js\<close>, a cycle at a time. It pays
    only what a consent names, and never twice while a payment is one transaction; the phases that the
    submission reports are those of \<^verbatim>\<open>core/src/sdk/submitWithSigner.js\<close>.
  \<^item> \<^verbatim>\<open>Broadcast_Permanence\<close>: \<^verbatim>\<open>core/src/flows/broadcastPermanence.js\<close>, its regular expressions as
    patterns over text; \<^verbatim>\<open>Queued_Broadcast\<close>: \<^verbatim>\<open>core/src/flows/queuedBroadcast.js\<close>. A drain can be resumed
    from the record it leaves, and tells the truth about what went out.
  \<^item> \<^verbatim>\<open>Settlement_Journal\<close>: the owed writes of \<^verbatim>\<open>extension/src/background/broadcastQueueStore.js\<close> and
    \<^verbatim>\<open>broadcastQueueEngine.js\<close>. Folding two writes replays both, with three exceptions; a flush loses nothing.
  \<^item> \<^verbatim>\<open>Queue_Route\<close>: the queue's entries and the routes \<^verbatim>\<open>broadcast.queue.broadcast\<close> and
    \<^verbatim>\<open>broadcast.queue.discard\<close> of \<^verbatim>\<open>extension/src/background/createBackgroundHost.js\<close>. An entry leaves the
    queue only when its records are final or owed a write that makes them so; the lemmas
    \<open>route_leaves_only_settled\<close> and \<open>discard_covers_all\<close> compose the drain's parts with the journal.

  Conventions. A function's options object is an argument list; an absent argument is \<open>Undef\<close>. A thrown
  error is the \<open>Inl\<close> of a sum, one constructor for each message, or \<open>None\<close> where the code returns null or
  the caller cannot tell the errors apart. State is passed explicitly. A clock is a rational argument. A call
  to storage or to Chrome that may fail has its answer as an argument, so every outcome is covered. A promise
  that settles later is a step of its own. Numbers are exact rationals except where the code multiplies or
  reads a rate, which \<open>Double_Round\<close> rounds; integers on a width (CRC-32, transaction fields) are words or
  naturals with their range checked as the code does.

  Where a flow makes many calls outside (the drain, the queue routes, the engine, the CoinPay reads), their
  answers are one record of functions, numbered by call where a call repeats, and the properties hold for all of
  them. A stored record of the queue is a map from its fields; a consent or a row is a JavaScript value. What a
  flow did is its log, in order.

  Termination and fuel. Every loop is a total recursive function on the data it walks; no definition uses
  fuel. The reader of transactions recurses on counts that it has compared with the bytes left. A vault write
  waits for the platform; that it answers after at most eight waits, whatever they bring, is a property.

  Parameters. SHA-256, RIPEMD-160, Schnorr and ECDSA verification, MuSig2, the address codecs, base32 and
  inflate are packages: arguments of the definitions, with what the code relies on as hypotheses (a
  round trip, an injective hash text, a length), each shown satisfiable by a witness.

  The cipher of the vault is a parameter too: sealing and opening with the same key give back the document and
  no other key opens it (\<open>sound_cipher\<close>, with an ideal cipher that has both).

  Findings. Lemmas named in the manifest show where the code does not do what it means to: overlapping loads of the
  reservation ledger drop a hold, a failed load erases the stored ones; a vault wiped during a write is stored
  again; two obligations of one order can exceed what it gives, and holds are keyed by a match without its chain;
  a failed reveal frees the match of an unattended payment; three ways of folding owed writes lose one; a drain's reveal
  ignores a freeze.

  Not modelled, and why. The React routes and the shells' entry points
  (\<^verbatim>\<open>core/src/shared/routes\<close>, \<^verbatim>\<open>web\<close>, \<^verbatim>\<open>desktop\<close>, \<^verbatim>\<open>mobile\<close>) paint and
  forward; the other routes of \<^verbatim>\<open>createBackgroundHost.js\<close> wire the parts above to Chrome's messaging. Key derivation and
  encryption (\<^verbatim>\<open>core/src/crypto\<close>) are calls into audited packages. The SDK wrappers, the decoder and the
  simulator read data whose shape the chain's SDK, not in this repository, decides, and the flows of single protocol
  actions build a request for that SDK field by field. The field-by-field validators of the wallet's schemas are parameters of the
  vault. Of the broadcast queue, loading, restoring, merging and saving the queues of all wallets is left out.
  The UR transport samples degrees with rounded doubles, and payment URIs only fill a form whose content the modelled
  checks judge. Display formatting with \<^verbatim>\<open>Intl\<close> is the platform's.
\<close>

end
